(* ===== verification/Prelude.thy ===== *)
theory Prelude
  imports Main "HOL-Library.Word"
begin

unbundle bit_operations_syntax

text \<open>
  What every component shares: the machine types of the 32-bit target, the result type of
  code that may stop, and the list lemmas the component theories use.

  The sources are compiled with \<open>-m32\<close>: \<open>char\<close> is a byte, \<open>int\<close>, \<open>long\<close>, \<open>size_t\<close>
  and pointers are 32 bits wide. A C integer is a \<open>32 word\<close>; \<open>sint\<close> reads it as \<open>int\<close>,
  \<open>unat\<close> as \<open>uint32_t\<close>. A C object is the list of its bytes, and a pointer into it is the
  rest of the object from there on (or an offset, where the code does arithmetic on it).

  Code may stop before it returns: a failed \<open>assert\<close> or a \<open>panic\<close> (\<open>abort\<close> never returns),
  an access outside an object, for which C gives no meaning, or a loop that never ends. These
  are the three values of \<open>stop\<close>; a result is \<open>Inl\<close> of one of them or \<open>Inr\<close> of what the
  code returns.
\<close>

type_synonym byte = "8 word"
type_synonym u32 = "32 word"

datatype stop = Abort | Undef | Hang

type_synonym 'a res = "stop + 'a"

named_theorems res_simps \<open>evaluation and inversion of results\<close>

definition bindR :: "'a res \<Rightarrow> ('a \<Rightarrow> 'b res) \<Rightarrow> 'b res" where
  "bindR m f = (case m of Inl e \<Rightarrow> Inl e | Inr x \<Rightarrow> f x)"

definition mapR :: "('a \<Rightarrow> 'b) \<Rightarrow> 'a res \<Rightarrow> 'b res" where
  "mapR f m = bindR m (\<lambda>x. Inr (f x))"

text \<open>The macro \<open>assert\<close> of \<open>lib.h\<close>: nothing, or \<open>abort\<close>.\<close>

definition assertR :: "bool \<Rightarrow> unit res" where
  "assertR b = (if b then Inr () else Inl Abort)"

text \<open>Reading and writing one element of an array.\<close>

definition rdR :: "'a list \<Rightarrow> nat \<Rightarrow> 'a res" where
  "rdR xs i = (if i < length xs then Inr (xs ! i) else Inl Undef)"

definition wrR :: "'a list \<Rightarrow> nat \<Rightarrow> 'a \<Rightarrow> 'a list res" where
  "wrR xs i v = (if i < length xs then Inr (xs[i := v]) else Inl Undef)"

lemma bindR_simps [simp, res_simps]:
  "bindR (Inr x) f = f x" "bindR (Inl e) f = Inl e"
  by (simp_all add: bindR_def)

lemma bindR_eq_Inr [res_simps]: "bindR m f = Inr y \<longleftrightarrow> (\<exists>x. m = Inr x \<and> f x = Inr y)"
  by (cases m) auto

lemma bindR_eq_Inl [res_simps]:
  "bindR m f = Inl e \<longleftrightarrow> m = Inl e \<or> (\<exists>x. m = Inr x \<and> f x = Inl e)"
  by (cases m) auto

lemma bindR_assoc: "bindR (bindR m f) g = bindR m (\<lambda>x. bindR (f x) g)"
  by (cases m) auto

lemma bindR_cong [fundef_cong]:
  "m = m' \<Longrightarrow> (\<And>x. m' = Inr x \<Longrightarrow> f x = g x) \<Longrightarrow> bindR m f = bindR m' g"
  by (cases m') auto

lemma mapR_simps [simp, res_simps]: "mapR f (Inr x) = Inr (f x)" "mapR f (Inl e) = Inl e"
  by (simp_all add: mapR_def)

lemma mapR_eq_Inr [res_simps]: "mapR f m = Inr y \<longleftrightarrow> (\<exists>x. m = Inr x \<and> f x = y)"
  by (cases m) auto

lemma mapR_eq_Inl [simp, res_simps]: "mapR f m = Inl e \<longleftrightarrow> m = Inl e"
  by (cases m) auto

lemma mapR_cong [fundef_cong]:
  "m = m' \<Longrightarrow> (\<And>x. m' = Inr x \<Longrightarrow> f x = g x) \<Longrightarrow> mapR f m = mapR g m'"
  by (cases m') auto

lemma mapR_mapR [simp]: "mapR f (mapR g m) = mapR (\<lambda>x. f (g x)) m"
  by (cases m) auto

lemma mapR_id [simp]: "mapR (\<lambda>x. x) m = m"
  by (cases m) auto

lemma assertR_simps [simp, res_simps]: "assertR True = Inr ()" "assertR False = Inl Abort"
  by (simp_all add: assertR_def)

lemma assertR_eq [simp, res_simps]:
  "assertR b = Inr u \<longleftrightarrow> b" "assertR b = Inl e \<longleftrightarrow> \<not> b \<and> e = Abort"
  by (auto simp: assertR_def)

lemma rdR_in [simp]: "i < length xs \<Longrightarrow> rdR xs i = Inr (xs ! i)"
  by (simp add: rdR_def)

lemma rdR_eq_Inr [res_simps]: "rdR xs i = Inr v \<longleftrightarrow> i < length xs \<and> v = xs ! i"
  by (auto simp: rdR_def)

lemma wrR_in [simp]: "i < length xs \<Longrightarrow> wrR xs i v = Inr (xs[i := v])"
  by (simp add: wrR_def)

lemma wrR_eq_Inr [res_simps]: "wrR xs i v = Inr ys \<longleftrightarrow> i < length xs \<and> ys = xs[i := v]"
  by (auto simp: wrR_def)

text \<open>Ranges of 32-bit values.\<close>

lemma uint_u32: "uint (w :: u32) < 4294967296"
  using unsigned_less [of w] by simp

lemma unat_u32: "unat (w :: u32) < 4294967296"
  using unsigned_less [of w] by simp

lemma sint_u32:
  "sint (w :: u32) = (if uint w < 2147483648 then uint w else uint w - 4294967296)"
proof -
  have "uint w div 2 ^ 31 = (if uint w < 2 ^ 31 then 0 else 1)" using uint_u32 [of w] by auto
  then have "bit (uint w) 31 \<longleftrightarrow> \<not> uint w < 2 ^ 31" by (auto simp: bit_iff_odd)
  moreover have "take_bit 32 (uint w) = uint w"
    using uint_u32 [of w] by (simp add: take_bit_int_eq_self)
  ultimately show ?thesis
    by (simp add: sint_uint signed_take_bit_eq_take_bit_minus)
qed

lemma sint_u32_neg: "sint (w :: u32) < 0 \<longleftrightarrow> 2147483648 \<le> unat w"
proof -
  have "2147483648 \<le> unat w \<longleftrightarrow> 2147483648 \<le> int (unat w)" by linarith
  then show ?thesis using uint_u32 [of w] by (simp add: sint_u32)
qed

lemma unat_u32_minus: "unat (- w :: u32) = (if w = 0 then 0 else 4294967296 - unat w)"
proof (cases "w = 0")
  case False
  then have "uint w \<noteq> 0" by (simp add: uint_0_iff)
  then have "0 < uint w" by (metis uint_ge_0 order_le_less)
  then have "uint (- w) = 4294967296 - uint w"
    using uint_u32 [of w] by (simp add: uint_word_ariths zmod_zminus1_eq_if)
  then have "int (unat (- w)) = 4294967296 - int (unat w)" by simp
  then have "unat (- w) = 4294967296 - unat w" by linarith
  then show ?thesis using False by simp
qed simp

lemma sint_word_of_int_u32:
  "- 2147483648 \<le> k \<Longrightarrow> k < 2147483648 \<Longrightarrow> sint (word_of_int k :: u32) = k"
  by (simp add: signed_of_int signed_take_bit_int_eq_self)

lemma sint_of_nat_u32: "n < 2147483648 \<Longrightarrow> sint (of_nat n :: u32) = int n"
  using sint_word_of_int_u32 [of "int n"] by simp

lemma sint_minus_of_nat_u32: "n \<le> 2147483648 \<Longrightarrow> sint (- of_nat n :: u32) = - int n"
  using sint_word_of_int_u32 [of "- int n"] by simp

lemma unat_of_nat_u32: "n < 4294967296 \<Longrightarrow> unat (of_nat n :: u32) = n"
  by (simp add: unat_of_nat take_bit_nat_eq_self)

lemma unat_add_u32: "unat (x :: u32) + unat y < 4294967296 \<Longrightarrow> unat (x + y) = unat x + unat y"
  by (simp add: unat_word_ariths)

text \<open>
  The loop shape \<open>for (i = 0; i < n; i++) if (p(a[i])) return i;\<close> over an array in memory.
\<close>

fun find_slot :: "('a \<Rightarrow> bool) \<Rightarrow> 'a list \<Rightarrow> nat option" where
  "find_slot p [] = None"
| "find_slot p (x # xs) = (if p x then Some 0 else map_option Suc (find_slot p xs))"

lemma find_slot_Some:
  "find_slot p xs = Some i \<longleftrightarrow> i < length xs \<and> p (xs ! i) \<and> (\<forall>j < i. \<not> p (xs ! j))"
proof (induction xs arbitrary: i)
  case (Cons x xs)
  show ?case
  proof (cases i)
    case (Suc k)
    have "(\<forall>j < Suc k. \<not> p ((x # xs) ! j)) \<longleftrightarrow> \<not> p x \<and> (\<forall>j < k. \<not> p (xs ! j))"
      by (auto simp: less_Suc_eq_0_disj)
    then show ?thesis using Cons Suc by auto
  qed (use Cons in auto)
qed simp

lemma find_slot_None: "find_slot p xs = None \<longleftrightarrow> (\<forall>x \<in> set xs. \<not> p x)"
  by (induction xs) auto

lemma find_slot_bound: "find_slot p xs = Some i \<Longrightarrow> i < length xs"
  by (simp add: find_slot_Some)

text \<open>The part \<open>[off, off + n)\<close> of an object, and its replacement.\<close>

definition span_at :: "nat \<Rightarrow> nat \<Rightarrow> 'a list \<Rightarrow> 'a list" where
  "span_at off n xs = take n (drop off xs)"

definition put_at :: "nat \<Rightarrow> 'a list \<Rightarrow> 'a list \<Rightarrow> 'a list" where
  "put_at off ys xs = take off xs @ ys @ drop (off + length ys) xs"

lemma length_span_at [simp]: "off + n \<le> length xs \<Longrightarrow> length (span_at off n xs) = n"
  by (simp add: span_at_def)

lemma length_put_at [simp]:
  "off + length ys \<le> length xs \<Longrightarrow> length (put_at off ys xs) = length xs"
  by (simp add: put_at_def)

lemma span_at_nth [simp]: "i < n \<Longrightarrow> off + n \<le> length xs \<Longrightarrow> span_at off n xs ! i = xs ! (off + i)"
  by (simp add: span_at_def)

lemma put_at_nth:
  "off + length ys \<le> length xs \<Longrightarrow> i < length xs \<Longrightarrow>
   put_at off ys xs ! i =
     (if off \<le> i \<and> i < off + length ys then ys ! (i - off) else xs ! i)"
  by (auto simp: put_at_def nth_append min_def)

lemma span_put_same [simp]:
  "off + length ys \<le> length xs \<Longrightarrow> n = length ys \<Longrightarrow> span_at off n (put_at off ys xs) = ys"
  by (rule nth_equalityI) (auto simp: put_at_nth)

lemma span_put_other:
  "off + length ys \<le> length xs \<Longrightarrow> off' + n \<le> length xs \<Longrightarrow>
   off' + n \<le> off \<or> off + length ys \<le> off' \<Longrightarrow>
   span_at off' n (put_at off ys xs) = span_at off' n xs"
  by (rule nth_equalityI) (auto simp: put_at_nth)

lemma span_at_all [simp]: "n = length xs \<Longrightarrow> span_at 0 n xs = xs"
  by (simp add: span_at_def)

lemma put_at_Nil [simp]: "put_at off [] xs = xs"
  by (simp add: put_at_def)

text \<open>A string literal of the source as bytes, without the terminating NUL.\<close>

definition bytes_of :: "string \<Rightarrow> byte list" where
  "bytes_of s = map of_char s"

section \<open>Code that changes state\<close>

text \<open>
  A function of the source that changes kernel state takes the state last and returns its
  value with the new state. \<open>runs A m Q s\<close>: from \<open>s\<close> the code \<open>m\<close> returns with \<open>Q\<close> true of
  its value and the new state, or stops in one of the ways in \<open>A\<close> (\<open>{}\<close> or \<open>{Abort}\<close>).
\<close>

type_synonym ('s, 'a) prog = "'s \<Rightarrow> ('a \<times> 's) res"

definition retS :: "'a \<Rightarrow> ('s, 'a) prog" where
  "retS x = (\<lambda>s. Inr (x, s))"

definition stopS :: "stop \<Rightarrow> ('s, 'a) prog" where
  "stopS e = (\<lambda>s. Inl e)"

definition bindS :: "('s, 'a) prog \<Rightarrow> ('a \<Rightarrow> ('s, 'b) prog) \<Rightarrow> ('s, 'b) prog" where
  "bindS m f = (\<lambda>s. case m s of Inl e \<Rightarrow> Inl e | Inr (x, t) \<Rightarrow> f x t)"

definition thenS :: "('s, 'a) prog \<Rightarrow> ('s, 'b) prog \<Rightarrow> ('s, 'b) prog" where
  "thenS m n = bindS m (\<lambda>_. n)"

definition getS :: "('s \<Rightarrow> 'a) \<Rightarrow> ('s, 'a) prog" where
  "getS f = (\<lambda>s. Inr (f s, s))"

definition modS :: "('s \<Rightarrow> 's) \<Rightarrow> ('s, unit) prog" where
  "modS f = (\<lambda>s. Inr ((), f s))"

definition assertS :: "bool \<Rightarrow> ('s, unit) prog" where
  "assertS b = (if b then retS () else stopS Abort)"

definition liftS :: "'a res \<Rightarrow> ('s, 'a) prog" where
  "liftS r = (\<lambda>s. case r of Inl e \<Rightarrow> Inl e | Inr x \<Rightarrow> Inr (x, s))"

definition runs :: "stop set \<Rightarrow> ('s, 'a) prog \<Rightarrow> ('a \<Rightarrow> 's \<Rightarrow> bool) \<Rightarrow> 's \<Rightarrow> bool" where
  "runs A m Q s = (case m s of Inl e \<Rightarrow> e \<in> A | Inr (x, t) \<Rightarrow> Q x t)"

named_theorems prog_simps \<open>evaluation of state-changing code\<close>

lemma prog_apply [simp, prog_simps]:
  "retS x s = Inr (x, s)" "stopS e s = Inl e" "getS f s = Inr (f s, s)"
  "modS g s = Inr ((), g s)" "thenS m n s = bindS m (\<lambda>_. n) s"
  "assertS b s = (if b then Inr ((), s) else Inl Abort)"
  "liftS r s = (case r of Inl e \<Rightarrow> Inl e | Inr x \<Rightarrow> Inr (x, s))"
  by (simp_all add: retS_def stopS_def getS_def modS_def thenS_def assertS_def liftS_def)

lemma bindS_Inr [simp, prog_simps]: "m s = Inr (x, t) \<Longrightarrow> bindS m f s = f x t"
  by (simp add: bindS_def)

lemma bindS_Inl [simp, prog_simps]: "m s = Inl e \<Longrightarrow> bindS m f s = Inl e"
  by (simp add: bindS_def)

lemma bindS_cong [fundef_cong]:
  "m s = m' s' \<Longrightarrow> (\<And>x t. m' s' = Inr (x, t) \<Longrightarrow> f x t = g x t) \<Longrightarrow> bindS m f s = bindS m' g s'"
  by (simp add: bindS_def split: sum.split prod.split)

lemma thenS_cong [fundef_cong]:
  "m s = m' s' \<Longrightarrow> (\<And>x t. m' s' = Inr (x, t) \<Longrightarrow> n t = n' t) \<Longrightarrow> thenS m n s = thenS m' n' s'"
  by (simp add: bindS_def split: sum.split prod.split)

lemma bindS_assoc: "bindS (bindS m f) g = bindS m (\<lambda>x. bindS (f x) g)"
  by (rule ext) (simp add: bindS_def split: sum.split prod.split)

lemma runs_bind [simp]: "runs A (bindS m f) Q = runs A m (\<lambda>x. runs A (f x) Q)"
  by (rule ext) (simp add: runs_def bindS_def split: sum.split prod.split)

lemma runs_simps [simp]:
  "runs A (retS x) Q = Q x" "runs A (stopS e) Q' = (\<lambda>s. e \<in> A)" "runs A (getS f) P = (\<lambda>s. P (f s) s)"
  "runs A (thenS m n) R = runs A m (\<lambda>_. runs A n R)"
  by (simp_all add: fun_eq_iff runs_def bindS_def thenS_def split: sum.split prod.split)

lemma runs_unit_simps [simp]:
  "runs A (modS g) Q = (\<lambda>s. Q () (g s))"
  "runs A (assertS b) Q = (\<lambda>s. if b then Q () s else Abort \<in> A)"
  by (simp_all add: fun_eq_iff runs_def assertS_def)

text \<open>\<open>for (x : xs) f(x);\<close>\<close>

primrec forS :: "('a \<Rightarrow> ('s, unit) prog) \<Rightarrow> 'a list \<Rightarrow> ('s, unit) prog" where
  "forS f [] = retS ()"
| "forS f (x # xs) = thenS (f x) (forS f xs)"

text \<open>Running an operation a number of times and collecting what it returns.\<close>

primrec repS :: "nat \<Rightarrow> ('s, 'a) prog \<Rightarrow> ('s, 'a list) prog" where
  "repS 0 m = retS []"
| "repS (Suc k) m = bindS m (\<lambda>r. bindS (repS k m) (\<lambda>rs. retS (r # rs)))"

lemma runs_mono: "runs A m P s \<Longrightarrow> (\<And>x t. P x t \<Longrightarrow> Q x t) \<Longrightarrow> A \<subseteq> B \<Longrightarrow> runs B m Q s"
  by (auto simp: runs_def split: sum.splits prod.splits)

lemma runs_conj: "runs A m P s \<Longrightarrow> runs B m Q s \<Longrightarrow> runs (A \<inter> B) m (\<lambda>x t. P x t \<and> Q x t) s"
  by (auto simp: runs_def split: sum.splits prod.splits)

lemma runs_total: "runs {} m Q s \<longleftrightarrow> (\<exists>x t. m s = Inr (x, t) \<and> Q x t)"
  by (auto simp: runs_def split: sum.splits prod.splits)

lemma runs_returned: "runs A m Q s \<Longrightarrow> m s = Inr (x, t) \<Longrightarrow> Q x t"
  by (simp add: runs_def)

lemma runs_Inr: "m s = Inr (x, t) \<Longrightarrow> runs A m Q s = Q x t"
  by (simp add: runs_def)

lemma runs_Inl: "m s = Inl e \<Longrightarrow> runs A m Q s = (e \<in> A)"
  by (simp add: runs_def)

section \<open>Words in memory\<close>

text \<open>The four bytes of a \<open>uint32_t\<close>, lowest first, and the \<open>uint32_t\<close> at the start of memory.\<close>

definition le32 :: "u32 \<Rightarrow> byte list" where
  "le32 w = [ucast w, ucast (drop_bit 8 w), ucast (drop_bit 16 w), ucast (drop_bit 24 w)]"

definition of_le32 :: "byte list \<Rightarrow> u32" where
  "of_le32 xs = ucast (xs ! 0) OR push_bit 8 (ucast (xs ! 1)) OR
     push_bit 16 (ucast (xs ! 2)) OR push_bit 24 (ucast (xs ! 3))"

lemma length_le32 [simp]: "length (le32 w) = 4"
  by (simp add: le32_def)

lemma of_le32_le32 [simp]: "of_le32 (le32 w @ r) = w"
proof (rule bit_word_eqI)
  fix n assume "n < LENGTH(32)"
  then consider "n < 8" | "8 \<le> n" "n < 16" | "16 \<le> n" "n < 24" | "24 \<le> n" "n < 32" by fastforce
  then show "bit (of_le32 (le32 w @ r)) n = bit w n"
    by cases (auto simp: of_le32_def le32_def bit_simps)
qed

lemma of_le32_alone [simp]: "of_le32 (le32 w) = w"
  using of_le32_le32 [of w "[]"] by simp

lemma le32_of_le32 [simp]: "length xs = 4 \<Longrightarrow> le32 (of_le32 xs) = xs"
proof -
  assume "length xs = 4"
  then obtain a b c d where xs: "xs = [a, b, c, d]"
    by (auto simp: numeral_eq_Suc length_Suc_conv)
  have high: "bit (x :: byte) (8 + n) = False" "bit x (16 + n) = False" "bit x (24 + n) = False" for x n
    using bit_imp_le_length [of x "8 + n"] bit_imp_le_length [of x "16 + n"]
      bit_imp_le_length [of x "24 + n"] by auto
  show ?thesis
    unfolding xs le32_def of_le32_def
    by (auto intro!: bit_word_eqI simp: bit_simps high)
qed

end
