(* ===== verification/LibString.thy ===== *)
theory LibString
  imports Prelude
begin

text \<open>
  The string and memory functions of \<open>lib/src/string/\<close>, one definition per file. An argument
  \<open>const char *s\<close> is the list of the bytes from \<open>s\<close> to the end of its object; a pointer the
  code returns into an argument is its offset there, \<open>NULL\<close> is \<open>None\<close>. A function that writes
  through a pointer returns the object after the call. Reading or writing past the end of an
  object is \<open>Inl Undef\<close>: the lemmas say when that does not happen. Byte counts (\<open>size_t\<close>) are
  \<open>nat\<close>; each loop that counts one down is a recursion on it.
\<close>

subsection \<open>Scanning\<close>

fun strlen :: "byte list \<Rightarrow> nat res" where
  "strlen [] = Inl Undef"
| "strlen (c # cs) = (if c = 0 then Inr 0 else mapR Suc (strlen cs))"

fun strnlen :: "byte list \<Rightarrow> nat \<Rightarrow> nat res" where
  "strnlen cs 0 = Inr 0"
| "strnlen [] (Suc n) = Inl Undef"
| "strnlen (c # cs) (Suc n) = (if c = 0 then Inr 0 else mapR Suc (strnlen cs n))"

fun memchr :: "byte list \<Rightarrow> byte \<Rightarrow> nat \<Rightarrow> nat option res" where
  "memchr xs d 0 = Inr None"
| "memchr [] d (Suc n) = Inl Undef"
| "memchr (x # xs) d (Suc n) =
     (if x = d then Inr (Some 0) else mapR (map_option Suc) (memchr xs d n))"

fun memrchr :: "byte list \<Rightarrow> byte \<Rightarrow> nat \<Rightarrow> nat option res" where
  "memrchr xs d 0 = Inr None"
| "memrchr xs d (Suc n) =
     bindR (rdR xs n) (\<lambda>x. if x = d then Inr (Some n) else memrchr xs d n)"

fun strchr :: "byte list \<Rightarrow> byte \<Rightarrow> nat option res" where
  "strchr [] c = Inl Undef"
| "strchr (x # xs) c =
     (if x \<noteq> 0 \<and> x \<noteq> c then mapR (map_option Suc) (strchr xs c)
      else Inr (if x = c then Some 0 else None))"

lemma strchr_bound: "strchr xs c = Inr (Some k) \<Longrightarrow> k < length xs"
  by (induction xs arbitrary: k) (auto simp: res_simps split: if_splits)

text \<open>The loop of \<open>strrchr\<close>: \<open>p\<close> is the offset of \<open>s\<close>, \<open>lst\<close> the last hit.\<close>

function strrchr_loop :: "byte list \<Rightarrow> byte \<Rightarrow> nat \<Rightarrow> nat option \<Rightarrow> nat option res" where
  "strrchr_loop xs c p lst =
     bindR (strchr xs c) (\<lambda>r. case r of
         None \<Rightarrow> Inr lst
       | Some k \<Rightarrow> strrchr_loop (drop (Suc k) xs) c (p + Suc k) (Some (p + k)))"
  by pat_completeness auto
termination
proof (relation "measure (\<lambda>(xs, c, p, lst). length xs)", goal_cases)
  case (2 xs c p lst r k)
  then have "k < length xs" by (auto dest: strchr_bound)
  then show ?case by simp
qed simp

declare strrchr_loop.simps [simp del]

definition strrchr :: "byte list \<Rightarrow> u32 \<Rightarrow> nat option res" where
  "strrchr s i = (if i \<noteq> 0 then strrchr_loop s (ucast i) 0 None else strchr s (ucast i))"

subsection \<open>Comparing\<close>

fun memcmp :: "byte list \<Rightarrow> byte list \<Rightarrow> nat \<Rightarrow> int res" where
  "memcmp xs ys 0 = Inr 0"
| "memcmp (x # xs) (y # ys) (Suc n) =
     (if x \<noteq> y then Inr (uint x - uint y) else memcmp xs ys n)"
| "memcmp xs ys (Suc n) = Inl Undef"

fun strcmp :: "byte list \<Rightarrow> byte list \<Rightarrow> int res" where
  "strcmp (x # xs) (y # ys) =
     (if x \<noteq> 0 \<and> x = y then strcmp xs ys else Inr (uint x - uint y))"
| "strcmp xs ys = Inl Undef"

fun strncmp_loop :: "byte list \<Rightarrow> byte list \<Rightarrow> nat \<Rightarrow> int res" where
  "strncmp_loop (x # xs) (y # ys) (Suc n) =
     (if x = y \<and> \<not> (n = 0 \<or> x = 0) then strncmp_loop xs ys n else Inr (uint x - uint y))"
| "strncmp_loop xs ys n = Inl Undef"

definition strncmp :: "byte list \<Rightarrow> byte list \<Rightarrow> nat \<Rightarrow> int res" where
  "strncmp s1 s2 n = (if n = 0 then Inr 0 else strncmp_loop s1 s2 n)"

subsection \<open>Copying and filling\<close>

fun memcpy :: "byte list \<Rightarrow> byte list \<Rightarrow> nat \<Rightarrow> byte list res" where
  "memcpy ds ss 0 = Inr ds"
| "memcpy (d # ds) (s # ss) (Suc n) = mapR (Cons s) (memcpy ds ss n)"
| "memcpy ds ss (Suc n) = Inl Undef"

fun memccpy :: "byte list \<Rightarrow> byte list \<Rightarrow> byte \<Rightarrow> nat \<Rightarrow> (nat option \<times> byte list) res" where
  "memccpy ds ss e 0 = Inr (None, ds)"
| "memccpy (d # ds) (s # ss) e (Suc n) =
     (if s = e then Inr (Some 1, s # ds)
      else mapR (\<lambda>(p, ds'). (map_option Suc p, s # ds')) (memccpy ds ss e n))"
| "memccpy ds ss e (Suc n) = Inl Undef"

fun memset :: "byte list \<Rightarrow> byte \<Rightarrow> nat \<Rightarrow> byte list res" where
  "memset ds c 0 = Inr ds"
| "memset (d # ds) c (Suc n) = mapR (Cons c) (memset ds c n)"
| "memset [] c (Suc n) = Inl Undef"

text \<open>
  \<open>memmove\<close> works on one memory \<open>m\<close>, its arguments are offsets: the areas may overlap. With
  \<open>n\<close> bytes left to copy, the backward loop moves byte \<open>n - 1\<close> of the area.
\<close>

fun move_fwd :: "byte list \<Rightarrow> nat \<Rightarrow> nat \<Rightarrow> nat \<Rightarrow> byte list res" where
  "move_fwd m dst src 0 = Inr m"
| "move_fwd m dst src (Suc n) =
     bindR (rdR m src) (\<lambda>b. bindR (wrR m dst b) (\<lambda>m'. move_fwd m' (Suc dst) (Suc src) n))"

fun move_bwd :: "byte list \<Rightarrow> nat \<Rightarrow> nat \<Rightarrow> nat \<Rightarrow> byte list res" where
  "move_bwd m dst src 0 = Inr m"
| "move_bwd m dst src (Suc n) =
     bindR (rdR m (src + n)) (\<lambda>b. bindR (wrR m (dst + n) b) (\<lambda>m'. move_bwd m' dst src n))"

definition memmove :: "byte list \<Rightarrow> nat \<Rightarrow> nat \<Rightarrow> nat \<Rightarrow> byte list res" where
  "memmove m dst src n =
     (if src < dst \<and> dst < src + n then move_bwd m dst src n else move_fwd m dst src n)"

fun strcpy :: "byte list \<Rightarrow> byte list \<Rightarrow> byte list res" where
  "strcpy (d # ds) (s # ss) = (if s = 0 then Inr (s # ds) else mapR (Cons s) (strcpy ds ss))"
| "strcpy ds ss = Inl Undef"

fun strncpy :: "byte list \<Rightarrow> byte list \<Rightarrow> nat \<Rightarrow> byte list res" where
  "strncpy ds ss 0 = Inr ds"
| "strncpy (d # ds) (s # ss) (Suc n) =
     (if s = 0 then mapR (Cons s) (memset ds 0 n) else mapR (Cons s) (strncpy ds ss n))"
| "strncpy ds ss (Suc n) = Inl Undef"

fun strcat :: "byte list \<Rightarrow> byte list \<Rightarrow> byte list res" where
  "strcat [] ss = Inl Undef"
| "strcat (d # ds) ss = (if d \<noteq> 0 then mapR (Cons d) (strcat ds ss) else strcpy (d # ds) ss)"

fun strncat_copy :: "byte list \<Rightarrow> byte list \<Rightarrow> nat \<Rightarrow> byte list res" where
  "strncat_copy ds ss 0 = Inr ds"
| "strncat_copy (d # ds) (s # ss) (Suc n) =
     (if s = 0 then Inr (s # ds)
      else if n = 0 then mapR (Cons s) (wrR ds 0 0)
      else mapR (Cons s) (strncat_copy ds ss n))"
| "strncat_copy ds ss (Suc n) = Inl Undef"

fun strncat :: "byte list \<Rightarrow> byte list \<Rightarrow> nat \<Rightarrow> byte list res" where
  "strncat [] ss n = Inl Undef"
| "strncat (d # ds) ss n =
     (if d \<noteq> 0 then mapR (Cons d) (strncat ds ss n) else strncat_copy (d # ds) ss n)"

subsection \<open>Searching\<close>

text \<open>
  The inner loop \<open>for (c = s2; *c; c++) if (x == *c) break;\<close> of \<open>strspn\<close>, \<open>strcspn\<close>,
  \<open>strpbrk\<close> and \<open>strtok\<close>: whether it stops at a character of \<open>s2\<close>, not at its end.
\<close>

fun span_has :: "byte list \<Rightarrow> byte \<Rightarrow> bool res" where
  "span_has [] x = Inl Undef"
| "span_has (c # cs) x = (if c = 0 then Inr False else if x = c then Inr True else span_has cs x)"

fun strspn :: "byte list \<Rightarrow> byte list \<Rightarrow> nat res" where
  "strspn [] s2 = Inl Undef"
| "strspn (x # xs) s2 =
     (if x = 0 then Inr 0
      else bindR (span_has s2 x) (\<lambda>b. if b then mapR Suc (strspn xs s2) else Inr 0))"

fun strcspn :: "byte list \<Rightarrow> byte list \<Rightarrow> nat res" where
  "strcspn [] s2 = Inl Undef"
| "strcspn (x # xs) s2 =
     (if x = 0 then Inr 0
      else bindR (span_has s2 x) (\<lambda>b. if b then Inr 0 else mapR Suc (strcspn xs s2)))"

fun strpbrk :: "byte list \<Rightarrow> byte list \<Rightarrow> nat option res" where
  "strpbrk [] s2 = Inl Undef"
| "strpbrk (x # xs) s2 =
     (if x = 0 then Inr None
      else bindR (span_has s2 x)
             (\<lambda>b. if b then Inr (Some 0) else mapR (map_option Suc) (strpbrk xs s2)))"

text \<open>\<open>for (i = 1; ne[i] != 0; i++) if (hs[i] != ne[i]) break;\<close> from \<open>hs + 1\<close>, \<open>ne + 1\<close>.\<close>

fun strstr_match :: "byte list \<Rightarrow> byte list \<Rightarrow> bool res" where
  "strstr_match hs [] = Inl Undef"
| "strstr_match hs (n # ns) =
     (if n = 0 then Inr True
      else case hs of [] \<Rightarrow> Inl Undef
         | h # hs' \<Rightarrow> if h \<noteq> n then Inr False else strstr_match hs' ns)"

fun strstr_loop :: "byte list \<Rightarrow> byte \<Rightarrow> byte list \<Rightarrow> nat option res" where
  "strstr_loop [] c ne = Inl Undef"
| "strstr_loop (h # hs) c ne =
     (if h = 0 then Inr None
      else if h \<noteq> c then mapR (map_option Suc) (strstr_loop hs c ne)
      else bindR (strstr_match hs (tl ne))
             (\<lambda>b. if b then Inr (Some 0) else mapR (map_option Suc) (strstr_loop hs c ne)))"

definition strstr :: "byte list \<Rightarrow> byte list \<Rightarrow> nat option res" where
  "strstr hs ne = bindR (rdR ne 0) (\<lambda>c. if c = 0 then Inr (Some 0) else strstr_loop hs c ne)"

text \<open>\<open>for (i = ne_len - 1; i != 0; i--) if (hs[i] != ne[i]) break;\<close>\<close>

fun memmem_match :: "byte list \<Rightarrow> byte list \<Rightarrow> nat \<Rightarrow> bool res" where
  "memmem_match hs ne 0 = Inr True"
| "memmem_match hs ne (Suc i) =
     bindR (rdR hs (Suc i)) (\<lambda>h. bindR (rdR ne (Suc i))
       (\<lambda>n. if h \<noteq> n then Inr False else memmem_match hs ne i))"

text \<open>The last argument counts the positions from \<open>hs\<close> up to \<open>end\<close>.\<close>

fun memmem_loop :: "byte list \<Rightarrow> byte list \<Rightarrow> nat \<Rightarrow> nat \<Rightarrow> nat option res" where
  "memmem_loop hs ne ne_len 0 = Inr None"
| "memmem_loop hs ne ne_len (Suc k) =
     bindR (rdR hs 0) (\<lambda>h. bindR (rdR ne 0) (\<lambda>c.
       if h \<noteq> c then mapR (map_option Suc) (memmem_loop (tl hs) ne ne_len k)
       else bindR (memmem_match hs ne (ne_len - 1))
              (\<lambda>b. if b then Inr (Some 0)
                   else mapR (map_option Suc) (memmem_loop (tl hs) ne ne_len k))))"

definition memmem :: "byte list \<Rightarrow> nat \<Rightarrow> byte list \<Rightarrow> nat \<Rightarrow> nat option res" where
  "memmem hs hs_len ne ne_len =
     (if ne_len = 0 then Inr (Some 0) else memmem_loop hs ne ne_len (Suc hs_len - ne_len))"

definition strnstr :: "byte list \<Rightarrow> byte list \<Rightarrow> nat \<Rightarrow> nat option res" where
  "strnstr hay needle hay_len =
     bindR (strnlen needle hay_len) (\<lambda>needle_len.
     bindR (if needle_len < hay_len then Inr True
            else bindR (rdR needle needle_len) (\<lambda>b. Inr (b = 0))) (\<lambda>ok.
     if ok then
       bindR (memmem hay hay_len needle needle_len) (\<lambda>x. case x of
           None \<Rightarrow> Inr None
         | Some k \<Rightarrow> bindR (memchr hay 0 k) (\<lambda>z. Inr (if z = None then Some k else None)))
     else Inr None))"

text \<open>
  \<open>strtok\<close> works on one buffer \<open>m\<close>; its position argument and the static variable \<open>lasts\<close> are
  offsets into it. The two scans return the character that stopped them and the offset after it.
\<close>

fun strtok_skip :: "byte list \<Rightarrow> byte list \<Rightarrow> nat \<Rightarrow> (byte \<times> nat) res" where
  "strtok_skip [] delim p = Inl Undef"
| "strtok_skip (c # cs) delim p =
     bindR (span_has delim c) (\<lambda>b. if b then strtok_skip cs delim (Suc p) else Inr (c, Suc p))"

text \<open>\<open>do { if ((sc = *spanp++) == c) ... } while (sc != 0);\<close>: the NUL counts as a delimiter.\<close>

fun span_has_nul :: "byte list \<Rightarrow> byte \<Rightarrow> bool res" where
  "span_has_nul [] x = Inl Undef"
| "span_has_nul (c # cs) x =
     (if c = x then Inr True else if c = 0 then Inr False else span_has_nul cs x)"

fun strtok_scan :: "byte list \<Rightarrow> byte list \<Rightarrow> nat \<Rightarrow> (byte \<times> nat) res" where
  "strtok_scan [] delim p = Inl Undef"
| "strtok_scan (c # cs) delim p =
     bindR (span_has_nul delim c) (\<lambda>b. if b then Inr (c, Suc p) else strtok_scan cs delim (Suc p))"

definition strtok ::
  "byte list \<Rightarrow> nat option \<Rightarrow> byte list \<Rightarrow> nat option \<Rightarrow> (nat option \<times> byte list \<times> nat option) res"
where
  "strtok m s delim lasts =
     (case (if s = None then lasts else s) of
        None \<Rightarrow> Inr (None, m, lasts)
      | Some p \<Rightarrow>
          bindR (strtok_skip (drop p m) delim p) (\<lambda>(c, p1).
            if c = 0 then Inr (None, m, None)
            else bindR (strtok_scan (drop p1 m) delim p1) (\<lambda>(c, p2).
              if c = 0 then Inr (Some (p1 - 1), m, None)
              else bindR (wrR m (p2 - 1) 0) (\<lambda>m'. Inr (Some (p1 - 1), m', Some p2)))))"


section \<open>What the functions compute\<close>

text \<open>
  A C string is \<open>s @ 0 # r\<close> with no NUL in \<open>s\<close>: its object may go on after the terminator.
\<close>

named_theorems cstr_simps \<open>the string functions on NUL-terminated strings\<close>

lemma strlen_cstr [cstr_simps]: "0 \<notin> set s \<Longrightarrow> strlen (s @ 0 # r) = Inr (length s)"
  by (induction s) auto

lemma strnlen_cstr [cstr_simps]: "0 \<notin> set s \<Longrightarrow> strnlen (s @ 0 # r) n = Inr (min (length s) n)"
proof (induction s arbitrary: n)
  case Nil
  then show ?case by (cases n) auto
next
  case (Cons c s)
  then show ?case by (cases n) auto
qed

lemma strchr_cstr [cstr_simps]:
  "0 \<notin> set s \<Longrightarrow> strchr (s @ 0 # r) c = Inr (if c = 0 then Some (length s) else find_slot (\<lambda>x. x = c) s)"
  by (induction s) auto

lemma memchr_ok [cstr_simps]:
  "n \<le> length xs \<Longrightarrow> memchr xs c n = Inr (find_slot (\<lambda>x. x = c) (take n xs))"
  by (induction xs c n rule: memchr.induct) auto

lemma memcpy_ok [cstr_simps]:
  "n \<le> length ds \<Longrightarrow> n \<le> length ss \<Longrightarrow> memcpy ds ss n = Inr (put_at 0 (take n ss) ds)"
  by (induction ds ss n rule: memcpy.induct) (auto simp: put_at_def min_def)

lemma memset_ok [cstr_simps]:
  "n \<le> length ds \<Longrightarrow> memset ds c n = Inr (put_at 0 (replicate n c) ds)"
  by (induction ds c n rule: memset.induct) (auto simp: put_at_def)

lemma strcpy_cstr [cstr_simps]:
  "0 \<notin> set s \<Longrightarrow> length s < length d \<Longrightarrow> strcpy d (s @ 0 # r) = Inr (s @ 0 # drop (Suc (length s)) d)"
proof (induction s arbitrary: d)
  case Nil
  then show ?case by (cases d) auto
next
  case (Cons c s)
  then show ?case by (cases d) auto
qed

lemma span_has_cstr [cstr_simps]: "0 \<notin> set s \<Longrightarrow> span_has (s @ 0 # r) x = Inr (x \<in> set s)"
  by (induction s) auto

lemma span_has_nul_cstr [cstr_simps]:
  "0 \<notin> set s \<Longrightarrow> span_has_nul (s @ 0 # r) x = Inr (x = 0 \<or> x \<in> set s)"
  by (induction s) auto

lemma strspn_cstr [cstr_simps]:
  "0 \<notin> set s \<Longrightarrow> 0 \<notin> set d \<Longrightarrow>
   strspn (s @ 0 # r) (d @ 0 # q) = Inr (length (takeWhile (\<lambda>x. x \<in> set d) s))"
  by (induction s) (auto simp: span_has_cstr)

lemma strcspn_cstr [cstr_simps]:
  "0 \<notin> set s \<Longrightarrow> 0 \<notin> set d \<Longrightarrow>
   strcspn (s @ 0 # r) (d @ 0 # q) = Inr (length (takeWhile (\<lambda>x. x \<notin> set d) s))"
  by (induction s) (auto simp: span_has_cstr)

lemma strpbrk_cstr [cstr_simps]:
  "0 \<notin> set s \<Longrightarrow> 0 \<notin> set d \<Longrightarrow>
   strpbrk (s @ 0 # r) (d @ 0 # q) = Inr (find_slot (\<lambda>x. x \<in> set d) s)"
  by (induction s) (auto simp: span_has_cstr)

lemma strcat_cstr [cstr_simps]:
  "0 \<notin> set d \<Longrightarrow> 0 \<notin> set s \<Longrightarrow> length s \<le> length r \<Longrightarrow>
   strcat (d @ 0 # r) (s @ 0 # q) = Inr (d @ s @ 0 # drop (length s) r)"
  by (induction d) (auto simp: strcpy_cstr)

lemma strncat_copy_cstr:
  "0 \<notin> set s \<Longrightarrow> min n (length s) < length d \<Longrightarrow> 0 < n \<Longrightarrow>
   strncat_copy d (s @ 0 # q) n = Inr (take n s @ 0 # drop (Suc (min n (length s))) d)"
proof (induction d "s @ 0 # q" n arbitrary: s rule: strncat_copy.induct)
  case (2 d ds c ss n)
  show ?case
  proof (cases s)
    case Nil
    then show ?thesis using 2 by simp
  next
    case (Cons a s')
    then show ?thesis using 2 by (cases ds) (auto simp: wrR_def)
  qed
qed auto

lemma strncat_cstr [cstr_simps]:
  "0 \<notin> set d \<Longrightarrow> 0 \<notin> set s \<Longrightarrow> min n (length s) \<le> length r \<Longrightarrow> 0 < n \<Longrightarrow>
   strncat (d @ 0 # r) (s @ 0 # q) n = Inr (d @ take n s @ 0 # drop (min n (length s)) r)"
  by (induction d) (auto simp: strncat_copy_cstr)

lemma strncpy_cstr [cstr_simps]:
  "0 \<notin> set s \<Longrightarrow> n \<le> length d \<Longrightarrow>
   strncpy d (s @ 0 # q) n =
     Inr (take n s @ replicate (n - length s) 0 @ drop n d)"
proof (induction d "s @ 0 # q" n arbitrary: s rule: strncpy.induct)
  case (2 d ds c ss n)
  show ?case
  proof (cases s)
    case Nil
    then show ?thesis using 2 by (simp add: memset_ok put_at_def)
  next
    case (Cons a s')
    then show ?thesis using 2 by auto
  qed
qed auto

subsection \<open>Order\<close>

definition byte_less :: "(byte \<times> byte) set" where
  "byte_less = {(x, y). x < y}"

text \<open>
  \<open>strcmp\<close> of two strings returns 0 exactly for equal strings and a negative number exactly
  when the first comes before the second in lexicographic order of unsigned bytes.
\<close>
lemma strcmp_cstr:
  "0 \<notin> set s \<Longrightarrow> 0 \<notin> set t \<Longrightarrow>
   \<exists>d. strcmp (s @ 0 # q) (t @ 0 # r) = Inr d \<and> (d = 0 \<longleftrightarrow> s = t) \<and>
     (d < 0 \<longleftrightarrow> (s, t) \<in> lexord byte_less)"
proof (induction s arbitrary: t)
  case Nil
  then show ?case
    by (cases t) (auto simp: word_less_def uint_0_iff word_neq_0_conv)
next
  case (Cons x s)
  show ?case
  proof (cases t)
    case Nil
    then show ?thesis using Cons.prems by (auto simp: uint_0_iff)
  next
    case (Cons y t')
    then show ?thesis using Cons.prems Cons.IH [of t']
      by (auto simp: byte_less_def word_less_def word_uint_eq_iff)
  qed
qed


lemma strcmp_cstr_witness:
  "\<exists>d. strcmp (bytes_of ''cat'' @ 0 # []) (bytes_of ''cave'' @ 0 # []) = Inr d \<and>
     (d = 0 \<longleftrightarrow> bytes_of ''cat'' = bytes_of ''cave'') \<and>
     (d < 0 \<longleftrightarrow> (bytes_of ''cat'', bytes_of ''cave'') \<in> lexord byte_less)"
  by (rule strcmp_cstr; simp add: bytes_of_def)

lemma strcmp_same:
  "0 \<notin> set s \<Longrightarrow> 0 \<notin> set t \<Longrightarrow> \<exists>d. strcmp (s @ 0 # q) (t @ 0 # r) = Inr d \<and> (d = 0 \<longleftrightarrow> s = t)"
proof (induction s arbitrary: t)
  case Nil
  then show ?case by (cases t) (auto simp: uint_0_iff)
next
  case (Cons x s)
  show ?case
  proof (cases t)
    case Nil
    then show ?thesis using Cons.prems by (auto simp: uint_0_iff)
  next
    case (Cons y t')
    then show ?thesis using Cons.prems Cons.IH [of t'] by (auto simp: word_uint_eq_iff)
  qed
qed

subsection \<open>Overlapping moves\<close>

lemma move_fwd_nth:
  "dst + n \<le> length m \<Longrightarrow> src + n \<le> length m \<Longrightarrow> dst \<le> src \<or> src + n \<le> dst \<Longrightarrow>
   \<exists>m'. move_fwd m dst src n = Inr m' \<and> length m' = length m \<and>
     (\<forall>i < length m. m' ! i = (if dst \<le> i \<and> i < dst + n then m ! (src + i - dst) else m ! i))"
proof (induction n arbitrary: m dst src)
  case (Suc n)
  let ?m = "m[dst := m ! src]"
  obtain m' where m': "move_fwd ?m (Suc dst) (Suc src) n = Inr m'" "length m' = length ?m"
    "\<forall>i < length ?m. m' ! i =
       (if Suc dst \<le> i \<and> i < Suc dst + n then ?m ! (Suc src + i - Suc dst) else ?m ! i)"
    using Suc.IH [of "Suc dst" ?m "Suc src"] Suc.prems by auto
  have "m' ! i = (if dst \<le> i \<and> i < dst + Suc n then m ! (src + i - dst) else m ! i)"
    if "i < length m" for i
  proof (cases "i = dst")
    case False
    have "Suc src + i - Suc dst \<noteq> dst" if "Suc dst \<le> i" "i < Suc dst + n"
      using Suc.prems(3) that by arith
    then show ?thesis using m'(3) that False by auto
  qed (use m'(3) that in auto)
  then show ?case using m' Suc.prems by auto
qed auto

lemma move_bwd_nth:
  "dst + n \<le> length m \<Longrightarrow> src + n \<le> length m \<Longrightarrow> src < dst \<Longrightarrow>
   \<exists>m'. move_bwd m dst src n = Inr m' \<and> length m' = length m \<and>
     (\<forall>i < length m. m' ! i = (if dst \<le> i \<and> i < dst + n then m ! (src + i - dst) else m ! i))"
proof (induction n arbitrary: m)
  case (Suc n)
  let ?m = "m[dst + n := m ! (src + n)]"
  obtain m' where m': "move_bwd ?m dst src n = Inr m'" "length m' = length ?m"
    "\<forall>i < length ?m. m' ! i =
       (if dst \<le> i \<and> i < dst + n then ?m ! (src + i - dst) else ?m ! i)"
    using Suc.IH [of ?m] Suc.prems by auto
  have "m' ! i = (if dst \<le> i \<and> i < dst + Suc n then m ! (src + i - dst) else m ! i)"
    if "i < length m" for i
  proof (cases "i = dst + n")
    case False
    have "src + i - dst \<noteq> dst + n" if "dst \<le> i" "i < dst + n"
      using Suc.prems(3) that by arith
    then show ?thesis using m'(3) that False by auto
  qed (use m'(3) that in auto)
  then show ?case using m' Suc.prems by auto
qed auto

lemma memmove_moves:
  "dst + n \<le> length m \<Longrightarrow> src + n \<le> length m \<Longrightarrow>
   memmove m dst src n = Inr (put_at dst (span_at src n m) m)"
proof -
  assume len: "dst + n \<le> length m" "src + n \<le> length m"
  have "\<exists>m'. memmove m dst src n = Inr m' \<and> length m' = length m \<and>
     (\<forall>i < length m. m' ! i = (if dst \<le> i \<and> i < dst + n then m ! (src + i - dst) else m ! i))"
  proof (cases "src < dst \<and> dst < src + n")
    case True
    then show ?thesis unfolding memmove_def using move_bwd_nth [OF len] by simp
  next
    case False
    then have "dst \<le> src \<or> src + n \<le> dst" by arith
    moreover have "memmove m dst src n = move_fwd m dst src n"
      using False by (auto simp: memmove_def)
    ultimately show ?thesis using move_fwd_nth [OF len] by simp
  qed
  then obtain m' where m': "memmove m dst src n = Inr m'" "length m' = length m"
    "\<forall>i < length m. m' ! i = (if dst \<le> i \<and> i < dst + n then m ! (src + i - dst) else m ! i)"
    by blast
  have "m' = put_at dst (span_at src n m) m"
    using m'(2,3) len by (intro nth_equalityI) (auto simp: put_at_nth)
  then show ?thesis using m'(1) by simp
qed

text \<open>
  C37. \<open>memmove\<close> copies the source area as it was before the call, however the two areas
  overlap, and changes nothing else.
\<close>
theorem memmove_overlap:
  "dst + n \<le> length m \<Longrightarrow> src + n \<le> length m \<Longrightarrow>
   memmove m dst src n = Inr (put_at dst (span_at src n m) m)"
  by (rule memmove_moves)

theorem memmove_overlap_witness:
  "memmove [1, 2, 3, 4, 5] 1 0 4 = Inr (put_at 1 (span_at 0 4 [1, 2, 3, 4, 5]) [1, 2, 3, 4, 5]) \<and>
   put_at 1 (span_at 0 4 [1, 2, 3, 4, 5]) [1, 2, 3, 4, 5] = [1, 1, 2, 3, 4 :: byte]"
  using memmove_overlap [of 1 4 "[1, 2, 3, 4, 5]" 0] by (simp add: put_at_def span_at_def)

subsection \<open>Search\<close>

text \<open>\<open>n\<close> occurs in \<open>h\<close> at \<open>k\<close>; the least such position, if any.\<close>

definition occurs_at :: "byte list \<Rightarrow> byte list \<Rightarrow> nat \<Rightarrow> bool" where
  "occurs_at n h k \<longleftrightarrow> k + length n \<le> length h \<and> span_at k (length n) h = n"

definition first_at :: "(nat \<Rightarrow> bool) \<Rightarrow> nat option \<Rightarrow> bool" where
  "first_at P r = (case r of None \<Rightarrow> \<forall>k. \<not> P k | Some k \<Rightarrow> P k \<and> (\<forall>j < k. \<not> P j))"

lemma first_at_Suc:
  "first_at (\<lambda>k. P (Suc k)) r \<Longrightarrow> \<not> P 0 \<Longrightarrow> first_at P (map_option Suc r)"
  unfolding first_at_def
  by (cases r) (auto simp: less_Suc_eq_0_disj, metis not0_implies_Suc)

lemma occurs_at_Cons: "occurs_at n (x # h) (Suc k) = occurs_at n h k"
  by (simp add: occurs_at_def span_at_def)

lemma occurs_at_0: "occurs_at n h 0 \<longleftrightarrow> (\<exists>t. h = n @ t)"
  by (auto simp: occurs_at_def span_at_def) (metis append_take_drop_id)

lemma strstr_match_cstr:
  "0 \<notin> set h \<Longrightarrow> 0 \<notin> set n \<Longrightarrow> strstr_match (h @ 0 # q) (n @ 0 # r) = Inr (occurs_at n h 0)"
proof (induction n arbitrary: h)
  case (Cons a n)
  then show ?case by (cases h) (auto simp: occurs_at_0)
qed (simp add: occurs_at_0)

lemma strstr_loop_first:
  "0 \<notin> set h \<Longrightarrow> 0 \<notin> set (c # n) \<Longrightarrow>
   \<exists>r. strstr_loop (h @ 0 # q) c (c # n @ 0 # q') = Inr r \<and> first_at (occurs_at (c # n) h) r"
proof (induction h)
  case Nil
  then show ?case by (auto simp: first_at_def occurs_at_def)
next
  case (Cons x h)
  then obtain r where r: "strstr_loop (h @ 0 # q) c (c # n @ 0 # q') = Inr r"
    "first_at (occurs_at (c # n) h) r" by auto
  have here: "occurs_at (c # n) (x # h) 0 \<longleftrightarrow> x = c \<and> occurs_at n h 0"
    by (auto simp: occurs_at_0)
  show ?case
  proof (cases "occurs_at (c # n) (x # h) 0")
    case True
    then show ?thesis using Cons.prems here
      by (auto simp: strstr_match_cstr first_at_def)
  next
    case False
    moreover have "first_at (\<lambda>k. occurs_at (c # n) (x # h) (Suc k)) r"
      using r(2) by (simp add: occurs_at_Cons)
    ultimately have "first_at (occurs_at (c # n) (x # h)) (map_option Suc r)"
      by (intro first_at_Suc)
    then show ?thesis using Cons.prems r(1) here False by (auto simp: strstr_match_cstr)
  qed
qed

text \<open>
  \<open>strstr\<close> returns the first position at which the needle occurs in the haystack, \<open>NULL\<close> if
  there is none, and reads neither string past its terminator.
\<close>
lemma strstr_first:
  "0 \<notin> set h \<Longrightarrow> 0 \<notin> set n \<Longrightarrow>
   \<exists>r. strstr (h @ 0 # q) (n @ 0 # q') = Inr r \<and> first_at (occurs_at n h) r"
proof (cases n)
  case (Cons c n')
  assume "0 \<notin> set h" "0 \<notin> set n"
  then show ?thesis using strstr_loop_first [of h c n' q q'] Cons by (auto simp: strstr_def)
qed (auto simp: strstr_def first_at_def occurs_at_0)

lemma strstr_first_witness:
  "\<exists>r. strstr (bytes_of ''xaab'' @ 0 # []) (bytes_of ''ab'' @ 0 # []) = Inr r \<and>
     first_at (occurs_at (bytes_of ''ab'') (bytes_of ''xaab'')) r"
  by (rule strstr_first; simp add: bytes_of_def)

lemma memmem_match_ok:
  "i < length h \<Longrightarrow> i < length n \<Longrightarrow>
   memmem_match h n i = Inr (\<forall>j < i. h ! Suc j = n ! Suc j)"
  by (induction i) (auto simp: less_Suc_eq)

lemma memmem_match_occurs:
  assumes "h = x # h'" "n = c # n'" "length n \<le> length h"
  shows "memmem_match h (n @ q') (length n - 1) = Inr (occurs_at n' h' 0)"
proof -
  have "memmem_match h (n @ q') (length n') =
        Inr (\<forall>j < length n'. h ! Suc j = (n @ q') ! Suc j)"
    using assms by (intro memmem_match_ok) auto
  moreover have "(\<forall>j < length n'. h ! Suc j = (n @ q') ! Suc j) \<longleftrightarrow> take (length n') h' = n'"
    using assms by (auto simp: list_eq_iff_nth_eq nth_append)
  ultimately show ?thesis using assms by (auto simp: occurs_at_def span_at_def)
qed

lemma memmem_loop_first:
  "n \<noteq> [] \<Longrightarrow> k + length n \<le> Suc (length h) \<Longrightarrow>
   \<exists>r. memmem_loop h (n @ q') (length n) k = Inr r \<and> first_at (\<lambda>j. j < k \<and> occurs_at n h j) r"
proof (induction k arbitrary: h)
  case 0
  then show ?case by (auto simp: first_at_def)
next
  case (Suc k)
  obtain c n' where n: "n = c # n'" using Suc.prems by (cases n) auto
  then obtain x h' where h: "h = x # h'" using Suc.prems by (cases h) auto
  obtain r where r: "memmem_loop h' (n @ q') (length n) k = Inr r"
    "first_at (\<lambda>j. j < k \<and> occurs_at n h' j) r"
    using Suc.IH [of h'] Suc.prems h by auto
  have m: "memmem_match h (n @ q') (length n - 1) = Inr (occurs_at n' h' 0)"
    using Suc.prems by (intro memmem_match_occurs [OF h n]) auto
  have here: "occurs_at n h 0 \<longleftrightarrow> x = c \<and> occurs_at n' h' 0"
    by (auto simp: occurs_at_0 n h)
  show ?case
  proof (cases "occurs_at n h 0")
    case True
    then show ?thesis using here m h n by (auto simp: first_at_def)
  next
    case False
    have "first_at (\<lambda>j. Suc j < Suc k \<and> occurs_at n h (Suc j)) r"
      using r(2) h by (simp add: occurs_at_Cons)
    then have "first_at (\<lambda>j. j < Suc k \<and> occurs_at n h j) (map_option Suc r)"
      using False by (intro first_at_Suc) auto
    then show ?thesis using r(1) h n m here False by auto
  qed
qed

text \<open>
  \<open>memmem\<close> returns the first position at which the \<open>length n\<close> bytes of the needle occur
  in the first \<open>length h\<close> bytes of the haystack, and reads nothing outside the two areas.
\<close>
lemma memmem_first:
  "\<exists>r. memmem (h @ q) (length h) (n @ q') (length n) = Inr r \<and> first_at (occurs_at n h) r"
proof (cases "n = []")
  case True
  then show ?thesis by (auto simp: memmem_def first_at_def occurs_at_0)
next
  case False
  have "(\<lambda>j. j < Suc (length h) - length n \<and> occurs_at n (h @ q) j) = occurs_at n h"
    using False by (auto simp: fun_eq_iff occurs_at_def span_at_def Suc_le_eq less_diff_conv)
  moreover have "\<exists>r. memmem_loop (h @ q) (n @ q') (length n) (Suc (length h) - length n) = Inr r \<and>
    first_at (\<lambda>j. j < Suc (length h) - length n \<and> occurs_at n (h @ q) j) r"
  proof (cases "length n \<le> Suc (length h)")
    case True
    then show ?thesis using False by (intro memmem_loop_first) auto
  qed (auto simp: first_at_def)
  ultimately show ?thesis using False by (simp add: memmem_def)
qed

subsection \<open>Tokens\<close>

lemma length_takeWhile_less: "takeWhile P xs \<noteq> xs \<Longrightarrow> length (takeWhile P xs) < length xs"
  by (induction xs) auto

lemma strtok_skip_cstr:
  "0 \<notin> set s \<Longrightarrow> 0 \<notin> set d \<Longrightarrow>
   strtok_skip (s @ 0 # r) (d @ 0 # q) p =
     (let t = dropWhile (\<lambda>x. x \<in> set d) s
      in Inr (if t = [] then 0 else hd t, Suc (p + length (takeWhile (\<lambda>x. x \<in> set d) s))))"
  by (induction s arbitrary: p) (auto simp: span_has_cstr Let_def)

lemma strtok_scan_cstr:
  "0 \<notin> set s \<Longrightarrow> 0 \<notin> set d \<Longrightarrow>
   strtok_scan (s @ 0 # r) (d @ 0 # q) p =
     (let w = takeWhile (\<lambda>x. x \<notin> set d) s
      in Inr (if w = s then 0 else s ! length w, Suc (p + length w)))"
  by (induction s arbitrary: p) (auto simp: span_has_nul_cstr Let_def)

text \<open>
  One call on the text \<open>s\<close> at offset \<open>p\<close> of the buffer: \<open>g\<close> are the leading delimiters,
  \<open>w\<close> is the token and \<open>t\<close> what follows it.
\<close>

text \<open>
  One call of \<open>strtok\<close> on a buffer whose text at the current position is leading delimiters
  \<open>g\<close>, a delimiter-free word \<open>w\<close> and a rest \<open>t\<close> that is empty or starts with a delimiter:
  it returns the word's position, ends the word with a NUL, and goes on after it next time.
\<close>
lemma strtok_cstr:
  assumes z: "0 \<notin> set (g @ w @ t)" "0 \<notin> set d" and g: "set g \<subseteq> set d"
    and w: "set w \<inter> set d = {}" and t: "t \<noteq> [] \<longrightarrow> hd t \<in> set d" "w = [] \<longrightarrow> t = []"
    and tok: "tok = length pre + length g"
  shows "strtok (pre @ g @ w @ t @ 0 # r) (Some (length pre)) (d @ 0 # q) lasts =
    (if w = [] then Inr (None, pre @ g @ w @ t @ 0 # r, None)
     else if t = [] then Inr (Some tok, pre @ g @ w @ t @ 0 # r, None)
     else Inr (Some tok, pre @ g @ w @ 0 # tl t @ 0 # r, Some (Suc (tok + length w))))"
proof -
  have dw: "dropWhile (\<lambda>x. x \<in> set d) (g @ w @ t) = w @ t"
    and tw: "takeWhile (\<lambda>x. x \<in> set d) (g @ w @ t) = g"
    using g w t by (cases w; cases t; auto simp: dropWhile_append takeWhile_append subset_iff)+
  have skip: "strtok_skip (drop (length pre) (pre @ g @ w @ t @ 0 # r)) (d @ 0 # q) (length pre) =
      Inr (if w @ t = [] then 0 else hd (w @ t), Suc tok)"
    using strtok_skip_cstr [OF z, of r q "length pre"] dw tw tok by (simp add: Let_def)
  show ?thesis
  proof (cases w)
    case Nil
    then show ?thesis using skip t by (simp add: strtok_def)
  next
    case (Cons c w')
    have tw': "takeWhile (\<lambda>x. x \<notin> set d) (w' @ t) = w'"
      using w t Cons by (cases t) (auto simp: takeWhile_append)
    have scan: "strtok_scan (drop (Suc tok) (pre @ g @ w @ t @ 0 # r)) (d @ 0 # q) (Suc tok) =
        Inr (if t = [] then 0 else hd t, Suc (tok + length w))"
    proof (cases t)
      case Nil
      have "strtok_scan (w' @ 0 # r) (d @ 0 # q) (Suc tok) = Inr (0, Suc (Suc tok + length w'))"
        using strtok_scan_cstr [OF _ z(2), of w' r q "Suc tok"] z(1) Cons tw' Nil
        by (simp add: Let_def del: takeWhile_eq_all_conv)
      then show ?thesis using Nil Cons tok by simp
    next
      case (Cons a t')
      have "strtok_scan ((w' @ t) @ 0 # r) (d @ 0 # q) (Suc tok) = Inr (a, Suc (Suc tok + length w'))"
        using strtok_scan_cstr [OF _ z(2), of "w' @ t" r q "Suc tok"] z(1) \<open>w = c # w'\<close> tw' Cons t(1)
        by (simp add: Let_def del: takeWhile_eq_all_conv)
      then show ?thesis using Cons \<open>w = c # w'\<close> tok by simp
    qed
    show ?thesis
      using skip scan Cons z(1) tok
      by (cases t) (auto simp: strtok_def wrR_def list_update_append)
  qed
qed

lemma strtok_cstr_witness:
  "strtok (bytes_of ''  ls -l'' @ [0]) (Some 0) (bytes_of '' '' @ [0]) None =
     Inr (Some 2, bytes_of ''  ls'' @ 0 # bytes_of ''-l'' @ [0], Some 5)"
proof -
  have z: "0 \<notin> set ([32, 32] @ bytes_of ''ls'' @ bytes_of '' -l'')" "(0::byte) \<notin> set [32]"
    and c: "set [32, 32] \<subseteq> set [32 :: byte]" "set (bytes_of ''ls'') \<inter> set [32] = {}"
      "bytes_of '' -l'' \<noteq> [] \<longrightarrow> hd (bytes_of '' -l'') \<in> set [32]"
      "bytes_of ''ls'' = [] \<longrightarrow> bytes_of '' -l'' = []" "2 = length [] + length [32 :: byte, 32]"
    by code_simp+
  have eq: "[] @ [32, 32] @ bytes_of ''ls'' @ bytes_of '' -l'' @ 0 # [] = bytes_of ''  ls -l'' @ [0]"
    "[] @ [32, 32] @ bytes_of ''ls'' @ 0 # tl (bytes_of '' -l'') @ 0 # [] =
       bytes_of ''  ls'' @ 0 # bytes_of ''-l'' @ [0]"
    "bytes_of ''ls'' \<noteq> []" "bytes_of '' -l'' \<noteq> []" "Suc (2 + length (bytes_of ''ls'')) = 5"
    "[32] @ 0 # [] = bytes_of '' '' @ [0]"
    by code_simp+
  show ?thesis
    using strtok_cstr [OF z c, of "[]" "[]" None] unfolding eq(1,2,5,6) using eq(3,4) by simp
qed

lemma strtok_continues: "strtok m None d (Some p) = strtok m (Some p) d l"
  by (simp add: strtok_def)


end
