(* ===== verification/LibStdlib.thy ===== *)
theory LibStdlib
  imports LibString
begin

text \<open>
  \<open>lib/src/stdlib/\<close>: number parsing and printing, and the random number generator. \<open>long\<close> has
  32 bits (\<open>-m32\<close>), so \<open>LONG_MAX\<close> is \<open>0x7fffffff\<close> and \<open>ULONG_MAX\<close> \<open>0xffffffff\<close>. The
  accumulator is a \<open>32 word\<close>; the variables \<open>c\<close>, \<open>base\<close>, \<open>cutlim\<close> and \<open>any\<close> are C
  \<open>int\<close>s that stay small and are modelled by \<open>int\<close>.
\<close>

subsection \<open>Parsing: strtol.c, strtoul.c, atoi.c\<close>

text \<open>The macro \<open>isspace\<close> of \<open>lib.h\<close>.\<close>

definition isspace :: "byte \<Rightarrow> bool" where
  "isspace c \<longleftrightarrow> c = 32 \<or> c = 9 \<or> c = 10"

text \<open>\<open>c = *s++\<close>: the character and the rest.\<close>

fun next_char :: "byte list \<Rightarrow> (byte \<times> byte list) res" where
  "next_char [] = Inl Undef"
| "next_char (c # s) = Inr (c, s)"

fun skip_space :: "byte list \<Rightarrow> (byte \<times> byte list) res" where
  "skip_space [] = Inl Undef"
| "skip_space (c # s) = (if isspace c then skip_space s else Inr (c, s))"

text \<open>The sign: \<open>(neg, c, s)\<close> after the optional \<open>-\<close> or \<open>+\<close>.\<close>

definition scan_sign :: "byte \<times> byte list \<Rightarrow> (bool \<times> byte \<times> byte list) res" where
  "scan_sign = (\<lambda>(c, s).
     if c = 45 then mapR (\<lambda>(c', s'). (True, c', s')) (next_char s)
     else if c = 43 then mapR (\<lambda>(c', s'). (False, c', s')) (next_char s)
     else Inr (False, c, s))"

text \<open>The prefix \<open>0x\<close> and the base it or a leading \<open>0\<close> selects: \<open>(base, c, s)\<close>.\<close>

definition scan_prefix :: "int \<Rightarrow> byte \<Rightarrow> byte list \<Rightarrow> (int \<times> byte \<times> byte list) res" where
  "scan_prefix base c s =
     bindR (if (base = 0 \<or> base = 16) \<and> c = 48
            then bindR (rdR s 0) (\<lambda>x. Inr (x = 120 \<or> x = 88)) else Inr False) (\<lambda>hex.
     if hex then bindR (rdR s 1) (\<lambda>c'. Inr (16, c', drop 2 s))
     else Inr (if base = 0 then (if c = 48 then 8 else 10) else base, c, s))"

definition digit_val :: "byte \<Rightarrow> int option" where
  "digit_val c =
     (if 48 \<le> c \<and> c \<le> 57 then Some (uint c - 48)
      else if 65 \<le> c \<and> c \<le> 90 then Some (uint c - 55)
      else if 97 \<le> c \<and> c \<le> 122 then Some (uint c - 87)
      else None)"

text \<open>
  The loop that both functions share: \<open>c\<close> is the current character, \<open>s\<close> the text after it.
\<close>

fun scan_digits ::
  "int \<Rightarrow> u32 \<Rightarrow> int \<Rightarrow> byte \<Rightarrow> byte list \<Rightarrow> u32 \<Rightarrow> int \<Rightarrow> (u32 \<times> int \<times> byte list) res"
where
  "scan_digits base cutoff cutlim c s acc any =
     (case digit_val c of
        None \<Rightarrow> Inr (acc, any, s)
      | Some d \<Rightarrow>
          if d \<ge> base then Inr (acc, any, s)
          else let over = any < 0 \<or> acc > cutoff \<or> (acc = cutoff \<and> d > cutlim);
                   acc' = (if over then acc else acc * word_of_int base + word_of_int d);
                   any' = (if over then -1 else 1)
               in case s of [] \<Rightarrow> Inl Undef
                  | c' # s' \<Rightarrow> scan_digits base cutoff cutlim c' s' acc' any')"

declare scan_digits.simps [simp del]

text \<open>
  The result is the value and what is stored in \<open>*endptr\<close> (an offset into \<open>nptr\<close>; \<open>None\<close>:
  nothing is stored, since an invalid base returns at once).
\<close>

definition strtol :: "byte list \<Rightarrow> int \<Rightarrow> (u32 \<times> nat option) res" where
  "strtol nptr base0 =
     (if base0 < 0 \<or> base0 = 1 \<or> base0 > 36 then Inr (0, None)
      else
        bindR (skip_space nptr) (\<lambda>cs.
        bindR (scan_sign cs) (\<lambda>(neg, c, s).
        bindR (scan_prefix base0 c s) (\<lambda>(base, c, s).
        let limit = (if neg then 0x80000000 else 0x7fffffff) :: u32;
            cutlim = uint (limit mod word_of_int base);
            cutoff = limit div word_of_int base
        in bindR (scan_digits base cutoff cutlim c s 0 0) (\<lambda>(acc, any, s).
           Inr (if any < 0 then (if neg then 0x80000000 else 0x7fffffff)
                else if neg then - acc else acc,
                Some (if any \<noteq> 0 then length nptr - length s - 1 else 0)))))))"

definition strtoul :: "byte list \<Rightarrow> int \<Rightarrow> (u32 \<times> nat option) res" where
  "strtoul nptr base0 =
        bindR (skip_space nptr) (\<lambda>cs.
        bindR (scan_sign cs) (\<lambda>(neg, c, s).
        bindR (scan_prefix base0 c s) (\<lambda>(base, c, s).
        let cutoff = 0xffffffff div word_of_int base;
            cutlim = uint (0xffffffff mod word_of_int base :: u32)
        in bindR (scan_digits base cutoff cutlim c s 0 0) (\<lambda>(acc, any, s).
           Inr (if any < 0 then 0xffffffff else if neg then - acc else acc,
                Some (if any \<noteq> 0 then length nptr - length s - 1 else 0))))))"

definition atoi :: "byte list \<Rightarrow> u32 res" where
  "atoi s = mapR fst (strtol s 10)"

subsection \<open>Printing: utoa.c, itoa.c\<close>

definition lower_digits :: "byte list" where
  "lower_digits = bytes_of ''0123456789abcdefghijklmnopqrstuvwxyz''"

text \<open>The first loop of \<open>utoa\<close>: the digits from the least significant one on.\<close>

function utoa_digits :: "u32 \<Rightarrow> u32 \<Rightarrow> byte list" where
  "utoa_digits val base =
     lower_digits ! unat (val mod base) #
       (if 2 \<le> base \<and> val div base \<noteq> 0 then utoa_digits (val div base) base else [])"
  by pat_completeness auto
termination
proof (relation "measure (\<lambda>(val, base). unat val)", goal_cases)
  case (2 val base)
  then have "unat val div unat base \<noteq> 0" "2 \<le> unat base"
    by (auto simp: unat_div word_le_nat_alt unat_eq_zero [symmetric] simp del: div_eq_0_iff)
  then have "unat val div unat base < unat val"
    by (intro div_less_dividend) (auto intro: ccontr)
  then show ?case by (simp add: unat_div)
qed simp

declare utoa_digits.simps [simp del]

text \<open>The second loop: swapping from both ends.\<close>

function utoa_reverse :: "byte list \<Rightarrow> nat \<Rightarrow> nat \<Rightarrow> byte list" where
  "utoa_reverse str j i =
     (if j < i then utoa_reverse (str[j := str ! i, i := str ! j]) (Suc j) (i - 1) else str)"
  by pat_completeness auto
termination by (relation "measure (\<lambda>(str, j, i). i)") auto

declare utoa_reverse.simps [simp del]

text \<open>
  The bytes stored at \<open>str\<close>, the NUL included, and whether the result is \<open>str\<close>, not \<open>NULL\<close>.
\<close>

definition utoa :: "u32 \<Rightarrow> int \<Rightarrow> bool \<times> byte list" where
  "utoa value base =
     (if base < 2 \<or> base > 36 then (False, [0])
      else let str = utoa_digits value (word_of_int base)
           in (True, utoa_reverse str 0 (length str - 1) @ [0]))"

text \<open>
  The value is negated as an \<open>int\<close>, before the cast: for the least \<open>int\<close> this overflows, which C leaves undefined.
\<close>

definition itoa :: "u32 \<Rightarrow> int \<Rightarrow> (bool \<times> byte list) res" where
  "itoa value base =
     (if base < 2 \<or> base > 36 then Inr (False, [0])
      else if base = 10 \<and> sint value < 0 then
        if value = 0x80000000 then Inl Undef else Inr (True, 45 # snd (utoa (- value) base))
      else Inr (True, snd (utoa value base)))"

subsection \<open>rand.c\<close>

text \<open>The static variable \<open>next\<close>, 64 bits wide.\<close>

definition srand :: "u32 \<Rightarrow> 64 word" where
  "srand seed = ucast seed"

definition rand :: "64 word \<Rightarrow> u32 \<times> 64 word" where
  "rand next =
     (let next' = next * 6364136223846793005 + 1
      in (ucast (drop_bit 32 next' AND 2147483647), next'))"


section \<open>What the functions compute\<close>

subsection \<open>Digit strings\<close>

text \<open>The digits of a number in base \<open>b\<close>, and the value of a digit string from \<open>a\<close> on.\<close>

definition is_digits :: "nat \<Rightarrow> byte list \<Rightarrow> bool" where
  "is_digits b ds \<longleftrightarrow> (\<forall>c \<in> set ds. \<exists>d. digit_val c = Some d \<and> d < int b)"

definition digits_from :: "nat \<Rightarrow> nat \<Rightarrow> byte list \<Rightarrow> nat" where
  "digits_from b a ds = foldl (\<lambda>a c. a * b + nat (the (digit_val c))) a ds"

definition no_digit :: "nat \<Rightarrow> byte \<Rightarrow> bool" where
  "no_digit b c \<longleftrightarrow> (\<forall>d. digit_val c = Some d \<longrightarrow> int b \<le> d)"

lemma digit_val_nonneg: "digit_val c = Some d \<Longrightarrow> 0 \<le> d"
  by (auto simp: digit_val_def word_le_def split: if_splits)

lemma digits_from_simps [simp]:
  "digits_from b a [] = a"
  "digits_from b a (c # ds) = digits_from b (a * b + nat (the (digit_val c))) ds"
  by (simp_all add: digits_from_def)

lemma digits_from_append:
  "digits_from b a (ds @ es) = digits_from b (digits_from b a ds) es"
  by (simp add: digits_from_def)

lemma digits_from_mono: "1 \<le> b \<Longrightarrow> a \<le> digits_from b a ds"
proof (induction ds arbitrary: a)
  case (Cons c ds)
  have "a \<le> a * b" using Cons.prems by simp
  then show ?case unfolding digits_from_simps
    using Cons.IH [of "a * b + nat (the (digit_val c))"] Cons.prems by linarith
qed simp

text \<open>The overflow test of the loop is exact.\<close>

lemma cutoff_test:
  assumes b: "1 \<le> b" "b < 2 ^ 32" and a: "a < 2 ^ 32" and L: "L < 2 ^ 32" and d: "d < b"
  shows "(of_nat a :: u32) > of_nat (L div b) \<or> (of_nat a :: u32) = of_nat (L div b) \<and> d > L mod b
    \<longleftrightarrow> L < a * b + d"
proof -
  have "L div b < 2 ^ 32" using L by (meson div_le_dividend le_less_trans)
  then have *: "(of_nat a :: u32) > of_nat (L div b) \<longleftrightarrow> a > L div b"
    "(of_nat a :: u32) = of_nat (L div b) \<longleftrightarrow> a = L div b"
    using a by (auto simp: word_less_nat_alt word_unat_eq_iff unat_of_nat)
  have L': "L = b * (L div b) + L mod b" by simp
  have m: "L mod b < b" using b by simp
  show ?thesis
  proof (cases "a > L div b")
    case True
    then have "b * Suc (L div b) \<le> b * a" by (intro mult_le_mono) auto
    then have "b * (L div b) + b \<le> a * b" by (simp add: mult.commute)
    then have "L < a * b" using L' m by linarith
    then show ?thesis using True * by simp
  next
    case False
    show ?thesis
    proof (cases "a = L div b")
      case True
      then show ?thesis using * L' by (metis add_less_cancel_left mult.commute less_irrefl)
    next
      case False
      then have "b * Suc a \<le> b * (L div b)"
        using \<open>\<not> a > L div b\<close> by (intro mult_le_mono) auto
      then have "a * b + b \<le> b * (L div b)" by (simp add: mult.commute)
      then have "a * b + d < L" using L' d by linarith
      then show ?thesis using * False \<open>\<not> a > L div b\<close> by simp
    qed
  qed
qed

lemma scan_digits_over:
  assumes "any < 0" "is_digits b ds" "no_digit b c0" "ds @ c0 # r = c # s"
  shows "scan_digits (int b) cutoff cutlim c s acc any = Inr (acc, if ds = [] then any else -1, r)"
  using assms
proof (induction ds arbitrary: c s any)
  case Nil
  then show ?case
    by (subst scan_digits.simps) (auto simp: no_digit_def split: option.splits)
next
  case (Cons x ds)
  then obtain d where d: "digit_val x = Some d" "d < int b" by (auto simp: is_digits_def)
  obtain c' s' where s: "ds @ c0 # r = c' # s'" by (cases ds) auto
  have sx: "s = c' # s'" "c = x" using Cons.prems s by auto
  have "scan_digits (int b) cutoff cutlim c' s' acc (-1) = Inr (acc, -1, r)"
    using Cons.IH [of "-1" c' s'] Cons.prems s by (auto simp: is_digits_def)
  then show ?case
    using Cons.prems(1) d sx by (subst scan_digits.simps) (auto simp: Let_def)
qed

lemma scan_digits_value:
  assumes b: "2 \<le> b" "b \<le> 36" and L: "L < 2 ^ 32"
    and "a \<le> L" "any = 0 \<or> any = 1" "is_digits b ds" "no_digit b c0" "ds @ c0 # r = c # s"
  shows "\<exists>acc. scan_digits (int b) (of_nat (L div b)) (int (L mod b)) c s (of_nat a) any =
    Inr (acc, if digits_from b a ds > L then -1 else if ds = [] then any else 1, r) \<and>
    (digits_from b a ds \<le> L \<longrightarrow> acc = of_nat (digits_from b a ds))"
  using assms(4-)
proof (induction ds arbitrary: c s a any)
  case Nil
  then show ?case
    by (subst scan_digits.simps) (auto simp: no_digit_def split: option.splits)
next
  case (Cons x ds)
  then obtain d where d: "digit_val x = Some d" "d < int b" by (auto simp: is_digits_def)
  obtain c' s' where s: "ds @ c0 # r = c' # s'" by (cases ds) auto
  have sx: "s = c' # s'" "c = x" using Cons.prems s by auto
  obtain n where n: "d = int n" "n < b"
    using d digit_val_nonneg [OF d(1)] by (metis nonneg_int_cases of_nat_less_iff)
  let ?a = "a * b + n"
  have over: "(of_nat a :: u32) > of_nat (L div b) \<or>
      (of_nat a :: u32) = of_nat (L div b) \<and> d > int (L mod b) \<longleftrightarrow> L < ?a"
    using cutoff_test [of b a L n] b L Cons.prems(1) n by auto
  have V: "digits_from b a (x # ds) = digits_from b ?a ds" using d n by simp
  have ds: "is_digits b ds" using Cons.prems by (auto simp: is_digits_def)
  show ?case
  proof (cases "L < ?a")
    case True
    have "scan_digits (int b) (of_nat (L div b)) (int (L mod b)) c' s' (of_nat a) (-1) =
        Inr (of_nat a, -1, r)"
      using scan_digits_over [OF _ ds Cons.prems(4) s, of "-1"] by auto
    moreover have "L < digits_from b ?a ds"
      using True digits_from_mono [of b ?a ds] b by linarith
    ultimately show ?thesis
      using Cons.prems(2) d sx over True V
      by (subst scan_digits.simps) (auto simp: Let_def)
  next
    case False
    have "\<exists>acc. scan_digits (int b) (of_nat (L div b)) (int (L mod b)) c' s' (of_nat ?a) 1 =
      Inr (acc, if digits_from b ?a ds > L then -1 else 1, r) \<and>
      (digits_from b ?a ds \<le> L \<longrightarrow> acc = of_nat (digits_from b ?a ds))"
      using Cons.IH [OF _ _ ds Cons.prems(4) s, of ?a 1] False by auto
    moreover have "(of_nat a :: u32) * word_of_int (int b) + word_of_int d = of_nat ?a"
      by (simp add: n)
    ultimately show ?thesis
      using Cons.prems(2) d sx over False V
      by (subst scan_digits.simps) (auto simp: Let_def)
  qed
qed


lemma skip_space_ok: "list_all isspace ws \<Longrightarrow> \<not> isspace c \<Longrightarrow> skip_space (ws @ c # s) = Inr (c, s)"
  by (induction ws) auto

lemma digit_not_special:
  assumes "digit_val c = Some d"
  shows "\<not> isspace c" "c \<noteq> 45" "c \<noteq> 43"
  using assms by (auto simp: digit_val_def isspace_def split: if_splits)

text \<open>A signed digit string in base \<open>b\<close> that is not read as a prefix \<open>0x\<close>.\<close>

definition sign_bytes :: "bool \<Rightarrow> byte list" where
  "sign_bytes neg = (if neg then [45] else [])"

lemma scan_number:
  assumes ws: "list_all isspace ws" and ds: "is_digits b (x # ds)" and b: "2 \<le> b" "b \<le> 36"
    and c0: "no_digit b c0"
    and pre: "b \<noteq> 16 \<or> x \<noteq> 48 \<or> hd (ds @ [c0]) \<notin> {88, 120}"
  shows "bindR (skip_space (ws @ sign_bytes neg @ x # ds @ c0 # r)) scan_sign = Inr (neg, x, ds @ c0 # r)"
    and "scan_prefix (int b) x (ds @ c0 # r) = Inr (int b, x, ds @ c0 # r)"
proof -
  obtain d where d: "digit_val x = Some d" using ds by (auto simp: is_digits_def)
  show "bindR (skip_space (ws @ sign_bytes neg @ x # ds @ c0 # r)) scan_sign = Inr (neg, x, ds @ c0 # r)"
    using digit_not_special [OF d] ws
    by (cases neg) (auto simp: sign_bytes_def skip_space_ok scan_sign_def isspace_def)
  show "scan_prefix (int b) x (ds @ c0 # r) = Inr (int b, x, ds @ c0 # r)"
    using b pre by (cases ds) (auto simp: scan_prefix_def)
qed

text \<open>
  \<open>strtol\<close> returns the number, clamped to the range of \<open>long\<close>, and the end of the digits.
\<close>

lemma strtol_number:
  assumes ws: "list_all isspace ws" and ds: "is_digits b ds" "ds \<noteq> []" and b: "2 \<le> b" "b \<le> 36"
    and c0: "no_digit b c0"
    and pre: "b \<noteq> 16 \<or> hd ds \<noteq> 48 \<or> hd (tl ds @ [c0]) \<notin> {88, 120}"
    and V: "V = digits_from b 0 ds"
  shows "strtol (ws @ sign_bytes neg @ ds @ c0 # r) (int b) =
    Inr (if neg then (if V \<le> 2 ^ 31 then - of_nat V else 0x80000000)
         else (if V < 2 ^ 31 then of_nat V else 0x7fffffff),
         Some (length (ws @ sign_bytes neg @ ds)))"
proof -
  obtain x ds' where x: "ds = x # ds'" using ds by (cases ds) auto
  let ?s = "ws @ sign_bytes neg @ x # ds' @ c0 # r"
  define L :: nat where "L = (if neg then 2 ^ 31 else 2 ^ 31 - 1)"
  have num: "bindR (skip_space ?s) scan_sign = Inr (neg, x, ds' @ c0 # r)"
    "scan_prefix (int b) x (ds' @ c0 # r) = Inr (int b, x, ds' @ c0 # r)"
    using scan_number(1) [OF ws _ b c0, of x ds' neg r] scan_number(2) [OF ws _ b c0, of x ds' r]
      ds pre x by auto
  have L32: "L < 2 ^ 32" by (simp add: L_def)
  obtain acc where acc: "scan_digits (int b) (of_nat (L div b)) (int (L mod b)) x (ds' @ c0 # r) 0 0 =
      Inr (acc, if V > L then -1 else 1, r)" "V \<le> L \<longrightarrow> acc = of_nat V"
    using scan_digits_value [OF b L32, of 0 0 ds c0 r x "ds' @ c0 # r"] ds c0 x V
    by auto
  have lim: "(if neg then 0x80000000 else 0x7fffffff :: u32) = of_nat L"
    by (simp add: L_def)
  have "(of_nat L :: u32) div of_nat b = of_nat (L div b)" "(of_nat L :: u32) mod of_nat b = of_nat (L mod b)"
    using b by (auto simp: L_def word_arith_nat_div word_arith_nat_mod unat_of_nat)
  moreover have "L mod b < 2 ^ 32" using L32 by (meson mod_less_eq_dividend le_less_trans)
  then have "uint (of_nat (L mod b) :: u32) = int (L mod b)"
    by (simp add: unsigned_of_nat take_bit_nat_eq_self)
  ultimately have L: "uint (of_nat L mod of_nat b :: u32) = int (L mod b)"
    "(of_nat L :: u32) div of_nat b = of_nat (L div b)" by simp_all
  from num(1) obtain cs where cs: "skip_space ?s = Inr cs" "scan_sign cs = Inr (neg, x, ds' @ c0 # r)"
    by (auto simp: bindR_eq_Inr)
  have "strtol ?s (int b) = Inr (if V > L then of_nat L else if neg then - of_nat V else of_nat V,
      Some (length (ws @ sign_bytes neg @ ds)))"
    using b cs num(2) L [folded lim] lim acc by (cases neg) (auto simp: strtol_def Let_def x)
  also have "(if V > L then of_nat L else if neg then - of_nat V else of_nat V :: u32) =
      (if neg then (if V \<le> 2 ^ 31 then - of_nat V else 0x80000000)
       else (if V < 2 ^ 31 then of_nat V else 0x7fffffff))"
    by (auto simp: L_def)
  finally show ?thesis by (simp add: x)
qed


lemma strtoul_number:
  assumes ws: "list_all isspace ws" and ds: "is_digits b ds" "ds \<noteq> []" and b: "2 \<le> b" "b \<le> 36"
    and c0: "no_digit b c0"
    and pre: "b \<noteq> 16 \<or> hd ds \<noteq> 48 \<or> hd (tl ds @ [c0]) \<notin> {88, 120}"
    and V: "V = digits_from b 0 ds"
  shows "strtoul (ws @ sign_bytes neg @ ds @ c0 # r) (int b) =
    Inr (if V < 2 ^ 32 then (if neg then - of_nat V else of_nat V) else 0xffffffff,
         Some (length (ws @ sign_bytes neg @ ds)))"
proof -
  obtain x ds' where x: "ds = x # ds'" using ds by (cases ds) auto
  let ?s = "ws @ sign_bytes neg @ x # ds' @ c0 # r"
  define L :: nat where "L = 2 ^ 32 - 1"
  have num: "bindR (skip_space ?s) scan_sign = Inr (neg, x, ds' @ c0 # r)"
    "scan_prefix (int b) x (ds' @ c0 # r) = Inr (int b, x, ds' @ c0 # r)"
    using scan_number(1) [OF ws _ b c0, of x ds' neg r] scan_number(2) [OF ws _ b c0, of x ds' r]
      ds pre x by auto
  have L32: "L < 2 ^ 32" by (simp add: L_def)
  obtain acc where acc: "scan_digits (int b) (of_nat (L div b)) (int (L mod b)) x (ds' @ c0 # r) 0 0 =
      Inr (acc, if V > L then -1 else 1, r)" "V \<le> L \<longrightarrow> acc = of_nat V"
    using scan_digits_value [OF b L32, of 0 0 ds c0 r x "ds' @ c0 # r"] ds c0 x V
    by auto
  have lim: "(0xffffffff :: u32) = of_nat L" by (simp add: L_def)
  have "(of_nat L :: u32) div of_nat b = of_nat (L div b)" "(of_nat L :: u32) mod of_nat b = of_nat (L mod b)"
    using b by (auto simp: L_def word_arith_nat_div word_arith_nat_mod unat_of_nat)
  moreover have "L mod b < 2 ^ 32" using L32 by (meson mod_less_eq_dividend le_less_trans)
  then have "uint (of_nat (L mod b) :: u32) = int (L mod b)"
    by (simp add: unsigned_of_nat take_bit_nat_eq_self)
  ultimately have L: "uint (of_nat L mod of_nat b :: u32) = int (L mod b)"
    "(of_nat L :: u32) div of_nat b = of_nat (L div b)" by simp_all
  from num(1) obtain cs where cs: "skip_space ?s = Inr cs" "scan_sign cs = Inr (neg, x, ds' @ c0 # r)"
    by (auto simp: bindR_eq_Inr)
  have "strtoul ?s (int b) = Inr (if V > L then of_nat L else if neg then - of_nat V else of_nat V,
      Some (length (ws @ sign_bytes neg @ ds)))"
    using b cs num(2) L [folded lim] lim acc by (auto simp: strtoul_def Let_def x)
  then show ?thesis by (auto simp: L_def x)
qed

subsection \<open>Printing\<close>

lemma utoa_reverse_nth:
  "i < length xs \<Longrightarrow> length (utoa_reverse xs j i) = length xs \<and>
   (\<forall>k < length xs. utoa_reverse xs j i ! k = (if j \<le> k \<and> k \<le> i then xs ! (j + i - k) else xs ! k))"
proof (induction xs j i rule: utoa_reverse.induct)
  case (1 xs j i)
  show ?case
  proof (cases "j < i")
    case True
    let ?xs = "xs[j := xs ! i, i := xs ! j]"
    have IH: "length (utoa_reverse ?xs (Suc j) (i - 1)) = length xs \<and>
      (\<forall>k < length xs. utoa_reverse ?xs (Suc j) (i - 1) ! k =
        (if Suc j \<le> k \<and> k \<le> i - 1 then ?xs ! (Suc j + (i - 1) - k) else ?xs ! k))"
      using 1 True by auto
    have eq: "utoa_reverse xs j i = utoa_reverse ?xs (Suc j) (i - 1)"
      using True by (subst utoa_reverse.simps) simp
    have "utoa_reverse xs j i ! k = (if j \<le> k \<and> k \<le> i then xs ! (j + i - k) else xs ! k)"
      if k: "k < length xs" for k
    proof -
      have e: "utoa_reverse xs j i ! k =
          (if Suc j \<le> k \<and> k \<le> i - 1 then ?xs ! (Suc j + (i - 1) - k) else ?xs ! k)"
        using IH k unfolding eq by blast
      consider "k = j" | "k = i" | "Suc j \<le> k" "k \<le> i - 1" | "k < j" | "i < k"
        using True by linarith
      then show ?thesis
        using True k 1(2) unfolding e by cases (auto simp: nth_list_update)
    qed
    then show ?thesis using IH eq by auto
  next
    case False
    then show ?thesis using 1(2) by (subst (1 2) utoa_reverse.simps) (auto dest: le_antisym)
  qed
qed

lemma utoa_reverse_rev: "xs \<noteq> [] \<Longrightarrow> utoa_reverse xs 0 (length xs - 1) = rev xs"
  using utoa_reverse_nth [of "length xs - 1" xs 0]
  by (intro nth_equalityI) (auto simp: rev_nth)

lemma lower_digits_val: "i < 36 \<Longrightarrow> digit_val (lower_digits ! i) = Some (int i)"
proof -
  have "list_all (\<lambda>i. digit_val (lower_digits ! i) = Some (int i)) [0..<36]" by code_simp
  moreover assume "i < 36"
  ultimately show ?thesis by (auto simp: list_all_iff)
qed

lemma utoa_digits_ok:
  "2 \<le> b \<Longrightarrow> b \<le> 36 \<Longrightarrow> is_digits b (rev (utoa_digits v (of_nat b))) \<and>
   digits_from b 0 (rev (utoa_digits v (of_nat b))) = unat v"
proof (induction "unat v" arbitrary: v rule: less_induct)
  case less
  let ?b = "of_nat b :: u32" and ?d = "lower_digits ! unat (v mod of_nat b)"
  have b: "unat ?b = b" "2 \<le> ?b"
    using less.prems by (auto simp: unat_of_nat word_le_nat_alt)
  have d: "unat (v mod ?b) = unat v mod b" "unat (v div ?b) = unat v div b"
    using b less.prems by (auto simp: unat_mod unat_div)
  have "unat v mod b < 36" using less.prems by (intro less_le_trans [OF mod_less_divisor]) auto
  moreover have mb: "unat v mod b < b" using less.prems by simp
  ultimately have dv: "digit_val ?d = Some (int (unat v mod b))"
    using d by (simp add: lower_digits_val)
  show ?case
  proof (cases "v div ?b = 0")
    case True
    then have "unat v div b = 0" using d by (metis unat_0)
    then have "unat v < b" using less.prems by (simp add: div_eq_0_iff)
    then have "int (unat v) < int b" "unat v mod b = unat v" by linarith (simp add: \<open>unat v < b\<close>)
    then show ?thesis
      using True d dv by (subst (1 2) utoa_digits.simps) (simp add: is_digits_def)
  next
    case False
    then have "0 < unat v" by (intro gr0I) (auto simp: unat_eq_zero)
    then have "unat v div b < unat v"
      using less.prems by (intro div_less_dividend) auto
    then have IH: "is_digits b (rev (utoa_digits (v div ?b) ?b))"
      "digits_from b 0 (rev (utoa_digits (v div ?b) ?b)) = unat v div b"
      using less.hyps [of "v div ?b"] less.prems d by auto
    then show ?thesis
      using False b d dv mb
      by (subst (1 2) utoa_digits.simps) (auto simp: is_digits_def digits_from_append)
  qed
qed

lemma utoa_digits_Nil [simp]: "utoa_digits v b \<noteq> []"
  by (subst utoa_digits.simps) simp

text \<open>\<open>utoa\<close> stores a digit string with the value of its argument.\<close>

lemma utoa_string:
  assumes "2 \<le> b" "b \<le> 36"
  obtains ds where "utoa v (int b) = (True, ds @ [0])" "is_digits b ds" "ds \<noteq> []"
    "digits_from b 0 ds = unat v"
  using utoa_digits_ok [OF assms, of v] assms utoa_reverse_rev [OF utoa_digits_Nil, of v "of_nat b"]
  by (intro that [of "rev (utoa_digits v (of_nat b))"]) (simp_all add: utoa_def Let_def)

lemma nul_no_digit: "no_digit b 0"
  by (simp add: no_digit_def digit_val_def)

lemma no_hex_prefix:
  assumes "is_digits b ds" "ds \<noteq> []"
  shows "b \<noteq> 16 \<or> hd ds \<noteq> 48 \<or> hd (tl ds @ [0]) \<notin> {88, 120}"
proof (cases "tl ds")
  case (Cons c t)
  then have "c \<in> set ds" using assms by (metis list.set_intros(1) list.set_sel(2))
  then obtain d where "digit_val c = Some d" "d < int b" using assms by (auto simp: is_digits_def)
  then show ?thesis using Cons by (auto simp: digit_val_def)
qed simp

text \<open>
  C38. Reading back what \<open>utoa\<close> printed gives the number again, in every base from 2 to 36,
  and consumes exactly the printed digits.
\<close>
theorem strtoul_utoa:
  assumes "2 \<le> b" "b \<le> 36"
  shows "\<exists>e. strtoul (snd (utoa v (int b)) @ r) (int b) = Inr (v, Some e) \<and>
    Suc e = length (snd (utoa v (int b)))"
proof -
  obtain ds where ds: "utoa v (int b) = (True, ds @ [0])" "is_digits b ds" "ds \<noteq> []"
    "digits_from b 0 ds = unat v"
    using utoa_string [OF assms] .
  have "strtoul ([] @ sign_bytes False @ ds @ 0 # r) (int b) = Inr (v, Some (length ds))"
    using strtoul_number [OF _ ds(2,3) assms nul_no_digit no_hex_prefix [OF ds(2,3)] refl, of "[]" False r]
    by (simp add: sign_bytes_def ds(4) unat_u32)
  then show ?thesis by (simp add: ds sign_bytes_def)
qed

text \<open>An \<open>int\<close> in decimal.\<close>

definition decimal :: "u32 \<Rightarrow> byte list" where
  "decimal n = (if sint n < 0 then [45] else []) @ butlast (snd (utoa (if sint n < 0 then - n else n) 10))"

lemma itoa_decimal: "itoa v 10 = (if v = 0x80000000 then Inl Undef else Inr (True, decimal v @ [0]))"
proof -
  have s: "sint (0x80000000 :: u32) < 0" by simp
  have "snd (utoa u 10) \<noteq> [] \<and> last (snd (utoa u 10)) = 0" for u by (simp add: utoa_def Let_def)
  then have "butlast (snd (utoa u 10)) @ [0] = snd (utoa u 10)" for u by (metis append_butlast_last_id)
  then show ?thesis using s by (auto simp: itoa_def decimal_def)
qed

lemma strtol_reads: "strtol (decimal v @ 0 # r) 10 = Inr (v, Some (length (decimal v)))"
proof -
  define neg where "neg = (sint v < 0)"
  let ?u = "if neg then - v else v"
  obtain ds where ds: "utoa ?u (int 10) = (True, ds @ [0])" "is_digits 10 ds" "ds \<noteq> []"
    "digits_from 10 0 ds = unat ?u"
    by (rule utoa_string [of 10 ?u]) auto
  have it: "decimal v = sign_bytes neg @ ds"
    using ds(1) by (auto simp: decimal_def neg_def sign_bytes_def)
  have V: "neg \<longrightarrow> unat ?u \<le> 2 ^ 31" "\<not> neg \<longrightarrow> unat ?u < 2 ^ 31"
    by (auto simp: neg_def sint_u32_neg unat_u32_minus)
  have "strtol ([] @ sign_bytes neg @ ds @ 0 # r) (int 10) = Inr (v, Some (length (sign_bytes neg @ ds)))"
    using strtol_number [OF _ ds(2,3) _ _ nul_no_digit no_hex_prefix [OF ds(2,3)] refl, of "[]" neg r] V
    by (simp add: ds(4))
  then show ?thesis by (simp add: it)
qed

text \<open>
  C39. Reading back in base 10 what \<open>itoa\<close> printed gives the number again and consumes exactly the printed characters, for every
  \<open>int\<close> except the most negative one, for which (and only for which) the negation in \<open>itoa\<close> is undefined.
\<close>
theorem strtol_itoa:
  "if v = 0x80000000 then itoa v 10 = Inl Undef
   else \<exists>bs e. itoa v 10 = Inr (True, bs) \<and> strtol (bs @ r) 10 = Inr (v, Some e) \<and> Suc e = length bs"
  using strtol_reads [of v r] by (simp add: itoa_decimal)

text \<open>
  C40. \<open>strtol\<close> on white space, an optional minus sign and a digit string in a base from 2 to 36:
  the value is the number clamped to the range of \<open>long\<close>, and \<open>*endptr\<close> is set to the first
  character after the digits.
\<close>
theorem strtol_clamps:
  assumes "list_all isspace ws" and "is_digits b ds" "ds \<noteq> []" and "2 \<le> b" "b \<le> 36"
    and "no_digit b c0" and "b \<noteq> 16 \<or> hd ds \<noteq> 48 \<or> hd (tl ds @ [c0]) \<notin> {88, 120}"
  shows "\<exists>v. strtol (ws @ sign_bytes neg @ ds @ c0 # r) (int b) =
      Inr (v, Some (length (ws @ sign_bytes neg @ ds))) \<and>
    sint v = max (- 2147483648) (min 2147483647
      ((if neg then -1 else 1) * int (digits_from b 0 ds)))"
proof -
  define V where "V = digits_from b 0 ds"
  have "sint (if neg then (if V \<le> 2 ^ 31 then - of_nat V else 0x80000000)
         else (if V < 2 ^ 31 then of_nat V else 0x7fffffff) :: u32) =
       max (- 2147483648) (min 2147483647 ((if neg then -1 else 1) * int V))"
    by (auto simp: sint_of_nat_u32 sint_minus_of_nat_u32)
  then show ?thesis
    using strtol_number [OF assms V_def] unfolding V_def by blast
qed

theorem strtol_clamps_witness:
  "\<exists>v. strtol (bytes_of ''  -99999999999.'') 10 = Inr (v, Some (length (bytes_of ''  -99999999999''))) \<and> sint v = - 2147483648"
  using strtol_clamps [of "[32, 32]" 10 "bytes_of ''99999999999''" 46 True "[]"]
  by (simp add: bytes_of_def sign_bytes_def isspace_def is_digits_def digit_val_def no_digit_def)

theorem strtoul_utoa_witness:
  "\<exists>e. strtoul (snd (utoa 48879 16) @ [1]) 16 = Inr (48879, Some e) \<and> Suc e = length (snd (utoa 48879 16))"
  using strtoul_utoa [of 16 48879 "[1]"] by simp

end
