(* ===== verification/LibStdio.thy ===== *)
theory LibStdio
  imports LibStdlib
begin

text \<open>
  \<open>lib/src/stdio.c\<close>: formatted output. The functions append to the buffer \<open>str\<close>; the model
  returns the bytes they append. An argument list is a list of \<open>va\<close> values, one per
  \<open>va_arg\<close>; taking an argument that is not there, or of the other kind, is \<open>Inl Undef\<close>.
  Widths and precisions are C \<open>int\<close>s modelled by \<open>int\<close>; the one place where they can
  overflow, \<open>skip_atoi\<close>, checks the range of \<open>int\<close>.
\<close>

datatype va = VInt u32 | VPtr "byte list option"

text \<open>The flags of \<open>number()\<close>.\<close>

definition ZEROPAD :: u32 where "ZEROPAD = 1"
definition SIGN :: u32 where "SIGN = 2"
definition PLUS :: u32 where "PLUS = 4"
definition SPACE :: u32 where "SPACE = 8"
definition LEFT :: u32 where "LEFT = 16"
definition HEX_PREP :: u32 where "HEX_PREP = 32"
definition UPPERCASE :: u32 where "UPPERCASE = 64"

lemmas flag_defs = ZEROPAD_def SIGN_def PLUS_def SPACE_def LEFT_def HEX_PREP_def UPPERCASE_def

definition flag :: "u32 \<Rightarrow> u32 \<Rightarrow> bool" where
  "flag type f \<longleftrightarrow> type AND f \<noteq> 0"

definition upper_digits :: "byte list" where
  "upper_digits = bytes_of ''0123456789ABCDEFGHIJKLMNOPQRSTUVWXYZ''"

definition is_digit :: "byte \<Rightarrow> bool" where
  "is_digit c \<longleftrightarrow> 48 \<le> c \<and> c \<le> 57"

fun skip_atoi_loop :: "byte list \<Rightarrow> int \<Rightarrow> (int \<times> byte list) res" where
  "skip_atoi_loop [] i = Inl Undef"
| "skip_atoi_loop (c # s) i =
     (if is_digit c then
        if i * 10 + uint c > 2147483647 then Inl Undef
        else skip_atoi_loop s (i * 10 + uint c - 48)
      else Inr (i, c # s))"

definition skip_atoi :: "byte list \<Rightarrow> (int \<times> byte list) res" where
  "skip_atoi s = skip_atoi_loop s 0"

subsection \<open>Numbers\<close>

text \<open>\<open>while (size-- > 0) *str++ = c;\<close>: the bytes and the value of \<open>size\<close> afterwards.\<close>

definition pad :: "byte \<Rightarrow> int \<Rightarrow> byte list \<times> int" where
  "pad c sz = (replicate (nat sz) c, if sz > 0 then -1 else sz - 1)"

text \<open>The digits in \<open>tmp\<close>, the least significant one first; empty for 0.\<close>

function number_digits :: "byte list \<Rightarrow> u32 \<Rightarrow> u32 \<Rightarrow> byte list" where
  "number_digits dig base num =
     (if num = 0 \<or> base < 2 then []
      else dig ! unat (num mod base) # number_digits dig base (num div base))"
  by pat_completeness auto
termination
proof (relation "measure (\<lambda>(dig, base, num). unat num)", goal_cases)
  case (2 dig base num)
  then have "unat num \<noteq> 0" "2 \<le> unat base"
    by (auto simp: unat_eq_zero word_le_nat_alt not_less)
  then have "unat num div unat base < unat num" by (intro div_less_dividend) auto
  then show ?case by (simp add: unat_div)
qed simp

declare number_digits.simps [simp del]

text \<open>
  \<open>None\<close> is the result 0 for an unsupported base. A negative number is negated as a \<open>long\<close>, which overflows for the least one.
\<close>

definition number :: "u32 \<Rightarrow> int \<Rightarrow> int \<Rightarrow> int \<Rightarrow> u32 \<Rightarrow> byte list option res" where
  "number num base sz precision type =
     (let dig = (if flag type UPPERCASE then upper_digits else lower_digits);
          type = (if flag type LEFT then type AND NOT ZEROPAD else type)
      in if base < 2 \<or> base > 36 then Inr None
      else if flag type SIGN \<and> num = 0x80000000 then Inl Undef else
      let c = (if flag type ZEROPAD then 48 else 32);
          neg = flag type SIGN \<and> sint num < 0;
          sign = (if \<not> flag type SIGN then []
                  else if sint num < 0 then [45]
                  else if flag type PLUS then [43]
                  else if flag type SPACE then [32] else []);
          num = (if neg then - num else num);
          sz = (if sign \<noteq> [] then sz - 1 else sz);
          sz = (if flag type HEX_PREP then (if base = 16 then sz - 2
                                              else if base = 8 then sz - 1 else sz)
                  else sz);
          tmp = (if num = 0 then [48] else number_digits dig (word_of_int base) num);
          i = int (length tmp);
          precision = (if i > precision then i else precision);
          sz = sz - precision;
          (out1, sz) = (if \<not> flag type (ZEROPAD OR LEFT) then pad 32 sz else ([], sz));
          prep = (if flag type HEX_PREP then (if base = 8 then [48]
                                              else if base = 16 then [48, lower_digits ! 33] else [])
                  else []);
          (out2, sz) = (if \<not> flag type LEFT then pad c sz else ([], sz));
          zeros = replicate (nat (precision - i)) 48;
          (out3, sz) = pad 32 sz
      in Inr (Some (out1 @ sign @ prep @ out2 @ zeros @ rev tmp @ out3)))"

subsection \<open>Addresses\<close>

text \<open>\<open>while (len < size--) *str++ = ' ';\<close> before or after the text, as \<open>LEFT\<close> says.\<close>

definition pad_text :: "byte list \<Rightarrow> int \<Rightarrow> bool \<Rightarrow> byte list" where
  "pad_text tmp sz left =
     (let blanks = replicate (nat (sz - int (length tmp))) 32
      in if left then tmp @ blanks else blanks @ tmp)"

fun eaddr_text :: "byte list \<Rightarrow> byte list \<Rightarrow> nat \<Rightarrow> byte list res" where
  "eaddr_text dig addr 0 = Inr []"
| "eaddr_text dig addr (Suc k) =
     bindR (eaddr_text dig addr k) (\<lambda>tmp. bindR (rdR addr k) (\<lambda>a.
       Inr (tmp @ (if k \<noteq> 0 then [58] else []) @
            [dig ! unat (drop_bit 4 a), dig ! unat (a AND 15)])))"

definition eaddr :: "byte list \<Rightarrow> int \<Rightarrow> u32 \<Rightarrow> byte list res" where
  "eaddr addr sz type =
     mapR (\<lambda>tmp. pad_text tmp sz (flag type LEFT))
       (eaddr_text (if flag type UPPERCASE then upper_digits else lower_digits) addr 6)"

text \<open>One byte in decimal, without leading zeros.\<close>

definition iaddr_byte :: "byte \<Rightarrow> byte list" where
  "iaddr_byte a =
     (let n = unat a in
      if n = 0 then [lower_digits ! 0]
      else (if n \<ge> 100 then [lower_digits ! (n div 100), lower_digits ! (n mod 100 div 10)]
            else if n \<ge> 10 then [lower_digits ! (n div 10)] else []) @
           [lower_digits ! (if n \<ge> 100 then n mod 100 mod 10 else if n \<ge> 10 then n mod 10 else n)])"

fun iaddr_text :: "byte list \<Rightarrow> nat \<Rightarrow> byte list res" where
  "iaddr_text addr 0 = Inr []"
| "iaddr_text addr (Suc k) =
     bindR (iaddr_text addr k) (\<lambda>tmp. bindR (rdR addr k) (\<lambda>a.
       Inr (tmp @ (if k \<noteq> 0 then [46] else []) @ iaddr_byte a)))"

definition iaddr :: "byte list \<Rightarrow> int \<Rightarrow> u32 \<Rightarrow> byte list res" where
  "iaddr addr sz type =
     mapR (\<lambda>tmp. pad_text tmp sz (flag type LEFT)) (iaddr_text addr 4)"

subsection \<open>The directives of \<open>vsprintf\<close>\<close>

fun arg_int :: "va list \<Rightarrow> (u32 \<times> va list) res" where
  "arg_int (VInt n # as) = Inr (n, as)"
| "arg_int as = Inl Undef"

fun arg_ptr :: "va list \<Rightarrow> (byte list option \<times> va list) res" where
  "arg_ptr (VPtr p # as) = Inr (p, as)"
| "arg_ptr as = Inl Undef"

text \<open>The flags after the \<open>%\<close>.\<close>

fun scan_flags :: "byte list \<Rightarrow> u32 \<Rightarrow> (u32 \<times> byte list) res" where
  "scan_flags [] flags = Inl Undef"
| "scan_flags (c # s) flags =
     (if c = 45 then scan_flags s (flags OR LEFT)
      else if c = 43 then scan_flags s (flags OR PLUS)
      else if c = 32 then scan_flags s (flags OR SPACE)
      else if c = 35 then scan_flags s (flags OR HEX_PREP)
      else if c = 48 then scan_flags s (flags OR ZEROPAD)
      else Inr (flags, c # s))"

text \<open>The field width: \<open>(field_width, flags, fmt, args)\<close>.\<close>

definition scan_width ::
  "byte list \<Rightarrow> u32 \<Rightarrow> va list \<Rightarrow> (int \<times> u32 \<times> byte list \<times> va list) res"
where
  "scan_width fmt flags args =
     bindR (rdR fmt 0) (\<lambda>c.
       if is_digit c then mapR (\<lambda>(w, s). (w, flags, s, args)) (skip_atoi fmt)
       else if c = 42 then
         bindR (arg_int args) (\<lambda>(n, args').
           if sint n < 0 then
             (if n = 0x80000000 then Inl Undef
              else Inr (- sint n, flags OR LEFT, tl fmt, args'))
           else Inr (sint n, flags, tl fmt, args'))
       else Inr (-1, flags, fmt, args))"

text \<open>The precision: \<open>(precision, fmt, args)\<close>.\<close>

definition scan_precision :: "byte list \<Rightarrow> va list \<Rightarrow> (int \<times> byte list \<times> va list) res" where
  "scan_precision fmt args =
     bindR (rdR fmt 0) (\<lambda>c.
       if c = 46 then
         bindR (rdR fmt 1) (\<lambda>d.
           if is_digit d then mapR (\<lambda>(p, s). (p, s, args)) (skip_atoi (tl fmt))
           else if d = 42 then
             bindR (arg_int args) (\<lambda>(n, args').
               Inr (if sint n < 0 then 0 else sint n, drop 2 fmt, args'))
           else Inr (0, tl fmt, args))
       else Inr (-1, fmt, args))"

definition null_text :: "byte list" where
  "null_text = bytes_of ''<NULL>'' @ [0]"

definition put_string :: "byte list option \<Rightarrow> int \<Rightarrow> int \<Rightarrow> u32 \<Rightarrow> byte list res" where
  "put_string p width precision flags =
     (let s = (case p of None \<Rightarrow> null_text | Some s \<Rightarrow> s)
      in bindR (strnlen s (unat (word_of_int precision :: u32))) (\<lambda>len.
         Inr (pad_text (take len s) width (flag flags LEFT))))"

definition put_number :: "u32 \<Rightarrow> int \<Rightarrow> int \<Rightarrow> int \<Rightarrow> u32 \<Rightarrow> byte list res" where
  "put_number num base sz precision type =
     bindR (number num base sz precision type) (\<lambda>out. case out of None \<Rightarrow> Inl Undef | Some out \<Rightarrow> Inr out)"

text \<open>
  The \<open>switch\<close> on the conversion character \<open>c\<close>, with \<open>fmt\<close> the text after it: the output,
  and the format and arguments that are left. At the end of the format (\<open>c = 0\<close>) the code
  steps back (\<open>--fmt\<close>), so that its loop sees the NUL.
\<close>

definition convert ::
  "byte \<Rightarrow> byte list \<Rightarrow> byte \<Rightarrow> int \<Rightarrow> int \<Rightarrow> u32 \<Rightarrow> va list \<Rightarrow> (byte list \<times> byte list \<times> va list) res"
where
  "convert c fmt qual width prec flags args =
     (let num = (\<lambda>base flags. bindR (arg_int args) (\<lambda>(n, args').
                   mapR (\<lambda>out. (out, fmt, args')) (put_number n base width prec flags)))
      in
      if c = 99 then
        bindR (arg_int args) (\<lambda>(n, args').
          Inr (pad_text [ucast n] width (flag flags LEFT), fmt, args'))
      else if c = 115 then
        bindR (arg_ptr args) (\<lambda>(p, args').
          mapR (\<lambda>out. (out, fmt, args')) (put_string p width prec flags))
      else if c = 112 then
        bindR (arg_int args) (\<lambda>(n, args').
          mapR (\<lambda>out. (out, fmt, args'))
            (put_number n 16 (if width = -1 then 8 else width) prec
               (if width = -1 then flags OR ZEROPAD else flags)))
      else if c = 65 \<or> c = 97 then
        let flags = (if c = 65 then flags OR UPPERCASE else flags) in
        bindR (arg_ptr args) (\<lambda>(p, args').
          case p of None \<Rightarrow> Inl Undef
          | Some addr \<Rightarrow>
              mapR (\<lambda>out. (out, fmt, args'))
                (if qual = 108 then eaddr addr width flags else iaddr addr width flags))
      else if c = 111 then num 8 flags
      else if c = 88 then num 16 (flags OR UPPERCASE)
      else if c = 120 then num 16 flags
      else if c = 100 \<or> c = 105 then num 10 (flags OR SIGN)
      else if c = 117 then num 10 flags
      else if c = 37 then Inr ([37], fmt, args)
      else if c \<noteq> 0 then Inr ([37, c], fmt, args)
      else Inr ([37], c # fmt, args))"

text \<open>One directive: everything after the \<open>%\<close>.\<close>

definition directive :: "byte list \<Rightarrow> va list \<Rightarrow> (byte list \<times> byte list \<times> va list) res" where
  "directive fmt args =
     bindR (scan_flags fmt 0) (\<lambda>(flags, fmt).
     bindR (scan_width fmt flags args) (\<lambda>(width, flags, fmt, args).
     bindR (scan_precision fmt args) (\<lambda>(prec, fmt, args).
     bindR (next_char fmt) (\<lambda>(c, rest).
       if c = 108 \<or> c = 76
       then bindR (next_char rest) (\<lambda>(c', rest'). convert c' rest' c width prec flags args)
       else convert c rest 0 width prec flags args))))"

text \<open>No step reads a character twice: what makes the loop of \<open>vsprintf\<close> end.\<close>

lemma skip_atoi_length: "skip_atoi_loop s i = Inr (j, t) \<Longrightarrow> length t \<le> length s"
  by (induction s arbitrary: i) (auto split: if_splits intro: le_SucI)

lemma scan_flags_length: "scan_flags s f = Inr (g, t) \<Longrightarrow> length t \<le> length s"
  by (induction s arbitrary: f) (auto split: if_splits intro: le_SucI)

lemma scan_width_length: "scan_width s f a = Inr (w, g, t, b) \<Longrightarrow> length t \<le> length s"
  by (auto simp: scan_width_def skip_atoi_def res_simps split: if_splits dest: skip_atoi_length)

lemma scan_precision_length: "scan_precision s a = Inr (p, t, b) \<Longrightarrow> length t \<le> length s"
  by (auto simp: scan_precision_def skip_atoi_def res_simps split: if_splits dest: skip_atoi_length)

lemma convert_length: "convert c s q w p f a = Inr (out, t, b) \<Longrightarrow> length t \<le> Suc (length s)"
  by (auto simp: convert_def Let_def res_simps split: if_splits option.splits)

lemma next_char_eq: "next_char s = Inr (c, t) \<longleftrightarrow> s = c # t"
  by (cases s) auto

lemma directive_length: "directive s a = Inr (out, t, b) \<Longrightarrow> length t \<le> length s"
  by (auto simp: directive_def res_simps next_char_eq split: if_splits
      dest!: scan_flags_length scan_width_length scan_precision_length convert_length)

function vsprintf :: "byte list \<Rightarrow> va list \<Rightarrow> byte list res" where
  "vsprintf [] args = Inl Undef"
| "vsprintf (c # fmt) args =
     (if c = 0 then Inr []
      else if c \<noteq> 37 then mapR (Cons c) (vsprintf fmt args)
      else bindR (directive fmt args) (\<lambda>(out, fmt', args').
             mapR (append out) (vsprintf fmt' args')))"
  by pat_completeness auto
termination
  by (relation "measure (\<lambda>(fmt, args). length fmt)") (auto dest!: directive_length)

declare vsprintf.simps [simp del]

text \<open>
  \<open>sprintf\<close> and \<open>vcprintf\<close> print into a buffer (\<open>vcprintf\<close>: 512 bytes); the text and its
  NUL must fit. \<open>vcprintf\<close> returns the length and hands \<open>putstr\<close> the text up to the first NUL.
\<close>

definition sprintf :: "byte list \<Rightarrow> byte list \<Rightarrow> va list \<Rightarrow> (nat \<times> byte list) res" where
  "sprintf buf fmt args =
     bindR (vsprintf fmt args) (\<lambda>out.
       if length out < length buf then Inr (length out, put_at 0 (out @ [0]) buf) else Inl Undef)"

definition vcprintf :: "byte list \<Rightarrow> va list \<Rightarrow> (nat \<times> byte list) res" where
  "vcprintf fmt args =
     bindR (vsprintf fmt args) (\<lambda>out.
       if length out < 512 then Inr (length out, takeWhile (\<lambda>c. c \<noteq> 0) out) else Inl Undef)"


section \<open>What the functions print\<close>

lemma flag_simps [simp]:
  "flag 0 f = False"
  "flag SIGN SIGN" "\<not> flag SIGN LEFT" "\<not> flag SIGN PLUS" "\<not> flag SIGN SPACE"
  "\<not> flag SIGN ZEROPAD" "\<not> flag SIGN HEX_PREP" "\<not> flag SIGN UPPERCASE"
  "\<not> flag SIGN (ZEROPAD OR LEFT)"
  by (simp_all add: flag_def flag_defs)

lemma number_digits_utoa:
  "2 \<le> base \<Longrightarrow> num \<noteq> 0 \<Longrightarrow> number_digits lower_digits base num = utoa_digits num base"
proof (induction "unat num" arbitrary: num rule: less_induct)
  case less
  have base: "\<not> base < 2" using less.prems by auto
  show ?case
  proof (cases "num div base = 0")
    case True
    then show ?thesis using less.prems base
      by (subst number_digits.simps, subst utoa_digits.simps) (simp add: number_digits.simps [of _ _ 0])
  next
    case False
    have "2 \<le> unat base" using less.prems by (simp add: word_le_nat_alt)
    moreover have "unat num \<noteq> 0" using less.prems by (simp add: unat_eq_zero)
    ultimately have "unat (num div base) < unat num"
      by (simp add: unat_div)
    then have "number_digits lower_digits base (num div base) = utoa_digits (num div base) base"
      using less.hyps less.prems False by blast
    then show ?thesis using less.prems base False
      by (subst number_digits.simps, subst utoa_digits.simps) simp
  qed
qed

lemma number_tmp:
  "2 \<le> base \<Longrightarrow>
   (if num = 0 then [48] else number_digits lower_digits base num) = utoa_digits num base"
proof (cases "num = 0")
  case True
  have "lower_digits ! 0 = 48" by (simp add: lower_digits_def bytes_of_def)
  moreover assume "2 \<le> base"
  ultimately show ?thesis using True by (subst utoa_digits.simps) simp
qed (simp add: number_digits_utoa)

lemma mapR_append_Nil [simp]: "mapR (append []) m = m"
  by (cases m) auto

lemma pad_none [simp]: "sz \<le> 0 \<Longrightarrow> pad c sz = ([], sz - 1)"
  by (simp add: pad_def)

lemma utoa_bytes:
  "2 \<le> b \<Longrightarrow> b \<le> 36 \<Longrightarrow> snd (utoa v (int b)) = rev (utoa_digits v (of_nat b)) @ [0]"
  using utoa_reverse_rev [OF utoa_digits_Nil, of v "of_nat b"] by (simp add: utoa_def Let_def)

lemma number_plain:
  "number n 10 (-1) (-1) SIGN = (if n = 0x80000000 then Inl Undef else Inr (Some (decimal n)))"
  "number n 10 (-1) (-1) 0 = Inr (Some (butlast (snd (utoa n 10))))"
  "number n 16 (-1) (-1) 0 = Inr (Some (butlast (snd (utoa n 16))))"
proof -
  have tmp: "utoa_digits 0 10 = [48]" "utoa_digits 0 16 = [48]"
    "num \<noteq> 0 \<Longrightarrow> number_digits lower_digits 10 num = utoa_digits num 10"
    "num \<noteq> 0 \<Longrightarrow> number_digits lower_digits 16 num = utoa_digits num 16" for num
    using number_tmp [of 10 0] number_tmp [of 16 0] number_digits_utoa [of 10 num]
      number_digits_utoa [of 16 num] by simp_all
  have dec: "snd (utoa v 10) = rev (utoa_digits v 10) @ [0]" for v using utoa_bytes [of 10 v] by simp
  have hex: "snd (utoa v 16) = rev (utoa_digits v 16) @ [0]" for v using utoa_bytes [of 16 v] by simp
  show "number n 10 (-1) (-1) SIGN = (if n = 0x80000000 then Inl Undef else Inr (Some (decimal n)))"
    unfolding number_def Let_def
    by (cases "sint n < 0") (simp_all add: tmp dec decimal_def butlast_append)
  show "number n 10 (-1) (-1) 0 = Inr (Some (butlast (snd (utoa n 10))))"
    unfolding number_def Let_def by (simp add: tmp dec butlast_append)
  show "number n 16 (-1) (-1) 0 = Inr (Some (butlast (snd (utoa n 16))))"
    unfolding number_def Let_def by (simp add: tmp hex butlast_append)
qed

lemma vsprintf_literal: "0 \<notin> set s \<Longrightarrow> 37 \<notin> set s \<Longrightarrow>
  vsprintf (s @ fmt) args = mapR (append s) (vsprintf fmt args)"
proof (induction s)
  case (Cons c s)
  then have "vsprintf ((c # s) @ fmt) args = mapR (Cons c) (vsprintf (s @ fmt) args)"
    by (simp add: vsprintf.simps)
  then show ?case using Cons by simp
qed simp

lemma vsprintf_end: "vsprintf (0 # r) args = Inr []"
  by (simp add: vsprintf.simps)

lemma directive_plain:
  assumes "c \<in> {99, 115, 112, 65, 97, 111, 88, 120, 100, 105, 117, 37}"
  shows "directive (c # fmt) args = convert c fmt 0 (-1) (-1) 0 args"
  using assms
  by (auto simp: directive_def scan_width_def scan_precision_def is_digit_def)

lemma vsprintf_directive: "vsprintf (37 # fmt) args =
    bindR (directive fmt args) (\<lambda>(out, fmt', args'). mapR (append out) (vsprintf fmt' args'))"
  by (simp add: vsprintf.simps)

text \<open>
  \<open>%d\<close> prints exactly what \<open>itoa\<close> stores in base 10 (and is undefined with it for the least \<open>int\<close>), \<open>%u\<close> what \<open>utoa\<close> stores in base
  10 and \<open>%x\<close> what it stores in base 16; the rest of the format is printed after it.
\<close>
lemma vsprintf_number:
  "vsprintf (bytes_of ''%d'' @ fmt) (VInt n # args) =
     bindR (itoa n 10) (\<lambda>(_, bs). mapR (append (butlast bs)) (vsprintf fmt args)) \<and>
   vsprintf (bytes_of ''%u'' @ fmt) (VInt n # args) =
     mapR (append (butlast (snd (utoa n 10)))) (vsprintf fmt args) \<and>
   vsprintf (bytes_of ''%x'' @ fmt) (VInt n # args) =
     mapR (append (butlast (snd (utoa n 16)))) (vsprintf fmt args)"
  by (simp add: bytes_of_def vsprintf_directive directive_plain convert_def put_number_def number_plain itoa_decimal)

text \<open>
  \<open>%s\<close> prints a string up to its NUL, and a null pointer as \<open><NULL>\<close>; with a field width
  the text is padded with blanks on the left to at least that many characters.
\<close>
lemma vsprintf_string:
  assumes "0 \<notin> set s" and "length s < 4294967295"
  shows "vsprintf (bytes_of ''%s'' @ fmt) (VPtr (Some (s @ 0 # r)) # args) =
     mapR (append s) (vsprintf fmt args) \<and>
   vsprintf (bytes_of ''%s'' @ fmt) (VPtr None # args) =
     mapR (append (bytes_of ''<NULL>'')) (vsprintf fmt args) \<and>
   vsprintf (bytes_of ''%8s'' @ fmt) (VPtr (Some (s @ 0 # r)) # args) =
     mapR (append (replicate (8 - length s) 32 @ s)) (vsprintf fmt args)"
proof -
  have len: "strnlen (s @ 0 # r) 4294967295 = Inr (length s)"
    "strnlen null_text 4294967295 = Inr 6"
    using assms strnlen_cstr [of "bytes_of ''<NULL>''" "[]" 4294967295]
    by (auto simp: strnlen_cstr null_text_def bytes_of_def)
  have w: "directive (56 # 115 # fmt) args = convert 115 fmt 0 8 (-1) 0 args" for args
    by (simp add: directive_def scan_width_def scan_precision_def is_digit_def skip_atoi_def)
  have m: "unat (- 1 :: u32) = 4294967295" by (simp add: unat_u32_minus)
  have n: "strnlen [60, 78, 85, 76, 76, 62, 0] 4294967295 = Inr 6"
    using len(2) by (simp add: null_text_def bytes_of_def)
  have k: "nat (8 - int (length s)) = 8 - length s" by arith
  show ?thesis
    using len n m k by (simp add: bytes_of_def vsprintf_directive directive_plain w convert_def
      put_string_def pad_text_def null_text_def)
qed


theorem vsprintf_string_witness:
  "vsprintf (bytes_of ''%8s'' @ [0]) [VPtr (Some (bytes_of ''abc'' @ [0]))] =
     Inr (replicate 5 32 @ bytes_of ''abc'')"
  using vsprintf_string [of "bytes_of ''abc''" "[0]" "[]" "[]"]
  by (simp add: vsprintf_end, simp add: bytes_of_def vsprintf_end)

text \<open>The three paddings of \<open>number\<close> together fill the width, whichever of them are taken.\<close>

lemma pads_total:
  assumes "p1 = (if b1 then pad 32 s else ([], s))"
    and "p2 = (if b2 then pad c (snd p1) else ([], snd p1))"
  shows "length (fst p1) + length (fst p2) + length (fst (pad 32 (snd p2))) = nat s"
  unfolding assms by (cases b1; cases b2; simp add: pad_def)

lemma number_length:
  assumes "number n base sz prec type = Inr (Some out)"
  obtains K where "length out = nat (sz - int K) + K"
    "\<And>sz out. number n base sz prec type = Inr (Some out) \<Longrightarrow> length out = nat (sz - int K) + K"
proof -
  define dig where "dig = (if flag type UPPERCASE then upper_digits else lower_digits)"
  define ty where "ty = (if flag type LEFT then type AND NOT ZEROPAD else type)"
  define sign :: "byte list" where "sign = (if \<not> flag ty SIGN then [] else if sint n < 0 then [45]
     else if flag ty PLUS then [43] else if flag ty SPACE then [32] else [])"
  define num where "num = (if flag ty SIGN \<and> sint n < 0 then - n else n)"
  define tmp where "tmp = (if num = 0 then [48] else number_digits dig (word_of_int base) num)"
  define prep :: "byte list" where "prep = (if flag ty HEX_PREP then (if base = 8 then [48]
     else if base = 16 then [48, lower_digits ! 33] else []) else [])"
  define pr where "pr = (if int (length tmp) > prec then int (length tmp) else prec)"
  define c :: byte where "c = (if flag ty ZEROPAD then 48 else 32)"
  define p1 where "p1 = (\<lambda>s. if \<not> flag ty (ZEROPAD OR LEFT) then pad 32 s else ([], s))"
  define p2 where "p2 = (\<lambda>s. if \<not> flag ty LEFT then pad c (snd (p1 s)) else ([], snd (p1 s)))"
  define p3 where "p3 = (\<lambda>s. pad 32 (snd (p2 s)))"
  define K where "K = length sign + length prep + nat pr"
  have pr: "int (length tmp) \<le> pr" by (simp add: pr_def)
  have sz: "(if flag ty HEX_PREP then (if base = 16 then (if sign \<noteq> [] then sz - 1 else sz) - 2
        else if base = 8 then (if sign \<noteq> [] then sz - 1 else sz) - 1
        else (if sign \<noteq> [] then sz - 1 else sz))
      else (if sign \<noteq> [] then sz - 1 else sz)) - pr = sz - int K" for sz
  proof -
    have "length sign = (if sign \<noteq> [] then 1 else 0)" by (simp add: sign_def)
    moreover have "length prep = (if flag ty HEX_PREP then (if base = 16 then 2
        else if base = 8 then 1 else 0) else 0)" by (simp add: prep_def)
    moreover have "int (nat pr) = pr" using pr by simp
    ultimately show ?thesis unfolding K_def by auto
  qed
  have out: "out = fst (p1 (sz - int K)) @ sign @ prep @ fst (p2 (sz - int K)) @
      replicate (nat (pr - int (length tmp))) 48 @ rev tmp @ fst (p3 (sz - int K))"
    if "number n base sz prec type = Inr (Some out)" for sz out
    using that
    unfolding number_def Let_def split_beta p3_def p2_def p1_def
    unfolding dig_def [symmetric] ty_def [symmetric] sign_def [symmetric] num_def [symmetric]
      tmp_def [symmetric] pr_def [symmetric] c_def [symmetric] prep_def [symmetric] sz
    by (simp only: option.distinct option.inject sum.distinct sum.inject split: if_split_asm)
  have "length out = nat (sz - int K) + K" if "number n base sz prec type = Inr (Some out)" for sz out
    using pads_total [OF fun_cong [OF p1_def] fun_cong [OF p2_def], of "sz - int K"] pr
    unfolding out [OF that] p3_def by (simp add: K_def)
  then show ?thesis using assms that by blast
qed

text \<open>
  A field width is a minimum: \<open>number\<close> prints exactly as many characters as the text
  without a width has, or the width if that is more, whatever the flags, base and precision.
\<close>
lemma number_width:
  assumes "number n base sz prec type = Inr (Some out)" and "number n base 0 prec type = Inr (Some text)"
  shows "length out = max (nat sz) (length text)"
proof -
  obtain K where "length out = nat (sz - int K) + K" "length text = nat (0 - int K) + K"
    using number_length [OF assms(1)] assms(2) by metis
  then show ?thesis by auto
qed

theorem number_width_witness:
  "\<exists>out. number 48879 16 12 (-1) (HEX_PREP OR ZEROPAD) = Inr (Some out) \<and>
     length out = max 12 (length (bytes_of ''0xbeef''))"
proof -
  obtain out where out: "number 48879 16 12 (-1) (HEX_PREP OR ZEROPAD) = Inr (Some out)"
    by (cases "number 48879 16 12 (-1) (HEX_PREP OR ZEROPAD)"; cases "projr (number 48879 16 12 (-1) (HEX_PREP OR ZEROPAD))")
      (auto simp: number_def Let_def split: prod.splits if_splits)
  have plain: "number 48879 16 0 (-1) (HEX_PREP OR ZEROPAD) = Inr (Some (bytes_of ''0xbeef''))"
    by code_simp
  show ?thesis using number_width [OF out plain] out by simp
qed

end
