(* ===== verification/Disk.thy ===== *)
theory Disk
  imports Prelude "HOL-Library.Signed_Division"
begin

unbundle bit_operations_syntax

text \<open>
  \<open>kernel/src/disk.c\<close>: programmed transfers of 512-byte sectors, and the 16-entry
  direct-mapped block cache above them. The drive is hardware: what it keeps for the values
  written to its four address registers, 128 words of 32 bits, read and written in order
  through the data port; it is always ready. \<open>sects\<close> is its contents, so nothing is assumed
  about how it turns the registers into a place on the medium.

  The cache is write-through. \<open>blk\<close> is the store of 4096-byte blocks a client sees, and the
  laws of \<open>bread\<close>, \<open>bwrite\<close> and \<open>bzero\<close> over it are the locale \<open>block_store\<close>.
\<close>

section \<open>Sectors\<close>

type_synonym regs = "byte \<times> byte \<times> byte \<times> byte"

record bcache_t =
  bc_valid :: u32
  bc_no :: u32
  bc_buf :: "byte list"

record disk =
  sects :: "regs \<Rightarrow> u32 list"
  blk_cache :: "bcache_t list"

text \<open>
  The values of ports \<open>0x1f3\<close> to \<open>0x1f6\<close>. \<open>outb\<close> keeps the low byte, so the arithmetic shift
  of the \<open>int\<close> and the logical one give the same values.
\<close>

definition lba_regs :: "u32 \<Rightarrow> regs" where
  "lba_regs sect = (ucast sect, ucast (drop_bit 8 sect), ucast (drop_bit 16 sect),
     ucast (drop_bit 24 sect OR 0xE0))"

text \<open>The 512 bytes put into the buffer.\<close>

definition read_disk :: "u32 \<Rightarrow> disk \<Rightarrow> byte list" where
  "read_disk sect d = concat (map (\<lambda>i. le32 (sects d (lba_regs sect) ! i)) [0 ..< 128])"

definition write_disk :: "byte list \<Rightarrow> u32 \<Rightarrow> disk \<Rightarrow> disk" where
  "write_disk buf sect d = d\<lparr>sects := (sects d)(lba_regs sect :=
     map (\<lambda>i. of_le32 (span_at (4 * i) 4 buf)) [0 ..< 128])\<rparr>"

text \<open>\<open>cur\<close> runs up to \<open>ed\<close> in steps of a sector: \<open>left\<close> is \<open>ed - cur\<close>.\<close>

fun copy_from :: "nat \<Rightarrow> u32 \<Rightarrow> disk \<Rightarrow> byte list" where
  "copy_from left sect d = (if left = 0 then [] else read_disk sect d @ copy_from (left - 512) (sect + 1) d)"

fun copy_to :: "byte list \<Rightarrow> nat \<Rightarrow> u32 \<Rightarrow> disk \<Rightarrow> disk" where
  "copy_to buf left sect d =
     (if left = 0 then d else copy_to (drop 512 buf) (left - 512) (sect + 1) (write_disk buf sect d))"

declare copy_from.simps [simp del] copy_to.simps [simp del]

definition copy_from_disk :: "nat \<Rightarrow> u32 \<Rightarrow> disk \<Rightarrow> byte list" where
  "copy_from_disk nbytes disk_offset d =
     copy_from nbytes (word_of_int (sint disk_offset sdiv 512)) d"

definition copy_to_disk :: "byte list \<Rightarrow> nat \<Rightarrow> u32 \<Rightarrow> disk \<Rightarrow> disk" where
  "copy_to_disk buf nbytes disk_offset d =
     copy_to buf nbytes (word_of_int (sint disk_offset sdiv 512)) d"

section \<open>The block cache\<close>

text \<open>The entry is named by its index in \<open>blk_cache\<close>.\<close>

definition bgetcache :: "u32 \<Rightarrow> disk \<Rightarrow> nat \<times> disk" where
  "bgetcache no d =
     (let i = unat (no mod 16); bc = blk_cache d ! i in
      if bc_valid bc = 0 \<or> bc_no bc \<noteq> no
      then (i, d\<lparr>blk_cache := (blk_cache d)
             [i := \<lparr>bc_valid = 1, bc_no = no, bc_buf = copy_from_disk 4096 (no * 4096) d\<rparr>]\<rparr>)
      else (i, d))"

definition bread :: "u32 \<Rightarrow> u32 \<Rightarrow> u32 \<Rightarrow> (disk, byte list) prog" where
  "bread size' no off =
     thenS (assertS (size' + off \<le> 4096)) (\<lambda>d.
       let (i, d) = bgetcache no d; buf = bc_buf (blk_cache d ! i) in
       if unat off + unat size' \<le> length buf
       then Inr (span_at (unat off) (unat size') buf, d) else Inl Undef)"

definition bwrite :: "byte list \<Rightarrow> u32 \<Rightarrow> u32 \<Rightarrow> u32 \<Rightarrow> (disk, unit) prog" where
  "bwrite src size' no off =
     thenS (assertS (size' + off \<le> 4096)) (\<lambda>d.
       let (i, d) = bgetcache no d; bc = blk_cache d ! i in
       if unat off + unat size' \<le> length (bc_buf bc) \<and> unat size' \<le> length src
       then let buf = put_at (unat off) (take (unat size') src) (bc_buf bc);
                d = d\<lparr>blk_cache := (blk_cache d)[i := bc\<lparr>bc_buf := buf\<rparr>]\<rparr>
            in Inr ((), copy_to_disk buf 4096 (no * 4096) d)
       else Inl Undef)"

definition bzero :: "u32 \<Rightarrow> (disk, unit) prog" where
  "bzero no = (\<lambda>d.
     let (i, d) = bgetcache no d; bc = blk_cache d ! i; buf = replicate 4096 0;
         d = d\<lparr>blk_cache := (blk_cache d)[i := bc\<lparr>bc_buf := buf\<rparr>]\<rparr>
     in Inr ((), copy_to_disk buf 4096 (no * 4096) d))"

section \<open>The blocks on the medium\<close>

definition sect_bytes :: "(regs \<Rightarrow> u32 list) \<Rightarrow> u32 \<Rightarrow> byte list" where
  "sect_bytes f s = concat (map le32 (f (lba_regs s)))"

text \<open>
  Block numbers up to \<open>2\<^sup>1\<^sup>9\<close> are those whose byte offset is an \<open>int\<close>; a client's blocks are
  the first ones, and the other numbers have no contents.
\<close>

definition blk :: "disk \<Rightarrow> u32 \<Rightarrow> byte list" where
  "blk d no = (if unat no < 524288
     then concat (map (\<lambda>k. sect_bytes (sects d) (8 * no + of_nat k)) [0 ..< 8]) else [])"

definition cache_line_ok :: "disk \<Rightarrow> nat \<Rightarrow> bool" where
  "cache_line_ok d i \<longleftrightarrow> (let bc = blk_cache d ! i in length (bc_buf bc) = 4096 \<and>
     (bc_valid bc \<noteq> 0 \<longrightarrow> unat (bc_no bc) < 524288 \<and> unat (bc_no bc mod 16) = i \<and>
        bc_buf bc = blk d (bc_no bc)))"

definition disk_ok :: "disk \<Rightarrow> bool" where
  "disk_ok d \<longleftrightarrow> (\<forall>r. length (sects d r) = 128) \<and> length (blk_cache d) = 16 \<and>
     (\<forall>i < 16. cache_line_ok d i)"

subsection \<open>Sectors and registers\<close>

lemma length_words: "length (concat (map le32 ws)) = 4 * length ws"
  by (induction ws) auto

lemma length_read_words: "length (concat (map (\<lambda>i. le32 (f i)) xs)) = 4 * length xs"
  by (induction xs) auto

lemma chunks_concat:
  "length xs = c * n \<Longrightarrow> concat (map (\<lambda>i. span_at (c * i) c xs) [0 ..< n]) = xs"
proof (induction n arbitrary: xs)
  case (Suc n)
  have "span_at (c * i) c xs = span_at (c * i) c (take (c * n) xs)" if "i < n" for i
  proof -
    have "c * Suc i \<le> c * n" using that by (intro mult_le_mono) auto
    then show ?thesis by (simp add: span_at_def drop_take min_def)
  qed
  then have "map (\<lambda>i. span_at (c * i) c xs) [0 ..< n] =
      map (\<lambda>i. span_at (c * i) c (take (c * n) xs)) [0 ..< n]"
    by (intro map_cong) auto
  then have "concat (map (\<lambda>i. span_at (c * i) c xs) [0 ..< n]) = take (c * n) xs"
    using Suc.IH [of "take (c * n) xs"] Suc.prems by (simp only:) simp
  then show ?case using Suc.prems by (simp add: span_at_def)
qed simp

lemma words_of_bytes:
  assumes "length xs = 4 * n"
  shows "concat (map (\<lambda>i. le32 (of_le32 (span_at (4 * i) 4 xs))) [0 ..< n]) = xs"
proof -
  have "map (\<lambda>i. le32 (of_le32 (span_at (4 * i) 4 xs))) [0 ..< n] = map (\<lambda>i. span_at (4 * i) 4 xs) [0 ..< n]"
    using assms by (intro map_cong) auto
  then show ?thesis using chunks_concat [OF assms] by (simp only:)
qed

lemma read_disk_bytes: "length (sects d (lba_regs s)) = 128 \<Longrightarrow> read_disk s d = sect_bytes (sects d) s"
  unfolding read_disk_def sect_bytes_def
  by (rule arg_cong [of _ _ concat]) (auto intro: nth_equalityI)

lemma length_sect_bytes: "length (f (lba_regs s)) = 128 \<Longrightarrow> length (sect_bytes f s) = 512"
  by (simp add: sect_bytes_def length_words)

lemma lba_regs_inj:
  assumes "unat s < 16777216" "unat t < 16777216" "lba_regs s = lba_regs t"
  shows "s = t"
proof (rule bit_word_eqI)
  fix n assume n: "n < LENGTH(32)"
  have high: "\<not> bit w n" if "unat w < 16777216" "24 \<le> n" for w :: u32
  proof -
    have "unat w < 2 ^ n" using that power_increasing [of 24 n "2 :: nat"] by simp
    then have "\<not> bit (unat w) n" by (simp add: bit_iff_odd)
    then show ?thesis by (simp add: bit_unsigned_iff)
  qed
  have low: "bit s m = bit t m" if m: "m < 24" for m
  proof -
    consider "m < 8" | "8 \<le> m" "m < 16" | "16 \<le> m" "m < 24" using m by fastforce
    then show ?thesis
    proof cases
      case 1
      have "bit (ucast s :: byte) m = bit (ucast t :: byte) m" using assms(3) by (simp add: lba_regs_def)
      then show ?thesis using 1 by (simp add: bit_simps)
    next
      case 2
      have "bit (ucast (drop_bit 8 s) :: byte) (m - 8) = bit (ucast (drop_bit 8 t) :: byte) (m - 8)"
        using assms(3) by (simp add: lba_regs_def)
      moreover have "m - 8 < 8" using 2 by linarith
      ultimately show ?thesis using 2 by (simp add: bit_simps)
    next
      case 3
      have "bit (ucast (drop_bit 16 s) :: byte) (m - 16) = bit (ucast (drop_bit 16 t) :: byte) (m - 16)"
        using assms(3) by (simp add: lba_regs_def)
      moreover have "m - 16 < 8" using 3 by linarith
      ultimately show ?thesis using 3 by (simp add: bit_simps)
    qed
  qed
  show "bit s n = bit t n" using low [of n] high assms by (cases "n < 24") auto
qed

text \<open>The sectors of one block are apart from each other and from those of the other blocks.\<close>

lemma unat_sect: "unat (no :: u32) < 524288 \<Longrightarrow> k < 8 \<Longrightarrow> unat (8 * no + of_nat k) = 8 * unat no + k"
  by (simp add: unat_word_ariths unat_of_nat take_bit_eq_mod)

lemma block_regs_inj:
  assumes "unat no < 524288" "unat no' < 524288" "k < 8" "k' < 8"
    and "lba_regs (8 * no + of_nat k) = lba_regs (8 * no' + of_nat k')"
  shows "no = no' \<and> k = k'"
proof -
  have u: "unat (8 * no + of_nat k) = 8 * unat no + k" "unat (8 * no' + of_nat k') = 8 * unat no' + k'"
    by (rule unat_sect [OF assms(1,3)], rule unat_sect [OF assms(2,4)])
  have "8 * no + of_nat k = 8 * no' + of_nat k'"
  proof (rule lba_regs_inj [OF _ _ assms(5)])
    show "unat (8 * no + of_nat k) < 16777216" unfolding u using assms(1,3) by linarith
    show "unat (8 * no' + of_nat k') < 16777216" unfolding u using assms(2,4) by linarith
  qed
  then have "unat (8 * no + of_nat k) = unat (8 * no' + of_nat k')" by (rule arg_cong)
  then have "8 * unat no + k = 8 * unat no' + k'" unfolding u .
  moreover have "a = b \<and> i = j" if "8 * a + i = 8 * b + j" "i < 8" "j < 8" for a b i j :: nat
    using that by presburger
  ultimately have "unat no = unat no' \<and> k = k'" using assms(3,4) by blast
  then show ?thesis by (simp add: word_unat_eq_iff)
qed

lemma sect_of_offset:
  "unat (no :: u32) < 524288 \<Longrightarrow> word_of_int (sint (no * 4096) sdiv 512) = 8 * no"
proof -
  assume n: "unat no < 524288"
  have "int (unat no) < 524288" using n by linarith
  then have u: "uint no < 524288" "0 \<le> uint no" by simp_all
  then have "uint (no * 4096) = uint no * 4096" by (simp add: uint_word_ariths)
  then have "sint (no * 4096) = uint no * 4096" using u by (simp add: sint_u32)
  moreover have "x * 4096 sdiv 512 = 8 * x" if "0 \<le> x" for x :: int
    using that by (cases "x = 0") (auto simp: signed_divide_int_def sgn_if)
  ultimately show ?thesis using u by simp
qed


subsection \<open>Blocks\<close>

lemma sum_list_const: "(\<And>x. x \<in> set xs \<Longrightarrow> length (f x) = c) \<Longrightarrow> length (concat (map f xs)) = c * length xs"
  by (induction xs) auto

lemma disk_ok_sects: "disk_ok d \<Longrightarrow> length (sects d r) = 128"
  unfolding disk_ok_def by blast

lemma length_blk [simp]: "disk_ok d \<Longrightarrow> unat no < 524288 \<Longrightarrow> length (blk d no) = 4096"
  unfolding blk_def
  by (simp add: length_concat comp_def length_sect_bytes disk_ok_sects sum_list_triv)

lemma copy_from_blk:
  assumes "disk_ok d" "unat no < 524288"
  shows "copy_from_disk 4096 (no * 4096) d = blk d no"
proof -
  have r: "read_disk s d = sect_bytes (sects d) s" for s
    using assms by (simp add: read_disk_bytes disk_ok_sects)
  have "copy_from 4096 s d = concat (map (\<lambda>k. sect_bytes (sects d) (s + of_nat k)) [0 ..< 8])" for s
    by (simp add: copy_from.simps r upt_rec add.assoc)
  then show ?thesis using assms by (simp add: copy_from_disk_def sect_of_offset blk_def)
qed

lemma copy_to_cache: "blk_cache (copy_to buf left s d) = blk_cache d"
proof (induction buf left s d rule: copy_to.induct)
  case (1 buf left s d)
  then show ?case by (subst copy_to.simps) (auto simp: write_disk_def)
qed

lemma copy_to_sects_cong: "sects d = sects e \<Longrightarrow> sects (copy_to buf left s d) = sects (copy_to buf left s e)"
proof (induction buf left s d arbitrary: e rule: copy_to.induct)
  case (1 buf left s d)
  show ?case
    using "1.IH" [of "write_disk buf s e"] "1.prems"
    by (subst copy_to.simps, subst (2) copy_to.simps) (auto simp: write_disk_def)
qed

lemma copy_to_length:
  "\<forall>r. length (sects d r) = 128 \<Longrightarrow> length (sects (copy_to buf left s d) r) = 128"
proof (induction buf left s d rule: copy_to.induct)
  case (1 buf left s d)
  then show ?case by (subst copy_to.simps) (auto simp: write_disk_def simp del: split_paired_All)
qed

lemma copy_to_other:
  "\<forall>k < n. r \<noteq> lba_regs (s + of_nat k) \<Longrightarrow> sects (copy_to buf (512 * n) s d) r = sects d r"
proof (induction n arbitrary: buf s d)
  case (Suc n)
  have "\<forall>k < n. r \<noteq> lba_regs (s + 1 + of_nat k)"
    using Suc.prems by (auto simp: add.assoc dest: spec [of _ "Suc k" for k])
  moreover have "r \<noteq> lba_regs s" using Suc.prems by (auto dest: spec [of _ 0])
  ultimately show ?case using Suc.IH [of "s + 1"] by (subst copy_to.simps) (simp add: write_disk_def)
qed (simp add: copy_to.simps)

lemma copy_to_at:
  "k < n \<Longrightarrow> \<forall>i < n. \<forall>j < n. lba_regs (s + of_nat i) = lba_regs (s + of_nat j) \<longrightarrow> i = j \<Longrightarrow>
   sects (copy_to buf (512 * n) s d) (lba_regs (s + of_nat k)) =
     map (\<lambda>i. of_le32 (span_at (4 * i) 4 (drop (512 * k) buf))) [0 ..< 128]"
proof (induction n arbitrary: buf s d k)
  case (Suc n)
  let ?d = "write_disk buf s d"
  have step: "copy_to buf (512 * Suc n) s d = copy_to (drop 512 buf) (512 * n) (s + 1) ?d"
    by (subst copy_to.simps) simp
  show ?case
  proof (cases k)
    case 0
    have "\<forall>j < n. lba_regs s \<noteq> lba_regs (s + 1 + of_nat j)"
    proof (intro allI impI)
      fix j assume "j < n"
      then show "lba_regs s \<noteq> lba_regs (s + 1 + of_nat j)"
        using Suc.prems(2) [rule_format, of 0 "Suc j"] by (auto simp: add.assoc)
    qed
    then show ?thesis using 0 by (simp add: step copy_to_other del: mult_Suc_right) (simp add: write_disk_def)
  next
    case (Suc k')
    have "lba_regs (s + 1 + of_nat i) = lba_regs (s + 1 + of_nat j) \<longrightarrow> i = j" if "i < n" "j < n" for i j
      using Suc.prems(2) [rule_format, of "Suc i" "Suc j"] that by (auto simp: add.assoc)
    moreover have k: "s + of_nat k = s + 1 + of_nat k'" "drop (512 * k) buf = drop (512 * k') (drop 512 buf)"
      using Suc by (simp_all add: add.commute)
    ultimately show ?thesis
      unfolding step k using Suc.prems(1) Suc by (intro Suc.IH) auto
  qed
qed simp

lemma sect_bytes_words:
  assumes "512 * k + 512 \<le> length buf"
  shows "concat (map le32 (map (\<lambda>i. of_le32 (span_at (4 * i) 4 (drop (512 * k) buf))) [0 ..< 128])) =
    span_at (512 * k) 512 buf"
proof -
  have "span_at (4 * i) 4 (drop (512 * k) buf) = span_at (4 * i) 4 (span_at (512 * k) 512 buf)"
    if "i < 128" for i
    using that assms by (simp add: span_at_def drop_take min_def)
  then have m: "map (\<lambda>i. le32 (of_le32 (span_at (4 * i) 4 (drop (512 * k) buf)))) [0 ..< 128] =
      map (\<lambda>i. le32 (of_le32 (span_at (4 * i) 4 (span_at (512 * k) 512 buf)))) [0 ..< 128]"
    by (intro map_cong) auto
  show ?thesis
    unfolding map_map comp_def m by (rule words_of_bytes) (use assms in simp)
qed

lemma copy_to_blk:
  assumes "disk_ok d" "unat no < 524288" "length buf = 4096"
  shows "blk (copy_to_disk buf 4096 (no * 4096) d) = (blk d)(no := buf)"
proof (rule ext)
  fix m
  let ?d = "copy_to buf (512 * 8) (8 * no) d"
  have inj: "\<forall>i < 8. \<forall>j < 8. lba_regs (8 * no + of_nat i) = lba_regs (8 * no + of_nat j) \<longrightarrow> i = j"
    using block_regs_inj [OF assms(2) assms(2)] by blast
  have "blk ?d m = ((blk d)(no := buf)) m" if m: "unat m < 524288"
  proof (cases "m = no")
    case True
    have "sect_bytes (sects ?d) (8 * no + of_nat k) = span_at (512 * k) 512 buf" if "k < 8" for k
      unfolding sect_bytes_def copy_to_at [OF that inj]
      using that assms(3) by (intro sect_bytes_words) auto
    then have "map (\<lambda>k. sect_bytes (sects ?d) (8 * no + of_nat k)) [0 ..< 8] =
        map (\<lambda>k. span_at (512 * k) 512 buf) [0 ..< 8]"
      by (intro map_cong) auto
    then have "blk ?d no = concat (map (\<lambda>k. span_at (512 * k) 512 buf) [0 ..< 8])"
      using assms(2) unfolding blk_def by (simp only: if_True)
    then show ?thesis using True chunks_concat [of buf 512 8] assms(3) by simp
  next
    case False
    have "sect_bytes (sects ?d) (8 * m + of_nat k) = sect_bytes (sects d) (8 * m + of_nat k)" if "k < 8" for k
      unfolding sect_bytes_def
      using that False block_regs_inj [OF m assms(2) that] by (subst copy_to_other) auto
    then have "map (\<lambda>k. sect_bytes (sects ?d) (8 * m + of_nat k)) [0 ..< 8] =
        map (\<lambda>k. sect_bytes (sects d) (8 * m + of_nat k)) [0 ..< 8]"
      by (intro map_cong) auto
    then have "blk ?d m = blk d m" unfolding blk_def by (simp only:)
    then show ?thesis using False by simp
  qed
  then show "blk (copy_to_disk buf 4096 (no * 4096) d) m = ((blk d)(no := buf)) m"
    using assms by (cases "unat m < 524288") (auto simp: copy_to_disk_def sect_of_offset blk_def)
qed

lemma blk_cong: "sects d = sects e \<Longrightarrow> blk d = blk e"
  by (rule ext) (simp add: blk_def)

lemma blk_cache_update [simp]: "blk (d\<lparr>blk_cache := c\<rparr>) = blk d"
  by (rule ext) (simp add: blk_def)

lemma copy_to_cached:
  "disk_ok d \<Longrightarrow> unat no < 524288 \<Longrightarrow> length buf = 4096 \<Longrightarrow>
   blk (copy_to_disk buf 4096 (no * 4096) (d\<lparr>blk_cache := c\<rparr>)) = (blk d)(no := buf)"
  unfolding copy_to_disk_def
  using copy_to_blk [of d no buf] blk_cong [OF copy_to_sects_cong [of "d\<lparr>blk_cache := c\<rparr>" d buf 4096]]
  by (simp add: copy_to_disk_def)

lemma bgetcache_ok:
  assumes "disk_ok d" "unat no < 524288"
  obtains d' where "bgetcache no d = (unat (no mod 16), d')" "disk_ok d'" "blk d' = blk d"
    "bc_buf (blk_cache d' ! unat (no mod 16)) = blk d no" "bc_no (blk_cache d' ! unat (no mod 16)) = no"
proof -
  let ?i = "unat (no mod 16)"
  have i: "?i < 16" by (simp add: unat_mod)
  have len: "length (blk_cache d) = 16" and line: "\<forall>i < 16. cache_line_ok d i"
    using assms(1) by (auto simp: disk_ok_def)
  show thesis
  proof (cases "bc_valid (blk_cache d ! ?i) = 0 \<or> bc_no (blk_cache d ! ?i) \<noteq> no")
    case True
    let ?bc = "\<lparr>bc_valid = 1, bc_no = no, bc_buf = blk d no\<rparr>"
    let ?d = "d\<lparr>blk_cache := (blk_cache d)[?i := ?bc]\<rparr>"
    have "bgetcache no d = (?i, ?d)"
      using True by (simp add: bgetcache_def Let_def copy_from_blk assms)
    moreover have "cache_line_ok ?d j" if "j < 16" for j
      using line that len i assms
      by (cases "j = ?i") (auto simp: cache_line_ok_def Let_def)
    then have "disk_ok ?d" using assms(1) len by (simp add: disk_ok_def)
    ultimately show thesis using that [of ?d] len i by simp
  next
    case False
    then have "bgetcache no d = (?i, d)" by (simp add: bgetcache_def)
    moreover have "bc_buf (blk_cache d ! ?i) = blk d no" "bc_no (blk_cache d ! ?i) = no"
      using False line i by (auto simp: cache_line_ok_def Let_def)
    ultimately show thesis using that [of d] assms(1) by blast
  qed
qed

lemma cached_write_ok:
  assumes d: "disk_ok d" "unat no < 524288" "length buf = 4096" "bc_no (blk_cache d ! unat (no mod 16)) = no"
  shows "disk_ok (copy_to_disk buf 4096 (no * 4096)
    (d\<lparr>blk_cache := (blk_cache d)[unat (no mod 16) := (blk_cache d ! unat (no mod 16))\<lparr>bc_buf := buf\<rparr>]\<rparr>))"
    (is "disk_ok ?e")
proof -
  let ?i = "unat (no mod 16)"
  let ?c = "d\<lparr>blk_cache := (blk_cache d)[?i := (blk_cache d ! ?i)\<lparr>bc_buf := buf\<rparr>]\<rparr>"
  have i: "?i < 16" by (simp add: unat_mod)
  have len: "length (blk_cache d) = 16" and line: "\<forall>i < 16. cache_line_ok d i"
    using assms(1) by (auto simp: disk_ok_def)
  have blk_e: "blk ?e = (blk d)(no := buf)" by (rule copy_to_cached [OF d(1-3)])
  have cache: "blk_cache ?e = blk_cache ?c" by (simp add: copy_to_disk_def copy_to_cache)
  have "\<forall>r. length (sects ?e r) = 128"
    unfolding copy_to_disk_def by (intro allI copy_to_length) (use d(1) in \<open>simp add: disk_ok_sects\<close>)
  moreover have "cache_line_ok ?e j" if "j < 16" for j
  proof (cases "j = ?i")
    case True
    then show ?thesis using assms i len
      unfolding cache_line_ok_def cache blk_e by (simp add: Let_def)
  next
    case False
    then have "blk_cache ?c ! j = blk_cache d ! j" by simp
    moreover have "bc_no (blk_cache d ! j) = no \<longrightarrow> bc_valid (blk_cache d ! j) = 0"
      using line that False by (auto simp: cache_line_ok_def Let_def)
    ultimately show ?thesis
      using line that unfolding cache_line_ok_def cache blk_e by (auto simp: Let_def)
  qed
  ultimately show ?thesis unfolding disk_ok_def cache using len by simp
qed

section \<open>Sequences of operations\<close>

text \<open>
  The calls a client makes, one after the other, with the bytes that the reads deliver; \<open>flat_op\<close> is what a call does to a flat
  array of blocks.
\<close>

datatype bop = Read u32 u32 u32 | Write "byte list" u32 u32 u32 | Zero u32

fun fits :: "bop \<Rightarrow> bool" where
  "fits (Read n b off) \<longleftrightarrow> unat b < 524288 \<and> unat off + unat n \<le> 4096"
| "fits (Write xs n b off) \<longleftrightarrow> unat b < 524288 \<and> unat off + unat n \<le> 4096 \<and> unat n \<le> length xs"
| "fits (Zero b) \<longleftrightarrow> unat b < 524288"

fun flat_op :: "bop \<Rightarrow> (u32 \<Rightarrow> byte list) \<Rightarrow> byte list \<times> (u32 \<Rightarrow> byte list)" where
  "flat_op (Read n b off) B = (span_at (unat off) (unat n) (B b), B)"
| "flat_op (Write xs n b off) B = ([], B(b := put_at (unat off) (take (unat n) xs) (B b)))"
| "flat_op (Zero b) B = ([], B(b := replicate 4096 0))"

fun flat_ops :: "bop list \<Rightarrow> (u32 \<Rightarrow> byte list) \<Rightarrow> byte list list \<times> (u32 \<Rightarrow> byte list)" where
  "flat_ops [] B = ([], B)"
| "flat_ops (p # ps) B = (let (x, B) = flat_op p B; (xs, B) = flat_ops ps B in (x # xs, B))"

fun call_op :: "(u32 \<Rightarrow> u32 \<Rightarrow> u32 \<Rightarrow> ('s, byte list) prog) \<Rightarrow> (byte list \<Rightarrow> u32 \<Rightarrow> u32 \<Rightarrow> u32 \<Rightarrow> ('s, unit) prog) \<Rightarrow>
    (u32 \<Rightarrow> ('s, unit) prog) \<Rightarrow> bop \<Rightarrow> ('s, byte list) prog" where
  "call_op rd wr zero (Read n b off) = rd n b off"
| "call_op rd wr zero (Write xs n b off) = thenS (wr xs n b off) (retS [])"
| "call_op rd wr zero (Zero b) = thenS (zero b) (retS [])"

fun call_ops :: "(u32 \<Rightarrow> u32 \<Rightarrow> u32 \<Rightarrow> ('s, byte list) prog) \<Rightarrow> (byte list \<Rightarrow> u32 \<Rightarrow> u32 \<Rightarrow> u32 \<Rightarrow> ('s, unit) prog) \<Rightarrow>
    (u32 \<Rightarrow> ('s, unit) prog) \<Rightarrow> bop list \<Rightarrow> ('s, byte list list) prog" where
  "call_ops rd wr zero [] = retS []"
| "call_ops rd wr zero (p # ps) = bindS (call_op rd wr zero p) (\<lambda>x. bindS (call_ops rd wr zero ps) (\<lambda>xs. retS (x # xs)))"

section \<open>A store of blocks\<close>

text \<open>
  What a client of the block layer relies on: blocks of 4096 bytes, a read that changes no
  block, a write and a zeroing that change one block and nothing else. \<open>blks\<close> is the abstract
  store, \<open>ok\<close> the provider's invariant.
\<close>

locale block_store =
  fixes rd :: "u32 \<Rightarrow> u32 \<Rightarrow> u32 \<Rightarrow> ('s, byte list) prog"
    and wr :: "byte list \<Rightarrow> u32 \<Rightarrow> u32 \<Rightarrow> u32 \<Rightarrow> ('s, unit) prog"
    and zero :: "u32 \<Rightarrow> ('s, unit) prog"
    and ok :: "'s \<Rightarrow> bool"
    and blks :: "'s \<Rightarrow> u32 \<Rightarrow> byte list"
  assumes len: "ok s \<Longrightarrow> unat b < 524288 \<Longrightarrow> length (blks s b) = 4096"
    and rd: "ok s \<Longrightarrow> unat b < 524288 \<Longrightarrow> unat off + unat n \<le> 4096 \<Longrightarrow>
      runs {} (rd n b off) (\<lambda>x t. x = span_at (unat off) (unat n) (blks s b) \<and> ok t \<and> blks t = blks s) s"
    and wr: "ok s \<Longrightarrow> unat b < 524288 \<Longrightarrow> unat off + unat n \<le> 4096 \<Longrightarrow> unat n \<le> length xs \<Longrightarrow>
      runs {} (wr xs n b off) (\<lambda>_ t. ok t \<and>
        blks t = (blks s)(b := put_at (unat off) (take (unat n) xs) (blks s b))) s"
    and zero: "ok s \<Longrightarrow> unat b < 524288 \<Longrightarrow>
      runs {} (zero b) (\<lambda>_ t. ok t \<and> blks t = (blks s)(b := replicate 4096 0)) s"
begin

text \<open>Each law as a rule for the rest of the program.\<close>

lemma rdI:
  assumes "ok s" "unat b < 524288" "unat off + unat n \<le> 4096"
    and "\<And>t. ok t \<Longrightarrow> blks t = blks s \<Longrightarrow> Q (span_at (unat off) (unat n) (blks s b)) t"
  shows "runs A (rd n b off) Q s"
  by (rule runs_mono [OF rd [OF assms(1-3)]]) (use assms(4) in auto)

lemma wrI:
  assumes "ok s" "unat b < 524288" "unat off + unat n \<le> 4096" "length xs = unat n"
    and "\<And>t. ok t \<Longrightarrow> blks t = (blks s)(b := put_at (unat off) xs (blks s b)) \<Longrightarrow> Q () t"
  shows "runs A (wr xs n b off) Q s"
  by (rule runs_mono [OF wr [OF assms(1-3)]]) (use assms(4,5) in auto)

lemma zeroI:
  assumes "ok s" "unat b < 524288"
    and "\<And>t. ok t \<Longrightarrow> blks t = (blks s)(b := replicate 4096 0) \<Longrightarrow> Q () t"
  shows "runs A (zero b) Q s"
  by (rule runs_mono [OF zero [OF assms(1,2)]]) (use assms(3) in auto)

text \<open>Any sequence of calls delivers what the flat array would, and leaves the store as it would leave the array.\<close>

lemma op_runs:
  assumes "ok s" "fits p"
  shows "runs {} (call_op rd wr zero p) (\<lambda>x t. ok t \<and> (x, blks t) = flat_op p (blks s)) s"
proof (cases p)
  case (Read n b off)
  then show ?thesis using assms by (auto intro!: rdI)
next
  case (Write xs n b off)
  then have f: "unat b < 524288" "unat off + unat n \<le> 4096" "unat n \<le> length xs" using assms(2) by simp_all
  show ?thesis unfolding Write call_op.simps runs_simps by (rule runs_mono [OF wr [OF assms(1) f]]) simp_all
next
  case (Zero b)
  then show ?thesis using assms by (auto intro!: zeroI)
qed

lemma ops_run:
  "ok s \<Longrightarrow> \<forall>p \<in> set ps. fits p \<Longrightarrow>
    runs {} (call_ops rd wr zero ps) (\<lambda>xs t. ok t \<and> (xs, blks t) = flat_ops ps (blks s)) s"
proof (induction ps arbitrary: s)
  case (Cons p ps)
  have p: "fits p" "\<forall>p \<in> set ps. fits p" using Cons.prems(2) by simp_all
  show ?case
    unfolding call_ops.simps runs_bind runs_simps
  proof (rule runs_mono [OF op_runs [OF Cons.prems(1) p(1)]])
    fix x t assume t: "ok t \<and> (x, blks t) = flat_op p (blks s)"
    then have "runs {} (call_ops rd wr zero ps) (\<lambda>xs u. ok u \<and> (xs, blks u) = flat_ops ps (blks t)) t"
      using Cons.IH p(2) by blast
    then show "runs {} (call_ops rd wr zero ps) (\<lambda>xs u. ok u \<and> (x # xs, blks u) = flat_ops (p # ps) (blks s)) t"
    proof (rule runs_mono)
      fix xs u assume u: "ok u \<and> (xs, blks u) = flat_ops ps (blks t)"
      have e: "flat_op p (blks s) = (x, blks t)" "flat_ops ps (blks t) = (xs, blks u)" using t u by simp_all
      have "ok u" using u by blast
      then show "ok u \<and> (x # xs, blks u) = flat_ops (p # ps) (blks s)" unfolding flat_ops.simps e Let_def prod.case by simp
    qed simp
  qed simp
qed simp

end

lemma bread_runs:
  assumes "disk_ok d" "unat b < 524288" "unat off + unat n \<le> 4096"
  shows "runs {} (bread n b off) (\<lambda>x e. x = span_at (unat off) (unat n) (blk d b) \<and> disk_ok e \<and> blk e = blk d) d"
proof -
  have "unat (n + off) = unat n + unat off" using assms(3) by (intro unat_add_u32) simp
  then have "n + off \<le> 4096" using assms(3) by (simp add: word_le_nat_alt)
  moreover obtain e where "bgetcache b d = (unat (b mod 16), e)" "disk_ok e" "blk e = blk d"
    "bc_buf (blk_cache e ! unat (b mod 16)) = blk d b"
    using bgetcache_ok [OF assms(1,2)] by metis
  ultimately show ?thesis using assms by (simp add: runs_total bread_def)
qed

lemma bwrite_runs:
  assumes "disk_ok d" "unat b < 524288" "unat off + unat n \<le> 4096" "unat n \<le> length xs"
  shows "runs {} (bwrite xs n b off) (\<lambda>_ e. disk_ok e \<and>
    blk e = (blk d)(b := put_at (unat off) (take (unat n) xs) (blk d b))) d"
proof -
  have "unat (n + off) = unat n + unat off" using assms(3) by (intro unat_add_u32) simp
  then have le: "n + off \<le> 4096" using assms(3) by (simp add: word_le_nat_alt)
  obtain e where e: "bgetcache b d = (unat (b mod 16), e)" "disk_ok e" "blk e = blk d"
    "bc_buf (blk_cache e ! unat (b mod 16)) = blk d b" "bc_no (blk_cache e ! unat (b mod 16)) = b"
    using bgetcache_ok [OF assms(1,2)] by metis
  let ?buf = "put_at (unat off) (take (unat n) xs) (blk d b)"
  have buf: "length ?buf = 4096" using assms by simp
  show ?thesis
    using assms le e buf cached_write_ok [OF e(2) assms(2) buf e(5)]
      copy_to_blk [of "e\<lparr>blk_cache := x\<rparr>" for x]
    by (simp add: runs_total bwrite_def Let_def copy_to_cached)
qed

lemma bzero_runs:
  assumes "disk_ok d" "unat b < 524288"
  shows "runs {} (bzero b) (\<lambda>_ e. disk_ok e \<and> blk e = (blk d)(b := replicate 4096 0)) d"
proof -
  obtain e where e: "bgetcache b d = (unat (b mod 16), e)" "disk_ok e" "blk e = blk d"
    "bc_buf (blk_cache e ! unat (b mod 16)) = blk d b" "bc_no (blk_cache e ! unat (b mod 16)) = b"
    using bgetcache_ok [OF assms(1,2)] by metis
  show ?thesis
    using assms e cached_write_ok [OF e(2) assms(2) _ e(5), of "replicate 4096 0"]
    by (simp add: runs_total bzero_def Let_def copy_to_cached)
qed

interpretation bs: block_store bread bwrite bzero disk_ok blk
  by unfold_locales (auto intro: bread_runs bwrite_runs bzero_runs)

text \<open>At boot no entry is valid: \<open>blk_cache\<close> is a zeroed static array.\<close>

definition boot_disk :: "(regs \<Rightarrow> u32 list) \<Rightarrow> disk" where
  "boot_disk f = \<lparr>sects = f,
     blk_cache = replicate 16 \<lparr>bc_valid = 0, bc_no = 0, bc_buf = replicate 4096 0\<rparr>\<rparr>"

lemma boot_disk_ok: "\<forall>r. length (f r) = 128 \<Longrightarrow> disk_ok (boot_disk f)"
  by (simp add: disk_ok_def boot_disk_def cache_line_ok_def del: split_paired_All)

text \<open>
  C18. The block cache is transparent: whatever sequence of reads, writes and zeroings a client performs, nothing aborts, every
  read delivers what a flat array of blocks would hold at that point, whichever entries of the cache were evicted in between, and at the
  end the sectors of the disk themselves hold the flat array: no write is only in the cache.
\<close>
theorem cache_transparent:
  assumes "disk_ok d" "\<forall>p \<in> set ps. fits p"
  shows "runs {} (call_ops bread bwrite bzero ps) (\<lambda>xs t. disk_ok t \<and> xs = fst (flat_ops ps (blk d)) \<and>
    (\<forall>b. blk t b = snd (flat_ops ps (blk d)) b)) d"
  by (rule runs_mono [OF bs.ops_run [OF assms]]) (metis fst_conv snd_conv order_refl)+

text \<open>Block 21 takes the cache entry of block 5, which is then read from the disk again.\<close>

theorem cache_transparent_witness:
  "runs {} (call_ops bread bwrite bzero [Write [1, 2] 2 5 10, Read 4 21 9, Zero 37, Read 3 5 10])
    (\<lambda>xs t. xs = [[], [0, 0, 0, 7], [], [1, 2, 7]] \<and> take 3 (drop 10 (blk t 5)) = [1, 2, 7]) (boot_disk (\<lambda>_. replicate 128 7))"
proof -
  let ?d = "boot_disk (\<lambda>_. replicate 128 7)"
  let ?ps = "[Write [1, 2] 2 5 10, Read 4 21 9, Zero 37, Read 3 5 10]"
  have w: "le32 7 = [7, 0, 0, 0]" by (simp add: le32_def)
  have r: "map le32 (replicate 128 7) = [7, 0, 0, 0] # [7, 0, 0, 0] # [7, 0, 0, 0] # [7, 0, 0, 0] # replicate 124 [7, 0, 0, 0]"
    unfolding map_replicate w by (simp add: eval_nat_numeral)
  define X R where "X = concat (map le32 (replicate 128 7))" and "R = concat (replicate 124 [7, 0, 0, 0 :: byte]) @ concat (map (\<lambda>k. X) [1 ..< 8])"
  have X: "X = [7, 0, 0, 0, 7, 0, 0, 0, 7, 0, 0, 0, 7, 0, 0, 0] @ concat (replicate 124 [7, 0, 0, 0])" unfolding X_def r by simp
  have R: "blk ?d b = [7, 0, 0, 0, 7, 0, 0, 0, 7, 0, 0, 0, 7, 0, 0, 0] @ R" if "unat b < 524288" for b
  proof -
    have "blk ?d b = concat (map (\<lambda>k. X) [0 ..< 8])" using that by (simp only: blk_def boot_disk_def sect_bytes_def X_def if_True disk.simps)
    also have "\<dots> = X @ concat (map (\<lambda>k. X) [1 ..< 8])" by (simp add: upt_conv_Cons)
    finally show ?thesis by (simp only: R_def) (simp add: X)
  qed
  have "\<forall>p \<in> set ?ps. fits p" by simp
  from cache_transparent [OF boot_disk_ok this, of "\<lambda>_. replicate 128 7"] show ?thesis
    by (rule runs_mono) (simp_all add: R span_at_def put_at_def)
qed

text \<open>
  The cache is write-through: when a \<open>bwrite\<close> has returned, every valid entry of the cache
  holds exactly the eight sectors of its block on the medium, and sits at its own index.
\<close>
lemma cache_write_through:
  assumes "disk_ok d" "unat b < 524288" "unat off + unat n \<le> 4096" "length xs = unat n"
  shows "runs {} (bwrite xs n b off) (\<lambda>_ e. \<forall>i < 16. bc_valid (blk_cache e ! i) \<noteq> 0 \<longrightarrow>
    unat (bc_no (blk_cache e ! i) mod 16) = i \<and>
    bc_buf (blk_cache e ! i) = concat (map (\<lambda>k. sect_bytes (sects e)
      (8 * bc_no (blk_cache e ! i) + of_nat k)) [0 ..< 8])) d"
proof (rule runs_mono [OF bs.wr [OF assms(1-3)]])
  fix x e assume "disk_ok e \<and> blk e = (blk d)(b := put_at (unat off) (take (unat n) xs) (blk d b))"
  then have "\<forall>i < 16. cache_line_ok e i" by (simp add: disk_ok_def)
  then show "\<forall>i < 16. bc_valid (blk_cache e ! i) \<noteq> 0 \<longrightarrow>
    unat (bc_no (blk_cache e ! i) mod 16) = i \<and>
    bc_buf (blk_cache e ! i) = concat (map (\<lambda>k. sect_bytes (sects e)
      (8 * bc_no (blk_cache e ! i) + of_nat k)) [0 ..< 8])"
    unfolding cache_line_ok_def Let_def blk_def by presburger
qed (use assms in auto)

theorem cache_write_through_witness:
  "runs {} (bwrite [1, 2] 2 5 10) (\<lambda>_ e. \<forall>i < 16. bc_valid (blk_cache e ! i) \<noteq> 0 \<longrightarrow>
    unat (bc_no (blk_cache e ! i) mod 16) = i \<and>
    bc_buf (blk_cache e ! i) = concat (map (\<lambda>k. sect_bytes (sects e)
      (8 * bc_no (blk_cache e ! i) + of_nat k)) [0 ..< 8])) (boot_disk (\<lambda>_. replicate 128 7))"
  by (rule cache_write_through) (auto intro: boot_disk_ok)

end
