(* ===== verification/Fs.thy ===== *)
theory Fs
  imports LibString Disk
begin

unbundle bit_operations_syntax

text \<open>
  \<open>kernel/src/fs.c\<close>, the branch that is compiled (\<open>EASY_FS\<close> is commented out in \<open>fs.h\<close>): a
  file system of 32768 blocks with a bitmap block, on-disk inodes of 64 bytes and directories
  that are files of 32-byte entries.

  The state \<open>fs\<close> holds the block device below, the super block and the table of open inodes;
  an \<open>inode_t *\<close> is an index into the table, \<open>NULL\<close> is \<open>None\<close>. A local \<open>dirent_t\<close> that is
  read before every byte of it was written has the value \<open>garbage\<close> there, about which nothing
  is known. A path is the memory it points to.
\<close>

section \<open>The data\<close>

record sb_t =
  bitmap :: u32
  istart :: u32
  inum :: u32
  root :: u32

record dinode_t =
  di_type :: u32
  di_device :: u32
  di_size :: u32
  di_addrs :: "u32 list"

record inode_t =
  i_no :: u32
  i_ref :: u32
  i_del :: u32
  dinode :: dinode_t

record fs =
  dev :: disk
  sb :: sb_t
  inodes :: "inode_t list"
  garbage :: "byte list"

type_synonym 'a fsprog = "(fs, 'a) prog"

abbreviation (input) "TYPE_NONE \<equiv> 0 :: u32"
abbreviation (input) "TYPE_FILE \<equiv> 1 :: u32"
abbreviation (input) "TYPE_DIR \<equiv> 2 :: u32"
abbreviation (input) "TYPE_DEV \<equiv> 3 :: u32"
abbreviation (input) "BLK_SIZE \<equiv> 4096 :: u32"
abbreviation (input) "NDIRECT \<equiv> 12 :: nat"
abbreviation (input) "NINDIRECT \<equiv> 1024 :: nat"

text \<open>How the structures lie in a block; a \<open>dirent_t\<close> is the inode number and 28 name bytes.\<close>

definition words :: "nat \<Rightarrow> byte list \<Rightarrow> u32 list" where
  "words n bs = map (\<lambda>i. of_le32 (span_at (4 * i) 4 bs)) [0 ..< n]"

definition sb_of :: "byte list \<Rightarrow> sb_t" where
  "sb_of bs = (let w = words 4 bs in \<lparr>bitmap = w ! 0, istart = w ! 1, inum = w ! 2, root = w ! 3\<rparr>)"

definition dinode_bytes :: "dinode_t \<Rightarrow> byte list" where
  "dinode_bytes di = concat (map le32 (di_type di # di_device di # di_size di # di_addrs di))"

definition dinode_of :: "byte list \<Rightarrow> dinode_t" where
  "dinode_of bs = (let w = words 16 bs in
     \<lparr>di_type = w ! 0, di_device = w ! 1, di_size = w ! 2, di_addrs = drop 3 w\<rparr>)"

definition dirent_inode :: "byte list \<Rightarrow> u32" where
  "dirent_inode de = of_le32 de"

definition dirent_name :: "byte list \<Rightarrow> byte list" where
  "dirent_name de = drop 4 de"

definition set_dirent :: "u32 \<Rightarrow> byte list \<Rightarrow> byte list \<Rightarrow> byte list res" where
  "set_dirent no name de = mapR (\<lambda>nm. le32 no @ nm) (strcpy (dirent_name de) name)"

text \<open>A call of \<open>disk.c\<close>, and an assignment to an open inode.\<close>

definition on_dev :: "(disk, 'a) prog \<Rightarrow> 'a fsprog" where
  "on_dev m s = (case m (dev s) of Inl e \<Rightarrow> Inl e | Inr (x, d) \<Rightarrow> Inr (x, s\<lparr>dev := d\<rparr>))"

definition set_inode :: "nat \<Rightarrow> (inode_t \<Rightarrow> inode_t) \<Rightarrow> unit fsprog" where
  "set_inode k f = modS (\<lambda>s. s\<lparr>inodes := (inodes s)[k := f (inodes s ! k)]\<rparr>)"

abbreviation get_inode :: "nat \<Rightarrow> inode_t fsprog" where
  "get_inode k \<equiv> getS (\<lambda>s. inodes s ! k)"

definition init_fs :: "unit fsprog" where
  "init_fs = bindS (on_dev (bread 16 32 0)) (\<lambda>bs. modS (\<lambda>s. s\<lparr>sb := sb_of bs\<rparr>))"

section \<open>Inodes and blocks on the disk\<close>

definition I2BLKNO :: "u32 \<Rightarrow> sb_t \<Rightarrow> u32" where
  "I2BLKNO no b = istart b + no div 64"

definition I2BLKOFF :: "u32 \<Rightarrow> u32" where
  "I2BLKOFF no = (no mod 64) * 64"

definition diread :: "u32 \<Rightarrow> dinode_t fsprog" where
  "diread no = bindS (getS sb) (\<lambda>b.
     bindS (on_dev (bread 64 (I2BLKNO no b) (I2BLKOFF no))) (\<lambda>bs. retS (dinode_of bs)))"

definition diwrite :: "dinode_t \<Rightarrow> u32 \<Rightarrow> unit fsprog" where
  "diwrite di no = bindS (getS sb) (\<lambda>b.
     on_dev (bwrite (dinode_bytes di) 64 (I2BLKNO no b) (I2BLKOFF no)))"

function dialloc_loop :: "u32 \<Rightarrow> u32 \<Rightarrow> u32 fsprog" where
  "dialloc_loop type i s =
     (if i < inum (sb s)
      then bindS (diread i) (\<lambda>di.
             if di_type di = TYPE_NONE
             then thenS (diwrite (di\<lparr>di_type := type\<rparr>) i) (retS i)
             else dialloc_loop type (i + 1)) s
      else Inl Abort)"
  by pat_completeness auto
termination
proof (relation "measure (\<lambda>(type, i, s). 4294967296 - unat i)")
  fix type i s x t
  assume "i < inum (sb s)"
  then have "unat i < unat (inum (sb s))" by (simp add: word_less_nat_alt)
  then have "unat i + 1 < 4294967296" using unat_u32 [of "inum (sb s)"] by linarith
  then have "unat (i + 1) = unat i + 1" using unat_add_u32 [of i 1] by simp
  then show "((type, i + 1, t), type, i, s) \<in> measure (\<lambda>(type, i, s). 4294967296 - unat i)"
    using unat_u32 [of i] by simp
qed simp

declare dialloc_loop.simps [simp del]

definition dialloc :: "u32 \<Rightarrow> u32 fsprog" where
  "dialloc type = dialloc_loop type 1"

definition difree :: "u32 \<Rightarrow> unit fsprog" where
  "difree no = diwrite (dinode_of (replicate 64 0)) no"

text \<open>The bitmap is scanned a word at a time; \<open>j\<close> runs over the bits of a word.\<close>

definition clear_bit :: "u32 \<Rightarrow> nat option" where
  "clear_bit w = find_slot (\<lambda>j. w AND push_bit j 1 = 0) [0 ..< 32]"

function balloc_loop :: "nat \<Rightarrow> u32 fsprog" where
  "balloc_loop i s =
     (if i < 1024
      then bindS (on_dev (bread 4 (bitmap (sb s)) (of_nat (i * 4)))) (\<lambda>bs.
             let w = of_le32 bs in
             case if w \<noteq> 0xffffffff then clear_bit w else None of
               Some j \<Rightarrow>
                 thenS (on_dev (bwrite (le32 (w OR push_bit j 1)) 4 (bitmap (sb s)) (of_nat (i * 4))))
                   (thenS (on_dev (bzero (of_nat (i * 32 + j)))) (retS (of_nat (i * 32 + j))))
             | None \<Rightarrow> balloc_loop (i + 1)) s
      else Inl Abort)"
  by pat_completeness auto
termination
  by (relation "measure (\<lambda>(i, s). 1024 - i)") auto

declare balloc_loop.simps [simp del]

definition balloc :: "u32 fsprog" where
  "balloc = balloc_loop 0"

definition bfree :: "u32 \<Rightarrow> unit fsprog" where
  "bfree blkno = thenS (assertS (64 \<le> blkno)) (bindS (getS sb) (\<lambda>b.
     let i = blkno div 32; j = unat (blkno mod 32) in
     bindS (on_dev (bread 4 (bitmap b) (i * 4))) (\<lambda>bs.
     on_dev (bwrite (le32 (of_le32 bs AND NOT (push_bit j 1))) 4 (bitmap b) (4 * i)))))"

section \<open>Open inodes\<close>

definition iget :: "u32 \<Rightarrow> nat fsprog" where
  "iget no = bindS (getS inodes) (\<lambda>tab.
     case find_slot (\<lambda>ip. 1 \<le> sint (i_ref ip) \<and> i_no ip = no) tab of
       Some k \<Rightarrow> thenS (set_inode k (\<lambda>ip. ip\<lparr>i_ref := i_ref ip + 1\<rparr>)) (retS k)
     | None \<Rightarrow>
         (case find_slot (\<lambda>ip. i_ref ip = 0) tab of
            Some k \<Rightarrow>
              thenS (set_inode k (\<lambda>ip. ip\<lparr>i_ref := i_ref ip + 1, i_no := no, i_del := 0\<rparr>))
                (bindS (diread no) (\<lambda>di. thenS (set_inode k (\<lambda>ip. ip\<lparr>dinode := di\<rparr>)) (retS k)))
          | None \<Rightarrow> stopS Abort))"

definition iupdate :: "nat \<Rightarrow> unit fsprog" where
  "iupdate k = bindS (get_inode k) (\<lambda>ip. diwrite (dinode ip) (i_no ip))"

definition isize :: "nat \<Rightarrow> fs \<Rightarrow> u32" where
  "isize k s = di_size (dinode (inodes s ! k))"

definition itype :: "nat \<Rightarrow> fs \<Rightarrow> u32" where
  "itype k s = di_type (dinode (inodes s ! k))"

definition ino :: "nat \<Rightarrow> fs \<Rightarrow> u32" where
  "ino k s = i_no (inodes s ! k)"

definition idevid :: "nat \<Rightarrow> fs \<Rightarrow> u32" where
  "idevid k s = (if itype k s = TYPE_DEV then di_device (dinode (inodes s ! k)) else - 1)"

abbreviation addr_of :: "nat \<Rightarrow> nat \<Rightarrow> fs \<Rightarrow> u32" where
  "addr_of k n s \<equiv> di_addrs (dinode (inodes s ! k)) ! n"

definition set_addr :: "nat \<Rightarrow> nat \<Rightarrow> u32 \<Rightarrow> unit fsprog" where
  "set_addr k n b = set_inode k (\<lambda>ip. ip\<lparr>dinode := (dinode ip)\<lparr>di_addrs := (di_addrs (dinode ip))[n := b]\<rparr>\<rparr>)"

text \<open>\<open>if (addrs[n] == 0) { addrs[n] = balloc(); iupdate(inode); }\<close>\<close>

definition ensure_addr :: "nat \<Rightarrow> nat \<Rightarrow> u32 fsprog" where
  "ensure_addr k n = thenS (bindS (getS (addr_of k n)) (\<lambda>a.
     if a = 0 then bindS balloc (\<lambda>b. thenS (set_addr k n b) (iupdate k)) else retS ()))
     (getS (addr_of k n))"

definition iwalk :: "nat \<Rightarrow> u32 \<Rightarrow> u32 fsprog" where
  "iwalk k no =
     (if no < 12 then ensure_addr k (unat no)
      else let no = no - 12 in
      if no < 1024
      then bindS (ensure_addr k 12) (\<lambda>a.
           bindS (on_dev (bread 4 a (no * 4))) (\<lambda>bs.
           if of_le32 bs = 0
           then bindS balloc (\<lambda>b. bindS (getS (addr_of k 12)) (\<lambda>a.
                thenS (on_dev (bwrite (le32 b) 4 a (no * 4))) (retS b)))
           else retS (of_le32 bs)))
      else stopS Abort)"

text \<open>
  The loop of \<open>iread\<close>. In every round \<open>blkoff\<close> is \<open>(off + bytesRead) % BLK_SIZE\<close>, so it is
  not a parameter. The value is what has been put into the buffer.
\<close>

function iread_loop :: "nat \<Rightarrow> u32 \<Rightarrow> u32 \<Rightarrow> u32 \<Rightarrow> u32 \<Rightarrow> byte list fsprog" where
  "iread_loop k off blkno remaining bytesRead s =
     (let blkoff = (off + bytesRead) mod BLK_SIZE in
      if 0 < remaining \<and> off + bytesRead < isize k s
      then let n = min (min remaining (BLK_SIZE - blkoff)) (isize k s - off - bytesRead) in
           bindS (on_dev (bread n blkno blkoff)) (\<lambda>xs.
           bindS (iwalk k ((off + (bytesRead + n)) div BLK_SIZE)) (\<lambda>blkno.
           bindS (iread_loop k off blkno (remaining - n) (bytesRead + n)) (\<lambda>ys.
           retS (xs @ ys)))) s
      else Inr ([], s))"
  by pat_completeness auto
termination
proof (relation "measure (\<lambda>(k, off, blkno, remaining, bytesRead, s). unat remaining)")
  fix k off blkno remaining bytesRead s blkoff n x y t u z
  assume b: "blkoff = (off + bytesRead) mod BLK_SIZE" and g: "0 < remaining \<and> off + bytesRead < isize k s"
    and n: "n = min (min remaining (BLK_SIZE - blkoff)) (isize k s - off - bytesRead)"
  have "blkoff < BLK_SIZE" unfolding b by (simp add: word_less_nat_alt unat_mod)
  then have "0 < BLK_SIZE - blkoff" by (simp add: word_neq_0_conv [symmetric])
  moreover have "0 < isize k s - off - bytesRead"
    using g by (auto simp: word_neq_0_conv [symmetric] algebra_simps)
  ultimately have "0 < n" "n \<le> remaining" using g n by (auto simp: min_def)
  then have "unat (remaining - n) < unat remaining"
    by (simp add: unat_sub word_less_nat_alt word_le_nat_alt)
  then show "((k, off, z, remaining - n, bytesRead + n, t), k, off, blkno, remaining, bytesRead, s)
      \<in> measure (\<lambda>(k, off, blkno, remaining, bytesRead, s). unat remaining)" by simp
qed simp

declare iread_loop.simps [simp del]

definition iread :: "nat \<Rightarrow> u32 \<Rightarrow> u32 \<Rightarrow> byte list fsprog" where
  "iread k off len = bindS (iwalk k (off div BLK_SIZE)) (\<lambda>blkno. iread_loop k off blkno len 0)"

function iwrite_loop :: "nat \<Rightarrow> u32 \<Rightarrow> byte list \<Rightarrow> u32 \<Rightarrow> u32 fsprog" where
  "iwrite_loop k pos buf len s =
     (if 0 < len
      then let offset = pos mod BLK_SIZE in
           bindS (iwalk k (pos div BLK_SIZE)) (\<lambda>block.
           let bytes = (if BLK_SIZE - offset > len then len else BLK_SIZE - offset) in
           thenS (on_dev (bwrite buf bytes block offset))
             (iwrite_loop k (pos + bytes) (drop (unat bytes) buf) (len - bytes))) s
      else Inr (pos, s))"
  by pat_completeness auto
termination
proof (relation "measure (\<lambda>(k, pos, buf, len, s). unat len)")
  fix k pos and buf :: "byte list" and len s offset x t bytes y u
  assume g: "0 < len" and o: "offset = pos mod BLK_SIZE"
    and b: "bytes = (if BLK_SIZE - offset > len then len else BLK_SIZE - offset)"
  have "offset < BLK_SIZE" unfolding o by (simp add: word_less_nat_alt unat_mod)
  then have "0 < BLK_SIZE - offset" by (simp add: word_neq_0_conv [symmetric])
  then have "0 < bytes" "bytes \<le> len" using g b by auto
  then have "unat (len - bytes) < unat len"
    by (simp add: unat_sub word_less_nat_alt word_le_nat_alt)
  then show "((k, pos + bytes, drop (unat bytes) buf, len - bytes, u), k, pos, buf, len, s)
      \<in> measure (\<lambda>(k, pos, buf, len, s). unat len)" by simp
qed simp

declare iwrite_loop.simps [simp del]

definition iwrite :: "nat \<Rightarrow> u32 \<Rightarrow> byte list \<Rightarrow> u32 \<Rightarrow> u32 fsprog" where
  "iwrite k off buf len s =
     (if off > isize k s then Inr (- 1, s)
      else bindS (iwrite_loop k off buf len) (\<lambda>pos. bindS (getS (isize k)) (\<lambda>size'.
           thenS (if pos > size'
                  then thenS (set_inode k (\<lambda>ip. ip\<lparr>dinode := (dinode ip)\<lparr>di_size := pos\<rparr>\<rparr>)) (iupdate k)
                  else retS ())
             (retS (pos - off)))) s)"

definition itrunc :: "nat \<Rightarrow> unit fsprog" where
  "itrunc k =
     thenS (forS (\<lambda>i. bindS (getS (addr_of k i)) (\<lambda>a.
              if a \<noteq> 0 then thenS (bfree a) (set_addr k i 0) else retS ())) [0 ..< NDIRECT])
     (thenS (bindS (getS (addr_of k NDIRECT)) (\<lambda>indirect.
              if indirect \<noteq> 0
              then thenS (forS (\<lambda>i. bindS (on_dev (bread 4 indirect (of_nat (i * 4)))) (\<lambda>bs.
                            if of_le32 bs \<noteq> 0 then bfree (of_le32 bs) else retS ())) [0 ..< NINDIRECT])
                   (thenS (bfree indirect) (set_addr k NDIRECT 0))
              else retS ()))
     (thenS (set_inode k (\<lambda>ip. ip\<lparr>dinode := (dinode ip)\<lparr>di_size := 0\<rparr>\<rparr>)) (iupdate k)))"

definition idup :: "nat option \<Rightarrow> nat fsprog" where
  "idup p = (case p of None \<Rightarrow> stopS Abort
     | Some k \<Rightarrow> thenS (set_inode k (\<lambda>ip. ip\<lparr>i_ref := i_ref ip + 1\<rparr>)) (retS k))"

definition iclose :: "nat option \<Rightarrow> unit fsprog" where
  "iclose p = (case p of None \<Rightarrow> stopS Abort
     | Some k \<Rightarrow> bindS (get_inode k) (\<lambda>ip.
         thenS (if i_ref ip = 1 \<and> i_del ip \<noteq> 0 then thenS (itrunc k) (difree (i_no ip)) else retS ())
           (set_inode k (\<lambda>ip. ip\<lparr>i_ref := i_ref ip - 1\<rparr>))))"

section \<open>Paths\<close>

text \<open>\<open>while (*path == '/') path++;\<close> and \<open>while (*path != '/' && *path != 0) path++;\<close>\<close>

fun skip_slash :: "byte list \<Rightarrow> byte list res" where
  "skip_slash [] = Inl Undef"
| "skip_slash (c # p) = (if c = 47 then skip_slash p else Inr (c # p))"

fun elem_len :: "byte list \<Rightarrow> nat res" where
  "elem_len [] = Inl Undef"
| "elem_len (c # p) = (if c \<noteq> 47 \<and> c \<noteq> 0 then mapR Suc (elem_len p) else Inr 0)"

text \<open>
  \<open>None\<close> for the null pointer, else the name (\<open>MAX_NAME\<close> is 27; the buffer has room for the
  NUL after it) and the rest of the path.
\<close>

definition skipelem :: "byte list \<Rightarrow> (byte list \<times> byte list) option res" where
  "skipelem path = bindR (skip_slash path) (\<lambda>s.
     if hd s = 0 then Inr None
     else bindR (elem_len s) (\<lambda>len.
          let name = (if 27 \<le> len then take 27 s else take len s) in
          bindR (skip_slash (drop len s)) (\<lambda>path. Inr (Some (name, path)))))"

lemma skip_slash_length: "skip_slash p = Inr q \<Longrightarrow> length q \<le> length p \<and> q \<noteq> [] \<and> hd q \<noteq> 47"
  by (induction p) (auto split: if_splits)

lemma skipelem_shorter:
  assumes "skipelem path = Inr (Some (name, rest))"
  shows "length rest < length path"
proof -
  obtain s len where s: "skip_slash path = Inr s" "hd s \<noteq> 0" "elem_len s = Inr len"
    "skip_slash (drop len s) = Inr rest"
    using assms by (auto simp: skipelem_def res_simps Let_def split: if_splits)
  obtain c s' where c: "s = c # s'" "c \<noteq> 47" "c \<noteq> 0"
    using s(2) skip_slash_length [OF s(1)] by (cases s) auto
  then have "0 < len" using s(3) by (auto simp: res_simps)
  then show ?thesis using skip_slash_length [OF s(1)] skip_slash_length [OF s(4)] c by auto
qed

section \<open>Directories\<close>

definition idirinit :: "nat \<Rightarrow> nat \<Rightarrow> unit fsprog" where
  "idirinit k parent =
     thenS (bindS (getS (itype k)) (\<lambda>t. assertS (t = TYPE_DIR)))
     (thenS (bindS (getS (itype parent)) (\<lambda>t. assertS (t = TYPE_DIR)))
     (thenS (bindS (getS (isize k)) (\<lambda>n. assertS (n = 0)))
     (bindS (getS garbage) (\<lambda>dirent.
      bindS (getS (ino k)) (\<lambda>no.
      bindS (liftS (set_dirent no (bytes_of ''.'' @ [0]) dirent)) (\<lambda>dirent.
      bindS (iwrite k 0 dirent 32) (\<lambda>_.
      bindS (getS (ino parent)) (\<lambda>no.
      bindS (liftS (set_dirent no (bytes_of ''..'' @ [0]) dirent)) (\<lambda>dirent.
      bindS (iwrite k 32 dirent 32) (\<lambda>_. retS ()))))))))))"

text \<open>A call of \<open>iread\<close> that returns got through \<open>iwalk\<close>: the offset is inside the largest file.\<close>

lemma iwalk_bound: "iwalk k no s = Inr r \<Longrightarrow> unat no < 1036"
proof (rule ccontr)
  assume "iwalk k no s = Inr r" "\<not> unat no < 1036"
  then have "\<not> no < 12" "12 \<le> no" by (simp_all add: word_less_nat_alt word_le_nat_alt)
  moreover then have "\<not> no - 12 < 1024"
    using \<open>\<not> unat no < 1036\<close> by (simp add: word_less_nat_alt unat_sub)
  ultimately show False using \<open>iwalk k no s = Inr r\<close> by (simp add: iwalk_def Let_def)
qed

lemma iread_bound: "iread k off n s = Inr r \<Longrightarrow> unat off < 4243456"
proof -
  assume "iread k off n s = Inr r"
  then obtain x where "iwalk k (off div BLK_SIZE) s = Inr x"
    by (cases "iwalk k (off div BLK_SIZE) s") (auto simp: iread_def)
  then have "unat (off div BLK_SIZE) < 1036" by (rule iwalk_bound)
  then show ?thesis by (simp add: unat_div)
qed

lemma iread_step: "iread k i n s = Inr r \<Longrightarrow> 4294967296 - unat (i + 32) < 4294967296 - unat i"
  using iread_bound [of k i n s r] unat_add_u32 [of i 32] by simp

text \<open>
  The loop of \<open>ilookup\<close>: the offset and inode number found, or the offset of the first free
  entry; with the last contents of \<open>dirent\<close>. A short \<open>iread\<close> leaves the rest of \<open>dirent\<close> as
  it was.
\<close>

function ilookup_loop :: "nat \<Rightarrow> byte list \<Rightarrow> u32 \<Rightarrow> u32 \<Rightarrow> u32 \<Rightarrow> byte list \<Rightarrow>
    ((u32 \<times> u32) option \<times> u32 \<times> byte list) fsprog" where
  "ilookup_loop parent name size' i free dirent s =
     (if i < size'
      then bindS (iread parent i 32) (\<lambda>xs.
           let dirent = xs @ drop (length xs) dirent in
           if dirent_inode dirent = 0
           then ilookup_loop parent name size' (i + 32) (if free = size' then i else free) dirent
           else bindS (liftS (strcmp (dirent_name dirent) (name @ [0]))) (\<lambda>c.
                if c = 0 then retS (Some (i, dirent_inode dirent), free, dirent)
                else ilookup_loop parent name size' (i + 32) free dirent)) s
      else Inr ((None, free, dirent), s))"
  by pat_completeness auto
termination
  by (relation "measure (\<lambda>(parent, name, size', i, free, dirent, s). 4294967296 - unat i)")
    (auto dest: iread_step)

declare ilookup_loop.simps [simp del]

text \<open>The inode found or made, and the offset stored through \<open>off\<close> when it was found.\<close>

definition ilookup :: "nat \<Rightarrow> byte list \<Rightarrow> u32 \<Rightarrow> (nat \<times> u32) option fsprog" where
  "ilookup parent name type =
     thenS (bindS (getS (itype parent)) (\<lambda>t. assertS (t = TYPE_DIR)))
     (bindS (getS (isize parent)) (\<lambda>size'.
      bindS (getS garbage) (\<lambda>dirent.
      bindS (ilookup_loop parent name size' 0 size' dirent) (\<lambda>(found, free, dirent).
      case found of
        Some (off, no) \<Rightarrow> bindS (iget no) (\<lambda>k. retS (Some (k, off)))
      | None \<Rightarrow>
          if type = TYPE_NONE then retS None
          else bindS (dialloc type) (\<lambda>no.
               bindS (iget no) (\<lambda>k.
               thenS (if type = TYPE_DIR then idirinit k parent else retS ())
               (bindS (liftS (set_dirent no (name @ [0]) dirent)) (\<lambda>dirent.
                bindS (iwrite parent (if free = size' then size' else free) dirent 32) (\<lambda>_.
                retS (Some (k, 0)))))))))))"

text \<open>\<open>cwd\<close> is \<open>proc_curr()->cwd\<close>.\<close>

function iopen_parent_loop :: "nat \<Rightarrow> byte list \<Rightarrow> (nat \<times> byte list) option fsprog" where
  "iopen_parent_loop ip path s =
     bindS (liftS (skipelem path)) (\<lambda>r. case r of
         None \<Rightarrow> thenS (iclose (Some ip)) (retS None)
       | Some (name, path) \<Rightarrow>
           bindS (getS (itype ip)) (\<lambda>t.
           if t \<noteq> TYPE_DIR then thenS (iclose (Some ip)) (retS None)
           else if hd path = 0 then retS (Some (ip, name))
           else bindS (ilookup ip name TYPE_NONE) (\<lambda>r. case r of
                    None \<Rightarrow> thenS (iclose (Some ip)) (retS None)
                  | Some (next', _) \<Rightarrow> thenS (iclose (Some ip)) (iopen_parent_loop next' path)))) s"
  by pat_completeness auto
termination
  by (relation "measure (\<lambda>(ip, path, s). length path)")
    (auto dest!: skipelem_shorter split: sum.splits)

declare iopen_parent_loop.simps [simp del]

definition iopen_parent :: "nat option \<Rightarrow> byte list \<Rightarrow> (nat \<times> byte list) option fsprog" where
  "iopen_parent cwd path = bindS (liftS (rdR path 0)) (\<lambda>c. bindS (getS sb) (\<lambda>b.
     bindS (if c = 47 then iget (root b) else idup cwd) (\<lambda>ip. iopen_parent_loop ip path)))"

definition iopen :: "nat option \<Rightarrow> byte list \<Rightarrow> u32 \<Rightarrow> nat option fsprog" where
  "iopen cwd path type = bindS (liftS (skipelem path)) (\<lambda>r. case r of
       None \<Rightarrow> if hd path = 47 then bindS (getS sb) (\<lambda>b. bindS (iget (root b)) (\<lambda>k. retS (Some k)))
               else retS None
     | Some _ \<Rightarrow> bindS (iopen_parent cwd path) (\<lambda>r. case r of
           None \<Rightarrow> retS None
         | Some (parent, name) \<Rightarrow> bindS (ilookup parent name type) (\<lambda>r.
             thenS (iclose (Some parent)) (retS (map_option fst r)))))"

definition iadddev :: "nat option \<Rightarrow> byte list \<Rightarrow> u32 \<Rightarrow> unit fsprog" where
  "iadddev cwd name id' = bindS (iopen cwd name TYPE_DEV) (\<lambda>p. case p of
       None \<Rightarrow> stopS Abort
     | Some k \<Rightarrow>
         thenS (set_inode k (\<lambda>ip. ip\<lparr>dinode := (dinode ip)\<lparr>di_device := id'\<rparr>\<rparr>))
         (thenS (iupdate k) (iclose (Some k))))"

function idirempty_loop :: "nat \<Rightarrow> u32 \<Rightarrow> byte list \<Rightarrow> bool fsprog" where
  "idirempty_loop k i dirent s =
     (if i < isize k s
      then bindS (iread k i 32) (\<lambda>xs.
           let dirent = xs @ drop (length xs) dirent in
           if dirent_inode dirent \<noteq> 0 then retS False
           else idirempty_loop k (i + 32) dirent) s
      else Inr (True, s))"
  by pat_completeness auto
termination
  by (relation "measure (\<lambda>(k, i, dirent, s). 4294967296 - unat i)") (auto dest: iread_step)

declare idirempty_loop.simps [simp del]

definition idirempty :: "nat \<Rightarrow> bool fsprog" where
  "idirempty k = thenS (bindS (getS (itype k)) (\<lambda>t. assertS (t = TYPE_DIR)))
     (bindS (getS garbage) (\<lambda>dirent. idirempty_loop k 64 dirent))"

definition iremove :: "nat option \<Rightarrow> byte list \<Rightarrow> u32 fsprog" where
  "iremove cwd path = bindS (iopen_parent cwd path) (\<lambda>r. case r of
       None \<Rightarrow> retS (- 1)
     | Some (parent, name) \<Rightarrow>
         bindS (liftS (strcmp (name @ [0]) (bytes_of ''.'' @ [0]))) (\<lambda>c.
         bindS (liftS (if c = 0 then Inr 0 else strcmp (name @ [0]) (bytes_of ''..'' @ [0]))) (\<lambda>c.
         if c = 0 then thenS (iclose (Some parent)) (retS (- 1))
         else bindS (ilookup parent name TYPE_NONE) (\<lambda>r. case r of
             None \<Rightarrow> thenS (iclose (Some parent)) (retS (- 1))
           | Some (k, off) \<Rightarrow>
               bindS (getS (itype k)) (\<lambda>t.
               bindS (if t = TYPE_DIR then idirempty k else retS True) (\<lambda>deletable.
               if \<not> deletable then thenS (iclose (Some parent)) (thenS (iclose (Some k)) (retS (- 1)))
               else bindS (iwrite parent off (replicate 32 0) 32) (\<lambda>_.
                    thenS (set_inode k (\<lambda>ip. ip\<lparr>i_del := 1\<rparr>))
                    (thenS (iclose (Some parent)) (thenS (iclose (Some k)) (retS 0))))))))))"

end
