(* ===== verification/FsDisk.thy ===== *)
theory FsDisk
  imports Fs
begin

unbundle bit_operations_syntax

text \<open>
  The allocators of \<open>fs.c\<close> and its table of open inodes: the bitmap and the inode area as the
  set of marked blocks \<open>used\<close> and the array \<open>dino\<close> of on-disk inodes, what \<open>balloc\<close>, \<open>bfree\<close>,
  \<open>dialloc\<close>, \<open>diread\<close>, \<open>diwrite\<close> and \<open>iget\<close> do to them, and the invariant \<open>fs_ok\<close> of the layout.
\<close>

section \<open>The structures in memory\<close>

lemma words_length [simp]: "length (words n bs) = n"
  by (simp add: words_def)

lemma concat_le32_span:
  "i < length ws \<Longrightarrow> span_at (4 * i) 4 (concat (map le32 ws)) = le32 (ws ! i)"
proof (induction ws arbitrary: i)
  case (Cons w ws)
  then show ?case by (cases i) (auto simp: span_at_def)
qed simp

lemma words_concat: "n = length ws \<Longrightarrow> words n (concat (map le32 ws)) = ws"
  by (auto simp: words_def concat_le32_span intro: nth_equalityI)

lemma concat_words: "length bs = 4 * n \<Longrightarrow> concat (map le32 (words n bs)) = bs"
  by (simp add: words_def comp_def words_of_bytes)

text \<open>
  On-disk inodes: what \<open>diwrite\<close> stores is read back as the same inode, and every 64-byte
  slot is the image of the inode it is read as.
\<close>
lemma dinode_roundtrip:
  "length (di_addrs di) = 13 \<Longrightarrow> length bs = 64 \<Longrightarrow>
   dinode_of (dinode_bytes di) = di \<and> dinode_bytes (dinode_of bs) = bs"
proof
  assume "length (di_addrs di) = 13"
  then have "words 16 (dinode_bytes di) = di_type di # di_device di # di_size di # di_addrs di"
    unfolding dinode_bytes_def by (intro words_concat) simp
  then show "dinode_of (dinode_bytes di) = di"
    by (simp add: dinode_of_def Let_def numeral_eq_Suc)
next
  assume "length bs = 64"
  moreover have "ws ! 0 # ws ! 1 # ws ! 2 # drop 3 ws = ws" if "length ws = 16" for ws :: "u32 list"
    using that by (simp add: Cons_nth_drop_Suc numeral_eq_Suc)
  ultimately show "dinode_bytes (dinode_of bs) = bs"
    by (simp add: dinode_bytes_def dinode_of_def Let_def concat_words del: list.map)
qed

lemma dinode_roundtrip_witness:
  "dinode_of (dinode_bytes \<lparr>di_type = 1, di_device = 0, di_size = 70000, di_addrs = replicate 13 0x1ff\<rparr>) =
     \<lparr>di_type = 1, di_device = 0, di_size = 70000, di_addrs = replicate 13 0x1ff\<rparr> \<and>
   dinode_bytes (dinode_of (replicate 64 7)) = replicate 64 7"
  by (rule dinode_roundtrip) simp_all

section \<open>Words of a block\<close>

definition word_at :: "byte list \<Rightarrow> nat \<Rightarrow> u32" where
  "word_at B i = of_le32 (span_at (4 * i) 4 B)"

lemma word_at_put:
  "length B = 4096 \<Longrightarrow> i < 1024 \<Longrightarrow> k < 1024 \<Longrightarrow>
   word_at (put_at (4 * i) (le32 w) B) k = (if k = i then w else word_at B k)"
  using span_put_other [of "4 * i" "le32 w" B "4 * k" 4] by (cases "k < i") (auto simp: word_at_def)

lemma word_at_zero: "k < 1024 \<Longrightarrow> word_at (replicate 4096 0) k = 0"
  by (simp add: word_at_def span_at_def of_le32_def)

lemma bit_mask_zero: "j < 32 \<Longrightarrow> (w :: u32) AND push_bit j 1 = 0 \<longleftrightarrow> \<not> bit w j"
  by (simp add: push_bit_eq_mult and_exp_eq_0_iff_not_bit)

lemma bit_set_iff: "j < 32 \<Longrightarrow> bit ((w :: u32) OR push_bit j 1) i \<longleftrightarrow> bit w i \<or> i = j"
  by (auto simp: bit_simps)

lemma bit_clear_iff: "j < 32 \<Longrightarrow> bit ((w :: u32) AND NOT (push_bit j 1)) i \<longleftrightarrow> bit w i \<and> i \<noteq> j"
  by (auto simp: bit_simps dest: bit_imp_le_length)

lemma clear_bit_Some:
  "clear_bit w = Some j \<longleftrightarrow> j < 32 \<and> \<not> bit w j \<and> (\<forall>i < j. bit w i)"
proof -
  have "find_slot (\<lambda>j. w AND push_bit j 1 = 0) [0 ..< 32] = Some j \<longleftrightarrow>
      j < 32 \<and> w AND push_bit j 1 = 0 \<and> (\<forall>i < j. w AND push_bit i 1 \<noteq> 0)"
    by (auto simp: find_slot_Some)
  then show ?thesis unfolding clear_bit_def using bit_mask_zero by auto
qed

lemma clear_bit_None: "clear_bit w = None \<longleftrightarrow> w = 0xffffffff"
proof -
  have "clear_bit w = None \<longleftrightarrow> (\<forall>j < 32. bit w j)"
    unfolding clear_bit_def find_slot_None using bit_mask_zero by auto
  also have "\<dots> \<longleftrightarrow> w = - 1" by (auto simp: bit_eq_iff)
  also have "(- 1 :: u32) = 0xffffffff" by code_simp
  finally show ?thesis .
qed

lemma clear_bit_scan: "(if w \<noteq> 0xffffffff then clear_bit w else None) = clear_bit w"
  using clear_bit_None [of w] by auto

section \<open>Calls of the block layer\<close>

lemma runs_on_dev [simp]:
  "runs A (on_dev m) Q = (\<lambda>s. runs A m (\<lambda>x d. Q x (s\<lparr>dev := d\<rparr>)) (dev s))"
  by (simp add: fun_eq_iff runs_def on_dev_def split: sum.split prod.split)

lemma runs_set_inode [simp]:
  "runs A (set_inode k f) Q = (\<lambda>s. Q () (s\<lparr>inodes := (inodes s)[k := f (inodes s ! k)]\<rparr>))"
  by (simp add: set_inode_def)

section \<open>The layout of the disk\<close>

text \<open>
  The blocks the file system sees, the bit of a block in the bitmap, the on-disk inodes. \<open>meta\<close>
  are the blocks of the bitmap and of the inodes. \<open>fs_ok\<close> says that the super block describes a
  layout on the disk, in which the blocks that hold no file data are marked used.
\<close>

definition blocks :: "fs \<Rightarrow> u32 \<Rightarrow> byte list" where
  "blocks s = blk (dev s)"

definition used :: "fs \<Rightarrow> nat \<Rightarrow> bool" where
  "used s b \<longleftrightarrow> bit (word_at (blocks s (bitmap (sb s))) (b div 32)) (b mod 32)"

definition meta :: "fs \<Rightarrow> nat \<Rightarrow> bool" where
  "meta s b \<longleftrightarrow> b = unat (bitmap (sb s)) \<or>
     unat (istart (sb s)) \<le> b \<and> b < unat (istart (sb s)) + (unat (inum (sb s)) + 63) div 64"

definition fs_ok :: "fs \<Rightarrow> bool" where
  "fs_ok s \<longleftrightarrow> disk_ok (dev s) \<and> length (inodes s) = 128 \<and> length (garbage s) = 32 \<and>
     unat (bitmap (sb s)) < 32768 \<and> unat (istart (sb s)) + (unat (inum (sb s)) + 63) div 64 \<le> 32768 \<and>
     \<not> (unat (istart (sb s)) \<le> unat (bitmap (sb s)) \<and>
        unat (bitmap (sb s)) < unat (istart (sb s)) + (unat (inum (sb s)) + 63) div 64) \<and>
     used s 0 \<and> (\<forall>b. meta s b \<longrightarrow> used s b)"

lemma length_blocks: "fs_ok s \<Longrightarrow> unat b < 524288 \<Longrightarrow> length (blocks s b) = 4096"
  by (simp add: blocks_def fs_ok_def)

text \<open>
  The effect of taking and of giving back block \<open>b\<close>: one bit of the bitmap and, when it is
  taken, the contents of the block.
\<close>

definition bit_put :: "(u32 \<Rightarrow> u32) \<Rightarrow> nat \<Rightarrow> fs \<Rightarrow> (u32 \<Rightarrow> byte list)" where
  "bit_put f b s = (blocks s)(bitmap (sb s) := put_at (4 * (b div 32))
     (le32 (f (word_at (blocks s (bitmap (sb s))) (b div 32)))) (blocks s (bitmap (sb s))))"

definition took :: "fs \<Rightarrow> nat \<Rightarrow> fs \<Rightarrow> bool" where
  "took s b t \<longleftrightarrow> t = s\<lparr>dev := dev t\<rparr> \<and> disk_ok (dev t) \<and>
     blocks t = (bit_put (\<lambda>w. w OR push_bit (b mod 32) 1) b s)(of_nat b := replicate 4096 0)"

definition first_free :: "fs \<Rightarrow> nat \<Rightarrow> bool" where
  "first_free s b \<longleftrightarrow> b < 32768 \<and> \<not> used s b \<and> (\<forall>c < b. used s c)"

lemma balloc_loop_runs:
  assumes "disk_ok (dev s)" "unat (bitmap (sb s)) < 524288" "i \<le> 1024" "\<forall>c < 32 * i. used s c"
  shows "runs {} (balloc_loop i) (\<lambda>r t. \<exists>b. first_free s b \<and> r = of_nat b \<and> took s b t) s \<or>
    (\<forall>c < 32768. used s c) \<and> balloc_loop i s = Inl Abort"
  using assms
proof (induction "1024 - i" arbitrary: i s)
  case 0
  then have "i = 1024" by simp
  then show ?case using 0 by (simp add: balloc_loop.simps)
next
  case (Suc n)
  let ?B = "blocks s (bitmap (sb s))"
  have i: "i < 1024" using Suc.hyps by simp
  have off: "unat (of_nat (i * 4) :: u32) = 4 * i" using i by (simp add: unat_of_nat_u32 del: of_nat_mult)
  then have off': "unat (of_nat i * 4 :: u32) = 4 * i" by simp
  obtain d where d: "bread 4 (bitmap (sb s)) (of_nat (i * 4)) (dev s) = Inr (span_at (4 * i) 4 ?B, d)"
    "disk_ok d" "blk d = blk (dev s)"
    using bs.rd [OF Suc.prems(1,2), of "of_nat (i * 4)" 4] i off
    by (auto simp: runs_total blocks_def)
  let ?s = "s\<lparr>dev := d\<rparr>"
  have same: "blocks ?s = blocks s" using d by (simp add: blocks_def)
  have usd: "used ?s = used s" by (rule ext) (simp add: used_def same)
  show ?case
  proof (cases "clear_bit (word_at ?B i)")
    case None
    then have full: "\<forall>c < 32 * (i + 1). used s c"
    proof (intro allI impI)
      fix c assume c: "c < 32 * (i + 1)"
      show "used s c"
      proof (cases "c < 32 * i")
        case False
        then have "c div 32 = i" using c by (intro div_nat_eqI) auto
        moreover have "word_at ?B i = - 1" using None clear_bit_None by simp
        ultimately show ?thesis by (simp add: used_def)
      qed (use Suc.prems in blast)
    qed
    have "balloc_loop i s = balloc_loop (i + 1) ?s"
      using None i d(1) unfolding word_at_def
      by (subst balloc_loop.simps) (simp add: on_dev_def clear_bit_scan)
    moreover have "runs {} (balloc_loop (i + 1)) (\<lambda>r t. \<exists>b. first_free ?s b \<and> r = of_nat b \<and> took ?s b t) ?s \<or>
        (\<forall>c < 32768. used ?s c) \<and> balloc_loop (i + 1) ?s = Inl Abort"
      using Suc.hyps Suc.prems d full i by (intro Suc.hyps(1)) (auto simp: usd)
    moreover have "first_free ?s b = first_free s b" "took ?s b t = took s b t" for b t
      by (simp_all add: first_free_def usd took_def bit_put_def same)
    ultimately show ?thesis by (simp add: usd runs_def)
  next
    case (Some j)
    then have j: "j < 32" "\<not> bit (word_at ?B i) j" "\<forall>k < j. bit (word_at ?B i) k"
      by (simp_all add: clear_bit_Some)
    let ?b = "i * 32 + j"
    have b: "?b div 32 = i" "?b mod 32 = j" using j(1) by auto
    have "first_free s ?b"
      unfolding first_free_def
    proof (intro conjI allI impI)
      show "?b < 32768" using i j(1) by linarith
      show "\<not> used s ?b" using j by (simp add: used_def b)
      fix c assume c: "c < ?b"
      show "used s c"
      proof (cases "c < 32 * i")
        case False
        then obtain k where k: "c = i * 32 + k" "k < j" using c le_Suc_ex [of "i * 32" c] by auto
        then have "c div 32 = i" "c mod 32 = k" using j(1) by auto
        then show ?thesis using j(3) k(2) by (simp add: used_def)
      qed (use Suc.prems in blast)
    qed
    have step: "balloc_loop i s =
        thenS (on_dev (bwrite (le32 (word_at ?B i OR push_bit j 1)) 4 (bitmap (sb s)) (of_nat (i * 4))))
          (thenS (on_dev (bzero (of_nat ?b))) (retS (of_nat ?b))) ?s"
      using Some i d(1) unfolding word_at_def
      by (subst balloc_loop.simps) (simp add: on_dev_def clear_bit_scan)
    have len: "unat (of_nat ?b :: u32) < 524288" using i j(1) by (subst unat_of_nat_u32) auto
    have "runs {} (thenS (on_dev (bwrite (le32 (word_at ?B i OR push_bit j 1)) 4 (bitmap (sb s)) (of_nat (i * 4))))
        (thenS (on_dev (bzero (of_nat ?b))) (retS (of_nat ?b)))) (\<lambda>r t. r = of_nat ?b \<and> took s ?b t) ?s"
      unfolding runs_simps runs_on_dev
    proof (rule bs.wrI, goal_cases)
      case (5 e)
      show ?case
        by (rule bs.zeroI) (use 5 len b d in \<open>auto simp: took_def bit_put_def blocks_def off'\<close>)
    qed (use Suc.prems d i off in simp_all)
    then have "runs {} (balloc_loop i) (\<lambda>r t. r = of_nat ?b \<and> took s ?b t) s"
      by (simp only: runs_def step)
    then show ?thesis using \<open>first_free s ?b\<close> by (auto simp: runs_def split: sum.splits prod.splits)
  qed
qed

text \<open>The number of blocks that are not marked.\<close>

definition spare :: "fs \<Rightarrow> nat" where
  "spare s = card {b. b < 32768 \<and> \<not> used s b}"

lemma spare_took:
  assumes "first_free s b" "\<forall>c < 32768. used t c \<longleftrightarrow> c = b \<or> used s c"
  shows "spare s = Suc (spare t)"
proof -
  have "{c. c < 32768 \<and> \<not> used s c} = insert b {c. c < 32768 \<and> \<not> used t c}"
    using assms by (auto simp: first_free_def)
  moreover have "b \<notin> {c. c < 32768 \<and> \<not> used t c}" using assms by (auto simp: first_free_def)
  ultimately show ?thesis by (simp add: spare_def)
qed

lemma spare_same: "used t = used s \<Longrightarrow> spare t = spare s"
  by (simp add: spare_def)

lemma spare_block: "0 < spare s \<longleftrightarrow> (\<exists>b < 32768. \<not> used s b)"
  by (auto simp: spare_def card_gt_0_iff)

lemma balloc_runs:
  assumes "disk_ok (dev s)" "unat (bitmap (sb s)) < 524288"
  shows "runs {Abort} balloc (\<lambda>r t. \<exists>b. first_free s b \<and> r = of_nat b \<and> took s b t) s"
    and "\<exists>b < 32768. \<not> used s b \<Longrightarrow> runs {} balloc (\<lambda>r t. \<exists>b. first_free s b \<and> r = of_nat b \<and> took s b t) s"
    and "\<forall>b < 32768. used s b \<Longrightarrow> balloc s = Inl Abort"
  using balloc_loop_runs [OF assms, of 0] unfolding balloc_def
  by (auto simp: runs_def first_free_def split: sum.splits)

lemmas bit_set_exp = bit_set_iff [simplified]
lemmas bit_clear_exp = bit_clear_iff [simplified]

lemma used_bit_put:
  assumes "fs_ok s" "sb t = sb s" "blocks t (bitmap (sb s)) = bit_put f b s (bitmap (sb s))" "b < 32768" "c < 32768"
    and f: "\<And>w i. bit (f w) i \<longleftrightarrow> (if i = b mod 32 then v else bit w i)"
  shows "used t c \<longleftrightarrow> (if c = b then v else used s c)"
proof -
  have i: "b div 32 < 1024" "c div 32 < 1024" using assms(4,5) by auto
  have len: "length (blocks s (bitmap (sb s))) = 4096"
    using assms(1) by (intro length_blocks) (auto simp: fs_ok_def)
  have "c = b \<longleftrightarrow> c div 32 = b div 32 \<and> c mod 32 = b mod 32" by (metis div_mult_mod_eq)
  then show ?thesis
    using assms(2,3) f by (auto simp: used_def bit_put_def word_at_put [OF len i])
qed

lemma unat_less_disk: "unat b < 32768 \<Longrightarrow> unat (b :: u32) < 524288"
  by linarith

lemma fs_ok_bitmap: "fs_ok s \<Longrightarrow> used s (unat (bitmap (sb s))) \<and> unat (bitmap (sb s)) < 524288"
  by (auto simp: fs_ok_def meta_def)

lemma same_but_dev: "t = s\<lparr>dev := d\<rparr> \<Longrightarrow> sb t = sb s \<and> inodes t = inodes s \<and> garbage t = garbage s"
  by simp

lemma took_frame: "took s b t \<Longrightarrow> sb t = sb s \<and> inodes t = inodes s \<and> garbage t = garbage s"
  unfolding took_def using same_but_dev by blast

lemma first_free_apart:
  assumes "fs_ok s" "first_free s b"
  shows "unat (of_nat b :: u32) = b" "(of_nat b :: u32) \<noteq> bitmap (sb s)" "b \<noteq> 0" "\<not> meta s b" "b < 32768"
proof -
  have b: "b < 32768" "\<not> used s b" using assms(2) by (auto simp: first_free_def)
  show u: "unat (of_nat b :: u32) = b" using b by (intro unat_of_nat_u32) simp
  show "(of_nat b :: u32) \<noteq> bitmap (sb s)"
  proof
    assume "of_nat b = bitmap (sb s)"
    then show False using b u fs_ok_bitmap [OF assms(1)] by simp
  qed
  show "b \<noteq> 0" "\<not> meta s b" "b < 32768" using b assms(1) by (auto simp: fs_ok_def intro: ccontr)
qed

lemma balloc_room:
  assumes "fs_ok s" "A = {Abort} \<or> 0 < spare s"
  shows "runs A balloc (\<lambda>r t. \<exists>b. first_free s b \<and> r = of_nat b \<and> took s b t) s"
proof -
  have d: "disk_ok (dev s)" "unat (bitmap (sb s)) < 524288" using assms(1) fs_ok_bitmap by (auto simp: fs_ok_def)
  show ?thesis
  proof (cases "A = {Abort}")
    case False
    then have "\<exists>b < 32768. \<not> used s b" using assms(2) spare_block by blast
    then show ?thesis by (rule runs_mono [OF balloc_runs(2) [OF d]]) auto
  qed (use balloc_runs(1) [OF d] in simp)
qed

lemma took_used:
  assumes "fs_ok s" "first_free s b" "took s b t" "c < 32768"
  shows "used t c \<longleftrightarrow> c = b \<or> used s c"
proof -
  note ap = first_free_apart [OF assms(1,2)]
  have "used t c \<longleftrightarrow> (if c = b then True else used s c)"
    using assms(3) ap took_frame [OF assms(3)]
    by (intro used_bit_put [OF assms(1) _ _ _ assms(4), where f = "\<lambda>w. w OR push_bit (b mod 32) 1"])
      (auto simp: took_def bit_set_exp)
  then show ?thesis by auto
qed

lemma meta_frame: "sb t = sb s \<Longrightarrow> meta t = meta s"
  by (rule ext) (simp add: meta_def)

lemma meta_disk: "fs_ok s \<Longrightarrow> meta s b \<Longrightarrow> b < 32768"
  by (auto simp: meta_def fs_ok_def)

lemma took_ok:
  assumes "fs_ok s" "first_free s b" "took s b t"
  shows "fs_ok t"
proof -
  have fr: "sb t = sb s" "inodes t = inodes s" "garbage t = garbage s" using took_frame [OF assms(3)] by auto
  have "used t c" if "meta s c" for c
    using that assms(1) took_used [OF assms meta_disk [OF assms(1) that]] by (auto simp: fs_ok_def)
  moreover have "used t 0" using assms(1) took_used [OF assms, of 0] by (auto simp: fs_ok_def)
  ultimately show ?thesis
    using assms(1,3) fr meta_frame [OF fr(1)] by (simp add: fs_ok_def took_def)
qed

lemma took_blocks:
  assumes "fs_ok s" "first_free s b" "took s b t"
  shows "blocks t (of_nat b) = replicate 4096 0"
    and "x \<noteq> of_nat b \<Longrightarrow> x \<noteq> bitmap (sb s) \<Longrightarrow> blocks t x = blocks s x"
  using assms(3) by (simp_all add: took_def bit_put_def)

text \<open>
  C17. Block allocation: \<open>balloc\<close> aborts exactly when every block is marked; otherwise it returns
  the lowest unmarked block, which is then marked and zero, while no other block but the bitmap
  and no other mark changes, and the layout stays well-formed.
\<close>
theorem balloc_lowest:
  assumes "fs_ok s"
  shows "(balloc s = Inl Abort \<longleftrightarrow> (\<forall>b < 32768. used s b)) \<and>
    runs {Abort} balloc (\<lambda>r t. fs_ok t \<and> r = of_nat (LEAST b. \<not> used s b) \<and>
      (\<forall>c < 32768. used t c \<longleftrightarrow> of_nat c = r \<or> used s c) \<and> blocks t r = replicate 4096 0 \<and>
      (\<forall>x. x \<noteq> r \<and> x \<noteq> bitmap (sb s) \<longrightarrow> blocks t x = blocks s x)) s"
proof
  have d: "disk_ok (dev s)" "unat (bitmap (sb s)) < 524288" using assms fs_ok_bitmap by (auto simp: fs_ok_def)
  show "balloc s = Inl Abort \<longleftrightarrow> (\<forall>b < 32768. used s b)"
  proof (cases "\<forall>b < 32768. used s b")
    case False
    then have "runs {} balloc (\<lambda>r t. \<exists>b. first_free s b \<and> r = of_nat b \<and> took s b t) s"
      by (intro balloc_runs(2) [OF d]) blast
    then show ?thesis using False by (auto simp: runs_total)
  qed (use balloc_runs(3) [OF d] in blast)
  show "runs {Abort} balloc (\<lambda>r t. fs_ok t \<and> r = of_nat (LEAST b. \<not> used s b) \<and>
      (\<forall>c < 32768. used t c \<longleftrightarrow> of_nat c = r \<or> used s c) \<and> blocks t r = replicate 4096 0 \<and>
      (\<forall>x. x \<noteq> r \<and> x \<noteq> bitmap (sb s) \<longrightarrow> blocks t x = blocks s x)) s"
  proof (rule runs_mono [OF balloc_runs(1) [OF d]])
    fix r :: u32 and t assume "\<exists>b. first_free s b \<and> r = of_nat b \<and> took s b t"
    then obtain b where b: "first_free s b" "r = of_nat b" "took s b t" by blast
    have "(LEAST b. \<not> used s b) = b"
      using b(1) by (intro Least_equality) (auto simp: first_free_def not_less [symmetric])
    moreover have "of_nat c = (of_nat b :: u32) \<longleftrightarrow> c = b" if "c < 32768" for c
      using that first_free_apart [OF assms b(1)] unat_of_nat_u32 [of c] by auto
    ultimately show "fs_ok t \<and> r = of_nat (LEAST b. \<not> used s b) \<and>
      (\<forall>c < 32768. used t c \<longleftrightarrow> of_nat c = r \<or> used s c) \<and> blocks t r = replicate 4096 0 \<and>
      (\<forall>x. x \<noteq> r \<and> x \<noteq> bitmap (sb s) \<longrightarrow> blocks t x = blocks s x)"
      using b took_ok [OF assms b(1,3)] took_used [OF assms b(1,3)] took_blocks [OF assms b(1,3)] by simp
  qed simp
qed

text \<open>A step that changes the disk only: to the blocks \<open>B\<close>.\<close>

definition dev_step :: "fs \<Rightarrow> (u32 \<Rightarrow> byte list) \<Rightarrow> fs \<Rightarrow> bool" where
  "dev_step s B t \<longleftrightarrow> t = s\<lparr>dev := dev t\<rparr> \<and> disk_ok (dev t) \<and> blocks t = B"

lemma dev_step_frame:
  "dev_step s B t \<Longrightarrow> sb t = sb s \<and> inodes t = inodes s \<and> garbage t = garbage s \<and> blocks t = B"
  unfolding dev_step_def using same_but_dev by blast

lemma took_step:
  "took s b t = dev_step s ((bit_put (\<lambda>w. w OR push_bit (b mod 32) 1) b s)(of_nat b := replicate 4096 0)) t"
  by (simp add: took_def dev_step_def)

lemma dev_stepI: "disk_ok d \<Longrightarrow> blk d = B \<Longrightarrow> dev_step s B (s\<lparr>dev := d\<rparr>)"
  by (simp add: dev_step_def blocks_def)

lemma dev_step_trans: "dev_step s B t \<Longrightarrow> dev_step t C u \<Longrightarrow> dev_step s C u"
  unfolding dev_step_def by (metis fs.surjective fs.update_convs(1))

text \<open>Steps that leave the bitmap alone keep the marks and the layout.\<close>

lemma dev_step_used:
  "dev_step s B t \<Longrightarrow> B (bitmap (sb s)) = blocks s (bitmap (sb s)) \<Longrightarrow> used t = used s"
  using dev_step_frame [of s B t] by (auto simp: used_def fun_eq_iff)

lemma dev_step_ok:
  assumes "fs_ok s" "dev_step s B t" "B (bitmap (sb s)) = blocks s (bitmap (sb s))"
  shows "fs_ok t"
  using assms dev_step_frame [OF assms(2)] dev_step_used [OF assms(2,3)] meta_frame [of t s]
  by (simp add: fs_ok_def dev_step_def)

subsection \<open>Giving a block back\<close>

lemma bfree_runs:
  assumes "fs_ok s" "64 \<le> unat b" "unat b < 32768"
  shows "runs {} (bfree b) (\<lambda>_. dev_step s (bit_put (\<lambda>w. w AND NOT (push_bit (unat b mod 32) 1)) (unat b) s)) s"
proof -
  let ?i = "b div 32"
  have d: "disk_ok (dev s)" "unat (bitmap (sb s)) < 524288" using assms fs_ok_bitmap by (auto simp: fs_ok_def)
  have i: "unat ?i = unat b div 32" "unat (b mod 32) = unat b mod 32" by (simp_all add: unat_div unat_mod)
  then have "4 * unat ?i < 4096" using assms(3) by auto
  then have off: "unat (?i * 4) = 4 * (unat b div 32)" "unat (4 * ?i) = 4 * (unat b div 32)"
    using i by (auto simp: unat_word_ariths)
  have g: "64 \<le> b" using assms(2) by (simp add: word_le_nat_alt)
  show ?thesis
    unfolding bfree_def runs_simps runs_unit_simps runs_bind Let_def runs_on_dev if_P [OF g]
  proof (rule bs.rdI [OF d], goal_cases)
    case (2 e)
    have "word_at (blocks s (bitmap (sb s))) (unat b div 32) =
        of_le32 (span_at (unat (?i * 4)) (unat (4 :: u32)) (blk (dev s) (bitmap (sb s))))"
      by (simp add: word_at_def blocks_def off)
    then show ?case
      using 2 d assms(3) i
      by (auto intro!: bs.wrI dev_stepI simp: off bit_put_def blocks_def simp del: push_bit_of_1)
  qed (use off assms(3) in auto)
qed

lemma freed_used:
  assumes "fs_ok s" "b < 32768" "c < 32768"
    "dev_step s (bit_put (\<lambda>w. w AND NOT (push_bit (b mod 32) 1)) b s) t"
  shows "used t c \<longleftrightarrow> c \<noteq> b \<and> used s c"
proof -
  have "used t c \<longleftrightarrow> (if c = b then False else used s c)"
    using assms(2) dev_step_frame [OF assms(4)]
    by (intro used_bit_put [OF assms(1) _ _ _ assms(3), where f = "\<lambda>w. w AND NOT (push_bit (b mod 32) 1)"])
      (auto simp: bit_clear_exp)
  then show ?thesis by auto
qed

lemma freed_ok:
  assumes "fs_ok s" "b < 32768" "b \<noteq> 0" "\<not> meta s b"
    "dev_step s (bit_put (\<lambda>w. w AND NOT (push_bit (b mod 32) 1)) b s) t"
  shows "fs_ok t"
proof -
  note fr = dev_step_frame [OF assms(5)]
  have "used t c" if "meta s c" for c
    using that assms(1,4) freed_used [OF assms(1,2) meta_disk [OF assms(1) that] assms(5)]
    by (auto simp: fs_ok_def)
  moreover have "used t 0" using assms freed_used [OF assms(1,2) _ assms(5), of 0] by (auto simp: fs_ok_def)
  ultimately show ?thesis
    using assms(1,5) fr meta_frame [of t s] by (simp add: fs_ok_def dev_step_def)
qed

text \<open>
  Freeing undoes allocation: when the first 64 blocks are in use, \<open>bfree\<close> of the block that
  \<open>balloc\<close> returned never aborts and leaves the same set of blocks marked as before.
\<close>
lemma bfree_balloc:
  assumes "fs_ok s" "\<forall>b < 64. used s b"
  shows "runs {Abort} balloc (\<lambda>b t. runs {} (bfree b) (\<lambda>_ u. fs_ok u \<and> (\<forall>c < 32768. used u c = used s c)) t) s"
proof (rule runs_mono)
  show "runs {Abort} balloc (\<lambda>r t. \<exists>b. first_free s b \<and> r = of_nat b \<and> took s b t) s"
    using assms(1) fs_ok_bitmap by (intro balloc_runs(1)) (auto simp: fs_ok_def)
  fix r :: u32 and t assume "\<exists>b. first_free s b \<and> r = of_nat b \<and> took s b t"
  then obtain b where b: "first_free s b" "r = of_nat b" "took s b t" by blast
  note ap = first_free_apart [OF assms(1) b(1)]
  have "64 \<le> b" by (rule ccontr) (use b(1) assms(2) in \<open>auto simp: first_free_def\<close>)
  then have r: "unat r = b" "64 \<le> unat r" "unat r < 32768" using ap b(2) by simp_all
  have t: "fs_ok t" "\<not> meta t b" using took_ok [OF assms(1) b(1,3)] ap(4) meta_frame [of t s] took_frame [OF b(3)] by auto
  show "runs {} (bfree r) (\<lambda>_ u. fs_ok u \<and> (\<forall>c < 32768. used u c = used s c)) t"
  proof (rule runs_mono [OF bfree_runs [OF t(1) r(2,3)]])
    fix x u assume u: "dev_step t (bit_put (\<lambda>w. w AND NOT (push_bit (unat r mod 32) 1)) (unat r) t) u"
    have "used u c = used s c" if "c < 32768" for c
      using freed_used [OF t(1) r(3) that u] took_used [OF assms(1) b(1,3) that] b(1) r(1)
      by (auto simp: first_free_def)
    then show "fs_ok u \<and> (\<forall>c < 32768. used u c = used s c)"
      using freed_ok [OF t(1) r(3) _ _ u] ap(3) t(2) r(1) by auto
  qed simp
qed simp

subsection \<open>On-disk inodes\<close>

definition dino :: "fs \<Rightarrow> u32 \<Rightarrow> dinode_t" where
  "dino s no = dinode_of (span_at (unat (I2BLKOFF no)) 64 (blocks s (I2BLKNO no (sb s))))"

definition dino_put :: "fs \<Rightarrow> u32 \<Rightarrow> dinode_t \<Rightarrow> u32 \<Rightarrow> byte list" where
  "dino_put s no di = (blocks s)(I2BLKNO no (sb s) :=
     put_at (unat (I2BLKOFF no)) (dinode_bytes di) (blocks s (I2BLKNO no (sb s))))"

lemma inode_place:
  assumes "fs_ok s" "unat no < unat (inum (sb s))"
  shows "unat (I2BLKNO no (sb s)) = unat (istart (sb s)) + unat no div 64"
    and "unat (I2BLKOFF no) = 64 * (unat no mod 64)"
    and "unat (I2BLKNO no (sb s)) < 32768" "meta s (unat (I2BLKNO no (sb s)))"
    and "I2BLKNO no (sb s) \<noteq> bitmap (sb s)" "unat (I2BLKOFF no) + 64 \<le> 4096"
proof -
  have le: "unat no div 64 < (unat (inum (sb s)) + 63) div 64" using assms(2) by simp
  have lt: "unat (istart (sb s)) + (unat (inum (sb s)) + 63) div 64 \<le> 32768" using assms(1) by (simp add: fs_ok_def)
  have d: "unat (no div 64) = unat no div 64" "unat (no mod 64) = unat no mod 64"
    by (simp_all add: unat_div unat_mod)
  show b: "unat (I2BLKNO no (sb s)) = unat (istart (sb s)) + unat no div 64"
    unfolding I2BLKNO_def using le lt d by (subst unat_add_u32) simp_all
  have m: "unat no mod 64 < 64" by simp
  show o: "unat (I2BLKOFF no) = 64 * (unat no mod 64)"
    unfolding I2BLKOFF_def using d(2) m by (simp add: unat_word_ariths)
  show "unat (I2BLKNO no (sb s)) < 32768" "meta s (unat (I2BLKNO no (sb s)))"
    using b le lt by (simp_all add: meta_def)
  show "unat (I2BLKOFF no) + 64 \<le> 4096" using o m by linarith
  show "I2BLKNO no (sb s) \<noteq> bitmap (sb s)"
  proof
    assume "I2BLKNO no (sb s) = bitmap (sb s)"
    then have "unat (bitmap (sb s)) = unat (istart (sb s)) + unat no div 64" using b by simp
    then show False using assms(1) le by (simp add: fs_ok_def)
  qed
qed

lemma length_dinode_bytes [simp]: "length (di_addrs di) = 13 \<Longrightarrow> length (dinode_bytes di) = 64"
  by (simp add: dinode_bytes_def length_words)

lemma diread_runs:
  assumes "fs_ok s" "unat no < unat (inum (sb s))"
  shows "runs {} (diread no) (\<lambda>di t. di = dino s no \<and> dev_step s (blocks s) t) s"
proof -
  note pl = inode_place [OF assms]
  have d: "disk_ok (dev s)" "unat (I2BLKNO no (sb s)) < 524288" using assms pl by (auto simp: fs_ok_def)
  show ?thesis
    unfolding diread_def runs_bind runs_simps runs_on_dev
    by (rule bs.rdI [OF d]) (use pl in \<open>auto simp: dino_def blocks_def intro: dev_stepI\<close>)
qed

lemma diwrite_runs:
  assumes "fs_ok s" "unat no < unat (inum (sb s))" "length (di_addrs di) = 13"
  shows "runs {} (diwrite di no) (\<lambda>_. dev_step s (dino_put s no di)) s"
proof -
  note pl = inode_place [OF assms(1,2)]
  have d: "disk_ok (dev s)" "unat (I2BLKNO no (sb s)) < 524288" using assms pl by (auto simp: fs_ok_def)
  show ?thesis
    unfolding diwrite_def runs_bind runs_simps runs_on_dev
    by (rule bs.wrI [OF d]) (use pl assms(3) in \<open>auto simp: dino_put_def blocks_def intro!: dev_stepI\<close>)
qed

lemma dino_put_bitmap:
  "fs_ok s \<Longrightarrow> unat no < unat (inum (sb s)) \<Longrightarrow> dino_put s no di (bitmap (sb s)) = blocks s (bitmap (sb s))"
  using inode_place(5) [of s no] by (simp add: dino_put_def)

lemma dino_put_view:
  assumes "fs_ok s" "unat no < unat (inum (sb s))" "unat m < unat (inum (sb s))"
    "length (di_addrs di) = 13" "dev_step s (dino_put s no di) t"
  shows "dino t m = (if m = no then di else dino s m)"
proof -
  note p = inode_place [OF assms(1,2)] and q = inode_place [OF assms(1,3)]
  have len: "length (blocks s (I2BLKNO no (sb s))) = 4096"
    using p(3) by (intro length_blocks [OF assms(1)]) simp
  have fr: "sb t = sb s" "blocks t = dino_put s no di" using dev_step_frame [OF assms(5)] by auto
  have di: "dinode_of (dinode_bytes di) = di"
  proof -
    have "words 16 (dinode_bytes di) = di_type di # di_device di # di_size di # di_addrs di"
      unfolding dinode_bytes_def using assms(4) by (intro words_concat) simp
    then show ?thesis by (simp add: dinode_of_def Let_def numeral_eq_Suc)
  qed
  show ?thesis
  proof (cases "I2BLKNO m (sb s) = I2BLKNO no (sb s)")
    case False
    then show ?thesis by (auto simp: dino_def fr dino_put_def)
  next
    case True
    then have "unat m div 64 = unat no div 64" using p(1) q(1) by simp
    then have "m = no \<longleftrightarrow> unat m mod 64 = unat no mod 64"
      by (metis div_mult_mod_eq word_unat_eq_iff)
    then show ?thesis
    proof (cases "m = no")
      case False
      then have "unat (I2BLKOFF m) + 64 \<le> unat (I2BLKOFF no) \<or> unat (I2BLKOFF no) + 64 \<le> unat (I2BLKOFF m)"
        using \<open>m = no \<longleftrightarrow> unat m mod 64 = unat no mod 64\<close> p(2) q(2) by linarith
      then show ?thesis
        using False True p(6) q(6) len assms(4) by (simp add: dino_def fr dino_put_def span_put_other)
    qed (use True p(6) len assms(4) di in \<open>simp add: dino_def fr dino_put_def\<close>)
  qed
qed

lemma diwrite_ok:
  assumes "fs_ok s" "unat no < unat (inum (sb s))" "dev_step s (dino_put s no di) t"
  shows "fs_ok t" "used t = used s"
  using dev_step_ok [OF assms(1,3) dino_put_bitmap [OF assms(1,2)]]
    dev_step_used [OF assms(3) dino_put_bitmap [OF assms(1,2)]] by auto

lemma length_dino_addrs: "length (di_addrs (dino s no)) = 13"
  by (simp add: dino_def dinode_of_def Let_def)

text \<open>
  The inode area is an array: after \<open>diwrite(di, no)\<close>, \<open>diread(m)\<close> returns \<open>di\<close> for the same
  number and what was there before for every other one, and no block is marked or unmarked.
\<close>
lemma diread_diwrite:
  assumes "fs_ok s" "unat no < unat (inum (sb s))" "unat m < unat (inum (sb s))" "length (di_addrs di) = 13"
  shows "runs {} (thenS (diwrite di no) (diread m))
    (\<lambda>r t. r = (if m = no then di else dino s m) \<and> fs_ok t \<and> used t = used s) s"
  unfolding runs_simps
proof (rule runs_mono [OF diwrite_runs [OF assms(1,2,4)]])
  fix x t assume t: "dev_step s (dino_put s no di) t"
  note ok = diwrite_ok [OF assms(1,2) t]
  have m: "unat m < unat (inum (sb t))" using assms(3) dev_step_frame [OF t] by simp
  show "runs {} (diread m) (\<lambda>r t. r = (if m = no then di else dino s m) \<and> fs_ok t \<and> used t = used s) t"
    by (rule runs_mono [OF diread_runs [OF ok(1) m]])
      (use dino_put_view [OF assms t] ok dev_step_ok [OF ok(1)] dev_step_used [of t] in auto)
qed simp

text \<open>The first free inode, inode 0 left out.\<close>

definition free_inode :: "fs \<Rightarrow> nat \<Rightarrow> bool" where
  "free_inode s i \<longleftrightarrow> 1 \<le> i \<and> i < unat (inum (sb s)) \<and> di_type (dino s (of_nat i)) = TYPE_NONE"

lemma dialloc_loop_runs:
  assumes "fs_ok s" "1 \<le> i" "i \<le> unat (inum (sb s))" "\<forall>j < i. \<not> free_inode s j"
  shows "runs {} (dialloc_loop type (of_nat i)) (\<lambda>r t. \<exists>n. free_inode s n \<and> (\<forall>j < n. \<not> free_inode s j) \<and>
      r = of_nat n \<and> dev_step s (dino_put s r ((dino s r)\<lparr>di_type := type\<rparr>)) t) s \<or>
    (\<forall>n. \<not> free_inode s n) \<and> dialloc_loop type (of_nat i) s = Inl Abort"
  using assms
proof (induction "unat (inum (sb s)) - i" arbitrary: i s)
  case 0
  then have i: "i = unat (inum (sb s))" by simp
  then have "\<not> of_nat i < inum (sb s)" by simp
  then have "dialloc_loop type (of_nat i) s = Inl Abort" by (simp add: dialloc_loop.simps)
  moreover have "\<not> free_inode s n" for n using 0(5) i by (auto simp: free_inode_def)
  ultimately show ?case by blast
next
  case (Suc m)
  let ?i = "of_nat i :: u32"
  have i: "i < unat (inum (sb s))" using Suc.hyps(2) by simp
  then have u: "unat ?i = i" using unat_u32 [of "inum (sb s)"] by (intro unat_of_nat_u32) simp
  then have lt: "?i < inum (sb s)" "unat ?i < unat (inum (sb s))" using i by (auto simp: word_less_nat_alt)
  obtain t where t: "diread ?i s = Inr (dino s ?i, t)" "dev_step s (blocks s) t"
    using diread_runs [OF Suc.prems(1) lt(2)] by (auto simp: runs_total)
  note fr = dev_step_frame [OF t(2)]
  have ok: "fs_ok t" using dev_step_ok [OF Suc.prems(1) t(2)] by simp
  have same: "dino t = dino s" "free_inode t = free_inode s" "dino_put t = dino_put s"
    using fr by (auto simp: dino_def free_inode_def dino_put_def fun_eq_iff)
  show ?case
  proof (cases "di_type (dino s ?i) = TYPE_NONE")
    case True
    have step: "dialloc_loop type ?i s = thenS (diwrite ((dino s ?i)\<lparr>di_type := type\<rparr>) ?i) (retS ?i) t"
      using lt t(1) True by (simp add: dialloc_loop.simps)
    have "runs {} (dialloc_loop type ?i) (\<lambda>r t. r = ?i \<and>
        dev_step s (dino_put s ?i ((dino s ?i)\<lparr>di_type := type\<rparr>)) t) s"
      unfolding runs_def step unfolding runs_def [symmetric] runs_simps
    proof (rule runs_mono [OF diwrite_runs [OF ok]])
      show "unat ?i < unat (inum (sb t))" using lt fr by simp
      show "length (di_addrs ((dino s ?i)\<lparr>di_type := type\<rparr>)) = 13" by (simp add: length_dino_addrs)
    qed (use same dev_step_trans [OF t(2)] in auto)
    moreover have "free_inode s i" using True Suc.prems(2) i by (simp add: free_inode_def)
    ultimately show ?thesis using Suc.prems(4) by (intro disjI1) (auto simp: runs_def split: sum.splits)
  next
    case False
    have step: "dialloc_loop type ?i s = dialloc_loop type (of_nat (Suc i)) t"
      using lt t(1) False by (simp add: dialloc_loop.simps add.commute)
    have "\<not> free_inode s j" if "j < Suc i" for j
      using that Suc.prems(4) False by (cases "j = i") (auto simp: free_inode_def less_Suc_eq)
    then have "runs {} (dialloc_loop type (of_nat (Suc i))) (\<lambda>r u. \<exists>n. free_inode t n \<and> (\<forall>j < n. \<not> free_inode t j) \<and>
        r = of_nat n \<and> dev_step t (dino_put t r ((dino t r)\<lparr>di_type := type\<rparr>)) u) t \<or>
      (\<forall>n. \<not> free_inode t n) \<and> dialloc_loop type (of_nat (Suc i)) t = Inl Abort"
      using Suc.hyps Suc.prems ok i fr same by (intro Suc.hyps(1)) auto
    then show ?thesis
      unfolding step runs_def same using dev_step_trans [OF t(2)] by (auto split: sum.splits)
  qed
qed

text \<open>
  Inode allocation: \<open>dialloc(type)\<close> aborts exactly when no inode from 1 on is free; otherwise
  it returns the first free one, never inode 0, whose type on the disk is then \<open>type\<close>, and every
  other inode on the disk is as it was.
\<close>
lemma dialloc_first:
  assumes "fs_ok s"
  shows "runs {Abort} (dialloc type) (\<lambda>r t. r = of_nat (LEAST n. free_inode s n) \<and> 1 \<le> unat r \<and>
      unat r < unat (inum (sb s)) \<and> fs_ok t \<and> used t = used s \<and>
      (\<forall>m. unat m < unat (inum (sb s)) \<longrightarrow>
         dino t m = (if m = r then (dino s r)\<lparr>di_type := type\<rparr> else dino s m))) s \<and>
    (0 < inum (sb s) \<longrightarrow> (dialloc type s = Inl Abort \<longleftrightarrow> (\<forall>n. \<not> free_inode s n)))"
proof (cases "0 < inum (sb s)")
  case False
  then have "inum (sb s) = 0" by (simp add: word_neq_0_conv [symmetric])
  then have "dialloc type s = Inl Abort" by (simp add: dialloc_def dialloc_loop.simps)
  then show ?thesis using False by (simp add: runs_def)
next
  case True
  then have i: "1 \<le> unat (inum (sb s))" "\<forall>j < 1. \<not> free_inode s j"
    by (auto simp: word_less_nat_alt free_inode_def)
  let ?Q = "\<lambda>r t. \<exists>n. free_inode s n \<and> (\<forall>j < n. \<not> free_inode s j) \<and>
      r = of_nat n \<and> dev_step s (dino_put s r ((dino s r)\<lparr>di_type := type\<rparr>)) t"
  have dis: "runs {} (dialloc type) ?Q s \<or> (\<forall>n. \<not> free_inode s n) \<and> dialloc type s = Inl Abort"
    using dialloc_loop_runs [OF assms le_refl i] by (simp add: dialloc_def)
  have Q: "r = of_nat (LEAST n. free_inode s n) \<and> 1 \<le> unat r \<and>
      unat r < unat (inum (sb s)) \<and> fs_ok t \<and> used t = used s \<and>
      (\<forall>m. unat m < unat (inum (sb s)) \<longrightarrow>
         dino t m = (if m = r then (dino s r)\<lparr>di_type := type\<rparr> else dino s m))" if h: "?Q r t" for r t
  proof -
    obtain n where n: "free_inode s n" "\<forall>j < n. \<not> free_inode s j" "r = of_nat n"
      "dev_step s (dino_put s r ((dino s r)\<lparr>di_type := type\<rparr>)) t" using h by blast
    have "(LEAST n. free_inode s n) = n" 
    proof (rule Least_equality [of "free_inode s", OF n(1)])
      show "n \<le> m" if "free_inode s m" for m using n(2) that by (metis not_le)
    qed
    moreover have r: "unat r = n" "1 \<le> n" "n < unat (inum (sb s))"
      using n(1,3) unat_u32 [of "inum (sb s)"] by (auto simp: free_inode_def unat_of_nat_u32)
    ultimately show ?thesis
      using n(3) diwrite_ok [OF assms _ n(4)] dino_put_view [OF assms _ _ _ n(4)] length_dino_addrs [of s r]
      by simp
  qed
  have "runs {Abort} (dialloc type) ?Q s" using dis by (auto simp: runs_def split: sum.splits)
  then have "runs {Abort} (dialloc type) (\<lambda>r t. r = of_nat (LEAST n. free_inode s n) \<and> 1 \<le> unat r \<and>
      unat r < unat (inum (sb s)) \<and> fs_ok t \<and> used t = used s \<and>
      (\<forall>m. unat m < unat (inum (sb s)) \<longrightarrow>
         dino t m = (if m = r then (dino s r)\<lparr>di_type := type\<rparr> else dino s m))) s"
    by (rule runs_mono) (use Q in blast)+
  moreover have "dialloc type s = Inl Abort \<longleftrightarrow> (\<forall>n. \<not> free_inode s n)"
    using dis by (auto simp: runs_def split: sum.splits)
  ultimately show ?thesis using True by blast
qed

subsection \<open>The table of open inodes\<close>

definition live :: "inode_t \<Rightarrow> bool" where
  "live ip \<longleftrightarrow> 1 \<le> sint (i_ref ip)"

text \<open>An inode of the disk is open in at most one entry of the table.\<close>

definition one_entry :: "fs \<Rightarrow> bool" where
  "one_entry s \<longleftrightarrow> (\<forall>i < length (inodes s). \<forall>j < length (inodes s). live (inodes s ! i) \<and> live (inodes s ! j) \<and>
     i_no (inodes s ! i) = i_no (inodes s ! j) \<longrightarrow> i = j)"

lemma one_entry_update:
  assumes "one_entry s" "inodes t = (inodes s)[k := new]"
    and apart: "\<And>j. j < length (inodes s) \<Longrightarrow> j \<noteq> k \<Longrightarrow> live (inodes s ! j) \<Longrightarrow> i_no (inodes s ! j) \<noteq> i_no new"
  shows "one_entry t"
  unfolding one_entry_def
proof (intro allI impI)
  fix i j assume b: "i < length (inodes t)" "j < length (inodes t)"
    and h: "live (inodes t ! i) \<and> live (inodes t ! j) \<and> i_no (inodes t ! i) = i_no (inodes t ! j)"
  have b': "i < length (inodes s)" "j < length (inodes s)" using b assms(2) by auto
  show "i = j"
  proof (cases "i = k"; cases "j = k")
    assume "i = k" "j \<noteq> k"
    then show ?thesis using h apart [of j] b' assms(2) by auto
  next
    assume "i \<noteq> k" "j = k"
    then show ?thesis using h apart [of i] b' assms(2) by auto
  next
    assume "i \<noteq> k" "j \<noteq> k"
    then show ?thesis using h b' assms(1,2) by (auto simp: one_entry_def)
  qed simp
qed

lemma live_inc: "live ip \<Longrightarrow> unat (i_ref ip) < 2147483647 \<Longrightarrow>
    live (ip\<lparr>i_ref := i_ref ip + 1\<rparr>) \<and> unat (i_ref ip + 1) = unat (i_ref ip) + 1"
proof -
  assume h: "live ip" "unat (i_ref ip) < 2147483647"
  then have u: "unat (i_ref ip + 1) = unat (i_ref ip) + 1" using unat_add_u32 [of "i_ref ip" 1] by simp
  have "int (unat (i_ref ip + 1)) = int (unat (i_ref ip)) + 1" using u by linarith
  moreover have "int (unat (i_ref ip)) < 2147483647" using h by linarith
  ultimately have "uint (i_ref ip + 1) = uint (i_ref ip) + 1" "uint (i_ref ip) < 2147483647" by simp_all
  then show ?thesis using u by (simp add: live_def sint_u32)
qed

text \<open>
  C19. Opening an inode: when \<open>iget(no)\<close> returns, the entry it returns is live and is for \<open>no\<close>;
  if the inode was open already, it is its entry with one more reference and the inode in memory
  is untouched, and otherwise a free entry with one reference that holds the inode of the disk.
  No inode is ever open twice, and the other entries do not change. It aborts only when the
  inode is not open and the table is full.
\<close>
theorem iget_shares:
  assumes "fs_ok s" "one_entry s" "unat no < unat (inum (sb s))"
    and "\<forall>k < 128. unat (i_ref (inodes s ! k)) < 2147483647"
  shows "runs {Abort} (iget no) (\<lambda>k t. fs_ok t \<and> one_entry t \<and> k < 128 \<and> live (inodes t ! k) \<and>
      i_no (inodes t ! k) = no \<and> (\<forall>j < 128. j \<noteq> k \<longrightarrow> inodes t ! j = inodes s ! j) \<and>
      (if \<exists>j < 128. live (inodes s ! j) \<and> i_no (inodes s ! j) = no
       then live (inodes s ! k) \<and> i_no (inodes s ! k) = no \<and>
            inodes t ! k = (inodes s ! k)\<lparr>i_ref := i_ref (inodes s ! k) + 1\<rparr>
       else i_ref (inodes s ! k) = 0 \<and>
            inodes t ! k = \<lparr>i_no = no, i_ref = 1, i_del = 0, dinode = dino s no\<rparr>)) s \<and>
    (iget no s = Inl Abort \<longrightarrow> (\<forall>j < 128. i_ref (inodes s ! j) \<noteq> 0 \<and>
       \<not> (live (inodes s ! j) \<and> i_no (inodes s ! j) = no)))"
proof -
  have len: "length (inodes s) = 128" using assms(1) by (simp add: fs_ok_def)
  let ?p = "\<lambda>ip. 1 \<le> sint (i_ref ip) \<and> i_no ip = no"
  consider (hit) k where "find_slot ?p (inodes s) = Some k"
    | (slot) k where "find_slot ?p (inodes s) = None" "find_slot (\<lambda>ip. i_ref ip = 0) (inodes s) = Some k"
    | (full) "find_slot ?p (inodes s) = None" "find_slot (\<lambda>ip. i_ref ip = 0) (inodes s) = None"
    by (cases "find_slot ?p (inodes s)"; cases "find_slot (\<lambda>ip. i_ref ip = 0) (inodes s)") auto
  then show ?thesis
  proof cases
    case hit
    then have k: "k < 128" "live (inodes s ! k)" "i_no (inodes s ! k) = no"
      using len by (auto simp: find_slot_Some live_def)
    let ?t = "s\<lparr>inodes := (inodes s)[k := (inodes s ! k)\<lparr>i_ref := i_ref (inodes s ! k) + 1\<rparr>]\<rparr>"
    have ret: "iget no s = Inr (k, ?t)" using hit by (simp add: iget_def set_inode_def)
    have "fs_ok ?t" using assms(1) by (simp add: fs_ok_def used_def meta_def blocks_def)
    moreover have "live ((inodes s ! k)\<lparr>i_ref := i_ref (inodes s ! k) + 1\<rparr>)"
      using live_inc k assms(4) by blast
    moreover have "one_entry ?t"
      by (rule one_entry_update [OF assms(2), where k = k]) (use assms(2) k len in \<open>auto simp: one_entry_def\<close>)
    ultimately show ?thesis using k len by (auto simp: runs_def ret)
  next
    case slot
    then have k: "k < 128" "i_ref (inodes s ! k) = 0" "\<forall>j < 128. \<not> (live (inodes s ! j) \<and> i_no (inodes s ! j) = no)"
      using len by (auto simp: find_slot_Some find_slot_None live_def all_set_conv_all_nth)
    let ?u = "s\<lparr>inodes := (inodes s)[k := (inodes s ! k)\<lparr>i_ref := 1, i_no := no, i_del := 0\<rparr>]\<rparr>"
    have u: "fs_ok ?u" "unat no < unat (inum (sb ?u))" "dino ?u = dino s"
      using assms(1,3) by (auto simp: fs_ok_def used_def meta_def blocks_def dino_def fun_eq_iff)
    obtain t where t: "diread no ?u = Inr (dino s no, t)" "dev_step ?u (blocks ?u) t"
      using diread_runs [OF u(1,2)] u(3) by (auto simp: runs_total)
    let ?t = "t\<lparr>inodes := (inodes t)[k := (inodes t ! k)\<lparr>dinode := dino s no\<rparr>]\<rparr>"
    let ?new = "\<lparr>i_no = no, i_ref = 1, i_del = 0, dinode = dino s no\<rparr>"
    have new: "ip\<lparr>i_ref := 1, i_no := no, i_del := 0, dinode := dino s no\<rparr> = ?new" for ip :: inode_t
      by (cases ip) simp
    have ret: "iget no s = Inr (k, ?t)" using slot t(1) k(2) by (simp add: iget_def set_inode_def)
    have "fs_ok t" using dev_step_ok [OF u(1) t(2)] by simp
    then have "fs_ok ?t" by (simp add: fs_ok_def used_def meta_def blocks_def)
    moreover have tab: "inodes ?t = (inodes s)[k := ?new]"
      using dev_step_frame [OF t(2)] k(1) len by (simp add: new)
    moreover have "live ?new" by (simp add: live_def)
    moreover have "one_entry ?t"
      by (rule one_entry_update [OF assms(2) tab]) (use k len in auto)
    ultimately show ?thesis using k len by (auto simp: runs_def ret)
  next
    case full
    then have "iget no s = Inl Abort" by (simp add: iget_def)
    then show ?thesis
      using full len by (auto simp: runs_def find_slot_None live_def all_set_conv_all_nth)
  qed
qed

section \<open>A small file system\<close>

text \<open>
  A disk all of whose words are 1, but for the first two words of the bitmap, block 32, which
  are full: block \<open>b\<close> is marked when \<open>b < 64\<close> or \<open>b\<close> is a multiple of 32.
\<close>

definition small_sects :: "regs \<Rightarrow> u32 list" where
  "small_sects r = (if r = lba_regs 256 then [- 1, - 1] @ replicate 126 1 else replicate 128 1)"

definition small_fs :: fs where
  "small_fs = \<lparr>dev = boot_disk small_sects,
     sb = \<lparr>bitmap = 32, istart = 64, inum = 10, root = 1\<rparr>,
     inodes = replicate 128 \<lparr>i_no = 0, i_ref = 0, i_del = 0,
       dinode = \<lparr>di_type = 1, di_device = 0, di_size = 0, di_addrs = replicate 13 0\<rparr>\<rparr>,
     garbage = replicate 32 0\<rparr>"

lemma small_sb: "sb small_fs = \<lparr>bitmap = 32, istart = 64, inum = 10, root = 1\<rparr>"
  by (simp add: small_fs_def)

lemma small_sect:
  assumes "unat b < 524288" "k < 8"
  shows "small_sects (lba_regs (8 * b + of_nat k)) =
    (if b = 32 \<and> k = 0 then [- 1, - 1] @ replicate 126 1 else replicate 128 1)"
proof -
  have "lba_regs (8 * b + of_nat k) = lba_regs 256 \<longleftrightarrow> b = 32 \<and> k = 0"
  proof
    assume "lba_regs (8 * b + of_nat k) = lba_regs 256"
    then have "lba_regs (8 * b + of_nat k) = lba_regs (8 * 32 + of_nat 0)" by simp
    from block_regs_inj [OF assms(1) _ assms(2) _ this] show "b = 32 \<and> k = 0" by simp
  qed simp
  then show ?thesis unfolding small_sects_def by (simp only:)
qed

lemma concat_concat_map: "concat (concat (map f xs)) = concat (map (\<lambda>x. concat (f x)) xs)"
  by (induction xs) auto

lemma small_bitmap: "blocks small_fs 32 = concat (map le32 ([- 1, - 1] @ replicate 1022 1))"
proof -
  let ?ws = "\<lambda>k. if k = 0 then [- 1, - 1] @ replicate 126 1 else replicate 128 (1 :: u32)"
  have m: "map (\<lambda>k. sect_bytes small_sects (8 * 32 + of_nat k)) [0 ..< 8] = map (\<lambda>k. concat (map le32 (?ws k))) [0 ..< 8]"
    by (rule map_cong [OF refl], subst sect_bytes_def, subst small_sect) auto
  have "blocks small_fs 32 = concat (map (\<lambda>k. sect_bytes small_sects (8 * 32 + of_nat k)) [0 ..< 8])"
    by (simp add: blocks_def small_fs_def blk_def boot_disk_def)
  also have "\<dots> = concat (map (\<lambda>k. concat (map le32 (?ws k))) [0 ..< 8])" by (simp only: m)
  also have "\<dots> = concat (map le32 (concat (map (\<lambda>k. if k = 0 then [- 1, - 1] @ replicate 126 1 else replicate 128 1) [0 ..< 8])))"
    by (simp only: map_concat concat_concat_map map_map comp_def)
  also have "concat (map (\<lambda>k. if k = 0 then [- 1, - 1] @ replicate 126 1 else replicate 128 1) [0 ..< 8]) =
      [- 1, - 1] @ replicate 1022 (1 :: u32)"
    by code_simp
  finally show ?thesis .
qed

lemma small_used: "b < 32768 \<Longrightarrow> used small_fs b \<longleftrightarrow> b < 64 \<or> 32 dvd b"
proof -
  assume "b < 32768"
  then have d: "b div 32 < 1024" by auto
  let ?ws = "[- 1, - 1] @ replicate 1022 1 :: u32 list"
  have "word_at (blocks small_fs 32) (b div 32) = ?ws ! (b div 32)"
    unfolding small_bitmap word_at_def using d by (subst concat_le32_span) simp_all
  moreover have "?ws ! (b div 32) = (if b < 64 then - 1 else 1)"
    using d by (auto simp: nth_Cons' less_Suc_eq numeral_2_eq_2 split: if_splits)
  ultimately have "used small_fs b \<longleftrightarrow> bit (if b < 64 then - 1 else 1 :: u32) (b mod 32)"
    by (simp add: used_def small_sb)
  then show ?thesis by (auto simp: bit_1_iff)
qed

lemma small_fs_ok: "fs_ok small_fs"
proof -
  have "disk_ok (dev small_fs)" unfolding small_fs_def by (simp add: boot_disk_ok small_sects_def)
  moreover have "used small_fs b" if "meta small_fs b" for b
  proof -
    have "b = 32 \<or> b = 64" using that by (auto simp: meta_def small_sb)
    then show ?thesis by (auto simp: small_used)
  qed
  ultimately show ?thesis
    using small_used [of 0] by (simp add: fs_ok_def small_sb) (simp add: small_fs_def)
qed

theorem balloc_lowest_witness:
  "(balloc small_fs = Inl Abort \<longleftrightarrow> (\<forall>b < 32768. used small_fs b)) \<and>
    runs {Abort} balloc (\<lambda>r t. fs_ok t \<and> r = of_nat (LEAST b. \<not> used small_fs b) \<and>
      (\<forall>c < 32768. used t c \<longleftrightarrow> of_nat c = r \<or> used small_fs c) \<and> blocks t r = replicate 4096 0 \<and>
      (\<forall>x. x \<noteq> r \<and> x \<noteq> bitmap (sb small_fs) \<longrightarrow> blocks t x = blocks small_fs x)) small_fs"
  by (rule balloc_lowest [OF small_fs_ok])

lemma bfree_balloc_witness:
  "runs {Abort} balloc (\<lambda>b t. runs {} (bfree b) (\<lambda>_ u. fs_ok u \<and>
     (\<forall>c < 32768. used u c = used small_fs c)) t) small_fs"
  by (rule bfree_balloc [OF small_fs_ok]) (simp add: small_used)

lemma diread_diwrite_witness:
  "runs {} (thenS (diwrite (dino small_fs 3) 5) (diread 7))
    (\<lambda>r t. r = (if (7 :: u32) = 5 then dino small_fs 3 else dino small_fs 7) \<and> fs_ok t \<and> used t = used small_fs) small_fs"
  by (rule diread_diwrite [OF small_fs_ok]) (simp_all add: small_sb length_dino_addrs)

lemma dialloc_first_witness:
  "runs {Abort} (dialloc 2) (\<lambda>r t. r = of_nat (LEAST n. free_inode small_fs n) \<and> 1 \<le> unat r \<and>
      unat r < unat (inum (sb small_fs)) \<and> fs_ok t \<and> used t = used small_fs \<and>
      (\<forall>m. unat m < unat (inum (sb small_fs)) \<longrightarrow>
         dino t m = (if m = r then (dino small_fs r)\<lparr>di_type := 2\<rparr> else dino small_fs m))) small_fs"
  by (rule dialloc_first [OF small_fs_ok, THEN conjunct1])

theorem iget_shares_witness:
  "runs {Abort} (iget 4) (\<lambda>k t. fs_ok t \<and> one_entry t \<and> k < 128 \<and> live (inodes t ! k) \<and>
      i_no (inodes t ! k) = 4 \<and> (\<forall>j < 128. j \<noteq> k \<longrightarrow> inodes t ! j = inodes small_fs ! j) \<and>
      (if \<exists>j < 128. live (inodes small_fs ! j) \<and> i_no (inodes small_fs ! j) = 4
       then live (inodes small_fs ! k) \<and> i_no (inodes small_fs ! k) = 4 \<and>
            inodes t ! k = (inodes small_fs ! k)\<lparr>i_ref := i_ref (inodes small_fs ! k) + 1\<rparr>
       else i_ref (inodes small_fs ! k) = 0 \<and>
            inodes t ! k = \<lparr>i_no = 4, i_ref = 1, i_del = 0, dinode = dino small_fs 4\<rparr>)) small_fs"
  by (rule iget_shares [OF small_fs_ok, THEN conjunct1]) (simp_all add: small_sb one_entry_def live_def, simp_all add: small_fs_def)

end
