(* ===== verification/FsFile.thy ===== *)
theory FsFile
  imports FsDisk
begin

unbundle bit_operations_syntax

text \<open>
  Files: the data path of \<open>fs.c\<close> (\<open>iwalk\<close>, \<open>iread\<close>, \<open>iwrite\<close>) against the specification that a
  file is an array of bytes.
\<close>

section \<open>Files as arrays of bytes\<close>

text \<open>
  The block number of block \<open>j\<close> of a file whose inode has the addresses \<open>ad\<close> (0: none yet),
  the blocks the file owns, and what \<open>iwalk\<close> relies on: all of them are data blocks that are
  marked, and no block has two roles.
\<close>

definition baddr :: "(u32 \<Rightarrow> byte list) \<Rightarrow> u32 list \<Rightarrow> nat \<Rightarrow> u32" where
  "baddr B ad j = (if j < 12 then ad ! j else if ad ! 12 = 0 then 0 else word_at (B (ad ! 12)) (j - 12))"

definition owns :: "(u32 \<Rightarrow> byte list) \<Rightarrow> u32 list \<Rightarrow> u32 set" where
  "owns B ad = {b. b \<noteq> 0 \<and> (b = ad ! 12 \<or> (\<exists>j < 1036. b = baddr B ad j))}"

definition data_block :: "fs \<Rightarrow> u32 \<Rightarrow> bool" where
  "data_block s b \<longleftrightarrow> b \<noteq> 0 \<and> unat b < 32768 \<and> used s (unat b) \<and> \<not> meta s (unat b)"

definition file_ok :: "fs \<Rightarrow> u32 list \<Rightarrow> bool" where
  "file_ok s ad \<longleftrightarrow> length ad = 13 \<and> (\<forall>b \<in> owns (blocks s) ad. data_block s b) \<and>
     (\<forall>i < 1036. \<forall>j < 1036. baddr (blocks s) ad i = baddr (blocks s) ad j \<and> baddr (blocks s) ad i \<noteq> 0 \<longrightarrow> i = j) \<and>
     (\<forall>j < 1036. baddr (blocks s) ad j = ad ! 12 \<longrightarrow> ad ! 12 = 0)"

abbreviation (input) "addrs s k \<equiv> di_addrs (dinode (inodes s ! k))"

definition good_inode :: "fs \<Rightarrow> nat \<Rightarrow> bool" where
  "good_inode s k \<longleftrightarrow> k < 128 \<and> unat (i_no (inodes s ! k)) < unat (inum (sb s)) \<and> file_ok s (addrs s k)"

text \<open>
  From \<open>s\<close> to \<open>t\<close> only the file of entry \<open>k\<close> may have changed: its addresses and size, its
  blocks, and blocks that were free.
\<close>

definition evolves :: "nat \<Rightarrow> fs \<Rightarrow> fs \<Rightarrow> bool" where
  "evolves k s t \<longleftrightarrow> sb t = sb s \<and> garbage t = garbage s \<and> fs_ok t \<and> good_inode t k \<and>
     (\<forall>c < 32768. used s c \<longrightarrow> used t c) \<and>
     (\<exists>ad n. inodes t = (inodes s)[k := (inodes s ! k)\<lparr>dinode := (dinode (inodes s ! k))\<lparr>di_addrs := ad, di_size := n\<rparr>\<rparr>]) \<and>
     (\<forall>b \<in> owns (blocks t) (addrs t k). b \<in> owns (blocks s) (addrs s k) \<or> \<not> used s (unat b)) \<and>
     (\<forall>b. data_block s b \<and> b \<notin> owns (blocks s) (addrs s k) \<longrightarrow> blocks t b = blocks s b)"

lemma evolves_refl: "fs_ok s \<Longrightarrow> good_inode s k \<Longrightarrow> evolves k s s"
  unfolding evolves_def
  by (intro conjI exI [of _ "addrs s k"] exI [of _ "di_size (dinode (inodes s ! k))"])
    (auto simp: fs_ok_def good_inode_def)

lemma evolves_data: "evolves k s t \<Longrightarrow> data_block s b \<Longrightarrow> data_block t b"
  using meta_frame [of t s] by (auto simp: evolves_def data_block_def)

lemma evolves_trans:
  assumes "evolves k s t" "evolves k t u"
  shows "evolves k s u"
proof -
  obtain ad n where t: "inodes t = (inodes s)[k := (inodes s ! k)\<lparr>dinode := (dinode (inodes s ! k))\<lparr>di_addrs := ad, di_size := n\<rparr>\<rparr>]"
    using assms(1) by (auto simp: evolves_def)
  obtain ad' n' where u: "inodes u = (inodes t)[k := (inodes t ! k)\<lparr>dinode := (dinode (inodes t ! k))\<lparr>di_addrs := ad', di_size := n'\<rparr>\<rparr>]"
    using assms(2) by (auto simp: evolves_def)
  have "k < length (inodes t)" using assms(1) by (simp add: evolves_def good_inode_def fs_ok_def)
  then have k: "k < length (inodes s)" using t by simp
  have i: "inodes u = (inodes s)[k := (inodes s ! k)\<lparr>dinode := (dinode (inodes s ! k))\<lparr>di_addrs := ad', di_size := n'\<rparr>\<rparr>]"
    using k unfolding u t by simp
  have own: "b \<in> owns (blocks s) (addrs s k) \<or> \<not> used s (unat b)"
    if "b \<in> owns (blocks u) (addrs u k)" for b
  proof -
    have "b \<in> owns (blocks t) (addrs t k) \<or> \<not> used t (unat b)" using that assms(2) by (simp add: evolves_def)
    moreover have "unat b < 32768"
      using that assms(2) by (auto simp: evolves_def good_inode_def file_ok_def data_block_def)
    ultimately show ?thesis using assms(1) by (auto simp: evolves_def)
  qed
  have keep: "blocks u b = blocks s b" if b: "data_block s b" "b \<notin> owns (blocks s) (addrs s k)" for b
  proof -
    have "b \<notin> owns (blocks t) (addrs t k)" using b assms(1) by (auto simp: evolves_def data_block_def)
    moreover have "data_block t b" using b evolves_data [OF assms(1)] by blast
    ultimately show ?thesis using b assms by (auto simp: evolves_def)
  qed
  show ?thesis
    using assms i own keep unfolding evolves_def by (intro conjI) (blast | simp)+
qed

text \<open>Another file, all of whose blocks belong to it alone, is as it was.\<close>

lemma evolves_other:
  assumes "evolves k s t" "j \<noteq> k" "file_ok s (addrs s j)"
    "owns (blocks s) (addrs s j) \<inter> owns (blocks s) (addrs s k) = {}"
  shows "inodes t ! j = inodes s ! j" "\<forall>i < 1036. baddr (blocks t) (addrs s j) i = baddr (blocks s) (addrs s j) i"
    "\<forall>b \<in> owns (blocks s) (addrs s j). blocks t b = blocks s b"
proof -
  show "inodes t ! j = inodes s ! j" using assms(1,2) by (auto simp: evolves_def)
  show own: "\<forall>b \<in> owns (blocks s) (addrs s j). blocks t b = blocks s b"
    using assms unfolding evolves_def file_ok_def by blast
  show "\<forall>i < 1036. baddr (blocks t) (addrs s j) i = baddr (blocks s) (addrs s j) i"
    using own by (auto simp: baddr_def owns_def)
qed

subsection \<open>A new block for a file\<close>

lemma owned_block:
  "file_ok s ad \<Longrightarrow> j < 1036 \<Longrightarrow> baddr (blocks s) ad j \<noteq> 0 \<Longrightarrow> data_block s (baddr (blocks s) ad j)"
  "file_ok s ad \<Longrightarrow> ad ! 12 \<noteq> 0 \<Longrightarrow> data_block s (ad ! 12)"
  unfolding file_ok_def owns_def by blast+

lemma first_free_not_data: "first_free s b \<Longrightarrow> \<not> data_block s (of_nat b)"
  using unat_of_nat_u32 [of b] by (auto simp: first_free_def data_block_def)

lemma bitmap_not_data: "\<not> data_block s (bitmap (sb s))"
  by (simp add: data_block_def meta_def)

text \<open>The blocks after \<open>b\<close> was taken and zeroed and a block of inodes was rewritten.\<close>

definition attached :: "fs \<Rightarrow> nat \<Rightarrow> fs \<Rightarrow> bool" where
  "attached s b t \<longleftrightarrow> first_free s b \<and> fs_ok t \<and> sb t = sb s \<and> garbage t = garbage s \<and>
     (\<forall>c < 32768. used t c \<longleftrightarrow> c = b \<or> used s c) \<and> blocks t (of_nat b) = replicate 4096 0 \<and>
     (\<forall>x. data_block s x \<longrightarrow> blocks t x = blocks s x)"

lemma took_attached:
  assumes "fs_ok s" "first_free s b" "took s b t"
  shows "attached s b t"
  using assms took_ok [OF assms] took_used [OF assms] took_blocks [OF assms] took_frame [OF assms(3)]
    first_free_not_data [OF assms(2)] bitmap_not_data [of s]
  unfolding attached_def by metis

definition with_addr :: "nat \<Rightarrow> u32 \<Rightarrow> inode_t \<Rightarrow> inode_t" where
  "with_addr n b ip = ip\<lparr>dinode := (dinode ip)\<lparr>di_addrs := (di_addrs (dinode ip))[n := b]\<rparr>\<rparr>"

lemma attach_runs:
  assumes "fs_ok s" "good_inode s k" "A = {Abort} \<or> 0 < spare s"
  shows "runs A (bindS balloc (\<lambda>b. thenS (set_addr k n b) (iupdate k)))
    (\<lambda>_ t. \<exists>b. attached s b t \<and> inodes t = (inodes s)[k := with_addr n (of_nat b) (inodes s ! k)]) s"
  unfolding runs_bind runs_simps
proof (rule runs_mono)
  show "runs A balloc (\<lambda>r t. \<exists>b. first_free s b \<and> r = of_nat b \<and> took s b t) s" by (rule balloc_room [OF assms(1,3)])
  fix r :: u32 and t assume "\<exists>b. first_free s b \<and> r = of_nat b \<and> took s b t"
  then obtain b where b: "first_free s b" "r = of_nat b" "took s b t" by blast
  have att: "attached s b t" by (rule took_attached [OF assms(1) b(1,3)])
  have k: "k < length (inodes s)" "unat (i_no (inodes s ! k)) < unat (inum (sb s))"
    "length (addrs s k) = 13"
    using assms by (auto simp: good_inode_def file_ok_def fs_ok_def)
  have fr: "inodes t = inodes s" "sb t = sb s" "garbage t = garbage s" using took_frame [OF b(3)] by auto
  let ?ip = "with_addr n r (inodes s ! k)"
  let ?t = "t\<lparr>inodes := (inodes s)[k := ?ip]\<rparr>"
  have t: "fs_ok ?t" "blocks ?t = blocks t" "used ?t = used t" "sb ?t = sb s"
    using att fr by (auto simp: attached_def fs_ok_def used_def meta_def blocks_def fun_eq_iff)
  have ino: "unat (i_no ?ip) < unat (inum (sb ?t))" "length (di_addrs (dinode ?ip)) = 13"
    using k t by (simp_all add: with_addr_def)
  have "runs {} (diwrite (dinode ?ip) (i_no ?ip)) (\<lambda>_. dev_step ?t (dino_put ?t (i_no ?ip) (dinode ?ip))) ?t"
    by (rule diwrite_runs [OF t(1) ino])
  then have "runs A (diwrite (dinode ?ip) (i_no ?ip))
      (\<lambda>_ u. \<exists>b. attached s b u \<and> inodes u = (inodes s)[k := with_addr n (of_nat b) (inodes s ! k)]) ?t"
  proof (rule runs_mono)
    fix x u assume u: "dev_step ?t (dino_put ?t (i_no ?ip) (dinode ?ip)) u"
    have place: "meta s (unat (I2BLKNO (i_no ?ip) (sb s)))"
      using inode_place(4) [OF t(1) ino(1)] t(4) meta_frame [of ?t s] by simp
    have keep: "blocks u x = blocks t x" if "\<not> meta s (unat x)" for x
      using that place dev_step_frame [OF u] t by (auto simp: dino_put_def)
    have "attached s b u"
      using att keep diwrite_ok [OF t(1) ino(1) u] dev_step_frame [OF u] t fr
        first_free_apart(1,4) [OF assms(1) b(1)]
      unfolding attached_def data_block_def by simp
    then show "\<exists>b. attached s b u \<and> inodes u = (inodes s)[k := with_addr n (of_nat b) (inodes s ! k)]"
      using dev_step_frame [OF u] b(2) by (intro exI [of _ b]) simp
  qed simp
  then show "runs A (set_addr k n r) (\<lambda>_. runs A (iupdate k)
      (\<lambda>_ t. \<exists>b. attached s b t \<and> inodes t = (inodes s)[k := with_addr n (of_nat b) (inodes s ! k)])) t"
    using fr k by (simp add: set_addr_def iupdate_def with_addr_def)
qed simp

lemma file_ok_cong:
  "blocks t = blocks s \<Longrightarrow> used t = used s \<Longrightarrow> sb t = sb s \<Longrightarrow> file_ok t ad = file_ok s ad"
  by (simp add: file_ok_def data_block_def meta_frame [of t s])

text \<open>
  A block that was free becomes block \<open>n\<close> of the file, or its block of addresses when \<open>n\<close> is
  1036.
\<close>

lemma file_grow:
  assumes f: "file_ok s ad" and b: "fs_ok s" "first_free s b"
    and t: "sb t = sb s" "\<forall>c < 32768. used t c \<longleftrightarrow> c = b \<or> used s c"
    and ad: "length ad' = 13" "ad' ! 12 = (if n = 1036 then of_nat b else ad ! 12)" "n = 1036 \<longrightarrow> ad ! 12 = 0"
    and n: "n < 1036 \<longrightarrow> baddr (blocks s) ad n = 0"
    and ba: "\<forall>j < 1036. baddr (blocks t) ad' j = (if j = n then of_nat b else baddr (blocks s) ad j)"
  shows "file_ok t ad'" "owns (blocks t) ad' \<subseteq> insert (of_nat b) (owns (blocks s) ad)"
proof -
  note ap = first_free_apart [OF b]
  have data: "data_block t x" if "data_block s x" for x
    using that t meta_frame [of t s] by (simp add: data_block_def)
  have nz: "(of_nat b :: u32) \<noteq> 0" using ap by auto
  have new: "data_block t (of_nat b)"
    using ap nz t meta_frame [of t s] by (simp add: data_block_def)
  have fresh: "\<not> data_block s (of_nat b)" by (rule first_free_not_data [OF b(2)])
  have old: "baddr (blocks s) ad j \<noteq> of_nat b" if "j < 1036" for j
    using owned_block(1) [OF f that] fresh nz by metis
  have old12: "ad ! 12 \<noteq> of_nat b" using owned_block(2) [OF f] fresh nz by metis
  show own: "owns (blocks t) ad' \<subseteq> insert (of_nat b) (owns (blocks s) ad)"
    using ba ad by (auto simp: owns_def split: if_splits)
  have inj: "i = j" if "i < 1036" "j < 1036" "baddr (blocks t) ad' i = baddr (blocks t) ad' j"
    "baddr (blocks t) ad' i \<noteq> 0" for i j
  proof (cases "i = n \<or> j = n")
    case True
    then show ?thesis using that ba old [of i] old [of j] by (auto split: if_splits)
  next
    case False
    then have "baddr (blocks s) ad i = baddr (blocks s) ad j" "baddr (blocks s) ad i \<noteq> 0"
      using that ba by auto
    then show ?thesis using f that(1,2) unfolding file_ok_def by blast
  qed
  have apart: "ad' ! 12 = 0" if "j < 1036" "baddr (blocks t) ad' j = ad' ! 12" for j
  proof (cases "n = 1036")
    case True
    then show ?thesis using that ba ad(2) old [OF that(1)] by auto
  next
    case False
    then show ?thesis using that ba ad(2) old12 f unfolding file_ok_def by (auto split: if_splits)
  qed
  show "file_ok t ad'"
    unfolding file_ok_def
  proof (intro conjI ballI allI impI)
    show "data_block t x" if "x \<in> owns (blocks t) ad'" for x
      using that own new data f by (auto simp: file_ok_def)
  qed (use ad(1) inj apart in blast)+
qed

text \<open>What a walk leaves: block \<open>no\<close> of the file of entry \<open>k\<close> is \<open>b\<close>.\<close>

definition walked :: "nat \<Rightarrow> nat \<Rightarrow> fs \<Rightarrow> u32 \<Rightarrow> fs \<Rightarrow> bool" where
  "walked k no s b t \<longleftrightarrow> evolves k s t \<and> di_size (dinode (inodes t ! k)) = di_size (dinode (inodes s ! k)) \<and>
     b = baddr (blocks t) (addrs t k) no \<and> b \<noteq> 0 \<and>
     (\<forall>j < 1036. j \<noteq> no \<or> baddr (blocks s) (addrs s k) j \<noteq> 0 \<longrightarrow>
        baddr (blocks t) (addrs t k) j = baddr (blocks s) (addrs s k) j) \<and>
     (\<forall>x. data_block s x \<and> x \<noteq> addrs s k ! 12 \<longrightarrow> blocks t x = blocks s x)"

lemma with_addr_simps [simp]:
  "i_no (with_addr n b ip) = i_no ip" "di_size (dinode (with_addr n b ip)) = di_size (dinode ip)"
  "di_addrs (dinode (with_addr n b ip)) = (di_addrs (dinode ip))[n := b]"
  by (simp_all add: with_addr_def)

lemma with_addr_shape:
  "\<exists>ad m. with_addr n b ip = ip\<lparr>dinode := (dinode ip)\<lparr>di_addrs := ad, di_size := m\<rparr>\<rparr>"
  by (rule exI [of _ "(di_addrs (dinode ip))[n := b]"], rule exI [of _ "di_size (dinode ip)"])
    (simp add: with_addr_def)

lemma attached_evolves:
  assumes s: "fs_ok s" "good_inode s k"
    and t: "attached s b t" "inodes t = (inodes s)[k := with_addr n (of_nat b) (inodes s ! k)]"
    and n: "n \<le> 12" "addrs s k ! n = 0"
  shows "evolves k s t"
    "\<forall>j < 1036. baddr (blocks t) (addrs t k) j = (if j = n \<and> n < 12 then of_nat b else baddr (blocks s) (addrs s k) j)"
    "di_size (dinode (inodes t ! k)) = di_size (dinode (inodes s ! k))" "addrs t k ! n = of_nat b"
    "\<forall>x. data_block s x \<longrightarrow> blocks t x = blocks s x" "(of_nat b :: u32) \<noteq> 0" "\<not> used s b" "unat (of_nat b :: u32) = b"
proof -
  have k: "k < length (inodes s)" "length (addrs s k) = 13" "file_ok s (addrs s k)"
    using s by (auto simp: good_inode_def file_ok_def fs_ok_def)
  have ff: "first_free s b" using t(1) by (simp add: attached_def)
  note ap = first_free_apart [OF s(1) ff]
  let ?ad = "(addrs s k)[n := of_nat b]"
  have ad: "addrs t k = ?ad" using t(2) k by simp
  show nz: "(of_nat b :: u32) \<noteq> 0" using ap by auto
  show "\<not> used s b" "unat (of_nat b :: u32) = b" using ff ap by (auto simp: first_free_def)
  show "di_size (dinode (inodes t ! k)) = di_size (dinode (inodes s ! k))" "addrs t k ! n = of_nat b"
    using t(2) k n by simp_all
  show keep: "\<forall>x. data_block s x \<longrightarrow> blocks t x = blocks s x" using t(1) by (simp add: attached_def)
  have ba: "baddr (blocks t) ?ad j = (if j = n \<and> n < 12 then of_nat b else baddr (blocks s) (addrs s k) j)"
    if j: "j < 1036" for j
  proof (cases "n = 12")
    case True
    then show ?thesis
      using j t(1) k n nz word_at_zero [of "j - 12"] by (auto simp: baddr_def attached_def)
  next
    case False
    then have "?ad ! 12 = addrs s k ! 12" using n by simp
    moreover have "blocks t (addrs s k ! 12) = blocks s (addrs s k ! 12)" if "addrs s k ! 12 \<noteq> 0"
      using keep owned_block(2) [OF k(3) that] by blast
    ultimately show ?thesis using False k n by (auto simp: baddr_def nth_list_update)
  qed
  then show "\<forall>j < 1036. baddr (blocks t) (addrs t k) j =
      (if j = n \<and> n < 12 then of_nat b else baddr (blocks s) (addrs s k) j)" unfolding ad by blast
  have grow: "file_ok t ?ad" "owns (blocks t) ?ad \<subseteq> insert (of_nat b) (owns (blocks s) (addrs s k))"
  proof -
    let ?n = "if n = 12 then 1036 else n"
    have c: "sb t = sb s" "\<forall>c < 32768. used t c \<longleftrightarrow> c = b \<or> used s c" "length ?ad = 13"
      "?ad ! 12 = (if ?n = 1036 then of_nat b else addrs s k ! 12)" "?n = 1036 \<longrightarrow> addrs s k ! 12 = 0"
      "?n < 1036 \<longrightarrow> baddr (blocks s) (addrs s k) ?n = 0"
      "\<forall>j < 1036. baddr (blocks t) ?ad j = (if j = ?n then of_nat b else baddr (blocks s) (addrs s k) j)"
      using t(1) k n ba by (auto simp: attached_def baddr_def)
    show "file_ok t ?ad" "owns (blocks t) ?ad \<subseteq> insert (of_nat b) (owns (blocks s) (addrs s k))"
      using file_grow [OF k(3) s(1) ff c] by blast+
  qed
  have "good_inode t k"
    using s(2) t k grow ad by (simp add: good_inode_def attached_def)
  moreover have "\<exists>ad m. inodes t = (inodes s)[k := (inodes s ! k)\<lparr>dinode := (dinode (inodes s ! k))\<lparr>di_addrs := ad, di_size := m\<rparr>\<rparr>]"
    using t(2) with_addr_shape [of n "of_nat b" "inodes s ! k"] by metis
  ultimately show "evolves k s t"
    using t(1) grow(2) ap ff unfolding evolves_def ad
    by (auto simp: attached_def first_free_def data_block_def)
qed

lemma ensure_addr_runs:
  assumes "fs_ok s" "good_inode s k" "n \<le> 12" "A = {Abort} \<or> 0 < spare s"
  shows "runs A (ensure_addr k n) (\<lambda>a t. evolves k s t \<and> a = addrs t k ! n \<and> a \<noteq> 0 \<and>
      di_size (dinode (inodes t ! k)) = di_size (dinode (inodes s ! k)) \<and>
      (addrs s k ! n \<noteq> 0 \<longrightarrow> t = s) \<and> (\<forall>x. data_block s x \<longrightarrow> blocks t x = blocks s x) \<and>
      (\<forall>j < 1036. j \<noteq> n \<or> n = 12 \<longrightarrow> baddr (blocks t) (addrs t k) j = baddr (blocks s) (addrs s k) j) \<and> spare s \<le> spare t + 1) s"
proof (cases "addrs s k ! n = 0")
  case False
  then show ?thesis using evolves_refl [OF assms(1,2)] by (simp add: ensure_addr_def)
next
  case True
  have "runs A (bindS balloc (\<lambda>b. thenS (set_addr k n b) (iupdate k))) (\<lambda>_ t. evolves k s t \<and> addrs t k ! n \<noteq> 0 \<and>
      di_size (dinode (inodes t ! k)) = di_size (dinode (inodes s ! k)) \<and>
      (addrs s k ! n \<noteq> 0 \<longrightarrow> t = s) \<and> (\<forall>x. data_block s x \<longrightarrow> blocks t x = blocks s x) \<and>
      (\<forall>j < 1036. j \<noteq> n \<or> n = 12 \<longrightarrow> baddr (blocks t) (addrs t k) j = baddr (blocks s) (addrs s k) j) \<and> spare s \<le> spare t + 1) s"
  proof (rule runs_mono [OF attach_runs [OF assms(1,2,4)]])
    fix x t assume "\<exists>b. attached s b t \<and> inodes t = (inodes s)[k := with_addr n (of_nat b) (inodes s ! k)]"
    then obtain b where b: "attached s b t" "inodes t = (inodes s)[k := with_addr n (of_nat b) (inodes s ! k)]" by blast
    note at = attached_evolves [OF assms(1,2) b assms(3) True]
    show "evolves k s t \<and> addrs t k ! n \<noteq> 0 \<and>
      di_size (dinode (inodes t ! k)) = di_size (dinode (inodes s ! k)) \<and>
      (addrs s k ! n \<noteq> 0 \<longrightarrow> t = s) \<and> (\<forall>x. data_block s x \<longrightarrow> blocks t x = blocks s x) \<and>
      (\<forall>j < 1036. j \<noteq> n \<or> n = 12 \<longrightarrow> baddr (blocks t) (addrs t k) j = baddr (blocks s) (addrs s k) j) \<and> spare s \<le> spare t + 1"
      using at True spare_took [of s b t] b(1) by (auto simp: attached_def)
  qed simp
  then show ?thesis using True by (simp add: ensure_addr_def)
qed

lemma sub12: "12 \<le> unat (no :: u32) \<Longrightarrow> unat (no - 12) = unat no - 12"
  by (simp add: unat_sub word_le_nat_alt)

lemma mul4: "unat (no :: u32) < 1024 \<Longrightarrow> unat (no * 4) = 4 * unat no"
  by (simp add: unat_word_ariths)

lemma dev_step_evolves:
  assumes "fs_ok s" "good_inode s k" "dev_step s B t" "B = blocks s"
  shows "evolves k s t"
proof -
  note fr = dev_step_frame [OF assms(3)]
  have "fs_ok t" "used t = used s"
    using dev_step_ok [OF assms(1,3)] dev_step_used [OF assms(3)] assms(4) by auto
  moreover have "good_inode t k" using assms(2,4) fr file_ok_cong [of t s] calculation by (simp add: good_inode_def)
  moreover have "\<exists>ad m. inodes t = (inodes s)[k := (inodes s ! k)\<lparr>dinode := (dinode (inodes s ! k))\<lparr>di_addrs := ad, di_size := m\<rparr>\<rparr>]"
    using evolves_refl [OF assms(1,2)] fr by (simp add: evolves_def)
  ultimately show ?thesis using fr assms(4) by (simp add: evolves_def)
qed

text \<open>A block that the file has is found, and nothing is changed.\<close>

lemma iwalk_hit:
  assumes "fs_ok s" "good_inode s k" "unat no < 1036" "baddr (blocks s) (addrs s k) (unat no) \<noteq> 0"
  shows "runs {} (iwalk k no) (\<lambda>b t. b = baddr (blocks s) (addrs s k) (unat no) \<and> dev_step s (blocks s) t) s"
proof (cases "no < 12")
  case True
  then have "unat no < 12" by (simp add: word_less_nat_alt)
  then show ?thesis
    using True assms by (simp add: iwalk_def ensure_addr_def baddr_def dev_step_def fs_ok_def)
next
  case False
  then have ge: "12 \<le> unat no" by (simp add: word_less_nat_alt)
  have i: "unat (no - 12) = unat no - 12" "unat (no - 12) < 1024" "no - 12 < 1024"
    using sub12 [OF ge] assms(3) ge by (auto simp: word_less_nat_alt)
  have a: "addrs s k ! 12 \<noteq> 0" "word_at (blocks s (addrs s k ! 12)) (unat no - 12) \<noteq> 0"
    using assms(4) ge by (auto simp: baddr_def split: if_splits)
  have db: "data_block s (addrs s k ! 12)"
    using owned_block(2) a(1) assms(2) by (simp add: good_inode_def)
  have d: "disk_ok (dev s)" "unat (addrs s k ! 12) < 524288"
    using assms(1) db by (auto simp: fs_ok_def data_block_def)
  have w: "of_le32 (span_at (unat ((no - 12) * 4)) (unat (4 :: u32)) (blk (dev s) (addrs s k ! 12))) =
      word_at (blocks s (addrs s k ! 12)) (unat no - 12)"
    using mul4 [OF i(2)] i(1) by (simp add: word_at_def blocks_def)
  have "runs {} (on_dev (bread 4 (addrs s k ! 12) ((no - 12) * 4)))
      (\<lambda>xs t. of_le32 xs = word_at (blocks s (addrs s k ! 12)) (unat no - 12) \<and> dev_step s (blocks s) t) s"
    unfolding runs_on_dev
    by (rule bs.rdI [OF d]) (use w mul4 [OF i(2)] i(2) in \<open>auto intro!: dev_stepI simp: blocks_def\<close>)
  then have "runs {} (bindS (on_dev (bread 4 (addrs s k ! 12) ((no - 12) * 4))) (\<lambda>bs.
        if of_le32 bs = 0 then bindS balloc (\<lambda>b. bindS (getS (addr_of k 12)) (\<lambda>a.
          thenS (on_dev (bwrite (le32 b) 4 a ((no - 12) * 4))) (retS b))) else retS (of_le32 bs)))
      (\<lambda>b t. b = word_at (blocks s (addrs s k ! 12)) (unat no - 12) \<and> dev_step s (blocks s) t) s"
    unfolding runs_bind by (rule runs_mono) (use a(2) in auto)
  then show ?thesis
    using False i a ge by (simp add: iwalk_def ensure_addr_def baddr_def Let_def)
qed

text \<open>The entry \<open>i\<close> of the block of addresses gets a new block.\<close>

lemma leaf_runs:
  assumes s: "fs_ok s" "good_inode s k" and a: "addrs s k ! 12 \<noteq> 0"
    and i: "unat i < 1024" "word_at (blocks s (addrs s k ! 12)) (unat i) = 0"
    and A: "A = {Abort} \<or> 0 < spare s"
  shows "runs A (bindS balloc (\<lambda>b. bindS (getS (addr_of k 12)) (\<lambda>a.
      thenS (on_dev (bwrite (le32 b) 4 a (i * 4))) (retS b)))) (\<lambda>b t. walked k (unat i + 12) s b t \<and> spare s \<le> spare t + 1) s"
  unfolding runs_bind runs_simps runs_on_dev
proof (rule runs_mono)
  show "runs A balloc (\<lambda>r t. \<exists>b. first_free s b \<and> r = of_nat b \<and> took s b t) s" by (rule balloc_room [OF s(1) A])
  fix r :: u32 and t assume "\<exists>b. first_free s b \<and> r = of_nat b \<and> took s b t"
  then obtain b where b: "first_free s b" "r = of_nat b" "took s b t" by blast
  have att: "attached s b t" by (rule took_attached [OF s(1) b(1,3)])
  note ap = first_free_apart [OF s(1) b(1)]
  note fr = took_frame [OF b(3)]
  let ?a = "addrs s k ! 12"
  have f: "file_ok s (addrs s k)" "k < length (inodes s)" using s by (auto simp: good_inode_def fs_ok_def)
  have db: "data_block s ?a" using owned_block(2) [OF f(1) a] .
  have keep: "blocks t x = blocks s x" if "data_block s x" for x using att that by (simp add: attached_def)
  have ne: "?a \<noteq> of_nat b" "?a \<noteq> bitmap (sb s)"
    using db first_free_not_data [OF b(1)] bitmap_not_data [of s] by metis+
  have d: "disk_ok (dev t)" "unat ?a < 524288"
    using att db by (auto simp: attached_def fs_ok_def data_block_def)
  have len: "length (blocks s ?a) = 4096" by (rule length_blocks [OF s(1) d(2)])
  have "runs A (bwrite (le32 r) 4 ?a (i * 4)) (\<lambda>_ e. walked k (unat i + 12) s r (t\<lparr>dev := e\<rparr>) \<and> spare s \<le> spare (t\<lparr>dev := e\<rparr>) + 1) (dev t)"
  proof (rule bs.wrI [OF d], goal_cases)
    case (3 e)
    let ?u = "t\<lparr>dev := e\<rparr>"
    have u: "dev_step t ((blocks t)(?a := put_at (4 * unat i) (le32 r) (blocks s ?a))) ?u"
      using 3 mul4 [OF i(1)] keep [OF db] by (intro dev_stepI) (auto simp: blocks_def)
    note fu = dev_step_frame [OF u]
    have bm: "((blocks t)(?a := put_at (4 * unat i) (le32 r) (blocks s ?a))) (bitmap (sb t)) = blocks t (bitmap (sb t))"
      using ne fr by simp
    have ok: "fs_ok ?u" "used ?u = used t"
      using dev_step_ok [OF _ u bm] dev_step_used [OF u bm] att by (auto simp: attached_def)
    have inod: "inodes ?u = inodes s" using fr by simp
    have ba: "\<forall>j < 1036. baddr (blocks ?u) (addrs s k) j =
        (if j = unat i + 12 then of_nat b else baddr (blocks s) (addrs s k) j)"
    proof (intro allI impI)
      fix j :: nat assume j: "j < 1036"
      show "baddr (blocks ?u) (addrs s k) j = (if j = unat i + 12 then of_nat b else baddr (blocks s) (addrs s k) j)"
      proof (cases "j < 12")
        case False
        then have "word_at (put_at (4 * unat i) (le32 r) (blocks s ?a)) (j - 12) =
            (if j - 12 = unat i then r else word_at (blocks s ?a) (j - 12))"
          using j i(1) by (intro word_at_put [OF len]) auto
        then show ?thesis using False a fu b(2) by (auto simp: baddr_def)
      qed (simp add: baddr_def)
    qed
    have c1: "sb ?u = sb s" using fr by simp
    have c2: "\<forall>c < 32768. used ?u c \<longleftrightarrow> c = b \<or> used s c"
      unfolding ok(2) using att unfolding attached_def by blast
    have c3: "length (addrs s k) = 13" using f(1) unfolding file_ok_def by blast
    have c4: "addrs s k ! 12 = (if unat i + 12 = 1036 then of_nat b else addrs s k ! 12)"
      "unat i + 12 = 1036 \<longrightarrow> addrs s k ! 12 = 0" using i(1) by simp_all
    have c5: "unat i + 12 < 1036 \<longrightarrow> baddr (blocks s) (addrs s k) (unat i + 12) = 0"
      using i(2) by (simp add: baddr_def)
    note grow = file_grow [OF f(1) s(1) b(1) c1 c2 c3 c4 c5 ba]
    have "good_inode ?u k" using grow(1) s(2) fr inod by (simp add: good_inode_def)
    moreover have "\<exists>ad m. inodes ?u = (inodes s)[k := (inodes s ! k)\<lparr>dinode := (dinode (inodes s ! k))\<lparr>di_addrs := ad, di_size := m\<rparr>\<rparr>]"
      using evolves_refl [OF s] inod by (simp add: evolves_def)
    moreover have "?a \<in> owns (blocks s) (addrs s k)" using a by (simp add: owns_def)
    moreover have kp: "blocks ?u x = blocks s x" if "data_block s x" "x \<noteq> ?a" for x
      using that keep fu by simp
    ultimately have "evolves k s ?u"
      using grow(2) ap b(1) ok(1) c1 c2 inod fr unfolding evolves_def
      by (auto simp: first_free_def)
    moreover have "r = baddr (blocks ?u) (addrs ?u k) (unat i + 12)" "r \<noteq> 0"
      using ba i(1) b(2) ap inod by auto
    moreover have "\<forall>j < 1036. j \<noteq> unat i + 12 \<or> baddr (blocks s) (addrs s k) j \<noteq> 0 \<longrightarrow>
        baddr (blocks ?u) (addrs ?u k) j = baddr (blocks s) (addrs s k) j"
      using ba c5 inod by auto
    ultimately show ?case using kp inod spare_took [OF b(1) c2] unfolding walked_def by simp
  qed (use i mul4 [OF i(1)] in auto)
  then show "runs A (bwrite (le32 r) 4 (addr_of k 12 t) (i * 4))
      (\<lambda>x d. walked k (unat i + 12) s r (t\<lparr>dev := d\<rparr>) \<and> spare s \<le> spare (t\<lparr>dev := d\<rparr>) + 1) (dev t)"
    using fr by simp
qed simp

lemma walked_trans:
  assumes "evolves k s t" "di_size (dinode (inodes t ! k)) = di_size (dinode (inodes s ! k))"
    and "\<forall>j < 1036. baddr (blocks t) (addrs t k) j = baddr (blocks s) (addrs s k) j"
    and "\<forall>x. data_block s x \<longrightarrow> blocks t x = blocks s x"
    and "addrs s k ! 12 \<noteq> 0 \<longrightarrow> addrs t k ! 12 = addrs s k ! 12" "addrs s k ! 12 = 0 \<longrightarrow> \<not> data_block s (addrs t k ! 12)"
    and "walked k n t b u"
  shows "walked k n s b u"
proof -
  have "blocks u x = blocks s x" if "data_block s x" "x \<noteq> addrs s k ! 12" for x
  proof -
    have "x \<noteq> addrs t k ! 12" using that assms(5,6) by (cases "addrs s k ! 12 = 0") auto
    then show ?thesis
      using that assms(4,7) evolves_data [OF assms(1) that(1)] by (simp add: walked_def)
  qed
  then show ?thesis
    using assms(2,3,7) evolves_trans [OF assms(1)] by (auto simp: walked_def)
qed

lemma walked_same:
  assumes "fs_ok s" "good_inode s k" "dev_step s (blocks s) t" "b = baddr (blocks s) (addrs s k) n" "b \<noteq> 0"
  shows "walked k n s b t"
  using dev_step_evolves [OF assms(1-3)] dev_step_frame [OF assms(3)] assms(4,5) by (simp add: walked_def)

lemma walked_later:
  assumes "fs_ok s" "good_inode s k" "dev_step s (blocks s) t" "walked k n t b u"
  shows "walked k n s b u"
proof (rule walked_trans [OF dev_step_evolves [OF assms(1-3)] _ _ _ _ _ assms(4)])
  show "addrs s k ! 12 = 0 \<longrightarrow> \<not> data_block s (addrs t k ! 12)"
    using dev_step_frame [OF assms(3)] assms(1) by (auto simp: data_block_def)
qed (use dev_step_frame [OF assms(3)] in auto)

text \<open>What \<open>iwalk\<close> does with any block number of a file.\<close>

lemma iwalk_runs:
  assumes "fs_ok s" "good_inode s k" "unat no < 1036" "A = {Abort} \<or> 2 \<le> spare s"
  shows "runs A (iwalk k no) (\<lambda>b t. walked k (unat no) s b t \<and> spare s \<le> spare t + 2) s"
proof (cases "no < 12")
  case True
  then have n: "unat no < 12" by (simp add: word_less_nat_alt)
  show ?thesis
    unfolding iwalk_def if_P [OF True]
  proof (rule runs_mono [OF ensure_addr_runs [OF assms(1,2), of "unat no" A]])
    fix a t assume h: "evolves k s t \<and> a = addrs t k ! unat no \<and> a \<noteq> 0 \<and>
      di_size (dinode (inodes t ! k)) = di_size (dinode (inodes s ! k)) \<and>
      (addrs s k ! unat no \<noteq> 0 \<longrightarrow> t = s) \<and> (\<forall>x. data_block s x \<longrightarrow> blocks t x = blocks s x) \<and>
      (\<forall>j < 1036. j \<noteq> unat no \<or> unat no = 12 \<longrightarrow> baddr (blocks t) (addrs t k) j = baddr (blocks s) (addrs s k) j) \<and> spare s \<le> spare t + 1"
    have d: "baddr B ad (unat no) = ad ! unat no" for B ad using n by (simp add: baddr_def)
    have "baddr (blocks t) (addrs t k) (unat no) = baddr (blocks s) (addrs s k) (unat no)"
      if "baddr (blocks s) (addrs s k) (unat no) \<noteq> 0"
      using h that by (simp add: d)
    then show "walked k (unat no) s a t \<and> spare s \<le> spare t + 2"
      using h n unfolding walked_def by (auto simp: d)
  qed (use n assms(4) in auto)
next
  case False
  then have ge: "12 \<le> unat no" by (simp add: word_less_nat_alt)
  let ?i = "no - 12"
  have i: "unat ?i = unat no - 12" "unat ?i < 1024" "?i < 1024" "unat ?i + 12 = unat no"
    using sub12 [OF ge] assms(3) ge by (auto simp: word_less_nat_alt)
  show ?thesis
    unfolding iwalk_def if_not_P [OF False] Let_def if_P [OF i(3)] runs_bind
  proof (rule runs_mono [OF ensure_addr_runs [OF assms(1,2), of 12 A]])
    fix a t assume h: "evolves k s t \<and> a = addrs t k ! 12 \<and> a \<noteq> 0 \<and>
      di_size (dinode (inodes t ! k)) = di_size (dinode (inodes s ! k)) \<and>
      (addrs s k ! 12 \<noteq> 0 \<longrightarrow> t = s) \<and> (\<forall>x. data_block s x \<longrightarrow> blocks t x = blocks s x) \<and>
      (\<forall>j < 1036. j \<noteq> 12 \<or> 12 = (12 :: nat) \<longrightarrow> baddr (blocks t) (addrs t k) j = baddr (blocks s) (addrs s k) j) \<and> spare s \<le> spare t + 1"
    have t: "fs_ok t" "good_inode t k" using h by (auto simp: evolves_def)
    have f: "file_ok t (addrs t k)" using t by (simp add: good_inode_def)
    have room: "A = {Abort} \<or> 0 < spare t" using assms(4) h by auto
    have same: "\<forall>j < 1036. baddr (blocks t) (addrs t k) j = baddr (blocks s) (addrs s k) j" using h by simp
    have nz: "addrs t k ! 12 \<noteq> 0" using h by auto
    have db: "data_block t (addrs t k ! 12)" using owned_block(2) [OF f nz] .
    have new: "\<not> data_block s (addrs t k ! 12)" if z: "addrs s k ! 12 = 0"
    proof
      assume "data_block s (addrs t k ! 12)"
      moreover have "addrs t k ! 12 \<in> owns (blocks t) (addrs t k)" using nz by (simp add: owns_def)
      ultimately have "addrs t k ! 12 \<in> owns (blocks s) (addrs s k)"
        using h by (auto simp: evolves_def data_block_def)
      then obtain j where "j < 1036" "addrs t k ! 12 = baddr (blocks s) (addrs s k) j"
        using z h by (auto simp: owns_def)
      then show False using same f h by (auto simp: file_ok_def)
    qed
    have d: "disk_ok (dev t)" "unat a < 524288" using t db h by (auto simp: fs_ok_def data_block_def)
    have ba: "baddr (blocks t) (addrs t k) (unat no) = word_at (blocks t a) (unat ?i)"
      using ge h i nz unfolding baddr_def by auto
    have "runs A (bindS (on_dev (bread 4 a (?i * 4))) (\<lambda>bs.
        if of_le32 bs = 0 then bindS balloc (\<lambda>b. bindS (getS (addr_of k 12)) (\<lambda>a.
          thenS (on_dev (bwrite (le32 b) 4 a (?i * 4))) (retS b))) else retS (of_le32 bs)))
      (\<lambda>b u. walked k (unat no) t b u \<and> spare t \<le> spare u + 1) t"
    proof (subst runs_bind, subst runs_on_dev, rule bs.rdI [OF d], goal_cases)
      case (2 e)
      let ?u = "t\<lparr>dev := e\<rparr>"
      let ?w = "of_le32 (span_at (unat (?i * 4)) (unat (4 :: u32)) (blk (dev t) a))"
      have u: "dev_step t (blocks t) ?u" using 2 by (intro dev_stepI) (auto simp: blocks_def)
      have w: "?w = word_at (blocks t a) (unat ?i)"
        using mul4 [OF i(2)] by (simp add: word_at_def blocks_def)
      have su: "spare ?u = spare t" by (rule spare_same) (use dev_step_used [OF u] in simp)
      show ?case
      proof (cases "?w = 0")
        case False
        have "walked k (unat no) t ?w ?u"
          by (rule walked_same [OF t u]) (use False ba w in auto)
        then show ?thesis unfolding if_not_P [OF False] runs_simps using su by simp
      next
        case True
        have gu: "fs_ok ?u" "good_inode ?u k" using dev_step_evolves [OF t u] by (auto simp: evolves_def)
        have "addrs ?u k ! 12 \<noteq> 0" "word_at (blocks ?u (addrs ?u k ! 12)) (unat ?i) = 0"
          using True w h nz dev_step_frame [OF u] by auto
        note leaf = leaf_runs [OF gu this(1) i(2) this(2), of A, unfolded i(4) su, OF room]
        show ?thesis unfolding if_P [OF True] by (rule runs_mono [OF leaf]) (use walked_later [OF t u] in auto)
      qed
    qed (use mul4 [OF i(2)] i(2) in auto)
    then show "runs A (on_dev (bread 4 a (?i * 4))) (\<lambda>x. runs A
        (if of_le32 x = 0 then bindS balloc (\<lambda>b. bindS (getS (addr_of k 12)) (\<lambda>a.
          thenS (on_dev (bwrite (le32 b) 4 a (?i * 4))) (retS b))) else retS (of_le32 x))
        (\<lambda>b u. walked k (unat no) s b u \<and> spare s \<le> spare u + 2)) t"
      unfolding runs_bind [symmetric]
    proof (rule runs_mono)
      show "walked k (unat no) s b u \<and> spare s \<le> spare u + 2" if w: "walked k (unat no) t b u \<and> spare t \<le> spare u + 1" for b u
        using walked_trans [OF _ _ same _ _ _ conjunct1 [OF w]] h new w by auto
    qed simp
  qed (use assms(4) in auto)
qed

text \<open>A block that is there is found without an allocation.\<close>

lemma dev_step_refl: "fs_ok s \<Longrightarrow> dev_step s (blocks s) s"
  by (simp add: dev_step_def fs_ok_def)

lemma dev_step_same: "dev_step s (blocks s) t \<Longrightarrow> dev_step t (blocks t) u \<Longrightarrow> dev_step s (blocks s) u"
  by (metis dev_step_def dev_step_trans)

lemma iwalk_present:
  assumes "fs_ok s" "good_inode s k" "unat no < 1036" "baddr (blocks s) (addrs s k) (unat no) \<noteq> 0"
  shows "runs {} (iwalk k no) (\<lambda>b t. walked k (unat no) s b t \<and> dev_step s (blocks s) t) s"
proof (cases "no < 12")
  case True
  then have n: "unat no < 12" by (simp add: word_less_nat_alt)
  then have a: "addrs s k ! unat no \<noteq> 0" using assms(4) by (simp add: baddr_def)
  then have "ensure_addr k (unat no) s = Inr (addrs s k ! unat no, s)" by (simp add: ensure_addr_def)
  moreover have "walked k (unat no) s (addrs s k ! unat no) s"
    using evolves_refl [OF assms(1,2)] a n by (simp add: walked_def baddr_def)
  moreover have "dev_step s (blocks s) s" by (rule dev_step_refl [OF assms(1)])
  ultimately show ?thesis unfolding iwalk_def if_P [OF True] by (simp add: runs_def)
next
  case False
  then have ge: "12 \<le> unat no" by (simp add: word_less_nat_alt)
  let ?i = "no - 12" and ?a = "addrs s k ! 12"
  have i: "unat ?i = unat no - 12" "unat ?i < 1024" "?i < 1024"
    using sub12 [OF ge] assms(3) ge by (auto simp: word_less_nat_alt)
  have a: "?a \<noteq> 0" "baddr (blocks s) (addrs s k) (unat no) = word_at (blocks s ?a) (unat ?i)"
    using assms(4) ge i(1) by (auto simp: baddr_def split: if_splits)
  have f: "file_ok s (addrs s k)" using assms(2) by (simp add: good_inode_def)
  have d: "disk_ok (dev s)" "unat ?a < 524288" using assms(1) owned_block(2) [OF f a(1)] by (auto simp: fs_ok_def data_block_def)
  have e: "ensure_addr k 12 s = Inr (?a, s)" using a(1) by (simp add: ensure_addr_def)
  have "runs {} (bindS (on_dev (bread 4 ?a (?i * 4))) (\<lambda>bs.
        if of_le32 bs = 0 then bindS balloc (\<lambda>b. bindS (getS (addr_of k 12)) (\<lambda>a.
          thenS (on_dev (bwrite (le32 b) 4 a (?i * 4))) (retS b))) else retS (of_le32 bs)))
      (\<lambda>b u. walked k (unat no) s b u \<and> dev_step s (blocks s) u) s"
  proof (subst runs_bind, subst runs_on_dev, rule bs.rdI [OF d], goal_cases)
    case (2 e)
    let ?u = "s\<lparr>dev := e\<rparr>"
    let ?w = "of_le32 (span_at (unat (?i * 4)) (unat (4 :: u32)) (blk (dev s) ?a))"
    have u: "dev_step s (blocks s) ?u" using 2 by (intro dev_stepI) (auto simp: blocks_def)
    have w: "?w = baddr (blocks s) (addrs s k) (unat no)" using mul4 [OF i(2)] a(2) by (simp add: word_at_def blocks_def)
    then have "?w \<noteq> 0" using assms(4) by simp
    moreover have "walked k (unat no) s ?w ?u" by (rule walked_same [OF assms(1,2) u w calculation])
    ultimately show ?case using u by (simp only: if_False runs_simps)
  qed (use mul4 [OF i(2)] i(2) in auto)
  then show ?thesis unfolding iwalk_def if_not_P [OF False] Let_def if_P [OF i(3)] by (simp add: runs_def e)
qed

text \<open>Past the largest file it aborts.\<close>

lemma iwalk_aborts: "1036 \<le> unat no \<Longrightarrow> iwalk k no s = Inl Abort"
proof -
  assume "1036 \<le> unat no"
  then have "\<not> no < 12" "\<not> no - 12 < 1024" using sub12 [of no] by (simp_all add: word_less_nat_alt)
  then show ?thesis by (simp add: iwalk_def)
qed

subsection \<open>Reading\<close>

text \<open>
  Byte \<open>p\<close> of the file of entry \<open>k\<close>, its size, its contents; a file is \<open>covered\<close> when it is no
  larger than the 1036 blocks an inode can name and has a block for every byte.
\<close>

definition byte_at :: "fs \<Rightarrow> nat \<Rightarrow> nat \<Rightarrow> byte" where
  "byte_at s k p = blocks s (baddr (blocks s) (addrs s k) (p div 4096)) ! (p mod 4096)"

definition fsize :: "fs \<Rightarrow> nat \<Rightarrow> nat" where
  "fsize s k = unat (isize k s)"

definition file_bytes :: "fs \<Rightarrow> nat \<Rightarrow> byte list" where
  "file_bytes s k = map (byte_at s k) [0 ..< fsize s k]"

definition covered :: "fs \<Rightarrow> nat \<Rightarrow> bool" where
  "covered s k \<longleftrightarrow> fsize s k \<le> 4243456 \<and> (\<forall>j. 4096 * j < fsize s k \<longrightarrow> baddr (blocks s) (addrs s k) j \<noteq> 0)"

lemma length_file_bytes [simp]: "length (file_bytes s k) = fsize s k"
  by (simp add: file_bytes_def)

lemma covered_block: "covered s k \<Longrightarrow> p < fsize s k \<Longrightarrow>
    p div 4096 < 1036 \<and> baddr (blocks s) (addrs s k) (p div 4096) \<noteq> 0"
proof -
  assume c: "covered s k" "p < fsize s k"
  then have "4096 * (p div 4096) < fsize s k" by (meson div_times_less_eq_dividend le_less_trans mult.commute
      times_div_less_eq_dividend)
  then show ?thesis using c by (auto simp: covered_def)
qed

lemma same_file:
  assumes "covered s k" "fsize t k = fsize s k"
    and "\<And>p. p div 4096 < 1036 \<Longrightarrow> baddr (blocks s) (addrs s k) (p div 4096) \<noteq> 0 \<Longrightarrow>
      baddr (blocks t) (addrs t k) (p div 4096) \<noteq> 0 \<and> byte_at t k p = byte_at s k p"
  shows "file_bytes t k = file_bytes s k" "covered t k"
proof -
  have "byte_at t k p = byte_at s k p" if "p < fsize s k" for p
    using assms(3) covered_block [OF assms(1) that] by blast
  then show "file_bytes t k = file_bytes s k" using assms(2) by (simp add: file_bytes_def)
  have "baddr (blocks t) (addrs t k) j \<noteq> 0" if "4096 * j < fsize t k" for j
  proof -
    have "4096 * j < fsize s k" using that assms(2) by simp
    from assms(3) [of "4096 * j"] covered_block [OF assms(1) this] show ?thesis by simp
  qed
  then show "covered t k" using assms(1,2) by (simp add: covered_def)
qed

lemma walked_bytes:
  assumes "good_inode s k" "walked k no s b t" "p div 4096 < 1036"
    "baddr (blocks s) (addrs s k) (p div 4096) \<noteq> 0"
  shows "baddr (blocks t) (addrs t k) (p div 4096) \<noteq> 0 \<and> byte_at t k p = byte_at s k p"
proof -
  have f: "file_ok s (addrs s k)" using assms(1) by (simp add: good_inode_def)
  have "baddr (blocks t) (addrs t k) (p div 4096) = baddr (blocks s) (addrs s k) (p div 4096)"
    using assms(2-4) unfolding walked_def by blast
  moreover have "data_block s (baddr (blocks s) (addrs s k) (p div 4096))"
    by (rule owned_block(1) [OF f assms(3,4)])
  moreover have "baddr (blocks s) (addrs s k) (p div 4096) \<noteq> addrs s k ! 12"
    using f assms(3,4) unfolding file_ok_def by metis
  ultimately show ?thesis using assms(2,4) by (simp add: walked_def byte_at_def)
qed

lemma walked_file:
  assumes "good_inode s k" "covered s k" "walked k no s b t"
  shows "file_bytes t k = file_bytes s k" "covered t k" "evolves k s t" "fs_ok t" "good_inode t k" "fsize t k = fsize s k"
proof -
  show fz: "fsize t k = fsize s k" using assms(3) by (simp add: walked_def fsize_def isize_def)
  show "file_bytes t k = file_bytes s k" "covered t k"
    using same_file [OF assms(2) fz] walked_bytes [OF assms(1,3)] by blast+
  show "evolves k s t" "fs_ok t" "good_inode t k" using assms(3) by (auto simp: walked_def evolves_def)
qed

lemma in_block:
  fixes P i :: nat
  assumes "P mod 4096 + i < 4096"
  shows "(P + i) div 4096 = P div 4096" "(P + i) mod 4096 = P mod 4096 + i"
proof -
  have P: "P + i = (P mod 4096 + i) + 4096 * (P div 4096)" by simp
  show "(P + i) div 4096 = P div 4096" using assms by (subst P, subst div_mult_self2) simp_all
  show "(P + i) mod 4096 = P mod 4096 + i" using assms by (subst P, subst mod_mult_self2) simp
qed

lemma file_segment:
  assumes "P + n \<le> fsize s k" "P mod 4096 + n \<le> 4096" "length (blocks s (baddr (blocks s) (addrs s k) (P div 4096))) = 4096"
  shows "span_at (P mod 4096) n (blocks s (baddr (blocks s) (addrs s k) (P div 4096))) = take n (drop P (file_bytes s k))"
proof (rule nth_equalityI)
  fix i assume "i < length (span_at (P mod 4096) n (blocks s (baddr (blocks s) (addrs s k) (P div 4096))))"
  then have i: "i < n" using assms by simp
  then have "P mod 4096 + i < 4096" using assms(2) by simp
  note in_block [OF this]
  then show "span_at (P mod 4096) n (blocks s (baddr (blocks s) (addrs s k) (P div 4096))) ! i =
      take n (drop P (file_bytes s k)) ! i"
    using i assms by (simp add: file_bytes_def byte_at_def)
qed (use assms in simp)

lemma chunk_bounds:
  fixes m r z P c :: nat
  assumes "m = min (min r (4096 - c)) (z - P)" "0 < r" "P < z" "c < 4096"
  shows "0 < m" "m \<le> r" "c + m \<le> 4096" "P + m \<le> z"
  using assms by auto

text \<open>
  \<open>iread\<close> asks for the block after the last byte it has read, and may have to allocate it. A file is \<open>full\<close> when this
  block is there as well; then reading it does not abort, nor when two blocks can be allocated (one may be the
  block of addresses) and the file is not of the largest size.
\<close>

definition full :: "fs \<Rightarrow> nat \<Rightarrow> bool" where
  "full s k \<longleftrightarrow> fsize s k < 4243456 \<and> (\<forall>j. 4096 * j \<le> fsize s k \<longrightarrow> baddr (blocks s) (addrs s k) j \<noteq> 0)"

definition room :: "fs \<Rightarrow> nat \<Rightarrow> bool" where
  "room s k \<longleftrightarrow> full s k \<or> fsize s k < 4243456 \<and> 2 \<le> spare s"

lemma full_room: "full s k \<Longrightarrow> room s k"
  by (simp add: room_def)

lemma dev_step_full: "dev_step s (blocks s) t \<Longrightarrow> full s k \<Longrightarrow> full t k"
  using dev_step_frame [of s "blocks s" t] by (simp add: full_def fsize_def isize_def)

lemma dev_step_spare: "dev_step s (blocks s) t \<Longrightarrow> spare t = spare s"
  by (rule spare_same, erule dev_step_used, rule refl)

lemma dev_step_room: "dev_step s (blocks s) t \<Longrightarrow> room s k \<Longrightarrow> room t k"
  using dev_step_full [of s t k] dev_step_spare [of s t] dev_step_frame [of s "blocks s" t]
  by (auto simp: room_def fsize_def isize_def)

lemma room_block: "room s k \<Longrightarrow> 4096 * j \<le> fsize s k \<Longrightarrow> baddr (blocks s) (addrs s k) j \<noteq> 0 \<or> 2 \<le> spare s"
  by (auto simp: room_def full_def)

lemma iwalk_in:
  assumes "fs_ok s" "good_inode s k" "unat no < 1036"
    "A = {Abort} \<or> baddr (blocks s) (addrs s k) (unat no) \<noteq> 0 \<or> 2 \<le> spare s"
  shows "runs A (iwalk k no) (\<lambda>b t. walked k (unat no) s b t \<and> spare s \<le> spare t + 2 \<and>
    (baddr (blocks s) (addrs s k) (unat no) \<noteq> 0 \<longrightarrow> dev_step s (blocks s) t)) s"
proof (cases "baddr (blocks s) (addrs s k) (unat no) = 0")
  case False
  show ?thesis by (rule runs_mono [OF iwalk_present [OF assms(1-3) False]]) (auto simp: dev_step_spare)
next
  case True
  then have "A = {Abort} \<or> 2 \<le> spare s" using assms(4) by blast
  from iwalk_runs [OF assms(1-3) this] show ?thesis by (rule runs_mono) (use True in auto)
qed

lemma iread_loop_runs:
  assumes "fs_ok s" "good_inode s k" "covered s k" "unat off + unat br \<le> 4243456"
    "unat off + unat br < fsize s k \<longrightarrow> blkno = baddr (blocks s) (addrs s k) ((unat off + unat br) div 4096)"
    "A = {Abort} \<or> room s k \<or> fsize s k \<le> unat off + unat br"
  shows "runs A (iread_loop k off blkno rem br) (\<lambda>xs t.
    xs = take (unat rem) (drop (unat off + unat br) (file_bytes s k)) \<and>
    evolves k s t \<and> file_bytes t k = file_bytes s k \<and> covered t k \<and> (full s k \<longrightarrow> dev_step s (blocks s) t)) s"
  using assms
proof (induction "unat rem" arbitrary: rem br blkno s rule: less_induct)
  case less
  let ?P = "unat off + unat br"
  have sum: "unat (off + br) = ?P" using less.prems(4) by (intro unat_add_u32) simp
  have sz: "unat (isize k s) = fsize s k" by (simp add: fsize_def)
  show ?case
  proof (cases "0 < rem \<and> off + br < isize k s")
    case False
    then have "unat rem = 0 \<or> fsize s k \<le> ?P" using sum sz by (auto simp: word_less_nat_alt)
    moreover have "iread_loop k off blkno rem br s = Inr ([], s)"
      using False by (subst iread_loop.simps) (auto simp: Let_def)
    ultimately show ?thesis using less.prems evolves_refl [of s k] dev_step_refl [of s] by (auto simp: runs_def)
  next
    case True
    then have g: "0 < unat rem" "?P < fsize s k" using sum sz by (auto simp: word_less_nat_alt)
    define c where "c = (off + br) mod BLK_SIZE"
    define n where "n = min (min rem (BLK_SIZE - c)) (isize k s - off - br)"
    have o: "unat c = ?P mod 4096" by (simp add: unat_mod sum c_def)
    have sub: "unat (BLK_SIZE - c) = 4096 - ?P mod 4096"
    proof -
      have "c \<le> BLK_SIZE" using o by (simp add: word_le_nat_alt)
      then show ?thesis using o by (simp add: unat_sub)
    qed
    have left: "unat (isize k s - off - br) = fsize s k - ?P"
    proof -
      have "off + br \<le> isize k s" using True by auto
      then have "unat (isize k s - (off + br)) = fsize s k - ?P" using sum sz by (simp add: unat_sub)
      then show ?thesis by (simp add: diff_diff_eq)
    qed
    have n: "unat n = min (min (unat rem) (4096 - ?P mod 4096)) (fsize s k - ?P)"
      using sub left by (simp add: n_def min_def word_le_nat_alt)
    have n0: "0 < unat n" "unat n \<le> unat rem" "?P mod 4096 + unat n \<le> 4096" "?P + unat n \<le> fsize s k"
      using chunk_bounds [OF n g(1,2)] by simp_all
    have cov: "fsize s k \<le> 4243456" using less.prems(3) by (simp add: covered_def)
    have brn: "unat (br + n) = unat br + unat n" using n0 cov by (intro unat_add_u32) simp
    have offn: "unat (off + (br + n)) = ?P + unat n"
      using n0 cov brn by (subst unat_add_u32) simp_all
    have remn: "unat (rem - n) = unat rem - unat n" using n0 by (intro unat_sub) (simp add: word_le_nat_alt)
    have blk: "?P div 4096 < 1036" "baddr (blocks s) (addrs s k) (?P div 4096) \<noteq> 0"
      using covered_block [OF less.prems(3) g(2)] by auto
    have bn: "blkno = baddr (blocks s) (addrs s k) (?P div 4096)" using less.prems(5) g(2) by blast
    have db: "data_block s blkno"
      unfolding bn using less.prems(2) blk by (intro owned_block(1)) (simp_all add: good_inode_def)
    have d: "disk_ok (dev s)" "unat blkno < 524288"
      using less.prems(1) db by (auto simp: fs_ok_def data_block_def)
    have seg: "span_at (unat c) (unat n) (blk (dev s) blkno) = take (unat n) (drop ?P (file_bytes s k))"
    proof -
      have "length (blocks s (baddr (blocks s) (addrs s k) (?P div 4096))) = 4096"
        using length_blocks [OF less.prems(1) d(2)] unfolding bn .
      from file_segment [OF n0(4) n0(3) this] show ?thesis unfolding o bn by (simp only: blocks_def)
    qed
    have step: "iread_loop k off blkno rem br s =
        bindS (on_dev (bread n blkno c)) (\<lambda>xs.
        bindS (iwalk k ((off + (br + n)) div BLK_SIZE)) (\<lambda>blkno.
        bindS (iread_loop k off blkno (rem - n) (br + n)) (\<lambda>ys. retS (xs @ ys)))) s"
      unfolding n_def c_def by (subst iread_loop.simps) (simp only: Let_def if_P [OF True])
    have "runs A (bindS (on_dev (bread n blkno c)) (\<lambda>xs.
        bindS (iwalk k ((off + (br + n)) div BLK_SIZE)) (\<lambda>blkno.
        bindS (iread_loop k off blkno (rem - n) (br + n)) (\<lambda>ys. retS (xs @ ys)))))
      (\<lambda>xs t. xs = take (unat rem) (drop ?P (file_bytes s k)) \<and>
        evolves k s t \<and> file_bytes t k = file_bytes s k \<and> covered t k \<and> (full s k \<longrightarrow> dev_step s (blocks s) t)) s"
    proof (subst runs_bind, subst runs_on_dev, rule bs.rdI [OF d], goal_cases)
      case (2 e)
      let ?t = "s\<lparr>dev := e\<rparr>"
      have t: "dev_step s (blocks s) ?t" using 2 by (intro dev_stepI) (auto simp: blocks_def)
      have ev: "evolves k s ?t" by (rule dev_step_evolves [OF less.prems(1,2) t refl])
      then have tok: "fs_ok ?t" "good_inode ?t k" by (auto simp: evolves_def)
      have ft: "full s k \<Longrightarrow> full ?t k" using dev_step_frame [OF t] by (simp add: full_def fsize_def isize_def)
      have same: "file_bytes ?t k = file_bytes s k" "covered ?t k" "fsize ?t k = fsize s k"
        using dev_step_frame [OF t] less.prems(3)
        by (simp_all add: file_bytes_def byte_at_def fsize_def isize_def covered_def)
      show ?case
      proof (cases "(?P + unat n) div 4096 < 1036")
        case False
        then have "\<not> room s k" using n0(4) by (auto simp: full_def room_def)
        then have "A = {Abort}" using less.prems(6) g(2) by simp
        moreover have "iwalk k ((off + (br + n)) div BLK_SIZE) ?t = Inl Abort"
          using False offn by (intro iwalk_aborts) (simp add: unat_div)
        ultimately show ?thesis by (simp add: runs_def del: runs_bind)
      next
        case True
        then have w: "unat ((off + (br + n)) div BLK_SIZE) = (?P + unat n) div 4096"
          "unat ((off + (br + n)) div BLK_SIZE) < 1036"
          using offn by (simp_all add: unat_div)
        show ?thesis
          unfolding runs_bind
        proof (rule runs_mono [OF iwalk_in [OF tok w(2), where A = A]])
          fix b u assume u2: "walked k (unat ((off + (br + n)) div BLK_SIZE)) ?t b u \<and>
            spare ?t \<le> spare u + 2 \<and>
            (baddr (blocks ?t) (addrs ?t k) (unat ((off + (br + n)) div BLK_SIZE)) \<noteq> 0 \<longrightarrow> dev_step ?t (blocks ?t) u)"
          then have u: "walked k (unat ((off + (br + n)) div BLK_SIZE)) ?t b u" by blast
          have du: "dev_step s (blocks s) u" if "baddr (blocks s) (addrs s k) ((?P + unat n) div 4096) \<noteq> 0"
          proof -
            have "dev_step ?t (blocks ?t) u" using u2 that w(1) dev_step_frame [OF t] by simp
            then show ?thesis using dev_step_same [OF t] by blast
          qed
          have q: "4096 * ((?P + unat n) div 4096) \<le> fsize s k" using n0(4) by linarith
          then have fu: "dev_step s (blocks s) u" if "full s k" using du that unfolding full_def by blast
          have ru: "room u k" if "room s k" "?P + unat n < fsize s k"
            using covered_block [OF less.prems(3) that(2)] du dev_step_room [OF _ that(1)] by blast
          note uf = walked_file [OF tok(2) same(2) u]
          have "runs A (iread_loop k off b (rem - n) (br + n)) (\<lambda>xs v.
              xs = take (unat (rem - n)) (drop (unat off + unat (br + n)) (file_bytes u k)) \<and>
              evolves k u v \<and> file_bytes v k = file_bytes u k \<and> covered v k \<and> (full u k \<longrightarrow> dev_step u (blocks u) v)) u"
          proof (rule less.hyps)
            show "unat (rem - n) < unat rem" using remn n0 by simp
            show "unat off + unat (br + n) \<le> 4243456" using brn n0 cov by simp
            show "unat off + unat (br + n) < fsize u k \<longrightarrow>
                b = baddr (blocks u) (addrs u k) ((unat off + unat (br + n)) div 4096)"
              using u w(1) brn by (simp add: walked_def add.assoc)
            show "A = {Abort} \<or> room u k \<or> fsize u k \<le> unat off + unat (br + n)"
              using less.prems(6) g(2) ru uf(6) same(3) brn by fastforce
          qed (use uf in auto)
          then show "runs A (iread_loop k off b (rem - n) (br + n))
              (\<lambda>x. runs A (retS (span_at (unat c) (unat n) (blk (dev s) blkno) @ x))
                (\<lambda>xs t. xs = take (unat rem) (drop ?P (file_bytes s k)) \<and>
                  evolves k s t \<and> file_bytes t k = file_bytes s k \<and> covered t k \<and> (full s k \<longrightarrow> dev_step s (blocks s) t))) u"
          proof (rule runs_mono)
            fix x v assume v: "x = take (unat (rem - n)) (drop (unat off + unat (br + n)) (file_bytes u k)) \<and>
              evolves k u v \<and> file_bytes v k = file_bytes u k \<and> covered v k \<and> (full u k \<longrightarrow> dev_step u (blocks u) v)"
            have "take (unat n) (drop ?P (file_bytes s k)) @ x = take (unat rem) (drop ?P (file_bytes s k))"
            proof -
              have "x = take (unat rem - unat n) (drop (unat n) (drop ?P (file_bytes s k)))"
                using v uf(1) same(1) remn brn by (simp add: add.commute add.left_commute)
              then show ?thesis using n0(2) take_add [of "unat n" "unat rem - unat n" "drop ?P (file_bytes s k)"] by simp
            qed
            then show "runs A (retS (span_at (unat c) (unat n) (blk (dev s) blkno) @ x))
                (\<lambda>xs t. xs = take (unat rem) (drop ?P (file_bytes s k)) \<and>
                  evolves k s t \<and> file_bytes t k = file_bytes s k \<and> covered t k \<and> (full s k \<longrightarrow> dev_step s (blocks s) t)) v"
              using v uf same evolves_trans [OF evolves_trans [OF ev uf(3)]] fu dev_step_full [OF fu] dev_step_same [OF fu] unfolding seg runs_simps by simp
          qed simp
        next
          have "4096 * ((?P + unat n) div 4096) \<le> fsize s k" using n0(4) by linarith
          then show "A = {Abort} \<or> baddr (blocks ?t) (addrs ?t k) (unat ((off + (br + n)) div BLK_SIZE)) \<noteq> 0 \<or> 2 \<le> spare ?t"
            using less.prems(6) g(2) room_block [of s k "(?P + unat n) div 4096"] w(1) dev_step_frame [OF t] dev_step_spare [OF t]
            by fastforce
        qed simp
      qed
    qed (use o n0 in auto)
    then show ?thesis by (simp only: runs_def step)
  qed
qed

lemma iread_in:
  assumes "fs_ok s" "good_inode s k" "covered s k" "A = {Abort} \<or> room s k" "unat off \<le> fsize s k \<or> A = {Abort}"
  shows "runs A (iread k off len) (\<lambda>xs t.
    xs = take (unat len) (drop (unat off) (file_bytes s k)) \<and> file_bytes t k = file_bytes s k \<and>
    covered t k \<and> evolves k s t \<and> (full s k \<and> unat off \<le> fsize s k \<longrightarrow> dev_step s (blocks s) t)) s"
proof (cases "unat off div 4096 < 1036")
  case False
  then have "A = {Abort}" using assms(4,5) by (auto simp: full_def room_def)
  moreover have "iwalk k (off div BLK_SIZE) s = Inl Abort" using False by (intro iwalk_aborts) (simp add: unat_div)
  ultimately show ?thesis by (simp add: iread_def runs_def del: runs_bind)
next
  case True
  then have w: "unat (off div BLK_SIZE) = unat off div 4096" "unat (off div BLK_SIZE) < 1036"
    by (simp_all add: unat_div)
  show ?thesis
    unfolding iread_def runs_bind
  proof (rule runs_mono [OF iwalk_in [OF assms(1,2) w(2), where A = A]])
    have "A = {Abort} \<or> room s k \<and> 4096 * (unat off div 4096) \<le> fsize s k" using assms(4,5) by auto
    then show "A = {Abort} \<or> baddr (blocks s) (addrs s k) (unat (off div BLK_SIZE)) \<noteq> 0 \<or> 2 \<le> spare s"
      using room_block [of s k "unat off div 4096"] w(1) by auto
    fix b t assume t2: "walked k (unat (off div BLK_SIZE)) s b t \<and> spare s \<le> spare t + 2 \<and>
      (baddr (blocks s) (addrs s k) (unat (off div BLK_SIZE)) \<noteq> 0 \<longrightarrow> dev_step s (blocks s) t)"
    then have t: "walked k (unat (off div BLK_SIZE)) s b t" by blast
    have ft: "dev_step s (blocks s) t" if "full s k" "unat off \<le> fsize s k"
    proof -
      have "4096 * (unat off div 4096) \<le> fsize s k" using that(2) by linarith
      then show ?thesis using t2 that(1) w(1) unfolding full_def by simp
    qed
    have rt: "room t k" if "room s k" "unat off < fsize s k"
      using covered_block [OF assms(3) that(2)] t2 w(1) dev_step_room [OF _ that(1)] by simp
    note tf = walked_file [OF assms(2,3) t]
    have "unat off + unat (0 :: u32) \<le> 4243456" using True by simp
    moreover have "unat off + unat (0 :: u32) < fsize t k \<longrightarrow>
        b = baddr (blocks t) (addrs t k) ((unat off + unat (0 :: u32)) div 4096)"
      using t w by (simp add: walked_def)
    ultimately have "runs A (iread_loop k off b len 0) (\<lambda>xs u.
        xs = take (unat len) (drop (unat off + unat (0 :: u32)) (file_bytes t k)) \<and>
        evolves k t u \<and> file_bytes u k = file_bytes t k \<and> covered u k \<and> (full t k \<longrightarrow> dev_step t (blocks t) u)) t"
      using assms(4,5) rt tf(6) by (intro iread_loop_runs [OF tf(4,5,2)]) (simp, simp, fastforce)
    then show "runs A (iread_loop k off b len 0) (\<lambda>xs t.
        xs = take (unat len) (drop (unat off) (file_bytes s k)) \<and> file_bytes t k = file_bytes s k \<and>
        covered t k \<and> evolves k s t \<and> (full s k \<and> unat off \<le> fsize s k \<longrightarrow> dev_step s (blocks s) t)) t"
      by (rule runs_mono) (use tf evolves_trans [OF tf(3)] dev_step_full [OF ft] dev_step_same [OF ft] in auto)
  qed simp
qed

lemma iread_runs:
  assumes "fs_ok s" "good_inode s k" "covered s k"
  shows "runs {Abort} (iread k off len) (\<lambda>xs t.
    xs = take (unat len) (drop (unat off) (file_bytes s k)) \<and> file_bytes t k = file_bytes s k \<and>
    covered t k \<and> evolves k s t) s"
  by (rule runs_mono [OF iread_in [OF assms, of "{Abort}"]]) auto

subsection \<open>Writing\<close>

lemma put_span_nth:
  "length B = 4096 \<Longrightarrow> c + length xs \<le> 4096 \<Longrightarrow> i < 4096 \<Longrightarrow>
   put_at c xs B ! i = (if c \<le> i \<and> i < c + length xs then xs ! (i - c) else B ! i)"
  by (simp add: put_at_nth)

lemma file_ok_same:
  assumes "sb t = sb s" "used t = used s" "file_ok s ad"
    and ba: "\<forall>j < 1036. baddr (blocks t) ad j = baddr (blocks s) ad j"
  shows "file_ok t ad" "owns (blocks t) ad = owns (blocks s) ad"
proof -
  show own: "owns (blocks t) ad = owns (blocks s) ad" using ba by (auto simp: owns_def)
  show "file_ok t ad"
    unfolding file_ok_def own
  proof (intro conjI allI ballI impI)
    show "length ad = 13" using assms(3) by (simp add: file_ok_def)
    show "data_block t b" if "b \<in> owns (blocks s) ad" for b
      using that assms(1-3) meta_frame [of t s] by (simp add: file_ok_def data_block_def)
    show "i = j" if "i < 1036" "j < 1036"
      "baddr (blocks t) ad i = baddr (blocks t) ad j \<and> baddr (blocks t) ad i \<noteq> 0" for i j
    proof -
      have "baddr (blocks s) ad i = baddr (blocks s) ad j \<and> baddr (blocks s) ad i \<noteq> 0" using that ba by auto
      then show ?thesis using assms(3) that(1,2) unfolding file_ok_def by blast
    qed
    show "ad ! 12 = 0" if "j < 1036" "baddr (blocks t) ad j = ad ! 12" for j
      using assms(3) that ba unfolding file_ok_def by auto
  qed
qed

text \<open>Writing bytes into block \<open>q\<close> of a file.\<close>

lemma data_write:
  assumes "fs_ok s" "good_inode s k" "q < 1036" "b = baddr (blocks s) (addrs s k) q" "b \<noteq> 0"
    and "c + length xs \<le> 4096" "dev_step s ((blocks s)(b := put_at c xs (blocks s b))) t"
  shows "evolves k s t" "inodes t = inodes s"
    and "\<forall>j < 1036. baddr (blocks t) (addrs s k) j = baddr (blocks s) (addrs s k) j"
    and "p div 4096 < 1036 \<Longrightarrow> baddr (blocks s) (addrs s k) (p div 4096) \<noteq> 0 \<Longrightarrow>
      byte_at t k p = (if 4096 * q + c \<le> p \<and> p < 4096 * q + c + length xs
        then xs ! (p - (4096 * q + c)) else byte_at s k p)"
proof -
  have f: "file_ok s (addrs s k)" using assms(2) by (simp add: good_inode_def)
  have nz: "baddr (blocks s) (addrs s k) q \<noteq> 0" using assms(4,5) by simp
  have db: "data_block s b" using owned_block(1) [OF f assms(3) nz] assms(4) by simp
  have ne: "b \<noteq> addrs s k ! 12" "b \<noteq> bitmap (sb s)"
    using f nz assms(3,4) bitmap_not_data [of s] db unfolding file_ok_def by metis+
  note fr = dev_step_frame [OF assms(7)]
  show inod: "inodes t = inodes s" using fr by simp
  show ba: "\<forall>j < 1036. baddr (blocks t) (addrs s k) j = baddr (blocks s) (addrs s k) j"
    using fr ne by (auto simp: baddr_def)
  have bm: "((blocks s)(b := put_at c xs (blocks s b))) (bitmap (sb s)) = blocks s (bitmap (sb s))" using ne by simp
  have ok: "fs_ok t" "used t = used s"
    using dev_step_ok [OF assms(1,7) bm] dev_step_used [OF assms(7) bm] by auto
  have sbt: "sb t = sb s" using fr by simp
  note sm = file_ok_same [OF sbt ok(2) f ba]
  note own = sm(2)
  have "file_ok t (addrs s k)" by (rule sm(1))
  then have "good_inode t k" using assms(2) fr by (simp add: good_inode_def)
  moreover have "b \<in> owns (blocks s) (addrs s k)" using nz assms(3,4) by (auto simp: owns_def)
  moreover have "\<exists>ad m. inodes t = (inodes s)[k := (inodes s ! k)\<lparr>dinode := (dinode (inodes s ! k))\<lparr>di_addrs := ad, di_size := m\<rparr>\<rparr>]"
    using evolves_refl [OF assms(1,2)] inod by (simp add: evolves_def)
  ultimately show "evolves k s t" using ok fr own unfolding evolves_def by auto
  assume p: "p div 4096 < 1036" "baddr (blocks s) (addrs s k) (p div 4096) \<noteq> 0"
  have len: "length (blocks s b) = 4096" using db by (intro length_blocks [OF assms(1)]) (simp add: data_block_def)
  have bp: "baddr (blocks t) (addrs t k) (p div 4096) = baddr (blocks s) (addrs s k) (p div 4096)"
    using ba p inod by simp
  have pq: "p = 4096 * (p div 4096) + p mod 4096" by simp
  show "byte_at t k p = (if 4096 * q + c \<le> p \<and> p < 4096 * q + c + length xs
      then xs ! (p - (4096 * q + c)) else byte_at s k p)"
  proof (cases "p div 4096 = q")
    case True
    then have "byte_at t k p = put_at c xs (blocks s b) ! (p mod 4096)"
      using bp assms(4) fr by (simp add: byte_at_def)
    also have "\<dots> = (if c \<le> p mod 4096 \<and> p mod 4096 < c + length xs then xs ! (p mod 4096 - c) else blocks s b ! (p mod 4096))"
      by (rule put_span_nth [OF len assms(6)]) simp
    also have "c \<le> p mod 4096 \<longleftrightarrow> 4096 * q + c \<le> p" using pq True by linarith
    also have "p mod 4096 < c + length xs \<longleftrightarrow> p < 4096 * q + c + length xs" using pq True by linarith
    also have "p mod 4096 - c = p - (4096 * q + c)" using pq True by arith
    also have "blocks s b ! (p mod 4096) = byte_at s k p" using True assms(4) by (simp add: byte_at_def)
    finally show ?thesis .
  next
    case False
    then have "baddr (blocks s) (addrs s k) (p div 4096) \<noteq> b"
      using f p assms(3,4) unfolding file_ok_def by metis
    moreover have "\<not> (4096 * q + c \<le> p \<and> p < 4096 * q + c + length xs)"
      using False assms(6) by (auto simp: div_nat_eqI)
    moreover have "byte_at t k p = blocks t (baddr (blocks s) (addrs s k) (p div 4096)) ! (p mod 4096)"
      unfolding byte_at_def bp ..
    ultimately show ?thesis using fr by (auto simp: byte_at_def)
  qed
qed

text \<open>
  The bytes \<open>[P, P + |xs|)\<close> of the file have been written; \<open>wrote\<close> composes.
\<close>

definition wrote :: "nat \<Rightarrow> fs \<Rightarrow> nat \<Rightarrow> byte list \<Rightarrow> fs \<Rightarrow> bool" where
  "wrote k s P xs t \<longleftrightarrow> evolves k s t \<and> fsize t k = fsize s k \<and>
     (\<forall>p. p div 4096 < 1036 \<and> (baddr (blocks s) (addrs s k) (p div 4096) \<noteq> 0 \<or> P \<le> p \<and> p < P + length xs) \<longrightarrow>
        baddr (blocks t) (addrs t k) (p div 4096) \<noteq> 0 \<and>
        (P \<le> p \<and> p < P + length xs \<longrightarrow> byte_at t k p = xs ! (p - P)) \<and>
        (\<not> (P \<le> p \<and> p < P + length xs) \<longrightarrow> byte_at t k p = byte_at s k p))"

lemma wrote_app:
  assumes "wrote k s P xs t" "wrote k t (P + length xs) ys u"
  shows "wrote k s P (xs @ ys) u"
  unfolding wrote_def
proof (intro conjI allI impI)
  show "evolves k s u" "fsize u k = fsize s k"
    using assms evolves_trans unfolding wrote_def by auto
  fix p assume p: "p div 4096 < 1036 \<and>
    (baddr (blocks s) (addrs s k) (p div 4096) \<noteq> 0 \<or> P \<le> p \<and> p < P + length (xs @ ys))"
  have a: "p div 4096 < 1036 \<and> (baddr (blocks s) (addrs s k) (p div 4096) \<noteq> 0 \<or> P \<le> p \<and> p < P + length xs) \<Longrightarrow>
      baddr (blocks t) (addrs t k) (p div 4096) \<noteq> 0 \<and>
      (P \<le> p \<and> p < P + length xs \<longrightarrow> byte_at t k p = xs ! (p - P)) \<and>
      (\<not> (P \<le> p \<and> p < P + length xs) \<longrightarrow> byte_at t k p = byte_at s k p)"
    using assms(1) unfolding wrote_def by blast
  have b: "p div 4096 < 1036 \<and> (baddr (blocks t) (addrs t k) (p div 4096) \<noteq> 0 \<or>
        P + length xs \<le> p \<and> p < P + length xs + length ys) \<Longrightarrow>
      baddr (blocks u) (addrs u k) (p div 4096) \<noteq> 0 \<and>
      (P + length xs \<le> p \<and> p < P + length xs + length ys \<longrightarrow> byte_at u k p = ys ! (p - (P + length xs))) \<and>
      (\<not> (P + length xs \<le> p \<and> p < P + length xs + length ys) \<longrightarrow> byte_at u k p = byte_at t k p)"
    using assms(2) unfolding wrote_def by blast
  show "baddr (blocks u) (addrs u k) (p div 4096) \<noteq> 0"
    using a b p by (cases "p < P + length xs") auto
  show "byte_at u k p = (xs @ ys) ! (p - P)" if "P \<le> p \<and> p < P + length (xs @ ys)"
    using a b p that by (cases "p < P + length xs") (auto simp: nth_append add.commute)
  show "byte_at u k p = byte_at s k p" if "\<not> (P \<le> p \<and> p < P + length (xs @ ys))"
    using a b p that by auto
qed

lemma wrote_none: "fs_ok s \<Longrightarrow> good_inode s k \<Longrightarrow> wrote k s P [] s"
  using evolves_refl [of s k] unfolding wrote_def by auto

text \<open>The number of blocks that hold the bytes \<open>[P, P + n)\<close>.\<close>

definition span_blocks :: "nat \<Rightarrow> nat \<Rightarrow> nat" where
  "span_blocks P n = (if n = 0 then 0 else (P + n - 1) div 4096 + 1 - P div 4096)"

lemma span_blocks_step:
  assumes "0 < m" "m \<le> n" "P mod 4096 + m \<le> 4096" "m = n \<or> P mod 4096 + m = 4096"
  shows "span_blocks P n = Suc (span_blocks (P + m) (n - m))"
proof (cases "m = n")
  case True
  then have "(P + n - 1) div 4096 = P div 4096" using in_block(1) [of P "n - 1"] assms(1,3) by simp
  then show ?thesis using True assms(1) by (simp add: span_blocks_def)
next
  case False
  then have e: "P + m = 4096 * (P div 4096 + 1)" using assms(4) by (metis add.assoc add_mult_distrib2 mult.right_neutral mult_div_mod_eq)
  then have d: "(P + m) div 4096 = P div 4096 + 1" by simp
  have "(P + m) div 4096 \<le> (P + n - 1) div 4096" using False assms(2) by (intro div_le_mono) simp
  moreover have "P + m + (n - m) - 1 = P + n - 1" using assms(2) by simp
  moreover have "Suc (q - Suc p) = q - p" if "Suc p \<le> q" for p q :: nat using that by simp
  ultimately show ?thesis using False assms(1,2) d by (simp add: span_blocks_def Suc_diff_le)
qed

lemma iwrite_loop_runs:
  assumes "fs_ok s" "good_inode s k" "unat pos + unat len \<le> 4243456" "length buf = unat len"
    "A = {Abort} \<or> 2 * span_blocks (unat pos) (unat len) \<le> spare s"
  shows "runs A (iwrite_loop k pos buf len) (\<lambda>r t. r = pos + len \<and> wrote k s (unat pos) buf t \<and>
    spare s \<le> spare t + 2 * span_blocks (unat pos) (unat len)) s"
  using assms
proof (induction "unat len" arbitrary: pos buf len s rule: less_induct)
  case less
  let ?P = "unat pos"
  show ?case
  proof (cases "0 < len")
    case False
    then have "len = 0" by (simp add: word_neq_0_conv [symmetric])
    then show ?thesis using less.prems wrote_none [of s k ?P]
      by (subst runs_def, subst iwrite_loop.simps) simp
  next
    case True
    then have g: "0 < unat len" by (simp add: word_less_nat_alt)
    define c where "c = pos mod BLK_SIZE"
    define n where "n = (if BLK_SIZE - c > len then len else BLK_SIZE - c)"
    have c: "unat c = ?P mod 4096" by (simp add: unat_mod c_def)
    have sub: "unat (BLK_SIZE - c) = 4096 - ?P mod 4096"
    proof -
      have "c \<le> BLK_SIZE" using c by (simp add: word_le_nat_alt)
      then show ?thesis using c by (simp add: unat_sub)
    qed
    have n: "unat n = min (min (unat len) (4096 - ?P mod 4096)) (?P + unat len - ?P)"
      using sub by (simp add: n_def word_less_nat_alt)
    have n0: "0 < unat n" "unat n \<le> unat len" "?P mod 4096 + unat n \<le> 4096"
      using chunk_bounds [OF n g] g by simp_all
    have sp: "span_blocks ?P (unat len) = Suc (span_blocks (?P + unat n) (unat len - unat n))"
      by (rule span_blocks_step) (use n0 n in auto)
    have posn: "unat (pos + n) = ?P + unat n" using n0 less.prems(3) by (intro unat_add_u32) simp
    have lenn: "unat (len - n) = unat len - unat n" using n0 by (intro unat_sub) (simp add: word_le_nat_alt)
    have w: "unat (pos div BLK_SIZE) = ?P div 4096" "unat (pos div BLK_SIZE) < 1036"
      using less.prems(3) g by (auto simp: unat_div less_mult_imp_div_less)
    have step: "iwrite_loop k pos buf len s =
        bindS (iwalk k (pos div BLK_SIZE)) (\<lambda>block.
          thenS (on_dev (bwrite buf n block c)) (iwrite_loop k (pos + n) (drop (unat n) buf) (len - n))) s"
      unfolding n_def c_def by (subst iwrite_loop.simps) (simp only: Let_def if_P [OF True])
    have "runs A (bindS (iwalk k (pos div BLK_SIZE)) (\<lambda>block.
          thenS (on_dev (bwrite buf n block c)) (iwrite_loop k (pos + n) (drop (unat n) buf) (len - n))))
        (\<lambda>r t. r = pos + len \<and> wrote k s ?P buf t \<and> spare s \<le> spare t + 2 * span_blocks ?P (unat len)) s"
      unfolding runs_bind
    proof (rule runs_mono [OF iwalk_runs [OF less.prems(1,2) w(2), of A]])
      show "A = {Abort} \<or> 2 \<le> spare s" using less.prems(5) sp by auto
      fix b t assume t': "walked k (unat (pos div BLK_SIZE)) s b t \<and> spare s \<le> spare t + 2"
      then have t: "walked k (unat (pos div BLK_SIZE)) s b t" by blast
      have tok: "evolves k s t" "fs_ok t" "good_inode t k" "fsize t k = fsize s k"
        using t by (auto simp: walked_def evolves_def fsize_def isize_def)
      have b: "b = baddr (blocks t) (addrs t k) (?P div 4096)" "b \<noteq> 0"
        using t w(1) unfolding walked_def by auto
      have db: "data_block t b"
        unfolding b(1) using tok(3) w b by (intro owned_block(1)) (auto simp: good_inode_def)
      have d: "disk_ok (dev t)" "unat b < 524288"
        using tok(2) db by (auto simp: fs_ok_def data_block_def)
      let ?xs = "take (unat n) buf"
      have xs: "length ?xs = unat n" using n0 less.prems(4) by simp
      have "runs A (bwrite buf n b c) (\<lambda>_ e. wrote k s ?P ?xs (t\<lparr>dev := e\<rparr>) \<and> spare (t\<lparr>dev := e\<rparr>) = spare t) (dev t)"
      proof (rule runs_mono [OF bs.wr [OF d]])
        fix x e assume e: "disk_ok e \<and> blk e = (blk (dev t))(b := put_at (unat c) (take (unat n) buf) (blk (dev t) b))"
        let ?u = "t\<lparr>dev := e\<rparr>"
        have u: "dev_step t ((blocks t)(b := put_at (unat c) ?xs (blocks t b))) ?u"
          using e by (intro dev_stepI) (auto simp: blocks_def)
        have cl: "unat c + length ?xs \<le> 4096" using c xs n0 by simp
        note dw = data_write [OF tok(2,3) _ b(1,2) cl u]
        have q: "?P div 4096 < 1036" using w by simp
        have range: "4096 * (?P div 4096) + unat c = ?P" by (simp add: c)
        have bytes: "baddr (blocks ?u) (addrs ?u k) (p div 4096) \<noteq> 0 \<and>
            byte_at ?u k p = (if ?P \<le> p \<and> p < ?P + unat n then buf ! (p - ?P) else byte_at t k p)"
          if "p div 4096 < 1036" "baddr (blocks t) (addrs t k) (p div 4096) \<noteq> 0" for p
          using dw(4) [OF q that] dw(2,3) [OF q] that range xs by auto
        have inrange: "p div 4096 = ?P div 4096" if "?P \<le> p" "p < ?P + unat n" for p
          using in_block(1) [of ?P "p - ?P"] that n0(3) by simp
        have old: "baddr (blocks t) (addrs t k) (p div 4096) \<noteq> 0 \<and> byte_at t k p = byte_at s k p"
          if "p div 4096 < 1036" "baddr (blocks s) (addrs s k) (p div 4096) \<noteq> 0" for p
          by (rule walked_bytes [OF less.prems(2) t that])
        have fresh: "baddr (blocks t) (addrs t k) (p div 4096) \<noteq> 0" if "?P \<le> p" "p < ?P + unat n" for p
          using inrange [OF that] b by simp
        have fz: "fsize ?u k = fsize s k" using tok(4) dw(2) [OF q] by (simp add: fsize_def isize_def)
        have ev: "evolves k s ?u" by (rule evolves_trans [OF tok(1) dw(1) [OF q]])
        have "b \<noteq> bitmap (sb t)" using db bitmap_not_data [of t] by metis
        then have "used ?u = used t" by (intro dev_step_used [OF u]) simp
        then have su: "spare ?u = spare t" by (rule spare_same)
        show "wrote k s ?P ?xs ?u \<and> spare ?u = spare t"
          unfolding wrote_def xs
        proof (intro conjI allI impI ev fz su)
          fix p assume p: "p div 4096 < 1036 \<and>
            (baddr (blocks s) (addrs s k) (p div 4096) \<noteq> 0 \<or> ?P \<le> p \<and> p < ?P + unat n)"
          then have nz: "baddr (blocks t) (addrs t k) (p div 4096) \<noteq> 0" using old fresh by blast
          show "baddr (blocks ?u) (addrs ?u k) (p div 4096) \<noteq> 0" using bytes p nz by blast
          show "byte_at ?u k p = ?xs ! (p - ?P)" if "?P \<le> p \<and> p < ?P + unat n"
            using bytes [OF _ nz] p that by auto
          show "byte_at ?u k p = byte_at s k p" if "\<not> (?P \<le> p \<and> p < ?P + unat n)"
            using bytes [OF _ nz] old p that by auto
        qed
      qed (use c n0 less.prems(4) in auto)
      then have "runs A (on_dev (bwrite buf n b c)) (\<lambda>_ u. wrote k s ?P ?xs u \<and> spare u = spare t) t" by simp
      then show "runs A (thenS (on_dev (bwrite buf n b c)) (iwrite_loop k (pos + n) (drop (unat n) buf) (len - n)))
          (\<lambda>r t. r = pos + len \<and> wrote k s ?P buf t \<and> spare s \<le> spare t + 2 * span_blocks ?P (unat len)) t"
        unfolding runs_simps
      proof (rule runs_mono)
        fix x u assume u': "wrote k s ?P ?xs u \<and> spare u = spare t"
        then have u: "wrote k s ?P ?xs u" by blast
        then have uok: "fs_ok u" "good_inode u k" by (auto simp: wrote_def evolves_def)
        have "runs A (iwrite_loop k (pos + n) (drop (unat n) buf) (len - n))
            (\<lambda>r v. r = (pos + n) + (len - n) \<and> wrote k u (unat (pos + n)) (drop (unat n) buf) v \<and>
              spare u \<le> spare v + 2 * span_blocks (unat (pos + n)) (unat (len - n))) u"
          by (rule less.hyps) (use uok u' t' sp less.prems lenn posn n0 in auto)
        then show "runs A (iwrite_loop k (pos + n) (drop (unat n) buf) (len - n))
            (\<lambda>r t. r = pos + len \<and> wrote k s ?P buf t \<and> spare s \<le> spare t + 2 * span_blocks ?P (unat len)) u"
        proof (rule runs_mono)
          fix r v assume v: "r = (pos + n) + (len - n) \<and> wrote k u (unat (pos + n)) (drop (unat n) buf) v \<and>
              spare u \<le> spare v + 2 * span_blocks (unat (pos + n)) (unat (len - n))"
          then have "wrote k u (?P + length ?xs) (drop (unat n) buf) v" unfolding posn xs by blast
          from wrote_app [OF u this] show "r = pos + len \<and> wrote k s ?P buf v \<and> spare s \<le> spare v + 2 * span_blocks ?P (unat len)"
            using v u' t' sp posn lenn by simp
        qed simp
      qed simp
    qed simp
    then show ?thesis by (simp only: runs_def step)
  qed
qed

text \<open>The new size goes to the inode in memory and on the disk.\<close>

lemma set_size_runs:
  assumes "fs_ok s" "good_inode s k"
  shows "runs {} (thenS (set_inode k (\<lambda>ip. ip\<lparr>dinode := (dinode ip)\<lparr>di_size := n\<rparr>\<rparr>)) (iupdate k))
    (\<lambda>_ t. evolves k s t \<and> fsize t k = unat n \<and>
      (\<forall>j < 1036. baddr (blocks t) (addrs t k) j = baddr (blocks s) (addrs s k) j) \<and>
      (\<forall>b. data_block s b \<longrightarrow> blocks t b = blocks s b) \<and> spare t = spare s) s"
proof -
  have k: "k < length (inodes s)" "unat (i_no (inodes s ! k)) < unat (inum (sb s))"
    "length (addrs s k) = 13" "file_ok s (addrs s k)"
    using assms by (auto simp: good_inode_def file_ok_def fs_ok_def)
  let ?ip = "(inodes s ! k)\<lparr>dinode := (dinode (inodes s ! k))\<lparr>di_size := n\<rparr>\<rparr>"
  let ?s = "s\<lparr>inodes := (inodes s)[k := ?ip]\<rparr>"
  have s: "fs_ok ?s" "blocks ?s = blocks s" "used ?s = used s" "sb ?s = sb s"
    using assms(1) by (auto simp: fs_ok_def used_def meta_def blocks_def fun_eq_iff)
  have ino: "unat (i_no ?ip) < unat (inum (sb ?s))" "length (di_addrs (dinode ?ip)) = 13" using k by simp_all
  have "runs {} (diwrite (dinode ?ip) (i_no ?ip)) (\<lambda>_ t. evolves k s t \<and> fsize t k = unat n \<and>
      (\<forall>j < 1036. baddr (blocks t) (addrs t k) j = baddr (blocks s) (addrs s k) j) \<and>
      (\<forall>b. data_block s b \<longrightarrow> blocks t b = blocks s b) \<and> spare t = spare s) ?s"
  proof (rule runs_mono [OF diwrite_runs [OF s(1) ino]])
    fix x t assume t: "dev_step ?s (dino_put ?s (i_no ?ip) (dinode ?ip)) t"
    note fr = dev_step_frame [OF t]
    have place: "meta s (unat (I2BLKNO (i_no ?ip) (sb s)))"
      using inode_place(4) [OF s(1) ino(1)] s(4) meta_frame [of ?s s] by simp
    have keep: "blocks t b = blocks s b" if "data_block s b" for b
      using that place fr s(2,4) by (auto simp: dino_put_def data_block_def)
    have ok: "fs_ok t" "used t = used s" using diwrite_ok [OF s(1) ino(1) t] s(3) by auto
    have ad: "addrs t k = addrs s k" using fr k by simp
    have sbt: "sb t = sb s" using fr by simp
    have ba: "\<forall>j < 1036. baddr (blocks t) (addrs s k) j = baddr (blocks s) (addrs s k) j"
      using keep owned_block(2) [OF k(4)] by (auto simp: baddr_def)
    note sm = file_ok_same [OF sbt ok(2) k(4) ba]
    have "i_no (inodes t ! k) = i_no (inodes s ! k)" using fr k(1) by simp
    then have "good_inode t k" using assms(2) sm(1) sbt ad by (simp add: good_inode_def)
    moreover have "\<exists>ad m. inodes t = (inodes s)[k := (inodes s ! k)\<lparr>dinode := (dinode (inodes s ! k))\<lparr>di_addrs := ad, di_size := m\<rparr>\<rparr>]"
      using fr by (intro exI [of _ "addrs s k"] exI [of _ n]) simp
    ultimately have "evolves k s t" using ok fr sm(2) keep ad unfolding evolves_def by auto
    then show "evolves k s t \<and> fsize t k = unat n \<and>
      (\<forall>j < 1036. baddr (blocks t) (addrs t k) j = baddr (blocks s) (addrs s k) j) \<and>
      (\<forall>b. data_block s b \<longrightarrow> blocks t b = blocks s b) \<and> spare t = spare s"
      using spare_same [OF ok(2)] ba keep ad fr k(1) by (simp add: fsize_def isize_def)
  qed simp
  then show ?thesis using k(1) by (simp add: iupdate_def)
qed

lemma file_bytes_cut:
  assumes "off \<le> fsize s k" "fsize t k = max (fsize s k) (off + length buf)"
    and "\<And>p. p < fsize t k \<Longrightarrow> byte_at t k p = (if off \<le> p \<and> p < off + length buf then buf ! (p - off) else byte_at s k p)"
  shows "file_bytes t k = take off (file_bytes s k) @ buf @ drop (off + length buf) (file_bytes s k)"
proof (rule nth_equalityI)
  show "length (file_bytes t k) = length (take off (file_bytes s k) @ buf @ drop (off + length buf) (file_bytes s k))"
    using assms(1,2) by (auto simp: max_def)
  fix p assume "p < length (file_bytes t k)"
  then have p: "p < fsize t k" by simp
  then have l: "file_bytes t k ! p = byte_at t k p" by (simp add: file_bytes_def)
  show "file_bytes t k ! p = (take off (file_bytes s k) @ buf @ drop (off + length buf) (file_bytes s k)) ! p"
    unfolding l assms(3) [OF p] using p assms(1,2)
    by (auto simp: nth_append file_bytes_def max_def split: if_splits)
qed

lemma iwrite_runs:
  assumes "fs_ok s" "good_inode s k" "covered s k" "unat off \<le> fsize s k"
    and "unat off + unat len \<le> 4243456" "length buf = unat len"
    and "A = {Abort} \<or> 2 * span_blocks (unat off) (unat len) \<le> spare s"
  shows "runs A (iwrite k off buf len) (\<lambda>r t. r = len \<and>
    file_bytes t k = take (unat off) (file_bytes s k) @ buf @ drop (unat off + unat len) (file_bytes s k) \<and>
    covered t k \<and> evolves k s t \<and> spare s \<le> spare t + 2 * span_blocks (unat off) (unat len)) s"
proof -
  let ?P = "unat off"
  have le: "\<not> off > isize k s" using assms(4) by (simp add: fsize_def word_less_nat_alt)
  have end': "unat (off + len) = ?P + unat len" using assms(5) by (intro unat_add_u32) simp
  let ?n = "fsize s k"
  have bytes: "file_bytes u k = take ?P (file_bytes s k) @ buf @ drop (?P + unat len) (file_bytes s k) \<and> covered u k"
    if t: "wrote k s ?P buf t" and fz: "fsize u k = max ?n (?P + unat len)"
      and u: "\<And>p. p div 4096 < 1036 \<Longrightarrow> baddr (blocks t) (addrs t k) (p div 4096) \<noteq> 0 \<Longrightarrow>
        baddr (blocks u) (addrs u k) (p div 4096) \<noteq> 0 \<and> byte_at u k p = byte_at t k p" for t u
  proof -
    have big: "fsize u k \<le> 4243456" using fz assms(3,5) by (simp add: covered_def)
    have at: "baddr (blocks u) (addrs u k) (p div 4096) \<noteq> 0 \<and>
        byte_at u k p = (if ?P \<le> p \<and> p < ?P + length buf then buf ! (p - ?P) else byte_at s k p)"
      if p: "p < fsize u k" for p
    proof -
      have q: "p div 4096 < 1036" using p big by (simp add: less_mult_imp_div_less)
      have "baddr (blocks s) (addrs s k) (p div 4096) \<noteq> 0 \<or> ?P \<le> p \<and> p < ?P + length buf"
        using p fz covered_block [OF assms(3), of p] assms(4,6) by (cases "p < ?n") auto
      then show ?thesis using t q u [OF q] unfolding wrote_def by auto
    qed
    have "file_bytes u k = take ?P (file_bytes s k) @ buf @ drop (?P + length buf) (file_bytes s k)"
      by (rule file_bytes_cut [OF assms(4)]) (use fz assms(6) at in auto)
    moreover have "baddr (blocks u) (addrs u k) j \<noteq> 0" if "4096 * j < fsize u k" for j
      using at [OF that] by simp
    ultimately show ?thesis using big assms(6) by (simp add: covered_def)
  qed
  have loop: "runs A (iwrite_loop k off buf len) (\<lambda>r t. r = off + len \<and> wrote k s ?P buf t \<and>
      spare s \<le> spare t + 2 * span_blocks ?P (unat len)) s"
    by (rule iwrite_loop_runs [OF assms(1,2,5-7)])
  have "runs A (bindS (iwrite_loop k off buf len) (\<lambda>pos. bindS (getS (isize k)) (\<lambda>size'.
      thenS (if pos > size'
             then thenS (set_inode k (\<lambda>ip. ip\<lparr>dinode := (dinode ip)\<lparr>di_size := pos\<rparr>\<rparr>)) (iupdate k)
             else retS ()) (retS (pos - off)))))
    (\<lambda>r t. r = len \<and>
      file_bytes t k = take ?P (file_bytes s k) @ buf @ drop (?P + unat len) (file_bytes s k) \<and>
      covered t k \<and> evolves k s t \<and> spare s \<le> spare t + 2 * span_blocks ?P (unat len)) s"
    unfolding runs_bind
  proof (rule runs_mono [OF loop])
    fix r t assume "r = off + len \<and> wrote k s ?P buf t \<and> spare s \<le> spare t + 2 * span_blocks ?P (unat len)"
    then have r: "r = off + len" and t: "wrote k s ?P buf t" and sp: "spare s \<le> spare t + 2 * span_blocks ?P (unat len)" by auto
    have ev: "evolves k s t" "fsize t k = ?n" "fs_ok t" "good_inode t k"
      using t by (auto simp: wrote_def evolves_def)
    show "runs A (getS (isize k)) (\<lambda>x. runs A (thenS (if r > x
             then thenS (set_inode k (\<lambda>ip. ip\<lparr>dinode := (dinode ip)\<lparr>di_size := r\<rparr>\<rparr>)) (iupdate k)
             else retS ()) (retS (r - off)))
        (\<lambda>r t. r = len \<and>
          file_bytes t k = take ?P (file_bytes s k) @ buf @ drop (?P + unat len) (file_bytes s k) \<and>
          covered t k \<and> evolves k s t \<and> spare s \<le> spare t + 2 * span_blocks ?P (unat len))) t"
    proof (cases "r > isize k t")
      case False
      then have "fsize t k = max ?n (?P + unat len)"
        using ev(2) end' r by (simp add: fsize_def word_less_nat_alt)
      from bytes [OF t this] show ?thesis using False r ev(1) sp by simp
    next
      case True
      then have gt: "?n < ?P + unat len" using ev(2) end' r by (simp add: fsize_def word_less_nat_alt)
      have "runs A (thenS (set_inode k (\<lambda>ip. ip\<lparr>dinode := (dinode ip)\<lparr>di_size := r\<rparr>\<rparr>)) (iupdate k))
        (\<lambda>_ u. file_bytes u k = take ?P (file_bytes s k) @ buf @ drop (?P + unat len) (file_bytes s k) \<and>
          covered u k \<and> evolves k s u \<and> spare s \<le> spare u + 2 * span_blocks ?P (unat len)) t"
      proof (rule runs_mono [OF set_size_runs [OF ev(3,4), of r]])
        fix x u assume u: "evolves k t u \<and> fsize u k = unat r \<and>
          (\<forall>j < 1036. baddr (blocks u) (addrs u k) j = baddr (blocks t) (addrs t k) j) \<and>
          (\<forall>b. data_block t b \<longrightarrow> blocks u b = blocks t b) \<and> spare u = spare t"
        have "fsize u k = max ?n (?P + unat len)" using u r end' gt by simp
        moreover have "baddr (blocks u) (addrs u k) (p div 4096) \<noteq> 0 \<and> byte_at u k p = byte_at t k p"
          if "p div 4096 < 1036" "baddr (blocks t) (addrs t k) (p div 4096) \<noteq> 0" for p
          using that u owned_block(1) [OF _ that] ev(4) by (simp add: byte_at_def good_inode_def)
        ultimately show "file_bytes u k = take ?P (file_bytes s k) @ buf @ drop (?P + unat len) (file_bytes s k) \<and>
          covered u k \<and> evolves k s u \<and> spare s \<le> spare u + 2 * span_blocks ?P (unat len)"
          using bytes [OF t] evolves_trans [OF ev(1)] u sp by (metis (no_types, lifting))
      qed simp
      then show ?thesis using True r by simp
    qed
  qed simp
  then show ?thesis by (simp only: runs_def iwrite_def if_not_P [OF le])
qed

lemma evolves_file:
  assumes "evolves k s t" "j \<noteq> k" "good_inode s j" "covered s j"
    "owns (blocks s) (addrs s j) \<inter> owns (blocks s) (addrs s k) = {}"
  shows "file_bytes t j = file_bytes s j" "inodes t ! j = inodes s ! j"
proof -
  have f: "file_ok s (addrs s j)" using assms(3) by (simp add: good_inode_def)
  note o = evolves_other [OF assms(1,2) f assms(5)]
  show i: "inodes t ! j = inodes s ! j" by (rule o(1))
  have fz: "fsize t j = fsize s j" by (simp add: fsize_def isize_def i)
  show "file_bytes t j = file_bytes s j"
  proof (rule same_file(1) [OF assms(4) fz])
    fix p assume p: "p div 4096 < 1036" "baddr (blocks s) (addrs s j) (p div 4096) \<noteq> 0"
    have ba: "baddr (blocks t) (addrs t j) (p div 4096) = baddr (blocks s) (addrs s j) (p div 4096)"
      using o(2) p(1) i by simp
    have own: "baddr (blocks s) (addrs s j) (p div 4096) \<in> owns (blocks s) (addrs s j)"
      using p unfolding owns_def by blast
    then have "blocks t (baddr (blocks s) (addrs s j) (p div 4096)) = blocks s (baddr (blocks s) (addrs s j) (p div 4096))"
      using o(3) by blast
    then show "baddr (blocks t) (addrs t j) (p div 4096) \<noteq> 0 \<and> byte_at t j p = byte_at s j p"
      using p(2) by (simp add: byte_at_def ba)
  qed
qed

section \<open>The data path\<close>

text \<open>
  C11. Reading: what \<open>iread(inode, off, buf, len)\<close> puts into the buffer is the
  part of the file from \<open>off\<close> on, at most \<open>len\<close> bytes of it, and less only at the end of the
  file. The contents of the file have not changed, and no other file has, though blocks may
  have been added. It returns if \<open>off\<close> is not past the end and the block after the last byte is there or two
  blocks are free; otherwise it may abort.
\<close>
theorem iread_reads:
  assumes "fs_ok s" "good_inode s k" "covered s k"
  shows "runs (if unat off \<le> fsize s k \<and> room s k then {} else {Abort}) (iread k off len) (\<lambda>xs t.
    xs = take (unat len) (drop (unat off) (file_bytes s k)) \<and> file_bytes t k = file_bytes s k \<and>
    covered t k \<and> evolves k s t) s"
  by (rule runs_mono [OF iread_in [OF assms, where A = "if unat off \<le> fsize s k \<and> room s k then {} else {Abort}"]]) auto

text \<open>
  C10. Writing: \<open>iwrite(inode, off, buf, len)\<close> past the end of the file is refused with -1 and
  nothing changes. Otherwise all \<open>len\<close> bytes are written, the file is
  what an array of bytes would be after the overwrite (extended when the end was passed), and
  it still has a block for every byte. It returns if two blocks are free for each block of the range (one may be the block
  of addresses); otherwise it may abort.
\<close>
theorem iwrite_writes:
  assumes "fs_ok s" "good_inode s k" "covered s k" "unat off + unat len \<le> 4243456" "length buf = unat len"
  shows "if fsize s k < unat off then iwrite k off buf len s = Inr (- 1, s)
    else runs (if 2 * span_blocks (unat off) (unat len) \<le> spare s then {} else {Abort}) (iwrite k off buf len) (\<lambda>r t. r = len \<and>
      file_bytes t k = take (unat off) (file_bytes s k) @ buf @ drop (unat off + unat len) (file_bytes s k) \<and>
      covered t k \<and> evolves k s t) s"
proof (cases "fsize s k < unat off")
  case True
  then show ?thesis by (simp add: iwrite_def fsize_def word_less_nat_alt)
next
  case False
  have "runs (if 2 * span_blocks (unat off) (unat len) \<le> spare s then {} else {Abort}) (iwrite k off buf len) (\<lambda>r t. r = len \<and>
      file_bytes t k = take (unat off) (file_bytes s k) @ buf @ drop (unat off + unat len) (file_bytes s k) \<and>
      covered t k \<and> evolves k s t) s"
    by (rule runs_mono [OF iwrite_runs [OF assms(1-3) _ assms(4,5),
        where A = "if 2 * span_blocks (unat off) (unat len) \<le> spare s then {} else {Abort}"]]) (use False in auto)
  then show ?thesis using False by simp
qed

text \<open>
  C12. Reading back: after a write inside or at the end of a file, reading the same range
  returns the bytes that were written. Both calls return if two blocks are free for each block of the range and two more, and the
  file does not reach the largest size.
\<close>
theorem iread_iwrite:
  assumes "fs_ok s" "good_inode s k" "covered s k" "unat off \<le> fsize s k"
    "unat off + unat len \<le> 4243456" "length buf = unat len"
  shows "runs (if 2 * span_blocks (unat off) (unat len) + 2 \<le> spare s \<and> max (fsize s k) (unat off + unat len) < 4243456
      then {} else {Abort})
    (bindS (iwrite k off buf len) (\<lambda>_. iread k off len)) (\<lambda>xs t. xs = buf) s"
proof -
  define A where "A = (if 2 * span_blocks (unat off) (unat len) + 2 \<le> spare s \<and> max (fsize s k) (unat off + unat len) < 4243456
      then {} else {Abort})"
  have "runs A (bindS (iwrite k off buf len) (\<lambda>_. iread k off len)) (\<lambda>xs t. xs = buf) s"
    unfolding runs_bind
  proof (rule runs_mono [OF iwrite_runs [OF assms, of A]])
    show "A = {Abort} \<or> 2 * span_blocks (unat off) (unat len) \<le> spare s" by (simp add: A_def)
    fix r t assume t: "r = len \<and>
      file_bytes t k = take (unat off) (file_bytes s k) @ buf @ drop (unat off + unat len) (file_bytes s k) \<and>
      covered t k \<and> evolves k s t \<and> spare s \<le> spare t + 2 * span_blocks (unat off) (unat len)"
    then have ok: "fs_ok t" "good_inode t k" "covered t k" by (auto simp: evolves_def)
    have "length (file_bytes t k) = max (fsize s k) (unat off + unat len)" using t assms(4,6) by simp
    then have fz: "fsize t k = max (fsize s k) (unat off + unat len)" by simp
    have "A = {Abort} \<or> room t k" "unat off \<le> fsize t k \<or> A = {Abort}" using t fz assms(4) by (auto simp: A_def room_def)
    from iread_in [OF ok this] show "runs A (iread k off len) (\<lambda>xs t. xs = buf) t"
      by (rule runs_mono) (use t assms(4,6) in simp_all)
  qed simp
  then show ?thesis unfolding A_def .
qed

text \<open>
  C16. Isolation: a write to one file changes neither the inode nor the contents of another open
  file, when no block belongs to both. It returns if two blocks are free for each block of the range.
\<close>
theorem iwrite_isolated:
  assumes "fs_ok s" "good_inode s k" "covered s k" "unat off \<le> fsize s k"
    "unat off + unat len \<le> 4243456" "length buf = unat len"
    "j \<noteq> k" "good_inode s j" "covered s j" "owns (blocks s) (addrs s j) \<inter> owns (blocks s) (addrs s k) = {}"
  shows "runs (if 2 * span_blocks (unat off) (unat len) \<le> spare s then {} else {Abort}) (iwrite k off buf len)
    (\<lambda>_ t. file_bytes t j = file_bytes s j \<and> inodes t ! j = inodes s ! j) s"
  by (rule runs_mono [OF iwrite_runs [OF assms(1-6), where A = "if 2 * span_blocks (unat off) (unat len) \<le> spare s then {} else {Abort}"]])
    (use evolves_file [OF _ assms(7-10)] in auto)

text \<open>The inode in entry 0 of the small file system is an empty file.\<close>

lemma small_empty_file: "k < 128 \<Longrightarrow> good_inode small_fs k \<and> covered small_fs k \<and> fsize small_fs k = 0 \<and>
    owns (blocks small_fs) (addrs small_fs k) = {}"
proof -
  assume k: "k < 128"
  then have ad: "addrs small_fs k = replicate 13 0" "di_size (dinode (inodes small_fs ! k)) = 0" "i_no (inodes small_fs ! k) = 0"
    by (simp_all add: small_fs_def)
  have ba: "baddr B (replicate 13 0) j = 0" for B j by (cases "j < 12") (auto simp: baddr_def)
  have own: "owns B (replicate 13 0) = {}" for B using ba by (auto simp: owns_def)
  have "file_ok small_fs (replicate 13 0)" using own by (simp add: file_ok_def ba)
  then show ?thesis
    using k ad own by (simp add: good_inode_def covered_def fsize_def isize_def small_sb)
qed

text \<open>It has room: the blocks from 65 to 95 are free, and more.\<close>

lemma small_room: "31 \<le> spare small_fs" "room small_fs 0" "span_blocks 0 3 = 1"
proof -
  have "\<not> used small_fs b" if "b \<in> {65 ..< 96}" for b
  proof -
    have "b div 32 = 2" "b \<noteq> 64" using that by (auto intro!: div_nat_eqI)
    then have "\<not> 32 dvd b" using dvd_mult_div_cancel [of 32 b] by auto
    then show ?thesis using that small_used [of b] by simp
  qed
  then have "{65 ..< 96} \<subseteq> {b. b < 32768 \<and> \<not> used small_fs b}" by auto
  from card_mono [OF _ this] show n: "31 \<le> spare small_fs" by (simp add: spare_def)
  show "room small_fs 0" using n small_empty_file [of 0] by (simp add: room_def)
  show "span_blocks 0 3 = 1" by (simp add: span_blocks_def)
qed

theorem iread_reads_witness:
  "runs {} (iread 0 0 32) (\<lambda>xs t.
    xs = take (unat (32 :: u32)) (drop (unat (0 :: u32)) (file_bytes small_fs 0)) \<and> file_bytes t 0 = file_bytes small_fs 0 \<and>
    covered t 0 \<and> evolves 0 small_fs t) small_fs"
  using iread_reads [OF small_fs_ok, of 0 0 32] small_empty_file [of 0] small_room by simp

theorem iwrite_writes_witness:
  "runs {} (iwrite 0 0 [1, 2, 3] 3) (\<lambda>r t. r = 3 \<and> file_bytes t 0 = [1, 2, 3] \<and> covered t 0 \<and> evolves 0 small_fs t) small_fs"
proof -
  have "file_bytes small_fs 0 = []" using small_empty_file [of 0] by (simp add: file_bytes_def)
  then show ?thesis
    using iwrite_writes [OF small_fs_ok, of 0 0 3 "[1, 2, 3]"] small_empty_file [of 0] small_room by simp
qed

theorem iread_iwrite_witness:
  "runs {} (bindS (iwrite 0 0 [1, 2, 3] 3) (\<lambda>_. iread 0 0 3)) (\<lambda>xs t. xs = [1, 2, 3]) small_fs"
  using iread_iwrite [OF small_fs_ok, of 0 0 3 "[1, 2, 3]"] small_empty_file [of 0] small_room by (simp del: runs_bind)

theorem iwrite_isolated_witness:
  "runs {} (iwrite 0 0 [1, 2, 3] 3)
    (\<lambda>_ t. file_bytes t 1 = file_bytes small_fs 1 \<and> inodes t ! 1 = inodes small_fs ! 1) small_fs"
  using iwrite_isolated [OF small_fs_ok, of 0 0 3 "[1, 2, 3]" 1] small_empty_file [of 0] small_empty_file [of 1] small_room by simp

end
