(* ===== verification/Segments.thy ===== *)
theory Segments
  imports Prelude
begin

text \<open>
  The segments: the descriptors of \<open>x86/memory.h\<close> and the table that \<open>init_gdt\<close> of \<open>kernel/src/vme.c\<close> gives the
  processor. The bit fields of a descriptor have their widths. The kernel runs with these segments from its first
  statement on, and nothing changes them later, so they are no part of the state of the other theories.
\<close>

unbundle bit_operations_syntax

record SegDesc =
  lim_15_0 :: "16 word"
  base_15_0 :: "16 word"
  base_23_16 :: "8 word"
  seg_type :: "4 word"
  seg_s :: "1 word"
  seg_dpl :: "2 word"
  seg_p :: "1 word"
  lim_19_16 :: "4 word"
  seg_avl :: "1 word"
  seg_l :: "1 word"
  seg_db :: "1 word"
  seg_g :: "1 word"
  base_31_24 :: "8 word"

definition SEG16 :: "u32 \<Rightarrow> u32 \<Rightarrow> u32 \<Rightarrow> u32 \<Rightarrow> SegDesc" where
  "SEG16 type base lim dpl =
     \<lparr>lim_15_0 = ucast (lim AND 0xffff), base_15_0 = ucast (base AND 0xffff),
      base_23_16 = ucast (drop_bit 16 base AND 0xff), seg_type = ucast type, seg_s = 0, seg_dpl = ucast dpl, seg_p = 1,
      lim_19_16 = ucast (drop_bit 16 lim), seg_avl = 0, seg_l = 0, seg_db = 1, seg_g = 0,
      base_31_24 = ucast (drop_bit 24 base)\<rparr>"

definition SEG32 :: "u32 \<Rightarrow> u32 \<Rightarrow> u32 \<Rightarrow> u32 \<Rightarrow> SegDesc" where
  "SEG32 type base lim dpl =
     \<lparr>lim_15_0 = ucast (drop_bit 12 lim AND 0xffff), base_15_0 = ucast (base AND 0xffff),
      base_23_16 = ucast (drop_bit 16 base AND 0xff), seg_type = ucast type, seg_s = 1, seg_dpl = ucast dpl, seg_p = 1,
      lim_19_16 = ucast (drop_bit 28 lim), seg_avl = 0, seg_l = 0, seg_db = 1, seg_g = 1,
      base_31_24 = ucast (drop_bit 24 base)\<rparr>"

definition KSEL :: "u32 \<Rightarrow> u32" where
  "KSEL seg = push_bit 3 seg OR 0"

text \<open>The six entries of \<open>gdt\<close>, and the selector for \<open>ltr\<close>. \<open>tss\<close> is the address of the task state segment of 104 bytes.\<close>

definition init_gdt :: "u32 \<Rightarrow> SegDesc option list \<times> u32" where
  "init_gdt tss =
     ([None,
       Some (SEG32 (0x8 OR 0x2) 0 0xffffffff 0x0),
       Some (SEG32 0x2 0 0xffffffff 0x0),
       Some (SEG32 (0x8 OR 0x2) 0 0xffffffff 0x3),
       Some (SEG32 0x2 0 0xffffffff 0x3),
       Some (SEG16 0x9 tss (104 - 1) 0x0)],
      KSEL 5)"

section \<open>What the processor makes of a descriptor\<close>

definition seg_base :: "SegDesc \<Rightarrow> u32" where
  "seg_base d = push_bit 24 (ucast (base_31_24 d)) OR push_bit 16 (ucast (base_23_16 d)) OR ucast (base_15_0 d)"

definition seg_limit :: "SegDesc \<Rightarrow> u32" where
  "seg_limit d =
     (let l = push_bit 16 (ucast (lim_19_16 d)) OR ucast (lim_15_0 d)
      in if seg_g d = 1 then push_bit 12 l OR 0xfff else l)"

lemma seg_masks: "(0xff :: u32) = mask 8" "(0xffff :: u32) = mask 16" "(0xfff :: u32) = mask 12" "(0xfffff :: u32) = mask 20"
  by (simp_all add: mask_eq_exp_minus_1)

lemmas segment_bits = bit_simps seg_masks SEG16_def SEG32_def seg_base_def seg_limit_def

lemma split_bits: "n < 32 \<Longrightarrow> (n :: nat) < 12 \<or> (\<exists>k < 4. n = 12 + k) \<or> (\<exists>k < 8. n = 16 + k) \<or> (\<exists>k < 4. n = 24 + k) \<or> (\<exists>k < 4. n = 28 + k)"
  by presburger

lemma seg_base_16: "seg_base (SEG16 type base lim dpl) = base"
  by (rule bit_word_eqI, simp, drule split_bits, elim disjE exE conjE; auto simp: segment_bits)

lemma seg_base_32: "seg_base (SEG32 type base lim dpl) = base"
  by (rule bit_word_eqI, simp, drule split_bits, elim disjE exE conjE; auto simp: segment_bits)

lemma seg_limit_16: "seg_limit (SEG16 type base lim dpl) = lim AND 0xfffff"
  by (rule bit_word_eqI, simp, drule split_bits, elim disjE exE conjE; auto simp: segment_bits)

lemma seg_limit_32: "seg_limit (SEG32 type base lim dpl) = lim OR 0xfff"
  by (rule bit_word_eqI, simp, drule split_bits, elim disjE exE conjE; auto simp: segment_bits)

text \<open>Code and data segments cover all addresses, so that only pages separate programs from the kernel.\<close>

lemma flat_segments:
  assumes "i \<in> {1, 2, 3, 4}" "fst (init_gdt tss) ! i = Some d"
  shows "seg_base d = 0" "seg_limit d = 0xffffffff" "seg_p d = 1" "seg_dpl d = (if i < 3 then 0 else 3)"
  using assms by (auto simp: init_gdt_def seg_base_32 seg_limit_32) (simp_all add: SEG32_def)

lemma task_segment:
  "\<exists>d. fst (init_gdt tss) ! unat (drop_bit 3 (snd (init_gdt tss))) = Some d \<and> seg_base d = tss \<and> seg_limit d = 103"
  by (simp add: init_gdt_def KSEL_def seg_base_16 seg_limit_16)

end
