(* ===== verification/Vme.thy ===== *)
theory Vme
  imports Prelude
begin

text \<open>
  \<open>kernel/src/vme.c\<close> with the macros of \<open>x86/memory.h\<close>: the heap of physical pages and the
  two-level page tables.

  Physical memory is a map from addresses to bytes. Page directories, page tables and the free
  list are in it, as the code has them; a kernel pointer is a physical address, since every
  page directory maps \<open>[4096, PHY_MEM)\<close> to itself. \<open>kpd\<close> and \<open>kpt\<close> are the addresses at
  which the linker puts the two static arrays. The processor reads \<open>cr3\<close>.
\<close>

section \<open>Memory\<close>

type_synonym memory = "u32 \<Rightarrow> byte"

record vm =
  mem :: memory
  cr3 :: u32
  paging :: bool
  free_page_list :: u32
  tss_ss0 :: u32
  tss_esp0 :: u32
  kpd :: u32
  kpt :: u32

definition ld32 :: "memory \<Rightarrow> u32 \<Rightarrow> u32" where
  "ld32 m a = of_le32 [m a, m (a + 1), m (a + 2), m (a + 3)]"

definition st32 :: "u32 \<Rightarrow> u32 \<Rightarrow> memory \<Rightarrow> memory" where
  "st32 a v m = m(a := le32 v ! 0, a + 1 := le32 v ! 1, a + 2 := le32 v ! 2, a + 3 := le32 v ! 3)"

text \<open>\<open>n\<close> bytes from \<open>a\<close> on, and bytes put there.\<close>

definition ld_bytes :: "memory \<Rightarrow> u32 \<Rightarrow> nat \<Rightarrow> byte list" where
  "ld_bytes m a n = map (\<lambda>i. m (a + of_nat i)) [0 ..< n]"

definition st_bytes :: "u32 \<Rightarrow> byte list \<Rightarrow> memory \<Rightarrow> memory" where
  "st_bytes a bs m = (\<lambda>x. if unat (x - a) < length bs then bs ! unat (x - a) else m x)"

definition store :: "u32 \<Rightarrow> u32 \<Rightarrow> (vm, unit) prog" where
  "store a v = modS (\<lambda>s. s\<lparr>mem := st32 a v (mem s)\<rparr>)"

definition fill :: "u32 \<Rightarrow> byte list \<Rightarrow> (vm, unit) prog" where
  "fill a bs = modS (\<lambda>s. s\<lparr>mem := st_bytes a bs (mem s)\<rparr>)"

section \<open>The macros\<close>

definition KER_MEM :: u32 where "KER_MEM = 0x00200000"
definition PHY_MEM :: u32 where "PHY_MEM = 0x08000000"
definition USR_MEM :: u32 where "USR_MEM = 0xc0000000"
definition PGSIZE :: u32 where "PGSIZE = 4096"
definition PGMASK :: u32 where "PGMASK = PGSIZE - 1"
definition PTE_P :: u32 where "PTE_P = 1"
definition PTE_W :: u32 where "PTE_W = 2"
definition PTE_U :: u32 where "PTE_U = 4"

lemmas memory_consts = KER_MEM_def PHY_MEM_def USR_MEM_def PGSIZE_def PGMASK_def PTE_P_def PTE_W_def PTE_U_def

definition PAGE_DOWN :: "u32 \<Rightarrow> u32" where
  "PAGE_DOWN a = a AND NOT PGMASK"

definition PAGE_UP :: "u32 \<Rightarrow> u32" where
  "PAGE_UP a = (a + PGMASK) AND NOT PGMASK"

definition ADDR2DIR :: "u32 \<Rightarrow> u32" where
  "ADDR2DIR a = drop_bit 22 (a AND 0xffc00000)"

definition ADDR2TBL :: "u32 \<Rightarrow> u32" where
  "ADDR2TBL a = drop_bit 12 (a AND 0x003ff000)"

definition ADDR2OFF :: "u32 \<Rightarrow> u32" where
  "ADDR2OFF a = a AND 0x00000fff"

definition MAKE_PDE :: "u32 \<Rightarrow> u32 \<Rightarrow> u32" where
  "MAKE_PDE a prot = PAGE_DOWN a OR prot OR PTE_P"

definition MAKE_PTE :: "u32 \<Rightarrow> u32 \<Rightarrow> u32" where
  "MAKE_PTE a prot = PAGE_DOWN a OR prot OR PTE_P"

text \<open>The field \<open>page_frame\<close> is the upper 20 bits of an entry.\<close>

definition PDE2PT :: "u32 \<Rightarrow> u32" where
  "PDE2PT pde = push_bit 12 (drop_bit 12 pde)"

definition PTE2PG :: "u32 \<Rightarrow> u32" where
  "PTE2PG pte = push_bit 12 (drop_bit 12 pte)"

section \<open>The heap of pages\<close>

definition set_tss :: "u32 \<Rightarrow> u32 \<Rightarrow> vm \<Rightarrow> vm" where
  "set_tss ss0 esp0 s = s\<lparr>tss_ss0 := ss0, tss_esp0 := esp0\<rparr>"

text \<open>\<open>init_page\<close>; \<open>kend\<close> is the address of the linker's symbol \<open>end\<close>.\<close>

definition init_tables :: "(vm, unit) prog" where
  "init_tables = forS (\<lambda>i. thenS
       (bindS (getS id) (\<lambda>s. store (kpd s + of_nat (4 * i)) (MAKE_PDE (kpt s + of_nat (4096 * i)) 3)))
       (forS (\<lambda>j. bindS (getS id) (\<lambda>s. store (kpt s + of_nat (4096 * i + 4 * j))
            (MAKE_PTE (push_bit 22 (of_nat i) OR push_bit 12 (of_nat j)) 3))) [0 ..< 1024]))
     [0 ..< 32]"

definition init_free_list :: "(vm, unit) prog" where
  "init_free_list = thenS (modS (\<lambda>s. s\<lparr>free_page_list := KER_MEM\<rparr>))
     (thenS (forS (\<lambda>k. store (of_nat (4096 * k)) (of_nat (4096 * k) + PGSIZE)) [512 ..< 32768])
     (store (PHY_MEM - PGSIZE) 0))"

definition init_page :: "u32 \<Rightarrow> (vm, unit) prog" where
  "init_page kend =
     thenS (assertS (\<not> kend \<ge> KER_MEM - PGSIZE))
     (thenS init_tables
     (thenS (bindS (getS kpt) (\<lambda>a. store a 0))
     (thenS (modS (\<lambda>s. s\<lparr>cr3 := kpd s\<rparr>))
     (thenS (modS (\<lambda>s. s\<lparr>paging := True\<rparr>))
     init_free_list))))"

definition kalloc :: "(vm, u32) prog" where
  "kalloc s =
     (if free_page_list s = 0 then Inl Abort
      else let page = free_page_list s in Inr (page, s\<lparr>free_page_list := ld32 (mem s) page\<rparr>))"

definition kfree :: "u32 \<Rightarrow> (vm, unit) prog" where
  "kfree page = thenS (bindS (getS free_page_list) (store page))
     (modS (\<lambda>s. s\<lparr>free_page_list := page\<rparr>))"

section \<open>Address spaces\<close>

definition vm_alloc :: "(vm, u32) prog" where
  "vm_alloc = bindS kalloc (\<lambda>pd. thenS (assertS (pd \<noteq> 0))
     (thenS (forS (\<lambda>i. bindS (getS kpt) (\<lambda>a. store (pd + of_nat (4 * i)) (MAKE_PDE (a + of_nat (4096 * i)) 3))) [0 ..< 32])
     (thenS (forS (\<lambda>i. store (pd + of_nat (4 * i)) 0) [32 ..< 1024])
     (retS pd))))"

definition vm_teardown :: "u32 \<Rightarrow> (vm, unit) prog" where
  "vm_teardown pgdir = retS ()"

definition vm_curr :: "(vm, u32) prog" where
  "vm_curr = getS (\<lambda>s. PAGE_DOWN (cr3 s))"

definition vm_walkpte :: "u32 \<Rightarrow> u32 \<Rightarrow> u32 \<Rightarrow> (vm, u32) prog" where
  "vm_walkpte pgdir va prot =
     thenS (assertS (prot AND NOT 7 = 0))
     (let pde = pgdir + 4 * ADDR2DIR va;
          pte_of = bindS (getS (\<lambda>s. ld32 (mem s) pde)) (\<lambda>v. retS (PDE2PT v + 4 * ADDR2TBL va))
      in bindS (getS (\<lambda>s. ld32 (mem s) pde)) (\<lambda>v.
         if v AND 1 = 0 then
           if prot = 0 then retS 0
           else bindS kalloc (\<lambda>pt. thenS (assertS (pt \<noteq> 0))
             (thenS (fill pt (replicate 4096 0))
             (thenS (store pde (MAKE_PDE pt prot))
             pte_of)))
         else pte_of))"

definition pteIsValid :: "u32 \<Rightarrow> vm \<Rightarrow> bool" where
  "pteIsValid pte s \<longleftrightarrow> ld32 (mem s) pte AND 1 \<noteq> 0"

definition vm_walk :: "u32 \<Rightarrow> u32 \<Rightarrow> u32 \<Rightarrow> (vm, u32) prog" where
  "vm_walk pgdir va prot = bindS (vm_walkpte pgdir va prot) (\<lambda>pte.
     bindS (getS (\<lambda>s. ld32 (mem s) pte)) (\<lambda>v.
     if pte = 0 \<or> v AND 1 = 0 then retS 0 else retS (PTE2PG v)))"

text \<open>The page addresses from \<open>start\<close> up to \<open>en\<close>, both aligned.\<close>

definition pages :: "u32 \<Rightarrow> u32 \<Rightarrow> u32 list" where
  "pages start en = map (\<lambda>i. start + of_nat (4096 * i)) [0 ..< (unat en - unat start + 4095) div 4096]"

definition vm_map_page :: "u32 \<Rightarrow> u32 \<Rightarrow> u32 \<Rightarrow> (vm, unit) prog" where
  "vm_map_page pgdir prot va = bindS (vm_walkpte pgdir va prot) (\<lambda>pte.
     thenS (assertS (pte \<noteq> 0))
     (bindS (getS (\<lambda>s. ld32 (mem s) pte)) (\<lambda>v.
     if v AND PTE_P = 0 then
       bindS kalloc (\<lambda>page. thenS (assertS (page \<noteq> 0))
         (thenS (fill page (replicate 4096 0))
         (store pte (MAKE_PTE page prot))))
     else retS ())))"

definition vm_map :: "u32 \<Rightarrow> u32 \<Rightarrow> u32 \<Rightarrow> u32 \<Rightarrow> (vm, unit) prog" where
  "vm_map pgdir va len prot =
     thenS (assertS (prot AND PTE_P \<noteq> 0))
     (thenS (assertS (prot AND NOT 7 = 0))
     (let start = PAGE_DOWN va; en = PAGE_UP (va + len) in
      thenS (assertS (PHY_MEM \<le> start))
      (thenS (assertS (start \<le> en))
      (forS (vm_map_page pgdir prot) (pages start en)))))"

definition vm_unmap :: "u32 \<Rightarrow> u32 \<Rightarrow> u32 \<Rightarrow> (vm, unit) prog" where
  "vm_unmap pgdir va len = retS ()"

definition vm_copy_page :: "u32 \<Rightarrow> u32 \<Rightarrow> (vm, unit) prog" where
  "vm_copy_page pgdir va = bindS vm_curr (\<lambda>pd. bindS (vm_walkpte pd va 0) (\<lambda>pte.
     bindS (getS id) (\<lambda>s.
     if pte \<noteq> 0 \<and> pteIsValid pte s then
       thenS (vm_map pgdir va PGSIZE 7)
       (bindS (vm_walk pgdir va 0) (\<lambda>dst. bindS (vm_walk pd va 0) (\<lambda>src.
         bindS (getS (\<lambda>s. ld_bytes (mem s) src 4096)) (fill dst))))
     else retS ())))"

definition vm_copycurr :: "u32 \<Rightarrow> (vm, unit) prog" where
  "vm_copycurr pgdir = forS (vm_copy_page pgdir) (pages PHY_MEM USR_MEM)"

text \<open>A page fault prints its address and panics.\<close>

definition vm_pgfault :: "u32 \<Rightarrow> u32 \<Rightarrow> ('s, 'a) prog" where
  "vm_pgfault va errcode = stopS Abort"

section \<open>The processor's view\<close>

text \<open>
  The translation of an address through the tables at \<open>cr3\<close>: the physical address, or
  \<open>None\<close> for a fault. The kernel runs with \<open>CR0.WP\<close> clear: the present bits alone decide.
\<close>

definition mmu :: "vm \<Rightarrow> u32 \<Rightarrow> u32 option" where
  "mmu s va =
     (let pde = ld32 (mem s) (PAGE_DOWN (cr3 s) + 4 * ADDR2DIR va) in
      if pde AND 1 = 0 then None
      else let pte = ld32 (mem s) (PDE2PT pde + 4 * ADDR2TBL va) in
        if pte AND 1 = 0 then None else Some (PTE2PG pte + ADDR2OFF va))"

end
