(* ===== verification/VmeSpace.thy ===== *)
theory VmeSpace
  imports Vme
begin

unbundle bit_operations_syntax

text \<open>
  What \<open>vme.c\<close> keeps true. The free pages form a list in memory (\<open>heap s ps\<close>), which \<open>kalloc\<close>
  and \<open>kfree\<close> use as a stack: the locale \<open>page_pool\<close>. The tables below a page directory are a
  tree of pages owned by it alone (\<open>space\<close>); \<open>frame\<close> reads it as a map from page numbers to
  physical pages, and \<open>vm_map\<close> extends that map by zeroed pages from the heap.
\<close>

section \<open>Addresses\<close>

lemma ld32_st32 [simp]: "ld32 (st32 a v m) a = v"
proof -
  have "[st32 a v m a, st32 a v m (a + 1), st32 a v m (a + 2), st32 a v m (a + 3)] = le32 v"
    by (simp add: st32_def le32_def)
  then show ?thesis by (simp add: ld32_def)
qed

lemma masks: "(7 :: u32) = mask 3" "(0xfff :: u32) = mask 12" "(0xffc00000 :: u32) = push_bit 22 (mask 10)"
    "(0x003ff000 :: u32) = push_bit 12 (mask 10)"
  by (simp_all add: mask_eq_exp_minus_1 push_bit_eq_mult)

definition pgno :: "u32 \<Rightarrow> nat" where
  "pgno a = unat a div 4096"

lemma aligned_mask: "4096 dvd unat (p :: u32) \<longleftrightarrow> take_bit 12 p = 0"
proof -
  have "unat (take_bit 12 p) = unat p mod 4096"
    unfolding unsigned_take_bit_eq by (simp add: take_bit_eq_mod)
  moreover have "take_bit 12 p = 0 \<longleftrightarrow> unat (take_bit 12 p) = 0" by (simp add: unat_eq_0)
  ultimately show ?thesis by (simp add: dvd_eq_mod_eq_0)
qed

lemma aligned_bit: "4096 dvd unat (p :: u32) \<Longrightarrow> n < 12 \<Longrightarrow> \<not> bit p n"
  unfolding aligned_mask by (metis bit_0_eq bit_take_bit_iff bot_apply bot_bool_def)

lemma entry_parts:
  assumes "4096 dvd unat (p :: u32)" "prot AND NOT 7 = (0 :: u32)"
  shows "push_bit 12 (drop_bit 12 (PAGE_DOWN p OR prot OR PTE_P)) = p"
    "(PAGE_DOWN p OR prot OR PTE_P) AND 1 \<noteq> 0"
proof -
  have low: "\<not> bit prot n" if "3 \<le> n" for n
  proof
    assume b: "bit prot n"
    then have "n < 32" using bit_imp_le_length by fastforce
    then have "bit (prot AND NOT 7) n" using b that unfolding masks by (simp add: bit_simps)
    then show False using assms(2) by simp
  qed
  have one: "\<not> bit (1 :: u32) n" if "12 \<le> n" for n using that by (simp add: bit_1_iff)
  show "push_bit 12 (drop_bit 12 (PAGE_DOWN p OR prot OR PTE_P)) = p"
  proof (rule bit_word_eqI)
    fix n assume "n < LENGTH(32)"
    then show "bit (push_bit 12 (drop_bit 12 (PAGE_DOWN p OR prot OR PTE_P))) n = bit p n"
      by (cases "n < 12") (use low one aligned_bit [OF assms(1)] in \<open>auto simp: memory_consts PAGE_DOWN_def masks bit_simps\<close>)
  qed
  have "bit ((PAGE_DOWN p OR prot OR PTE_P) AND 1) 0" by (simp add: bit_simps PTE_P_def)
  then show "(PAGE_DOWN p OR prot OR PTE_P) AND 1 \<noteq> 0" by (metis bit_0_eq bot_apply bot_bool_def)
qed

lemma unat_dir: "unat (ADDR2DIR va) = unat va div 4194304"
proof -
  have "ADDR2DIR va = drop_bit 22 va"
  proof (rule bit_word_eqI)
    fix n assume n: "n < LENGTH(32)"
    show "bit (ADDR2DIR va) n = bit (drop_bit 22 va) n"
      using bit_imp_le_length [of va "22 + n"] by (auto simp: ADDR2DIR_def masks bit_simps)
  qed
  then show ?thesis
    by (simp only: unsigned_drop_bit_eq) (use unat_u32 [of va] in \<open>simp add: drop_bit_eq_div take_bit_nat_eq_self\<close>)
qed

lemma unat_tbl: "unat (ADDR2TBL va) = unat va div 4096 mod 1024"
proof -
  have "ADDR2TBL va = take_bit 10 (drop_bit 12 va)"
  proof (rule bit_word_eqI)
    fix n assume n: "n < LENGTH(32)"
    show "bit (ADDR2TBL va) n = bit (take_bit 10 (drop_bit 12 va)) n"
      by (auto simp: ADDR2TBL_def masks bit_simps)
  qed
  then show ?thesis
    by (simp only: unsigned_drop_bit_eq unsigned_take_bit_eq)
      (use unat_u32 [of va] in \<open>simp add: drop_bit_eq_div take_bit_eq_mod\<close>)
qed

lemma ld32_cong: "(\<And>i. i < 4 \<Longrightarrow> m' (a + of_nat i) = m (a + of_nat i)) \<Longrightarrow> ld32 m' a = ld32 m a"
proof -
  assume h: "\<And>i. i < 4 \<Longrightarrow> m' (a + of_nat i) = m (a + of_nat i)"
  show ?thesis using h [of 0] h [of 1] h [of 2] h [of 3] by (simp add: ld32_def)
qed

text \<open>Entry \<open>i\<close> of a page directory or table, and the numbers of the entries of an address.\<close>

definition ent :: "u32 \<Rightarrow> nat \<Rightarrow> u32" where
  "ent p i = p + of_nat (4 * i)"

abbreviation (input) dirno :: "u32 \<Rightarrow> nat" where "dirno va \<equiv> unat va div 4194304"
abbreviation (input) tblno :: "u32 \<Rightarrow> nat" where "tblno va \<equiv> unat va div 4096 mod 1024"

lemma dirno_less: "dirno va < 1024" "tblno va < 1024"
  using unat_u32 [of va] by auto

lemma ent_of: "p + 4 * ADDR2DIR va = ent p (dirno va)" "p + 4 * ADDR2TBL va = ent p (tblno va)"
  unfolding ent_def unat_dir [symmetric] unat_tbl [symmetric] by simp_all

lemma aligned_room:
  assumes "4096 dvd unat (p :: u32)" "n < 4096"
  shows "unat (p + of_nat n) = unat p + n" "pgno (p + of_nat n) = pgno p"
proof -
  obtain k where k: "unat p = 4096 * k" using assms(1) by (rule dvdE)
  then have "unat p + n < 4294967296" using unat_u32 [of p] assms(2) by simp
  then show "unat (p + of_nat n) = unat p + n" using assms(2) by (simp add: unat_add_u32 unat_of_nat_u32)
  then show "pgno (p + of_nat n) = pgno p" using k assms(2) by (simp add: pgno_def)
qed

lemma unat_ent: "4096 dvd unat p \<Longrightarrow> i < 1024 \<Longrightarrow> unat (ent p i) = unat p + 4 * i"
  using aligned_room [of p "4 * i"] by (simp add: ent_def)

lemma pgno_ent: "4096 dvd unat p \<Longrightarrow> i < 1024 \<Longrightarrow> pgno (ent p i) = pgno p"
  using aligned_room [of p "4 * i"] by (simp add: ent_def)

lemma dvd_ent: "4096 dvd unat p \<Longrightarrow> i < 1024 \<Longrightarrow> 4 dvd unat (ent p i)"
  by (auto simp: unat_ent intro: dvd_add dvd_trans [of 4 4096])

lemma ent_inj: "4096 dvd unat p \<Longrightarrow> i < 1024 \<Longrightarrow> j < 1024 \<Longrightarrow> ent p i = ent p j \<longleftrightarrow> i = j"
proof
  assume a: "4096 dvd unat p" "i < 1024" "j < 1024" "ent p i = ent p j"
  then have "unat p + 4 * i = unat p + 4 * j" using unat_ent by metis
  then show "i = j" by simp
qed simp

lemma aligned_pgno: "4096 dvd unat p \<Longrightarrow> 4096 dvd unat q \<Longrightarrow> pgno p = pgno q \<longleftrightarrow> p = q"
  by (auto simp: pgno_def intro!: unsigned_word_eqI [where ?'a = nat] elim!: dvdE)

lemma four_room:
  assumes "4 dvd unat (a :: u32)" "i < 4"
  shows "unat (a + of_nat i) = unat a + i" "pgno (a + of_nat i) = pgno a"
proof -
  obtain k where k: "unat a = 4 * k" using assms(1) by (rule dvdE)
  then have "unat a + i < 4294967296" using unat_u32 [of a] assms(2) by simp
  then show u: "unat (a + of_nat i) = unat a + i" using assms(2) by (simp add: unat_add_u32 unat_of_nat_u32)
  have "(4 * k + i) div 4 = k" using assms(2) by simp
  then have "(unat a + i) div 4 = unat a div 4" using k by simp
  then have "(unat a + i) div 4 div 1024 = unat a div 4 div 1024" by simp
  then show "pgno (a + of_nat i) = pgno a" unfolding pgno_def u by (simp add: div_mult2_eq [symmetric])
qed

lemma ld32_page: "4 dvd unat a \<Longrightarrow> (\<And>x. pgno x = pgno a \<Longrightarrow> m' x = m x) \<Longrightarrow> ld32 m' a = ld32 m a"
  by (rule ld32_cong) (simp add: four_room)

lemma st32_apply: "st32 a v m x = (if unat (x - a) < 4 then le32 v ! unat (x - a) else m x)"
proof -
  define d where "d = x - a"
  have x: "x = a + d" by (simp add: d_def)
  have eq: "d = of_nat n" if "unat d = n" for n using that by auto
  show ?thesis
  proof (cases "unat d < 4")
    case True
    then have "unat d = 0 \<or> unat d = 1 \<or> unat d = 2 \<or> unat d = 3" by arith
    then have "d = 0 \<or> d = 1 \<or> d = 2 \<or> d = 3" using eq [of 0] eq [of 1] eq [of 2] eq [of 3] by auto
    then show ?thesis by (auto simp: x st32_def)
  next
    case False
    then have "d \<noteq> 0" "d \<noteq> 1" "d \<noteq> 2" "d \<noteq> 3" by auto
    then show ?thesis using False by (simp add: x st32_def)
  qed
qed

lemma st32_other: "4 dvd unat a \<Longrightarrow> pgno x \<noteq> pgno a \<Longrightarrow> st32 a v m x = m x"
proof -
  assume a: "4 dvd unat a" "pgno x \<noteq> pgno a"
  have "\<not> unat (x - a) < 4"
    using four_room(2) [OF a(1), of "unat (x - a)"] a(2) by auto
  then show ?thesis by (simp add: st32_apply)
qed

lemma ld32_st32_other:
  assumes "4 dvd unat a" "4 dvd unat b" "a \<noteq> b"
  shows "ld32 (st32 a v m) b = ld32 m b"
proof (rule ld32_cong)
  fix i :: nat assume i: "i < 4"
  let ?x = "b + of_nat i"
  have "\<not> unat (?x - a) < 4"
  proof
    assume d: "unat (?x - a) < 4"
    have "a + of_nat (unat (?x - a)) = ?x" by simp
    then have "unat a + unat (?x - a) = unat b + i"
      using four_room(1) [OF assms(1) d] four_room(1) [OF assms(2) i] by simp
    moreover obtain k l where "unat a = 4 * k" "unat b = 4 * l" using assms(1,2) by (elim dvdE)
    ultimately have "unat a = unat b" using i d by presburger
    then show False using assms(3) by (simp add: unsigned_word_eqI)
  qed
  then show "st32 a v m ?x = m ?x" by (simp add: st32_apply)
qed

lemma st_page:
  assumes "4096 dvd unat p" "length bs = 4096"
  shows "st_bytes p bs m x = (if pgno x = pgno p then bs ! (unat x mod 4096) else m x)"
proof (cases "pgno x = pgno p")
  case True
  have "unat p \<le> unat x" "unat x - unat p = unat x mod 4096"
    using True assms(1) unfolding pgno_def by (auto elim!: dvdE simp: modulo_nat_def)
  then have "unat (x - p) = unat x mod 4096" by (simp add: unat_sub word_le_nat_alt)
  then show ?thesis using True assms by (simp add: st_bytes_def)
next
  case False
  have "\<not> unat (x - p) < 4096"
    using aligned_room(2) [OF assms(1), of "unat (x - p)"] False by auto
  then show ?thesis using False assms by (simp add: st_bytes_def)
qed

lemma ld_page: "4096 dvd unat p \<Longrightarrow> length (ld_bytes m p n) = n \<and> (i < n \<longrightarrow> ld_bytes m p n ! i = m (p + of_nat i))"
  by (simp add: ld_bytes_def)

section \<open>The heap\<close>

fun frees :: "memory \<Rightarrow> u32 \<Rightarrow> u32 list \<Rightarrow> bool" where
  "frees m a [] \<longleftrightarrow> a = 0"
| "frees m a (p # ps) \<longleftrightarrow> a = p \<and> frees m (ld32 m p) ps"

definition heap_page :: "u32 \<Rightarrow> bool" where
  "heap_page p \<longleftrightarrow> 4096 dvd unat p \<and> 2097152 \<le> unat p \<and> unat p < 134217728"

definition heap :: "vm \<Rightarrow> u32 list \<Rightarrow> bool" where
  "heap s ps \<longleftrightarrow> frees (mem s) (free_page_list s) ps \<and> distinct ps \<and> (\<forall>p \<in> set ps. heap_page p)"

lemma heap_pageD: "heap_page p \<Longrightarrow> 4096 dvd unat p" "heap_page p \<Longrightarrow> 4 dvd unat p" "heap_page p \<Longrightarrow> p \<noteq> 0"
  by (auto simp: heap_page_def intro: dvd_trans [of 4 4096])

lemma frees_cong:
  "\<forall>p \<in> set ps. ld32 m' p = ld32 m p \<Longrightarrow> frees m' a ps = frees m a ps"
  by (induction ps arbitrary: a) auto

lemma heap_frame:
  assumes "heap s ps" "free_page_list t = free_page_list s"
    "\<And>p x. p \<in> set ps \<Longrightarrow> pgno x = pgno p \<Longrightarrow> mem t x = mem s x"
  shows "heap t ps"
proof -
  have "\<forall>p \<in> set ps. ld32 (mem t) p = ld32 (mem s) p"
  proof
    fix p assume p: "p \<in> set ps"
    then have "4 dvd unat p" using assms(1) heap_pageD(2) by (auto simp: heap_def)
    then show "ld32 (mem t) p = ld32 (mem s) p" by (rule ld32_page) (use assms(3) p in auto)
  qed
  then have "frees (mem t) (free_page_list t) ps = frees (mem s) (free_page_list t) ps" by (rule frees_cong)
  then show ?thesis using assms(1,2) by (auto simp: heap_def)
qed

lemma kalloc_empty: "heap s [] \<Longrightarrow> kalloc s = Inl Abort"
  by (simp add: heap_def kalloc_def)

lemma kalloc_heap:
  assumes "heap s (p # ps)"
  shows "kalloc s = Inr (p, s\<lparr>free_page_list := ld32 (mem s) p\<rparr>)" "heap (s\<lparr>free_page_list := ld32 (mem s) p\<rparr>) ps"
  using assms heap_pageD(3) [of p] by (auto simp: heap_def kalloc_def)

lemma kfree_heap:
  assumes "heap s ps" "heap_page p" "p \<notin> set ps"
  shows "\<exists>t. kfree p s = Inr ((), t) \<and> heap t (p # ps)"
proof -
  let ?t = "s\<lparr>mem := st32 p (free_page_list s) (mem s), free_page_list := p\<rparr>"
  have "heap (?t\<lparr>free_page_list := free_page_list s\<rparr>) ps"
  proof (rule heap_frame [OF assms(1)])
    fix q x assume q: "q \<in> set ps" "pgno x = pgno q"
    then have "heap_page q" "q \<noteq> p" using assms by (auto simp: heap_def)
    then have "pgno q \<noteq> pgno p" using aligned_pgno heap_pageD(1) assms(2) by metis
    then show "mem (?t\<lparr>free_page_list := free_page_list s\<rparr>) x = mem s x"
      using st32_other heap_pageD(2) [OF assms(2)] q(2) by simp
  qed simp
  then have "heap ?t (p # ps)" using assms by (simp add: heap_def)
  then show ?thesis by (simp add: kfree_def store_def)
qed

text \<open>A pool of pages as the rest of the kernel sees it: the list of its free pages is a stack.\<close>

locale page_pool =
  fixes pool :: "'s \<Rightarrow> 'p list \<Rightarrow> bool"
    and fit :: "'p \<Rightarrow> bool"
    and alloc :: "('s, 'p) prog"
    and dispose :: "'p \<Rightarrow> ('s, unit) prog"
  assumes out_of_pages: "pool s [] \<Longrightarrow> alloc s = Inl Abort"
    and alloc_law: "pool s (p # ps) \<Longrightarrow> \<exists>t. alloc s = Inr (p, t) \<and> pool t ps"
    and dispose_law: "pool s ps \<Longrightarrow> fit p \<Longrightarrow> p \<notin> set ps \<Longrightarrow> \<exists>t. dispose p s = Inr ((), t) \<and> pool t (p # ps)"
    and pool_pages: "pool s ps \<Longrightarrow> distinct ps \<and> (\<forall>p \<in> set ps. fit p)"
begin

lemma alloc_all: "pool s (ps @ qs) \<Longrightarrow> runs {} (repS (length ps) alloc) (\<lambda>rs t. rs = ps \<and> pool t qs) s"
proof (induction ps arbitrary: s)
  case (Cons p ps)
  then obtain t where t: "alloc s = Inr (p, t)" "pool t (ps @ qs)" using alloc_law [of s p "ps @ qs"] by auto
  show ?case using Cons.IH [OF t(2)] t(1) by (auto simp: runs_total)
qed (simp add: runs_def)

lemma dispose_all:
  "pool s qs \<Longrightarrow> distinct (rev ps @ qs) \<Longrightarrow> \<forall>p \<in> set ps. fit p \<Longrightarrow>
   runs {} (forS dispose ps) (\<lambda>_ t. pool t (rev ps @ qs)) s"
proof (induction ps arbitrary: s qs)
  case (Cons p ps)
  then obtain t where t: "dispose p s = Inr ((), t)" "pool t (p # qs)" using dispose_law [of s qs p] by auto
  have "distinct (rev ps @ p # qs)" using Cons.prems(2) by auto
  then show ?case using Cons.IH [OF t(2)] Cons.prems(3) t(1) by (auto simp: runs_total)
qed (simp add: runs_def)

lemma borrow:
  assumes "pool s ps" "n \<le> length ps"
  shows "runs {} (bindS (repS n alloc) (\<lambda>rs. thenS (forS dispose (rev rs)) (retS rs)))
    (\<lambda>rs t. rs = take n ps \<and> pool t ps) s"
proof -
  let ?a = "take n ps" and ?b = "drop n ps"
  have s: "pool s (?a @ ?b)" using assms(1) by simp
  have d: "distinct (?a @ ?b)" "\<forall>p \<in> set ?a. fit p"
    using pool_pages [OF s] by (auto simp del: append_take_drop_id)
  have n: "repS n alloc = repS (length ?a) alloc" using assms(2) by simp
  obtain t where t: "repS n alloc s = Inr (?a, t)" "pool t ?b"
    using alloc_all [OF s] unfolding n by (auto simp: runs_total)
  have "runs {} (forS dispose (rev ?a)) (\<lambda>_ t. pool t (rev (rev ?a) @ ?b)) t"
    by (rule dispose_all [OF t(2)]) (use d in auto)
  then show ?thesis using t(1) by (auto simp: runs_total)
qed

end

interpretation kpool: page_pool heap heap_page kalloc kfree
  by unfold_locales (auto simp: kalloc_empty kalloc_heap intro: kfree_heap, auto simp: heap_def)

text \<open>
  C36. The heap of pages is a stack: \<open>kalloc\<close> aborts when no page is free and otherwise takes the
  first free page; any number of pages, up to all that are free, can be taken one after the other, all
  different and page-aligned inside \<open>[KER_MEM, PHY_MEM)\<close>, and \<open>kfree\<close> in the opposite order
  restores the list of free pages.
\<close>
theorem kalloc_kfree:
  assumes "heap s ps" "n \<le> length ps"
  shows "(kalloc s = Inl Abort \<longleftrightarrow> ps = []) \<and>
    runs {} (bindS (repS n kalloc) (\<lambda>rs. thenS (forS kfree (rev rs)) (retS rs)))
      (\<lambda>rs t. rs = take n ps \<and> heap t ps \<and> distinct rs \<and> (\<forall>p \<in> set rs. heap_page p)) s"
proof
  show "kalloc s = Inl Abort \<longleftrightarrow> ps = []"
    using assms(1) kalloc_empty kalloc_heap by (cases ps) auto
  show "runs {} (bindS (repS n kalloc) (\<lambda>rs. thenS (forS kfree (rev rs)) (retS rs)))
      (\<lambda>rs t. rs = take n ps \<and> heap t ps \<and> distinct rs \<and> (\<forall>p \<in> set rs. heap_page p)) s"
    by (rule runs_mono [OF kpool.borrow [OF assms]])
      (use assms(1) in \<open>auto simp: heap_def dest: in_set_takeD\<close>)
qed

section \<open>Address spaces\<close>

definition table :: "memory \<Rightarrow> u32 \<Rightarrow> nat \<Rightarrow> u32 option" where
  "table m pd i = (let v = ld32 m (ent pd i) in if v AND 1 = 0 then None else Some (PDE2PT v))"

definition entry :: "memory \<Rightarrow> u32 \<Rightarrow> nat \<Rightarrow> u32 option" where
  "entry m pt j = (let v = ld32 m (ent pt j) in if v AND 1 = 0 then None else Some (PTE2PG v))"

definition frame :: "memory \<Rightarrow> u32 \<Rightarrow> nat \<Rightarrow> nat \<Rightarrow> u32 option" where
  "frame m pd i j = Option.bind (table m pd i) (\<lambda>pt. entry m pt j)"

text \<open>The entries below 32 are the kernel's; the others are the process's own.\<close>

definition user :: "nat \<Rightarrow> bool" where
  "user i \<longleftrightarrow> 32 \<le> i \<and> i < 1024"

definition tabs :: "memory \<Rightarrow> u32 \<Rightarrow> u32 set" where
  "tabs m pd = {pt. \<exists>i. user i \<and> table m pd i = Some pt}"

definition frames :: "memory \<Rightarrow> u32 \<Rightarrow> u32 set" where
  "frames m pd = {f. \<exists>i j. user i \<and> j < 1024 \<and> frame m pd i j = Some f}"

definition owned :: "memory \<Rightarrow> u32 \<Rightarrow> u32 set" where
  "owned m pd = insert pd (tabs m pd \<union> frames m pd)"

definition space :: "memory \<Rightarrow> u32 \<Rightarrow> bool" where
  "space m pd \<longleftrightarrow> (\<forall>p \<in> owned m pd. heap_page p) \<and> pd \<notin> tabs m pd \<union> frames m pd \<and> tabs m pd \<inter> frames m pd = {} \<and>
     (\<forall>i i' p. user i \<and> user i' \<and> table m pd i = Some p \<and> table m pd i' = Some p \<longrightarrow> i = i') \<and>
     (\<forall>i i' j j' p. user i \<and> user i' \<and> j < 1024 \<and> j' < 1024 \<and> frame m pd i j = Some p \<and> frame m pd i' j' = Some p \<longrightarrow>
        i = i' \<and> j = j')"

lemma user_less: "user i \<Longrightarrow> i < 1024"
  by (simp add: user_def)

lemma tabsI: "user i \<Longrightarrow> table m pd i = Some pt \<Longrightarrow> pt \<in> tabs m pd"
  by (auto simp: tabs_def)

lemma spaceD:
  assumes "space m pd"
  shows "4096 dvd unat pd" "heap_page pd" "pt \<in> tabs m pd \<Longrightarrow> 4096 dvd unat pt"
    "pt \<in> tabs m pd \<Longrightarrow> pt \<noteq> pd" "pt \<in> tabs m pd \<Longrightarrow> heap_page pt"
    "user i \<Longrightarrow> user i' \<Longrightarrow> table m pd i = Some p \<Longrightarrow> table m pd i' = Some p \<Longrightarrow> i = i'"
  using assms by (auto simp: space_def owned_def heap_pageD)

lemma table_page:
  "4096 dvd unat pd \<Longrightarrow> i < 1024 \<Longrightarrow> (\<And>x. pgno x = pgno pd \<Longrightarrow> m' x = m x) \<Longrightarrow> table m' pd i = table m pd i"
  using ld32_page [OF dvd_ent, of pd i m' m] pgno_ent by (simp add: table_def)

lemma entry_page:
  "4096 dvd unat pt \<Longrightarrow> j < 1024 \<Longrightarrow> (\<And>x. pgno x = pgno pt \<Longrightarrow> m' x = m x) \<Longrightarrow> entry m' pt j = entry m pt j"
  using ld32_page [OF dvd_ent, of pt j m' m] pgno_ent by (simp add: entry_def)

lemma entry_zero:
  assumes "4096 dvd unat pt" "j < 1024" "\<And>x. pgno x = pgno pt \<Longrightarrow> m x = 0"
  shows "ld32 m (ent pt j) = 0"
proof -
  have "ld32 m (ent pt j) = ld32 (\<lambda>_. 0) (ent pt j)"
    by (rule ld32_page) (use assms dvd_ent pgno_ent in auto)
  then show ?thesis by (simp add: ld32_def of_le32_def)
qed

text \<open>The address spaces before and after, when pages move from the heap into it.\<close>

definition grown :: "u32 \<Rightarrow> u32 list \<Rightarrow> vm \<Rightarrow> u32 list \<Rightarrow> vm \<Rightarrow> bool" where
  "grown pd ps s qs t \<longleftrightarrow> heap t qs \<and> space (mem t) pd \<and> set qs \<subseteq> set ps \<and> set qs \<inter> owned (mem t) pd = {} \<and>
     owned (mem s) pd \<subseteq> owned (mem t) pd \<and> owned (mem t) pd \<subseteq> owned (mem s) pd \<union> set ps \<and>
     tabs (mem s) pd \<subseteq> tabs (mem t) pd \<and> tabs (mem t) pd \<subseteq> tabs (mem s) pd \<union> set ps \<and>
     (\<forall>x. pgno x \<notin> pgno ` (insert pd (tabs (mem s) pd) \<union> set ps) \<longrightarrow> mem t x = mem s x) \<and>
     (\<forall>i < 32. ld32 (mem t) (ent pd i) = ld32 (mem s) (ent pd i)) \<and>
     t = s\<lparr>mem := mem t, free_page_list := free_page_list t\<rparr>"

lemma grown_refl: "heap s ps \<Longrightarrow> space (mem s) pd \<Longrightarrow> set ps \<inter> owned (mem s) pd = {} \<Longrightarrow> grown pd ps s ps s"
  by (simp add: grown_def)

lemma grown_trans:
  assumes "grown pd ps s qs t" "grown pd qs t rs u"
  shows "grown pd ps s rs u"
proof -
  have "mem u x = mem s x" if "pgno x \<notin> pgno ` (insert pd (tabs (mem s) pd) \<union> set ps)" for x
  proof -
    have "insert pd (tabs (mem t) pd) \<union> set qs \<subseteq> insert pd (tabs (mem s) pd) \<union> set ps"
      using assms(1) by (auto simp: grown_def)
    then have "pgno x \<notin> pgno ` (insert pd (tabs (mem t) pd) \<union> set qs)" using that by blast
    then show ?thesis using assms that by (simp add: grown_def)
  qed
  moreover have "u = s\<lparr>mem := mem u, free_page_list := free_page_list u\<rparr>"
    using assms unfolding grown_def by (metis vm.update_convs(1,4) vm.surjective)
  ultimately show ?thesis using assms unfolding grown_def by (intro conjI) (auto 0 3)
qed

lemma fresh_page:
  assumes "heap s (p # ps)" "space (mem s) pd" "set (p # ps) \<inter> owned (mem s) pd = {}"
  shows "heap_page p" "4096 dvd unat p" "p \<noteq> pd" "p \<notin> tabs (mem s) pd" "p \<notin> frames (mem s) pd" "p \<notin> set ps"
    "q \<in> insert pd (tabs (mem s) pd) \<Longrightarrow> pgno q \<noteq> pgno p" "q \<in> set ps \<Longrightarrow> pgno q \<noteq> pgno p"
    "q \<in> set ps \<Longrightarrow> r \<in> insert pd (tabs (mem s) pd) \<Longrightarrow> pgno q \<noteq> pgno r"
    "pt \<in> tabs (mem s) pd \<Longrightarrow> pgno pt \<noteq> pgno pd"
proof -
  show p: "heap_page p" "4096 dvd unat p" "p \<noteq> pd" "p \<notin> tabs (mem s) pd" "p \<notin> frames (mem s) pd" "p \<notin> set ps"
    using assms by (auto simp: heap_def owned_def heap_pageD)
  have ps: "4096 dvd unat q" if "q \<in> set ps" for q using assms(1) that by (auto simp: heap_def heap_pageD)
  have own: "4096 dvd unat q" if "q \<in> insert pd (tabs (mem s) pd)" for q
    using that spaceD(1,3) [OF assms(2)] by auto
  show "q \<in> insert pd (tabs (mem s) pd) \<Longrightarrow> pgno q \<noteq> pgno p"
    using aligned_pgno [OF own p(2)] p(3,4) by blast
  show "q \<in> set ps \<Longrightarrow> pgno q \<noteq> pgno p" using aligned_pgno [OF ps p(2)] p(6) by blast
  show "q \<in> set ps \<Longrightarrow> r \<in> insert pd (tabs (mem s) pd) \<Longrightarrow> pgno q \<noteq> pgno r"
    using aligned_pgno [OF ps own] assms(3) by (auto simp: owned_def)
  show "pt \<in> tabs (mem s) pd \<Longrightarrow> pgno pt \<noteq> pgno pd"
    using aligned_pgno spaceD(1,3,4) [OF assms(2)] by metis
qed

lemma install_heap:
  assumes "heap s (p # ps)" "\<And>q. q \<in> set ps \<Longrightarrow> pgno q \<noteq> pgno p \<and> pgno q \<noteq> pgno a" "4 dvd unat a"
  shows "heap (s\<lparr>free_page_list := ld32 (mem s) p,
      mem := st32 a v (st_bytes p (replicate 4096 0) (mem s))\<rparr>) ps"
proof (rule heap_frame [OF kalloc_heap(2) [OF assms(1)]])
  fix q x assume q: "q \<in> set ps" "pgno x = pgno q"
  have "4096 dvd unat p" using assms(1) by (auto simp: heap_def heap_pageD)
  then show "mem (s\<lparr>free_page_list := ld32 (mem s) p, mem := st32 a v (st_bytes p (replicate 4096 0) (mem s))\<rparr>) x =
      mem (s\<lparr>free_page_list := ld32 (mem s) p\<rparr>) x"
    using q assms(2) [OF q(1)] by (simp add: st32_other [OF assms(3)] st_page)
qed simp

lemma install_table:
  fixes s p pd prot i
  defines "t \<equiv> s\<lparr>free_page_list := ld32 (mem s) p,
      mem := st32 (ent pd i) (MAKE_PDE p prot) (st_bytes p (replicate 4096 0) (mem s))\<rparr>"
  assumes a: "heap s (p # ps)" "space (mem s) pd" "set (p # ps) \<inter> owned (mem s) pd = {}"
    and i: "user i" "table (mem s) pd i = None" and prot: "prot AND NOT 7 = 0"
  shows "grown pd (p # ps) s ps t" "table (mem t) pd i = Some p"
    "\<And>i' j. user i' \<Longrightarrow> j < 1024 \<Longrightarrow> frame (mem t) pd i' j = frame (mem s) pd i' j"
proof -
  note fresh = fresh_page [OF a] and sp = spaceD [OF a(2)]
  have e: "4 dvd unat (ent pd i)" "pgno (ent pd i) = pgno pd"
    using dvd_ent pgno_ent sp(1) user_less [OF i(1)] by auto
  have same: "mem t x = mem s x" if "pgno x \<noteq> pgno pd" "pgno x \<noteq> pgno p" for x
    using that e fresh(2) by (simp add: t_def st32_other st_page)
  have zero: "mem t x = 0" if "pgno x = pgno p" for x
    using that e fresh(2) fresh(7) [of pd] by (simp add: t_def st32_other st_page)
  have pde: "ld32 (mem t) (ent pd k) = ld32 (mem s) (ent pd k)" if "k < 1024" "k \<noteq> i" for k
  proof -
    have "ld32 (mem t) (ent pd k) = ld32 (st_bytes p (replicate 4096 0) (mem s)) (ent pd k)"
      using ld32_st32_other [OF e(1) dvd_ent [OF sp(1) that(1)]] ent_inj [OF sp(1) _ that(1), of i] user_less [OF i(1)] that(2)
      by (simp add: t_def)
    also have "\<dots> = ld32 (mem s) (ent pd k)"
      by (rule ld32_page [OF dvd_ent [OF sp(1) that(1)]])
        (use pgno_ent [OF sp(1) that(1)] fresh(2) fresh(7) [of pd] in \<open>simp add: st_page\<close>)
    finally show ?thesis .
  qed
  show tab: "table (mem t) pd i = Some p"
    using entry_parts [OF fresh(2) prot] by (simp add: table_def t_def MAKE_PDE_def PDE2PT_def)
  have tabs': "table (mem t) pd k = (if k = i then Some p else table (mem s) pd k)" if "k < 1024" for k
    using tab pde that by (simp add: table_def)
  have ent0: "entry (mem t) p j = None" if "j < 1024" for j
    using entry_zero [OF fresh(2) that] zero by (simp add: entry_def)
  have ent1: "entry (mem t) pt j = entry (mem s) pt j" if "pt \<in> tabs (mem s) pd" "j < 1024" for pt j
    by (rule entry_page [OF sp(3) [OF that(1)] that(2)], rule same)
      (use fresh(7) [of pt] fresh(10) [OF that(1)] that(1) in simp_all)
  show frames': "frame (mem t) pd i' j = frame (mem s) pd i' j" if "user i'" "j < 1024" for i' j
  proof (cases "table (mem t) pd i'")
    case None
    then show ?thesis using tabs' [OF user_less [OF that(1)]] by (simp add: frame_def split: if_splits)
  next
    case (Some pt)
    then show ?thesis
      using tabs' [OF user_less [OF that(1)]] ent0 [OF that(2)] ent1 [OF tabsI [OF that(1)] that(2)] i(2)
      by (cases "i' = i") (simp_all add: frame_def)
  qed
  have T: "tabs (mem t) pd = insert p (tabs (mem s) pd)"
  proof -
    have "user k \<and> table (mem t) pd k = Some q \<longleftrightarrow> user k \<and> (k = i \<and> q = p \<or> table (mem s) pd k = Some q)" for k q
      using tabs' [of k] i user_less [of k] by (cases "k = i") auto
    then show ?thesis using i(1) unfolding tabs_def by blast
  qed
  have F: "frames (mem t) pd = frames (mem s) pd"
    using frames' unfolding frames_def by metis
  have O: "owned (mem t) pd = insert p (owned (mem s) pd)"
    using T F by (auto simp: owned_def)
  have "space (mem t) pd"
    unfolding space_def O T F
  proof (intro conjI allI impI)
    show "\<forall>q \<in> insert p (owned (mem s) pd). heap_page q" using a(2) fresh(1) by (auto simp: space_def)
    show "pd \<notin> insert p (tabs (mem s) pd) \<union> frames (mem s) pd" using a(2) fresh(3) by (auto simp: space_def)
    show "insert p (tabs (mem s) pd) \<inter> frames (mem s) pd = {}" using a(2) fresh(5) by (auto simp: space_def)
  next
    fix k k' q
    assume q: "user k \<and> user k' \<and> table (mem t) pd k = Some q \<and> table (mem t) pd k' = Some q"
    have old: "table (mem s) pd l \<noteq> Some p" if "user l" for l using tabsI [OF that] fresh(4) by blast
    show "k = k'"
    proof (cases "k = i \<or> k' = i")
      case True
      then have "q = p" using q tab by auto
      then show ?thesis using q tabs' user_less old by metis
    next
      case False
      then show ?thesis using q tabs' user_less sp(6) by metis
    qed
  next
    fix k k' j j' q
    assume "user k \<and> user k' \<and> j < 1024 \<and> j' < 1024 \<and> frame (mem t) pd k j = Some q \<and> frame (mem t) pd k' j' = Some q"
    then show "k = k'" "j = j'" using a(2) frames' unfolding space_def by metis+
  qed
  moreover have "heap t ps"
    unfolding t_def by (rule install_heap [OF a(1) _ e(1)]) (use fresh(8,9) e(2) in auto)
  moreover have "set ps \<inter> owned (mem t) pd = {}" using a(3) fresh(6) unfolding O by auto
  moreover have "mem t x = mem s x" if "pgno x \<notin> pgno ` (insert pd (tabs (mem s) pd) \<union> set (p # ps))" for x
    using that same by auto
  moreover have "ld32 (mem t) (ent pd k) = ld32 (mem s) (ent pd k)" if "k < 32" for k
    using pde [of k] that i(1) by (auto simp: user_def)
  moreover have "t = s\<lparr>mem := mem t, free_page_list := free_page_list t\<rparr>" by (simp add: t_def)
  ultimately show "grown pd (p # ps) s ps t"
    unfolding grown_def O T by (intro conjI) auto
qed

lemma install_page:
  fixes s p pd prot i j pt
  defines "t \<equiv> s\<lparr>free_page_list := ld32 (mem s) p,
      mem := st32 (ent pt j) (MAKE_PTE p prot) (st_bytes p (replicate 4096 0) (mem s))\<rparr>"
  assumes a: "heap s (p # ps)" "space (mem s) pd" "set (p # ps) \<inter> owned (mem s) pd = {}"
    and i: "user i" "j < 1024" "table (mem s) pd i = Some pt" "entry (mem s) pt j = None"
    and prot: "prot AND NOT 7 = 0"
  shows "grown pd (p # ps) s ps t"
    "\<And>i' j'. user i' \<Longrightarrow> j' < 1024 \<Longrightarrow>
       frame (mem t) pd i' j' = (if i' = i \<and> j' = j then Some p else frame (mem s) pd i' j')"
    "\<And>x. pgno x = pgno p \<Longrightarrow> mem t x = 0"
proof -
  note fresh = fresh_page [OF a] and sp = spaceD [OF a(2)]
  have pt: "pt \<in> tabs (mem s) pd" by (rule tabsI [OF i(1,3)])
  have e: "4 dvd unat (ent pt j)" "pgno (ent pt j) = pgno pt"
    using dvd_ent pgno_ent sp(3) [OF pt] i(2) by auto
  have same: "mem t x = mem s x" if "pgno x \<noteq> pgno pt" "pgno x \<noteq> pgno p" for x
    using that e fresh(2) by (simp add: t_def st32_other st_page)
  show zero: "mem t x = 0" if "pgno x = pgno p" for x
    using that e fresh(2) fresh(7) [of pt] pt by (simp add: t_def st32_other st_page)
  have pde: "ld32 (mem t) (ent pd k) = ld32 (mem s) (ent pd k)" if "k < 1024" for k
    by (rule ld32_page [OF dvd_ent [OF sp(1) that]], rule same)
      (use pgno_ent [OF sp(1) that] fresh(10) [OF pt] fresh(7) [of pd] in simp_all)
  have tab: "table (mem t) pd k = table (mem s) pd k" if "k < 1024" for k
    using pde [OF that] by (simp add: table_def)
  have here: "entry (mem t) pt j = Some p"
    using entry_parts [OF fresh(2) prot] by (simp add: entry_def t_def MAKE_PTE_def PTE2PG_def)
  have row: "entry (mem t) pt k = entry (mem s) pt k" if "k < 1024" "k \<noteq> j" for k
  proof -
    have "ld32 (mem t) (ent pt k) = ld32 (st_bytes p (replicate 4096 0) (mem s)) (ent pt k)"
      using ld32_st32_other [OF e(1) dvd_ent [OF sp(3) [OF pt] that(1)]] ent_inj [OF sp(3) [OF pt] i(2) that(1)] that(2)
      by (simp add: t_def)
    also have "\<dots> = ld32 (mem s) (ent pt k)"
      by (rule ld32_page [OF dvd_ent [OF sp(3) [OF pt] that(1)]])
        (use pgno_ent [OF sp(3) [OF pt] that(1)] fresh(2) fresh(7) [of pt] pt in \<open>simp add: st_page\<close>)
    finally show ?thesis by (simp add: entry_def)
  qed
  have other: "entry (mem t) pt' k = entry (mem s) pt' k" if "pt' \<in> tabs (mem s) pd" "pt' \<noteq> pt" "k < 1024" for pt' k
    by (rule entry_page [OF sp(3) [OF that(1)] that(3)], rule same)
      (use fresh(7) [of pt'] aligned_pgno [OF sp(3) [OF that(1)] sp(3) [OF pt]] that in auto)
  show frames': "frame (mem t) pd i' j' = (if i' = i \<and> j' = j then Some p else frame (mem s) pd i' j')"
    if "user i'" "j' < 1024" for i' j'
  proof (cases "table (mem s) pd i'")
    case None
    then show ?thesis using tab [OF user_less [OF that(1)]] i(3) by (auto simp: frame_def)
  next
    case (Some pt')
    show ?thesis
    proof (cases "pt' = pt")
      case True
      then have "i' = i" using sp(6) [OF that(1) i(1) _ i(3)] Some by simp
      then show ?thesis using Some True here row [OF that(2)] tab [OF user_less [OF that(1)]] by (simp add: frame_def)
    next
      case False
      then have "i' \<noteq> i" using Some i(3) by auto
      then show ?thesis
        using Some other [OF tabsI [OF that(1) Some] False that(2)] tab [OF user_less [OF that(1)]] by (simp add: frame_def)
    qed
  qed
  have T: "tabs (mem t) pd = tabs (mem s) pd"
    using tab user_less unfolding tabs_def by auto
  have F: "frames (mem t) pd = insert p (frames (mem s) pd)"
  proof -
    have "frame (mem s) pd i j = None" using i by (simp add: frame_def)
    then have "user k \<and> l < 1024 \<and> frame (mem t) pd k l = Some q \<longleftrightarrow>
        user k \<and> l < 1024 \<and> (k = i \<and> l = j \<and> q = p \<or> frame (mem s) pd k l = Some q)" for k l q
      using frames' [of k l] by (cases "k = i \<and> l = j") auto
    then show ?thesis using i(1,2) unfolding frames_def by blast
  qed
  have O: "owned (mem t) pd = insert p (owned (mem s) pd)"
    using T F by (auto simp: owned_def)
  have "space (mem t) pd"
    unfolding space_def O T F
  proof (intro conjI allI impI)
    show "\<forall>q \<in> insert p (owned (mem s) pd). heap_page q" using a(2) fresh(1) by (auto simp: space_def)
    show "pd \<notin> tabs (mem s) pd \<union> insert p (frames (mem s) pd)" using a(2) fresh(3) by (auto simp: space_def)
    show "tabs (mem s) pd \<inter> insert p (frames (mem s) pd) = {}" using a(2) fresh(4) by (auto simp: space_def)
  next
    fix k k' q
    assume "user k \<and> user k' \<and> table (mem t) pd k = Some q \<and> table (mem t) pd k' = Some q"
    then show "k = k'" using sp(6) tab user_less by metis
  next
    fix k k' l l' q
    assume q: "user k \<and> user k' \<and> l < 1024 \<and> l' < 1024 \<and> frame (mem t) pd k l = Some q \<and> frame (mem t) pd k' l' = Some q"
    have old: "frame (mem s) pd g h \<noteq> Some p" if "user g" "h < 1024" for g h
      using that fresh(5) by (auto simp: frames_def)
    have "k = k' \<and> l = l'"
    proof (cases "k = i \<and> l = j \<or> k' = i \<and> l' = j")
      case True
      then have "q = p" using q frames' by auto
      then show ?thesis using q frames' old by metis
    next
      case False
      then have "frame (mem s) pd k l = Some q" "frame (mem s) pd k' l' = Some q" using q frames' by auto
      then show ?thesis using q a(2) unfolding space_def by blast
    qed
    then show "k = k'" "l = l'" by simp_all
  qed
  moreover have "heap t ps"
    unfolding t_def by (rule install_heap [OF a(1) _ e(1)]) (use fresh(8,9) e(2) pt in auto)
  moreover have "set ps \<inter> owned (mem t) pd = {}" using a(3) fresh(6) unfolding O by auto
  moreover have "mem t x = mem s x" if "pgno x \<notin> pgno ` (insert pd (tabs (mem s) pd) \<union> set (p # ps))" for x
    using that same pt by auto
  moreover have "ld32 (mem t) (ent pd k) = ld32 (mem s) (ent pd k)" if "k < 32" for k
    using pde [of k] that by simp
  moreover have "t = s\<lparr>mem := mem t, free_page_list := free_page_list t\<rparr>" by (simp add: t_def)
  ultimately show "grown pd (p # ps) s ps t"
    unfolding grown_def O T by (intro conjI) auto
qed

section \<open>Mapping pages\<close>

lemma walkpte_lookup:
  "vm_walkpte pd va 0 s =
     Inr (case table (mem s) pd (dirno va) of None \<Rightarrow> 0 | Some pt \<Rightarrow> ent pt (tblno va), s)"
  by (simp add: vm_walkpte_def Let_def ent_of table_def bindS_def)

lemma walkpte_runs:
  assumes a: "heap s ps" "space (mem s) pd" "set ps \<inter> owned (mem s) pd = {}"
    and va: "user (dirno va)" and prot: "prot AND NOT 7 = 0" "prot \<noteq> 0"
  shows "runs (if ps = [] then {Abort} else {}) (vm_walkpte pd va prot)
    (\<lambda>pte t. \<exists>pt qs. table (mem t) pd (dirno va) = Some pt \<and> pte = ent pt (tblno va) \<and> grown pd ps s qs t \<and>
       length ps \<le> length qs + 1 \<and>
       (\<forall>i j. user i \<and> j < 1024 \<longrightarrow> frame (mem t) pd i j = frame (mem s) pd i j)) s"
proof (cases "table (mem s) pd (dirno va)")
  case (Some pt)
  then have "vm_walkpte pd va prot s = Inr (ent pt (tblno va), s)"
    using prot by (simp add: vm_walkpte_def Let_def ent_of table_def split: if_splits)
  then show ?thesis using Some grown_refl [OF a] by (auto simp: runs_def)
next
  case None
  then have v: "ld32 (mem s) (ent pd (dirno va)) AND 1 = 0" by (simp add: table_def Let_def split: if_splits)
  show ?thesis
  proof (cases ps)
    case Nil
    then have "vm_walkpte pd va prot s = Inl Abort"
      using prot v kalloc_empty a(1) by (simp add: vm_walkpte_def Let_def ent_of)
    then show ?thesis using Nil by (simp add: runs_def)
  next
    case (Cons p qs)
    let ?t = "s\<lparr>free_page_list := ld32 (mem s) p,
      mem := st32 (ent pd (dirno va)) (MAKE_PDE p prot) (st_bytes p (replicate 4096 0) (mem s))\<rparr>"
    note k = kalloc_heap [OF a(1) [unfolded Cons]]
      and inst = install_table [OF a [unfolded Cons] va None prot(1)]
    have "p \<noteq> 0" using a(1) Cons heap_pageD(3) by (auto simp: heap_def)
    moreover have "PDE2PT (ld32 (mem ?t) (ent pd (dirno va))) = p"
      using inst(2) by (simp add: table_def Let_def split: if_splits)
    ultimately have "vm_walkpte pd va prot s = Inr (ent p (tblno va), ?t)"
      using prot v k(1) by (simp add: vm_walkpte_def Let_def ent_of fill_def store_def)
    then show ?thesis using inst Cons by (auto simp: runs_def)
  qed
qed

definition blank :: "memory \<Rightarrow> u32 \<Rightarrow> bool" where
  "blank m f \<longleftrightarrow> (\<forall>x. pgno x = pgno f \<longrightarrow> m x = 0)"

definition extended :: "u32 \<Rightarrow> (nat \<times> nat) set \<Rightarrow> u32 list \<Rightarrow> vm \<Rightarrow> vm \<Rightarrow> bool" where
  "extended pd V ps s t \<longleftrightarrow> (\<forall>i j. user i \<and> j < 1024 \<longrightarrow>
     (case frame (mem s) pd i j of Some f \<Rightarrow> frame (mem t) pd i j = Some f
      | None \<Rightarrow> if (i, j) \<in> V then \<exists>f \<in> set ps. frame (mem t) pd i j = Some f \<and> blank (mem t) f
                else frame (mem t) pd i j = None))"

lemma grown_space: "grown pd ps s qs t \<Longrightarrow> heap t qs \<and> space (mem t) pd \<and> set qs \<inter> owned (mem t) pd = {} \<and> set qs \<subseteq> set ps"
  by (simp add: grown_def)

text \<open>Pages already mapped, and pages of nobody concerned, keep their contents.\<close>

lemma grown_keeps:
  assumes "grown pd ps s qs t" "heap s ps" "space (mem s) pd" "set ps \<inter> owned (mem s) pd = {}"
    and f: "4096 dvd unat f" "f \<notin> set ps" "f \<noteq> pd" "f \<notin> tabs (mem s) pd" and x: "pgno x = pgno f"
  shows "mem t x = mem s x"
proof -
  have "pgno q \<noteq> pgno f" if "q \<in> insert pd (tabs (mem s) pd) \<union> set ps" for q
  proof -
    have "4096 dvd unat q" using that assms(2) spaceD(1,3) [OF assms(3)] by (auto simp: heap_def heap_pageD)
    then show ?thesis using that f(2-4) aligned_pgno [OF _ f(1)] by auto
  qed
  then have "pgno x \<notin> pgno ` (insert pd (tabs (mem s) pd) \<union> set ps)" unfolding x by (metis imageE)
  then show ?thesis using assms(1) unfolding grown_def by blast
qed

lemma grown_frame:
  assumes "grown pd ps s qs t" "heap s ps" "space (mem s) pd" "set ps \<inter> owned (mem s) pd = {}"
    and "f \<in> frames (mem s) pd" "pgno x = pgno f"
  shows "mem t x = mem s x"
  by (rule grown_keeps [OF assms(1-4) _ _ _ _ assms(6)])
    (use assms in \<open>auto simp: space_def owned_def heap_pageD\<close>)

lemma extended_trans:
  assumes g: "grown pd ps s qs t" "extended pd V ps s t" "grown pd qs t rs u" "extended pd W qs t u"
  shows "extended pd (V \<union> W) ps s u"
  unfolding extended_def
proof (intro allI impI)
  fix i j :: nat
  assume ij: "user i \<and> j < 1024"
  have st: "case frame (mem s) pd i j of Some f \<Rightarrow> frame (mem t) pd i j = Some f
      | None \<Rightarrow> if (i, j) \<in> V then \<exists>f \<in> set ps. frame (mem t) pd i j = Some f \<and> blank (mem t) f
                else frame (mem t) pd i j = None"
    and tu: "case frame (mem t) pd i j of Some f \<Rightarrow> frame (mem u) pd i j = Some f
      | None \<Rightarrow> if (i, j) \<in> W then \<exists>f \<in> set qs. frame (mem u) pd i j = Some f \<and> blank (mem u) f
                else frame (mem u) pd i j = None"
    using g(2,4) ij unfolding extended_def by blast+
  have keep: "blank (mem u) f" if "frame (mem t) pd i j = Some f" "blank (mem t) f" for f
  proof -
    have "f \<in> frames (mem t) pd" using that(1) ij by (auto simp: frames_def)
    then show ?thesis using grown_frame [OF g(3)] grown_space [OF g(1)] that(2) by (simp add: blank_def)
  qed
  show "case frame (mem s) pd i j of Some f \<Rightarrow> frame (mem u) pd i j = Some f
      | None \<Rightarrow> if (i, j) \<in> V \<union> W then \<exists>f \<in> set ps. frame (mem u) pd i j = Some f \<and> blank (mem u) f
                else frame (mem u) pd i j = None"
  proof (cases "frame (mem s) pd i j")
    case None
    show ?thesis
    proof (cases "(i, j) \<in> V")
      case True
      then obtain f where "f \<in> set ps" "frame (mem t) pd i j = Some f" "blank (mem t) f" using st None by auto
      then show ?thesis using None True tu keep by auto
    next
      case False
      then have "frame (mem t) pd i j = None" using st None by simp
      moreover have "set qs \<subseteq> set ps" using grown_space [OF g(1)] by simp
      ultimately show ?thesis using None False tu by (simp split: if_splits) blast
    qed
  qed (use st tu in simp)
qed

lemma map_page_runs:
  assumes a: "heap s ps" "space (mem s) pd" "set ps \<inter> owned (mem s) pd = {}"
    and va: "user (dirno va)" and prot: "prot AND NOT 7 = 0" "prot AND PTE_P \<noteq> 0"
  shows "runs (if 2 \<le> length ps then {} else {Abort}) (vm_map_page pd prot va)
    (\<lambda>_ t. \<exists>qs. grown pd ps s qs t \<and> length ps \<le> length qs + 2 \<and> extended pd {(dirno va, tblno va)} ps s t) s"
proof -
  have p0: "prot \<noteq> 0" using prot(2) by auto
  let ?A = "if 2 \<le> length ps then {} else {Abort}"
  let ?Q = "\<lambda>t. \<exists>qs. grown pd ps s qs t \<and> length ps \<le> length qs + 2 \<and> extended pd {(dirno va, tblno va)} ps s t"
  let ?m = "\<lambda>pte. thenS (assertS (pte \<noteq> 0)) (bindS (getS (\<lambda>s. ld32 (mem s) pte)) (\<lambda>v.
     if v AND PTE_P = 0 then
       bindS kalloc (\<lambda>page. thenS (assertS (page \<noteq> 0)) (thenS (fill page (replicate 4096 0))
         (store pte (MAKE_PTE page prot))))
     else retS ()))"
  have rest: "runs ?A (?m (ent pt (tblno va))) (\<lambda>_. ?Q) t"
    if t: "table (mem t) pd (dirno va) = Some pt" "grown pd ps s qs t" "length ps \<le> length qs + 1"
      "\<forall>i j. user i \<and> j < 1024 \<longrightarrow> frame (mem t) pd i j = frame (mem s) pd i j" for pt qs t
  proof (cases "entry (mem t) pt (tblno va)")
    have "heap_page pt" using grown_space [OF t(2)] spaceD(5) tabsI [OF va t(1)] by blast
    then have ne: "ent pt (tblno va) \<noteq> 0"
      using unat_ent [OF heap_pageD(1) dirno_less(2), of pt va] by (auto simp: heap_page_def)
    case (Some f)
    then have "frame (mem s) pd (dirno va) (tblno va) = Some f"
      using t(1,4) Some va dirno_less(2) [of va] unfolding frame_def by (metis bind.bind_lunit)
    then have "extended pd {(dirno va, tblno va)} ps s t"
      using t(4) by (auto simp: extended_def split: option.split)
    moreover have "ld32 (mem t) (ent pt (tblno va)) AND PTE_P \<noteq> 0"
      using Some by (auto simp: entry_def Let_def PTE_P_def split: if_splits)
    ultimately have "?m (ent pt (tblno va)) t = Inr ((), t)" using ne by simp
    note run = runs_Inr [of "?m (ent pt (tblno va))" t, OF this]
    show ?thesis unfolding run using \<open>extended _ _ _ _ _\<close> t(2,3) by auto
  next
    have "heap_page pt" using grown_space [OF t(2)] spaceD(5) tabsI [OF va t(1)] by blast
    then have ne: "ent pt (tblno va) \<noteq> 0"
      using unat_ent [OF heap_pageD(1) dirno_less(2), of pt va] by (auto simp: heap_page_def)
    case None
    then have v: "ld32 (mem t) (ent pt (tblno va)) AND PTE_P = 0" by (auto simp: entry_def Let_def PTE_P_def split: if_splits)
    note sp = grown_space [OF t(2)]
    show ?thesis
    proof (cases qs)
      case Nil
      then have "?m (ent pt (tblno va)) t = Inl Abort" using v ne kalloc_empty sp by simp
      note stop = runs_Inl [of "?m (ent pt (tblno va))" t, OF this]
      show ?thesis unfolding stop using Nil t(3) by auto
    next
      case (Cons p rs)
      have b: "heap t (p # rs)" "space (mem t) pd" "set (p # rs) \<inter> owned (mem t) pd = {}" using sp Cons by auto
      let ?u = "t\<lparr>free_page_list := ld32 (mem t) p,
        mem := st32 (ent pt (tblno va)) (MAKE_PTE p prot) (st_bytes p (replicate 4096 0) (mem t))\<rparr>"
      note inst = install_page [OF b va dirno_less(2) t(1) None prot(1)]
      have "p \<noteq> 0" using b(1) heap_pageD(3) by (auto simp: heap_def)
      then have run: "?m (ent pt (tblno va)) t = Inr ((), ?u)"
        using kalloc_heap(1) [OF b(1)] v ne by (simp add: fill_def store_def)
      have g: "grown pd ps s rs ?u" using grown_trans [OF t(2)] inst(1) Cons by simp
      have f0: "frame (mem s) pd (dirno va) (tblno va) = None"
        using t(1,4) None va dirno_less(2) [of va] unfolding frame_def by (metis bind.bind_lunit)
      have "p \<in> set ps" using sp Cons by auto
      then have "extended pd {(dirno va, tblno va)} ps s ?u"
        using inst(2,3) t(4) f0 unfolding extended_def blank_def by (auto split: option.split)
      then show ?thesis unfolding runs_Inr [of "?m (ent pt (tblno va))" t, OF run] using g Cons t(3) by auto
    qed
  qed
  show ?thesis
    unfolding vm_map_page_def runs_bind
  proof (rule runs_mono [OF walkpte_runs [OF a va prot(1) p0]], elim exE conjE)
    fix pte t pt qs
    assume t: "table (mem t) pd (dirno va) = Some pt" "pte = ent pt (tblno va)" "grown pd ps s qs t"
      "length ps \<le> length qs + 1" "\<forall>i j. user i \<and> j < 1024 \<longrightarrow> frame (mem t) pd i j = frame (mem s) pd i j"
    show "runs ?A (?m pte) (\<lambda>_. ?Q) t" unfolding t(2) by (rule rest [OF t(1,3-5)])
  qed auto
qed

lemma map_list_runs:
  assumes "heap s ps" "space (mem s) pd" "set ps \<inter> owned (mem s) pd = {}"
    and "\<forall>v \<in> set vs. user (dirno v)" and prot: "prot AND NOT 7 = 0" "prot AND PTE_P \<noteq> 0"
  shows "runs (if 2 * length vs \<le> length ps then {} else {Abort}) (forS (vm_map_page pd prot) vs)
    (\<lambda>_ t. \<exists>qs. grown pd ps s qs t \<and> length ps \<le> length qs + 2 * length vs \<and>
       extended pd ((\<lambda>v. (dirno v, tblno v)) ` set vs) ps s t) s"
  using assms(1-4)
proof (induction vs arbitrary: s ps)
  case Nil
  have "extended pd {} ps s s" by (auto simp: extended_def split: option.split)
  then show ?case using grown_refl [OF Nil(1-3)] by (auto simp: runs_def)
next
  case (Cons v vs)
  note step = map_page_runs [OF Cons.prems(1-3), of v prot]
  show ?case
    unfolding forS.simps runs_simps
  proof (rule runs_mono [OF step], goal_cases)
    case (4 x t)
    then obtain qs where q: "grown pd ps s qs t" "length ps \<le> length qs + 2" "extended pd {(dirno v, tblno v)} ps s t"
      by blast
    have h: "heap t qs" "space (mem t) pd" "set qs \<inter> owned (mem t) pd = {}" using grown_space [OF q(1)] by auto
    have vs: "\<forall>v \<in> set vs. user (dirno v)" using Cons.prems(4) by simp
    show ?case
      by (rule runs_mono [OF Cons.IH [OF h vs]], elim exE conjE)
        (use q grown_trans [OF q(1)] extended_trans [OF q(1,3)] in \<open>fastforce split: if_splits\<close>)+
  qed (use Cons.prems(4) prot in auto)
qed

text \<open>Page numbers.\<close>

lemma page_down_up:
  "unat (PAGE_DOWN a) = unat a - unat a mod 4096" "4096 dvd unat (PAGE_DOWN a)" "4096 dvd unat (PAGE_UP a)"
  "4096 dvd unat a \<Longrightarrow> PAGE_DOWN a = a" "unat (ADDR2OFF a) = unat a mod 4096"
proof -
  have mod: "unat (take_bit 12 a) = unat a mod 4096" for a :: u32
    unfolding unsigned_take_bit_eq by (simp add: take_bit_eq_mod)
  have down: "PAGE_DOWN b = b - take_bit 12 b" for b
  proof -
    have "PAGE_DOWN b + take_bit 12 b = b"
      by (subst disjunctive_add)
        (auto intro!: bit_word_eqI simp: PAGE_DOWN_def memory_consts masks bit_simps)
    then show ?thesis by (metis add_diff_cancel_right')
  qed
  have unat_down: "unat (PAGE_DOWN b) = unat b - unat b mod 4096" for b
    unfolding down using mod [of b] by (simp add: unat_sub word_le_nat_alt)
  show "unat (PAGE_DOWN a) = unat a - unat a mod 4096" by (rule unat_down)
  show dvd: "4096 dvd unat (PAGE_DOWN a)" unfolding unat_down by (simp add: dvd_minus_mod)
  show "4096 dvd unat (PAGE_UP a)"
    using unat_down [of "a + PGMASK"] by (simp add: PAGE_UP_def PAGE_DOWN_def dvd_minus_mod)
  show "4096 dvd unat a \<Longrightarrow> PAGE_DOWN a = a"
    using unat_down [of a] by (intro unsigned_word_eqI [where ?'a = nat]) (simp add: dvd_eq_mod_eq_0)
  have "ADDR2OFF a = take_bit 12 a"
    by (rule bit_word_eqI) (auto simp: ADDR2OFF_def masks bit_simps)
  then show "unat (ADDR2OFF a) = unat a mod 4096" using mod by simp
qed

lemma page_index: "(dirno v, tblno v) = (dirno w, tblno w) \<longleftrightarrow> pgno v = pgno w"
proof -
  have "dirno v = pgno v div 1024" "dirno w = pgno w div 1024" by (simp_all add: pgno_def div_mult2_eq [symmetric])
  moreover have "tblno v = pgno v mod 1024" "tblno w = pgno w mod 1024" by (simp_all add: pgno_def)
  ultimately show ?thesis by (metis div_mult_mod_eq prod.inject)
qed

lemma pages_index:
  assumes "4096 dvd unat start" "4096 dvd unat en"
  shows "(dirno v, tblno v) \<in> (\<lambda>v. (dirno v, tblno v)) ` set (pages start en) \<longleftrightarrow> start \<le> v \<and> v < en"
    "w \<in> set (pages start en) \<Longrightarrow> start \<le> w \<and> w < en"
proof -
  obtain a b where ab: "unat start = 4096 * a" "unat en = 4096 * b" using assms by (elim dvdE)
  have n: "(unat en - unat start + 4095) div 4096 = b - a" by (simp add: ab flip: diff_mult_distrib2)
  have u: "unat (start + of_nat (4096 * i)) = 4096 * (a + i)" if "i < b - a" for i
  proof -
    have "4096 * (a + i) < unat en" using that ab by simp
    then have "unat start + 4096 * i < 4294967296" using ab unat_u32 [of en] by simp
    moreover from this have "unat (of_nat (4096 * i) :: u32) = 4096 * i" by (intro unat_of_nat_u32) simp
    ultimately show ?thesis using ab by (subst unat_add_u32) simp_all
  qed
  have "pgno (start + of_nat (4096 * i)) = a + i" if "i < b - a" for i
    using u [OF that] by (simp add: pgno_def)
  then have "pgno ` set (pages start en) = {a ..< b}"
    unfolding pages_def n by (auto simp: image_image intro!: image_eqI [of _ _ "_ - a"])
  moreover have "(dirno v, tblno v) \<in> (\<lambda>v. (dirno v, tblno v)) ` set (pages start en) \<longleftrightarrow> pgno v \<in> pgno ` set (pages start en)"
    using page_index by (auto simp: image_iff)
  moreover have "pgno v \<in> {a ..< b} \<longleftrightarrow> start \<le> v \<and> v < en"
    unfolding word_le_nat_alt word_less_nat_alt ab pgno_def by auto
  ultimately show "(dirno v, tblno v) \<in> (\<lambda>v. (dirno v, tblno v)) ` set (pages start en) \<longleftrightarrow> start \<le> v \<and> v < en"
    by simp
  assume "w \<in> set (pages start en)"
  then obtain i where "i < b - a" "w = start + of_nat (4096 * i)" unfolding pages_def n by auto
  then have "unat w = 4096 * (a + i)" "a + i < b" using u [of i] by simp_all
  then show "start \<le> w \<and> w < en" unfolding word_le_nat_alt word_less_nat_alt ab by simp
qed

lemma mmu_frame:
  assumes "PAGE_DOWN (cr3 s) = pd"
  shows "mmu s v = map_option (\<lambda>f. f + ADDR2OFF v) (frame (mem s) pd (dirno v) (tblno v))"
  using assms by (auto simp: mmu_def Let_def ent_of frame_def table_def entry_def)

lemma off_page: "4096 dvd unat f \<Longrightarrow> pgno (f + ADDR2OFF v) = pgno f"
proof -
  assume "4096 dvd unat f"
  moreover have "unat (ADDR2OFF v) < 4096" unfolding page_down_up(5) by simp
  ultimately have "pgno (f + of_nat (unat (ADDR2OFF v))) = pgno f" by (rule aligned_room(2))
  moreover have "of_nat (unat (ADDR2OFF v)) = ADDR2OFF v" by simp
  ultimately show ?thesis by metis
qed

lemma extendedD:
  "extended pd V ps s t \<Longrightarrow> user i \<Longrightarrow> j < 1024 \<Longrightarrow>
     (case frame (mem s) pd i j of Some f \<Rightarrow> frame (mem t) pd i j = Some f
      | None \<Rightarrow> if (i, j) \<in> V then \<exists>f \<in> set ps. frame (mem t) pd i j = Some f \<and> blank (mem t) f
                else frame (mem t) pd i j = None)"
  unfolding extended_def by blast

lemma user_dirno: "PHY_MEM \<le> v \<Longrightarrow> user (dirno v)"
  using dirno_less [of v] by (simp add: user_def PHY_MEM_def word_le_nat_alt)

text \<open>
  C1. \<open>vm_map\<close>, as the processor sees it. On a page directory whose tables are its own and
  a heap of free pages, \<open>vm_map\<close> returns whenever the heap has two pages for every page of the range (and
  otherwise returns or aborts). Then every address of the range rounded to pages is mapped: one that was
  mapped keeps its place and contents, one that was not has a page of zeros from the heap. No other address above
  \<open>PHY_MEM\<close> is mapped that was not, the directory still owns its pages alone, and the heap has lost only the
  pages it gave.
\<close>
theorem vm_map_maps:
  assumes "heap s ps" "space (mem s) pd" "set ps \<inter> owned (mem s) pd = {}"
    and "prot AND NOT 7 = 0" "prot AND PTE_P \<noteq> 0"
    and "PHY_MEM \<le> PAGE_DOWN va" "PAGE_DOWN va \<le> PAGE_UP (va + len)"
  shows "runs (if 2 * length (pages (PAGE_DOWN va) (PAGE_UP (va + len))) \<le> length ps then {} else {Abort})
    (vm_map pd va len prot)
    (\<lambda>_ t. (\<exists>qs. grown pd ps s qs t) \<and> (\<forall>v \<ge> PHY_MEM.
       case mmu (s\<lparr>cr3 := pd\<rparr>) v of
         Some a \<Rightarrow> mmu (t\<lparr>cr3 := pd\<rparr>) v = Some a \<and> mem t a = mem s a
       | None \<Rightarrow> if PAGE_DOWN va \<le> v \<and> v < PAGE_UP (va + len)
                 then \<exists>a. mmu (t\<lparr>cr3 := pd\<rparr>) v = Some a \<and> mem t a = 0
                 else mmu (t\<lparr>cr3 := pd\<rparr>) v = None)) s"
proof -
  let ?ps = "pages (PAGE_DOWN va) (PAGE_UP (va + len))"
  note dvd = page_down_up(2) [of va] page_down_up(3) [of "va + len"]
  have users: "\<forall>v \<in> set ?ps. user (dirno v)"
    using pages_index(2) [OF dvd] assms(6) user_dirno by (metis order_trans)
  have cr3: "PAGE_DOWN (cr3 (u\<lparr>cr3 := pd\<rparr>)) = pd" for u :: vm
    using page_down_up(4) spaceD(1) [OF assms(2)] by simp
  have seen: "case mmu (s\<lparr>cr3 := pd\<rparr>) v of
         Some a \<Rightarrow> mmu (t\<lparr>cr3 := pd\<rparr>) v = Some a \<and> mem t a = mem s a
       | None \<Rightarrow> if PAGE_DOWN va \<le> v \<and> v < PAGE_UP (va + len)
                 then \<exists>a. mmu (t\<lparr>cr3 := pd\<rparr>) v = Some a \<and> mem t a = 0
                 else mmu (t\<lparr>cr3 := pd\<rparr>) v = None"
    if g: "grown pd ps s qs t" and x: "extended pd ((\<lambda>v. (dirno v, tblno v)) ` set ?ps) ps s t" and v: "PHY_MEM \<le> v" for qs t v
  proof (cases "frame (mem s) pd (dirno v) (tblno v)")
    case (Some f)
    have f: "f \<in> frames (mem s) pd" using Some user_dirno [OF v] dirno_less(2) [of v] unfolding frames_def by blast
    then have "4096 dvd unat f" using assms(2) by (auto simp: space_def owned_def heap_pageD)
    then have "mem t (f + ADDR2OFF v) = mem s (f + ADDR2OFF v)"
      using grown_frame [OF g assms(1-3) f] off_page by simp
    then show ?thesis
      using Some extendedD [OF x user_dirno [OF v] dirno_less(2) [of v]] by (simp add: mmu_frame [OF cr3])
  next
    case None
    show ?thesis
    proof (cases "PAGE_DOWN va \<le> v \<and> v < PAGE_UP (va + len)")
      case True
      then obtain f where f: "f \<in> set ps" "frame (mem t) pd (dirno v) (tblno v) = Some f" "blank (mem t) f"
        using None extendedD [OF x user_dirno [OF v] dirno_less(2) [of v]] pages_index(1) [OF dvd, of v] by auto
      then have "4096 dvd unat f" using assms(1) by (auto simp: heap_def heap_pageD)
      then show ?thesis using f None True off_page by (auto simp: mmu_frame [OF cr3] blank_def)
    next
      case False
      then have "frame (mem t) pd (dirno v) (tblno v) = None"
        using None extendedD [OF x user_dirno [OF v] dirno_less(2) [of v]] pages_index(1) [OF dvd, of v] by auto
      then show ?thesis using None False by (simp add: mmu_frame [OF cr3])
    qed
  qed
  have "vm_map pd va len prot s = forS (vm_map_page pd prot) ?ps s"
    using assms(4-7) by (simp add: vm_map_def Let_def)
  then have eq: "runs A (vm_map pd va len prot) Q s = runs A (forS (vm_map_page pd prot) ?ps) Q s" for A Q
    by (simp add: runs_def)
  show ?thesis
    unfolding eq by (rule runs_mono [OF map_list_runs [OF assms(1-3) users assms(4,5)]]) (use seen in blast)+
qed

section \<open>Copying an address space\<close>

lemma space_cong:
  assumes "space m pd" "\<forall>x. pgno x \<in> pgno ` insert pd (tabs m pd) \<longrightarrow> m' x = m x"
  shows "user i \<Longrightarrow> table m' pd i = table m pd i" "user i \<Longrightarrow> j < 1024 \<Longrightarrow> frame m' pd i j = frame m pd i j"
    "tabs m' pd = tabs m pd" "frames m' pd = frames m pd" "owned m' pd = owned m pd" "space m' pd"
proof -
  show t: "table m' pd i = table m pd i" if "user i" for i
    by (rule table_page [OF spaceD(1) [OF assms(1)] user_less [OF that]]) (use assms(2) in auto)
  show f: "frame m' pd i j = frame m pd i j" if "user i" "j < 1024" for i j
  proof (cases "table m pd i")
    case (Some pt)
    have "entry m' pt j = entry m pt j"
      by (rule entry_page [OF spaceD(3) [OF assms(1) tabsI [OF that(1) Some]] that(2)])
        (use assms(2) tabsI [OF that(1) Some] in auto)
    then show ?thesis using t [OF that(1)] Some by (simp add: frame_def)
  qed (use t [OF that(1)] in \<open>simp add: frame_def\<close>)
  show T: "tabs m' pd = tabs m pd" using t by (auto simp: tabs_def)
  show F: "frames m' pd = frames m pd" using f unfolding frames_def by metis
  show "owned m' pd = owned m pd" by (simp add: owned_def T F)
  have "user i \<and> user i' \<and> table m' pd i = Some p \<and> table m' pd i' = Some p \<longleftrightarrow>
      user i \<and> user i' \<and> table m pd i = Some p \<and> table m pd i' = Some p" for i i' p
    using t by auto
  then have E: "(\<forall>i i' p. user i \<and> user i' \<and> table m' pd i = Some p \<and> table m' pd i' = Some p \<longrightarrow> i = i') \<longleftrightarrow>
      (\<forall>i i' p. user i \<and> user i' \<and> table m pd i = Some p \<and> table m pd i' = Some p \<longrightarrow> i = i')" by simp
  have "user i \<and> user i' \<and> j < 1024 \<and> j' < 1024 \<and> frame m' pd i j = Some p \<and> frame m' pd i' j' = Some p \<longleftrightarrow>
      user i \<and> user i' \<and> j < 1024 \<and> j' < 1024 \<and> frame m pd i j = Some p \<and> frame m pd i' j' = Some p" for i i' j j' p
    using f by auto
  then have G: "(\<forall>i i' j j' p. user i \<and> user i' \<and> j < 1024 \<and> j' < 1024 \<and> frame m' pd i j = Some p \<and> frame m' pd i' j' = Some p \<longrightarrow>
        i = i' \<and> j = j') \<longleftrightarrow>
      (\<forall>i i' j j' p. user i \<and> user i' \<and> j < 1024 \<and> j' < 1024 \<and> frame m pd i j = Some p \<and> frame m pd i' j' = Some p \<longrightarrow>
        i = i' \<and> j = j')" by simp
  show "space m' pd" using assms(1) unfolding space_def owned_def T F E G .
qed

lemma page_offset:
  assumes "4096 dvd unat g" "pgno x = pgno g"
  shows "x - g = of_nat (unat x mod 4096)" "4096 dvd unat f \<Longrightarrow> pgno (f + (x - g)) = pgno f"
proof -
  have "unat x = unat g + unat x mod 4096"
    using assms unfolding pgno_def by (auto elim!: dvdE simp: modulo_nat_def)
  then have "x = g + of_nat (unat x mod 4096)"
    by (intro unsigned_word_eqI [where ?'a = nat]) (simp add: aligned_room(1) [OF assms(1)])
  then show o: "x - g = of_nat (unat x mod 4096)" by (metis add_diff_cancel_left')
  show "4096 dvd unat f \<Longrightarrow> pgno (f + (x - g)) = pgno f" unfolding o by (rule aligned_room(2)) simp_all
qed

lemma copied_page:
  assumes "4096 dvd unat f" "4096 dvd unat g" "pgno x = pgno g"
  shows "st_bytes g (ld_bytes m f 4096) m x = m (f + (x - g))"
  using st_page [OF assms(2), of "ld_bytes m f 4096" m x] ld_page [OF assms(1), of m 4096] assms(3)
  unfolding page_offset(1) [OF assms(2,3)] by simp

text \<open>
  The state after the pages in \<open>V\<close> have been copied from directory \<open>c\<close> to directory \<open>p\<close>, with
  at least \<open>n\<close> free pages left.
\<close>

definition copying :: "nat \<Rightarrow> u32 \<Rightarrow> u32 \<Rightarrow> u32 list \<Rightarrow> vm \<Rightarrow> (nat \<times> nat) set \<Rightarrow> vm \<Rightarrow> bool" where
  "copying n c p ps0 s0 V s \<longleftrightarrow> (\<exists>ps. heap s ps \<and> n \<le> length ps \<and> space (mem s) p \<and> set ps \<inter> owned (mem s) p = {} \<and>
     set ps \<subseteq> set ps0 \<and> owned (mem s) p \<subseteq> owned (mem s0) p \<union> set ps0 \<and> cr3 s = cr3 s0) \<and>
     (\<forall>x. pgno x \<in> pgno ` owned (mem s0) c \<longrightarrow> mem s x = mem s0 x) \<and>
     (\<forall>i j. user i \<and> j < 1024 \<longrightarrow>
       (case frame (mem s0) c i j of None \<Rightarrow> frame (mem s) p i j = None
        | Some f \<Rightarrow> if (i, j) \<in> V
            then \<exists>g. frame (mem s) p i j = Some g \<and> (\<forall>x. pgno x = pgno g \<longrightarrow> mem s x = mem s0 (f + (x - g)))
            else frame (mem s) p i j = None))"

lemma owned_frame: "user i \<Longrightarrow> j < 1024 \<Longrightarrow> frame m c i j = Some f \<Longrightarrow> f \<in> frames m c \<and> f \<in> owned m c"
  by (auto simp: owned_def frames_def)

lemma frames_space: "space m c \<Longrightarrow> f \<in> frames m c \<Longrightarrow> 4096 dvd unat f \<and> heap_page f \<and> f \<notin> tabs m c \<and> f \<noteq> c"
  by (auto simp: space_def owned_def heap_pageD)

lemma table_none_frame: "table m c i = None \<Longrightarrow> frame m c i j = None"
  by (simp add: frame_def)

lemma vm_walk_lookup:
  assumes "space (mem s) pd" "user (dirno va)" "frame (mem s) pd (dirno va) (tblno va) = Some f"
  shows "vm_walk pd va 0 s = Inr (f, s)"
proof -
  obtain pt where pt: "table (mem s) pd (dirno va) = Some pt" "entry (mem s) pt (tblno va) = Some f"
    using assms(3) by (auto simp: frame_def bind_eq_Some_conv)
  have "heap_page pt" using spaceD(5) [OF assms(1)] tabsI [OF assms(2) pt(1)] by blast
  then have "ent pt (tblno va) \<noteq> 0"
    using unat_ent [OF heap_pageD(1) dirno_less(2), of pt va] by (auto simp: heap_page_def)
  then show ?thesis
    using pt by (simp add: vm_walk_def walkpte_lookup entry_def Let_def split: if_splits)
qed

lemma vm_map_one:
  assumes "4096 dvd unat va" "PHY_MEM \<le> va" "va < USR_MEM"
  shows "vm_map pgdir va PGSIZE 7 = vm_map_page pgdir 7 va"
proof -
  have b: "unat va < 3221225472" using assms(3) by (simp add: word_less_nat_alt USR_MEM_def)
  have n: "unat (va + 4096) = unat va + 4096"
    using b by (subst unat_add_u32) simp_all
  have "PAGE_UP (va + PGSIZE) = PAGE_DOWN (va + 4096 + 4095)"
    by (simp add: PAGE_UP_def PAGE_DOWN_def memory_consts)
  moreover have "unat (va + 4096 + 4095) = unat va + 8191"
    using n b by (subst unat_add_u32) simp_all
  ultimately have "unat (PAGE_UP (va + PGSIZE)) = unat va + 4096"
    using assms(1) by (auto simp: page_down_up(1) elim!: dvdE)
  then have up: "PAGE_UP (va + PGSIZE) = va + 4096"
    by (intro unsigned_word_eqI [where ?'a = nat]) (simp add: n)
  have "pages va (va + 4096) = [va]" by (simp add: pages_def n)
  moreover have "va \<le> va + 4096" using n by (simp add: word_le_nat_alt)
  moreover have "(7 :: u32) AND PTE_P \<noteq> 0" "(7 :: u32) AND NOT 7 = 0" by (simp_all add: PTE_P_def)
  ultimately show ?thesis
    using page_down_up(4) [OF assms(1)] assms(2) up
    by (intro ext) (simp add: vm_map_def Let_def bindS_def split: sum.split)
qed

lemma copying_fill:
  assumes h: "heap s ps" "space (mem s) p" "set ps \<inter> owned (mem s) p = {}"
    and f: "4096 dvd unat f" "f \<notin> owned (mem s) p \<union> set ps"
    and ij: "user i" "j < 1024" "frame (mem s) p i j = None"
    and g: "grown p ps s qs t" "extended p {(i, j)} ps s t"
  shows "\<exists>d u. d \<in> set ps \<and> frame (mem t) p i j = Some d \<and>
    u = t\<lparr>mem := st_bytes d (ld_bytes (mem t) f 4096) (mem t)\<rparr> \<and>
    heap u qs \<and> space (mem u) p \<and> set qs \<inter> owned (mem u) p = {} \<and> owned (mem u) p \<subseteq> owned (mem s) p \<union> set ps \<and>
    set qs \<subseteq> set ps \<and> cr3 u = cr3 s \<and>
    (\<forall>q x. 4096 dvd unat q \<and> q \<notin> owned (mem s) p \<union> set ps \<and> pgno x = pgno q \<longrightarrow> mem u x = mem s x) \<and>
    frame (mem u) p i j = Some d \<and> (\<forall>x. pgno x = pgno d \<longrightarrow> mem u x = mem s (f + (x - d))) \<and>
    (\<forall>i' j'. user i' \<and> j' < 1024 \<and> (i', j') \<noteq> (i, j) \<longrightarrow> frame (mem u) p i' j' = frame (mem s) p i' j' \<and>
       (\<forall>e x. frame (mem s) p i' j' = Some e \<and> pgno x = pgno e \<longrightarrow> mem u x = mem s x))"
proof -
  obtain d where d: "d \<in> set ps" "frame (mem t) p i j = Some d"
    using extendedD [OF g(2) ij(1,2)] ij(3) by auto
  note gs = grown_space [OF g(1)]
  let ?u = "t\<lparr>mem := st_bytes d (ld_bytes (mem t) f 4096) (mem t)\<rparr>"
  have sp: "space (mem t) p" using gs by simp
  have dF: "d \<in> frames (mem t) p" using owned_frame [OF ij(1,2) d(2)] by simp
  note dd = frames_space [OF sp dF]
  have d4: "4096 dvd unat d" using dd by simp
  have u: "mem ?u x = (if pgno x = pgno d then mem t (f + (x - d)) else mem t x)" for x
    using copied_page [OF f(1) d4, of x "mem t"] st_page [OF d4, of "ld_bytes (mem t) f 4096" "mem t" x]
    by (cases "pgno x = pgno d") (simp_all add: ld_bytes_def)
  have off: "mem ?u x = mem t x" if "4096 dvd unat q" "q \<noteq> d" "pgno x = pgno q" for q x
    using u [of x] that aligned_pgno [OF that(1) d4] by simp
  have "\<forall>x. pgno x \<in> pgno ` insert p (tabs (mem t) p) \<longrightarrow> mem ?u x = mem t x"
    using off spaceD(1,3) [OF sp] dd by fastforce
  note keep = space_cong [OF sp this]
  have out: "mem t x = mem s x" if "4096 dvd unat q" "q \<notin> owned (mem s) p \<union> set ps" "pgno x = pgno q" for q x
    by (rule grown_keeps [OF g(1) h that(1) _ _ _ that(3)]) (use that(2) in \<open>auto simp: owned_def\<close>)
  have r1: "heap ?u qs"
  proof (rule heap_frame)
    show "heap t qs" using gs by simp
    fix q x assume q: "q \<in> set qs" "pgno x = pgno q"
    then have "4096 dvd unat q" "q \<noteq> d" using gs dF by (auto simp: heap_def heap_pageD owned_def)
    then show "mem ?u x = mem t x" using off q(2) by blast
  qed simp
  have r2: "mem ?u x = mem s (f + (x - d))" if "pgno x = pgno d" for x
    using u [of x] that out [OF f(1) f(2) page_offset(2) [OF d4 that f(1)]] by simp
  have r3: "mem ?u x = mem s x" if "4096 dvd unat q" "q \<notin> owned (mem s) p \<union> set ps" "pgno x = pgno q" for q x
    using off [OF that(1) _ that(3)] out [OF that] d(1) that(2) by auto
  have r4: "frame (mem ?u) p i' j' = frame (mem s) p i' j' \<and>
      (\<forall>e x. frame (mem s) p i' j' = Some e \<and> pgno x = pgno e \<longrightarrow> mem ?u x = mem s x)"
    if "user i'" "j' < 1024" "(i', j') \<noteq> (i, j)" for i' j'
  proof
    show fr: "frame (mem ?u) p i' j' = frame (mem s) p i' j'"
      using keep(2) [OF that(1,2)] extendedD [OF g(2) that(1,2)] that(3) by (auto split: option.splits)
    show "\<forall>e x. frame (mem s) p i' j' = Some e \<and> pgno x = pgno e \<longrightarrow> mem ?u x = mem s x"
    proof (intro allI impI, elim conjE)
      fix e x assume e: "frame (mem s) p i' j' = Some e" "pgno x = pgno e"
      have et: "frame (mem t) p i' j' = Some e" using e(1) fr keep(2) [OF that(1,2)] by simp
      have "e \<noteq> d"
        using sp that ij(1,2) et d(2) unfolding space_def by blast
      then have "mem ?u x = mem t x"
        using off [of e x] frames_space [OF sp] owned_frame [OF that(1,2) et] e(2) by blast
      also have "\<dots> = mem s x"
        using grown_frame [OF g(1) h _ e(2)] owned_frame [OF that(1,2) e(1)] by blast
      finally show "mem ?u x = mem s x" .
    qed
  qed
  have r5: "cr3 ?u = cr3 s"
    using g(1) unfolding grown_def by (metis vm.select_convs(2) vm.surjective vm.update_convs(1,4))
  show ?thesis
  proof (intro exI [of _ d] exI [of _ ?u] conjI refl d r1 keep(6) r5)
    show "set qs \<inter> owned (mem ?u) p = {}" "set qs \<subseteq> set ps" using gs keep(5) by simp_all
    show "owned (mem ?u) p \<subseteq> owned (mem s) p \<union> set ps" using keep(5) g(1) by (simp add: grown_def)
    show "frame (mem ?u) p i j = Some d" using keep(2) [OF ij(1,2)] d(2) by simp
  qed (use r2 r3 r4 in blast)+
qed

lemma owned_heap: "space m pd \<Longrightarrow> q \<in> owned m pd \<Longrightarrow> heap_page q \<and> 4096 dvd unat q"
  unfolding space_def using heap_pageD(1) by blast

lemma copying_mapped:
  assumes J: "copying n c p ps0 s0 V s" and c: "space (mem s0) c"
    and apart: "owned (mem s0) c \<inter> (owned (mem s0) p \<union> set ps0) = {}"
    and ij: "user (dirno va)" "frame (mem s0) c (dirno va) (tblno va) = Some f" "(dirno va, tblno va) \<notin> V"
    and h: "heap s ps" "space (mem s) p" "set ps \<inter> owned (mem s) p = {}" "n \<le> length ps"
    and sub: "set ps \<subseteq> set ps0" "owned (mem s) p \<subseteq> owned (mem s0) p \<union> set ps0" "cr3 s = cr3 s0"
    and g: "grown p ps s qs t" "length ps \<le> length qs + 2" and e: "extended p {(dirno va, tblno va)} ps s t"
  shows "runs {} (bindS (vm_walk p va 0) (\<lambda>dst. bindS (vm_walk c va 0) (\<lambda>src.
         bindS (getS (\<lambda>s. ld_bytes (mem s) src 4096)) (fill dst))))
         (\<lambda>_ t. copying (n - 2) c p ps0 s0 (insert (dirno va, tblno va) V) t) t"
proof -
  let ?i = "dirno va" and ?j = "tblno va"
  have old: "\<forall>x. pgno x \<in> pgno ` owned (mem s0) c \<longrightarrow> mem s x = mem s0 x"
    and each: "\<And>i j. user i \<and> j < 1024 \<longrightarrow>
       (case frame (mem s0) c i j of None \<Rightarrow> frame (mem s) p i j = None
        | Some f \<Rightarrow> if (i, j) \<in> V
            then \<exists>g. frame (mem s) p i j = Some g \<and> (\<forall>x. pgno x = pgno g \<longrightarrow> mem s x = mem s0 (f + (x - g)))
            else frame (mem s) p i j = None)"
    using J unfolding copying_def by auto
  note ij' = ij(1) dirno_less(2) [of va] and Some = ij(2)
  have "\<forall>x. pgno x \<in> pgno ` insert c (tabs (mem s0) c) \<longrightarrow> mem s x = mem s0 x" using old by (auto simp: owned_def)
  note same = space_cong [OF c(1) this]
  have fs: "frame (mem s) c ?i ?j = Some f" using Some same(2) [OF ij'] by simp
  have f: "4096 dvd unat f" "f \<in> owned (mem s0) c" "f \<notin> owned (mem s) p \<union> set ps"
    using owned_frame [OF ij' Some] frames_space [OF c(1)] apart sub by auto
  have pf: "frame (mem s) p ?i ?j = None" using each [of ?i ?j] ij' Some ij(3) by simp
  obtain d u where d: "d \<in> set ps" "frame (mem t) p ?i ?j = Some d"
    and u: "u = t\<lparr>mem := st_bytes d (ld_bytes (mem t) f 4096) (mem t)\<rparr>"
    and inv: "heap u qs" "space (mem u) p" "set qs \<inter> owned (mem u) p = {}" "owned (mem u) p \<subseteq> owned (mem s) p \<union> set ps"
      "set qs \<subseteq> set ps" "cr3 u = cr3 s"
    and out: "\<forall>q x. 4096 dvd unat q \<and> q \<notin> owned (mem s) p \<union> set ps \<and> pgno x = pgno q \<longrightarrow> mem u x = mem s x"
    and new: "frame (mem u) p ?i ?j = Some d" "\<forall>x. pgno x = pgno d \<longrightarrow> mem u x = mem s (f + (x - d))"
    and rows: "\<forall>i' j'. user i' \<and> j' < 1024 \<and> (i', j') \<noteq> (?i, ?j) \<longrightarrow> frame (mem u) p i' j' = frame (mem s) p i' j' \<and>
       (\<forall>e x. frame (mem s) p i' j' = Some e \<and> pgno x = pgno e \<longrightarrow> mem u x = mem s x)"
    using copying_fill [OF h(1-3) f(1,3) ij' pf g(1) e] by (elim exE conjE) (rule that, assumption+)
  have cs: "4096 dvd unat q \<and> q \<notin> owned (mem s) p \<union> set ps" if "q \<in> owned (mem s0) c" for q
    using owned_heap [OF c(1) that] that apart sub by auto
  have "mem t x = mem s x" if x: "pgno x \<in> pgno ` owned (mem s0) c" for x
  proof -
    obtain q where q: "q \<in> owned (mem s0) c" "pgno x = pgno q" using x by auto
    then show ?thesis using grown_keeps [OF g(1) h(1-3) _ _ _ _ q(2)] cs [OF q(1)] by (auto simp: owned_def)
  qed
  then have "\<forall>x. pgno x \<in> pgno ` insert c (tabs (mem s) c) \<longrightarrow> mem t x = mem s x"
    unfolding same(3) by (auto simp: owned_def)
  note tc = space_cong [OF same(6) this]
  have run: "bindS (vm_walk p va 0) (\<lambda>dst. bindS (vm_walk c va 0) (\<lambda>src.
     bindS (getS (\<lambda>s. ld_bytes (mem s) src 4096)) (fill dst))) t = Inr ((), u)"
    using vm_walk_lookup [OF _ ij'(1) d(2)] vm_walk_lookup [OF tc(6) ij'(1), of f] tc(2) [OF ij'] fs grown_space [OF g(1)] u
    by (simp add: fill_def)
  have "copying (n - 2) c p ps0 s0 (insert (?i, ?j) V) u"
    unfolding copying_def
  proof (intro conjI allI impI)
    show "\<exists>ps. heap u ps \<and> n - 2 \<le> length ps \<and> space (mem u) p \<and> set ps \<inter> owned (mem u) p = {} \<and> set ps \<subseteq> set ps0 \<and>
        owned (mem u) p \<subseteq> owned (mem s0) p \<union> set ps0 \<and> cr3 u = cr3 s0"
      using inv sub h(4) g(2) by (intro exI [of _ qs]) auto
    show "mem u x = mem s0 x" if x: "pgno x \<in> pgno ` owned (mem s0) c" for x
    proof -
      obtain q where "q \<in> owned (mem s0) c" "pgno x = pgno q" using x by auto
      then have "mem u x = mem s x" using out cs by blast
      then show ?thesis using old x by simp
    qed
  next
    fix i' j' :: nat assume i': "user i' \<and> j' < 1024"
    show "case frame (mem s0) c i' j' of None \<Rightarrow> frame (mem u) p i' j' = None
      | Some f \<Rightarrow> if (i', j') \<in> insert (?i, ?j) V
        then \<exists>g. frame (mem u) p i' j' = Some g \<and> (\<forall>x. pgno x = pgno g \<longrightarrow> mem u x = mem s0 (f + (x - g)))
        else frame (mem u) p i' j' = None"
    proof (cases "(i', j') = (?i, ?j)")
      case True
      have "mem s (f + (x - d)) = mem s0 (f + (x - d))" if "pgno x = pgno d" for x
      proof -
        have "4096 dvd unat d" using d(1) h(1) by (auto simp: heap_def heap_pageD)
        then have "pgno (f + (x - d)) = pgno f" using page_offset(2) that f(1) by blast
        then show ?thesis using old f(2) by blast
      qed
      then show ?thesis using True Some new by simp
    next
      case False
      then show ?thesis using rows i' each [of i' j'] by (auto split: option.splits) metis+
    qed
  qed
  then show ?thesis using run by (simp only: runs_def sum.case prod.case)
qed

lemma copying_step:
  assumes J: "copying n c p ps0 s0 V s" and c: "space (mem s0) c" "PAGE_DOWN (cr3 s0) = c"
    and apart: "owned (mem s0) c \<inter> (owned (mem s0) p \<union> set ps0) = {}"
    and va: "4096 dvd unat va" "PHY_MEM \<le> va" "va < USR_MEM" "(dirno va, tblno va) \<notin> V"
  shows "runs (if frame (mem s0) c (dirno va) (tblno va) = None \<or> 2 \<le> n then {} else {Abort}) (vm_copy_page p va)
    (\<lambda>_ t. copying (if frame (mem s0) c (dirno va) (tblno va) = None then n else n - 2) c p ps0 s0 (insert (dirno va, tblno va) V) t) s"
proof -
  let ?i = "dirno va" and ?j = "tblno va"
  have ij: "user ?i" "?j < 1024" using user_dirno [OF va(2)] dirno_less(2) by auto
  obtain ps where h: "heap s ps" "space (mem s) p" "set ps \<inter> owned (mem s) p = {}" "n \<le> length ps" and sub: "set ps \<subseteq> set ps0"
      "owned (mem s) p \<subseteq> owned (mem s0) p \<union> set ps0" "cr3 s = cr3 s0"
    using J unfolding copying_def by blast
  have old: "\<forall>x. pgno x \<in> pgno ` owned (mem s0) c \<longrightarrow> mem s x = mem s0 x"
    and each: "\<And>i j. user i \<and> j < 1024 \<longrightarrow>
       (case frame (mem s0) c i j of None \<Rightarrow> frame (mem s) p i j = None
        | Some f \<Rightarrow> if (i, j) \<in> V
            then \<exists>g. frame (mem s) p i j = Some g \<and> (\<forall>x. pgno x = pgno g \<longrightarrow> mem s x = mem s0 (f + (x - g)))
            else frame (mem s) p i j = None)"
    using J unfolding copying_def by auto
  have "\<forall>x. pgno x \<in> pgno ` insert c (tabs (mem s0) c) \<longrightarrow> mem s x = mem s0 x" using old by (auto simp: owned_def)
  note same = space_cong [OF c(1) this]
  show ?thesis
  proof (cases "frame (mem s0) c ?i ?j")
    case None
    have "vm_copy_page p va s = Inr ((), s)"
    proof (cases "table (mem s) c ?i")
      case None
      then show ?thesis
        using sub(3) c(2) by (simp add: vm_copy_page_def vm_curr_def walkpte_lookup)
    next
      case (Some pt)
      then have "entry (mem s) pt ?j = None" using None same(2) [OF ij] by (simp add: frame_def)
      then have "\<not> pteIsValid (ent pt ?j) s" by (auto simp: pteIsValid_def entry_def Let_def split: if_splits)
      then show ?thesis
        using sub(3) c(2) Some by (simp add: vm_copy_page_def vm_curr_def walkpte_lookup)
    qed
    moreover have "copying n c p ps0 s0 (insert (?i, ?j) V) s"
    proof -
      have "case frame (mem s0) c i j of None \<Rightarrow> frame (mem s) p i j = None
          | Some f \<Rightarrow> if (i, j) \<in> insert (?i, ?j) V
            then \<exists>g. frame (mem s) p i j = Some g \<and> (\<forall>x. pgno x = pgno g \<longrightarrow> mem s x = mem s0 (f + (x - g)))
            else frame (mem s) p i j = None" if "user i \<and> j < 1024" for i j
        using each [of i j] that None by (cases "(i, j) = (?i, ?j)") (auto split: option.splits)
      then show ?thesis using J unfolding copying_def by blast
    qed
    ultimately show ?thesis using None by (simp add: runs_def)
  next
    case (Some f)
    have fs: "frame (mem s) c ?i ?j = Some f" using Some same(2) [OF ij] by simp
    obtain pt where pt: "table (mem s) c ?i = Some pt" "entry (mem s) pt ?j = Some f"
      using fs by (auto simp: frame_def bind_eq_Some_conv)
    have valid: "pteIsValid (ent pt ?j) s" using pt(2) by (auto simp: pteIsValid_def entry_def Let_def split: if_splits)
    have "heap_page pt" using spaceD(5) [OF same(6)] tabsI [OF ij(1) pt(1)] by blast
    then have ne: "ent pt ?j \<noteq> 0"
      using unat_ent [OF heap_pageD(1) ij(2), of pt] by (auto simp: heap_page_def)
    have "vm_copy_page p va s = bindS (vm_map_page p 7 va) (\<lambda>_. bindS (vm_walk p va 0) (\<lambda>dst. bindS (vm_walk c va 0) (\<lambda>src.
         bindS (getS (\<lambda>s. ld_bytes (mem s) src 4096)) (fill dst)))) s"
      using sub(3) c(2) pt(1) valid ne vm_map_one [OF va(1-3)]
      by (simp add: vm_copy_page_def vm_curr_def walkpte_lookup)
    then have eq: "runs A (vm_copy_page p va) Q s = runs A (vm_map_page p 7 va) (\<lambda>_. runs A (bindS (vm_walk p va 0) (\<lambda>dst. bindS (vm_walk c va 0) (\<lambda>src.
         bindS (getS (\<lambda>s. ld_bytes (mem s) src 4096)) (fill dst)))) Q) s" for A Q
      unfolding runs_bind [symmetric] by (simp only: runs_def)
    have "(7 :: u32) AND NOT 7 = 0" "(7 :: u32) AND PTE_P \<noteq> 0" by (simp_all add: PTE_P_def)
    from map_page_runs [OF h(1-3) ij(1) this] show ?thesis
      unfolding eq
    proof (rule runs_mono, elim exE conjE)
      fix t qs assume "grown p ps s qs t" "length ps \<le> length qs + 2" "extended p {(?i, ?j)} ps s t"
      note m = copying_mapped [OF J c(1) apart ij(1) Some va(4) h sub this]
      show "runs (if frame (mem s0) c ?i ?j = None \<or> 2 \<le> n then {} else {Abort}) (bindS (vm_walk p va 0) (\<lambda>dst. bindS (vm_walk c va 0) (\<lambda>src.
         bindS (getS (\<lambda>s. ld_bytes (mem s) src 4096)) (fill dst))))
         (\<lambda>_ t. copying (if frame (mem s0) c ?i ?j = None then n else n - 2) c p ps0 s0 (insert (?i, ?j) V) t) t"
        by (rule runs_mono [OF m]) (use Some in auto)
    qed (use Some h(4) in auto)
  qed
qed

lemma pages_pgno:
  assumes "4096 dvd unat start" "4096 dvd unat en"
  shows "map pgno (pages start en) = [pgno start ..< pgno en]" "w \<in> set (pages start en) \<Longrightarrow> 4096 dvd unat w"
proof -
  obtain a b where ab: "unat start = 4096 * a" "unat en = 4096 * b" using assms by (elim dvdE)
  have n: "(unat en - unat start + 4095) div 4096 = b - a" by (simp add: ab flip: diff_mult_distrib2)
  have u: "unat (start + of_nat (4096 * i)) = 4096 * (a + i)" if "i < b - a" for i
  proof -
    have "4096 * (a + i) < unat en" using that ab by simp
    then have "unat start + 4096 * i < 4294967296" using ab unat_u32 [of en] by simp
    moreover from this have "unat (of_nat (4096 * i) :: u32) = 4096 * i" by (intro unat_of_nat_u32) simp
    ultimately show ?thesis using ab by (subst unat_add_u32) simp_all
  qed
  have p: "pgno (start + of_nat (4096 * i)) = a + i" if "i < b - a" for i using u [OF that] by (simp add: pgno_def)
  show "map pgno (pages start en) = [pgno start ..< pgno en]"
    using p by (auto simp: pages_def n list_eq_iff_nth_eq ab pgno_def)
  assume "w \<in> set (pages start en)"
  then obtain i where "i < b - a" "w = start + of_nat (4096 * i)" unfolding pages_def n by auto
  then show "4096 dvd unat w" using u [of i] by simp
qed

lemma copyingD:
  "copying n c p ps0 s0 V s \<Longrightarrow> user i \<Longrightarrow> j < 1024 \<Longrightarrow> (i, j) \<in> V \<Longrightarrow>
   (case frame (mem s0) c i j of None \<Rightarrow> frame (mem s) p i j = None
    | Some f \<Rightarrow> \<exists>g. frame (mem s) p i j = Some g \<and> (\<forall>x. pgno x = pgno g \<longrightarrow> mem s x = mem s0 (f + (x - g))))"
proof -
  assume a: "copying n c p ps0 s0 V s" "user i" "j < 1024" "(i, j) \<in> V"
  then have "case frame (mem s0) c i j of None \<Rightarrow> frame (mem s) p i j = None
    | Some f \<Rightarrow> if (i, j) \<in> V
        then \<exists>g. frame (mem s) p i j = Some g \<and> (\<forall>x. pgno x = pgno g \<longrightarrow> mem s x = mem s0 (f + (x - g)))
        else frame (mem s) p i j = None"
    unfolding copying_def by blast
  then show ?thesis using a(4) by (cases "frame (mem s0) c i j") simp_all
qed

lemma copying_list:
  assumes "copying n c p ps0 s0 V s" and c: "space (mem s0) c" "PAGE_DOWN (cr3 s0) = c"
    and apart: "owned (mem s0) c \<inter> (owned (mem s0) p \<union> set ps0) = {}"
    and "\<forall>v \<in> set vs. 4096 dvd unat v \<and> PHY_MEM \<le> v \<and> v < USR_MEM \<and> (dirno v, tblno v) \<notin> V" "distinct (map pgno vs)"
  shows "runs (if 2 * length (filter (\<lambda>v. frame (mem s0) c (dirno v) (tblno v) \<noteq> None) vs) \<le> n then {} else {Abort}) (forS (vm_copy_page p) vs)
    (\<lambda>_ t. \<exists>n. copying n c p ps0 s0 (V \<union> (\<lambda>v. (dirno v, tblno v)) ` set vs) t) s"
  using assms(1,5,6)
proof (induction vs arbitrary: n s V)
  case Nil
  then show ?case by (auto simp: runs_def)
next
  case (Cons v vs)
  let ?none = "\<lambda>v. frame (mem s0) c (dirno v) (tblno v) = None"
  let ?n = "if ?none v then n else n - 2"
  have v: "4096 dvd unat v" "PHY_MEM \<le> v" "v < USR_MEM" "(dirno v, tblno v) \<notin> V" using Cons.prems(2) by simp_all
  note step = copying_step [OF Cons.prems(1) c apart v]
  have new: "pgno w \<noteq> pgno v" if "w \<in> set vs" for w
  proof
    assume "pgno w = pgno v"
    then have "pgno v \<in> pgno ` set vs" using that by (metis image_eqI)
    then show False using Cons.prems(3) by simp
  qed
  have next_ok: "\<forall>w \<in> set vs. 4096 dvd unat w \<and> PHY_MEM \<le> w \<and> w < USR_MEM \<and> (dirno w, tblno w) \<notin> insert (dirno v, tblno v) V"
    using Cons.prems(2) new page_index [of _ v] by auto
  show ?case
    unfolding forS.simps runs_simps
  proof (rule runs_mono [OF step])
    fix t assume "copying ?n c p ps0 s0 (insert (dirno v, tblno v) V) t"
    from Cons.IH [OF this next_ok] Cons.prems(3)
    show "runs (if 2 * length (filter (\<lambda>v. \<not> ?none v) (v # vs)) \<le> n then {} else {Abort}) (forS (vm_copy_page p) vs)
        (\<lambda>_ t. \<exists>n. copying n c p ps0 s0 (V \<union> (\<lambda>v. (dirno v, tblno v)) ` set (v # vs)) t) t"
      by (auto elim!: runs_mono split: if_splits)
  qed auto
qed

lemma copycurr_runs:
  assumes "heap s ps" "space (mem s) c" "space (mem s) p" "PAGE_DOWN (cr3 s) = c"
    and "owned (mem s) c \<inter> owned (mem s) p = {}" "set ps \<inter> (owned (mem s) c \<union> owned (mem s) p) = {}"
    and "frames (mem s) p = {}"
  shows "runs (if 2 * length (filter (\<lambda>v. frame (mem s) c (dirno v) (tblno v) \<noteq> None) (pages PHY_MEM USR_MEM)) \<le> length ps
      then {} else {Abort}) (vm_copycurr p)
    (\<lambda>_ t. \<exists>n. copying n c p ps s {ij. \<exists>v. PHY_MEM \<le> v \<and> v < USR_MEM \<and> ij = (dirno v, tblno v)} t) s"
proof -
  have al: "4096 dvd unat PHY_MEM" "4096 dvd unat USR_MEM" by (simp_all add: memory_consts)
  have "frame (mem s) p i j = None" if "user i" "j < 1024" for i j
    using owned_frame [OF that, of "mem s" p] assms(7) by (cases "frame (mem s) p i j") auto
  then have start: "copying (length ps) c p ps s {} s"
    using assms by (auto simp: copying_def split: option.split)
  have vs: "\<forall>v \<in> set (pages PHY_MEM USR_MEM). 4096 dvd unat v \<and> PHY_MEM \<le> v \<and> v < USR_MEM \<and> (dirno v, tblno v) \<notin> {}"
    using pages_pgno(2) [OF al] pages_index(2) [OF al] by simp
  have "(\<lambda>v. (dirno v, tblno v)) ` set (pages PHY_MEM USR_MEM) = {ij. \<exists>v. PHY_MEM \<le> v \<and> v < USR_MEM \<and> ij = (dirno v, tblno v)}"
    using pages_index [OF al] by blast
  then show ?thesis
    using copying_list [OF start assms(2,4) _ vs] assms(5,6) pages_pgno(1) [OF al]
    unfolding vm_copycurr_def by (auto simp: Int_Un_distrib Int_commute)
qed

text \<open>
  C2. \<open>vm_copycurr\<close>, the copy \<open>fork\<close> makes. When the current address space and the empty new
  one own their pages alone, \<open>vm_copycurr\<close> returns whenever the heap has two pages for every page the current space maps
  (and otherwise returns or aborts), with the new directory
  mapping exactly the addresses in \<open>[PHY_MEM, USR_MEM)\<close> the current one maps, each to a different physical
  byte that holds the same value, and with the current address space as it was.
\<close>
theorem vm_copycurr_copies:
  assumes "heap s ps" "space (mem s) c" "space (mem s) p" "PAGE_DOWN (cr3 s) = c"
    and "owned (mem s) c \<inter> owned (mem s) p = {}" "set ps \<inter> (owned (mem s) c \<union> owned (mem s) p) = {}"
    and "frames (mem s) p = {}"
  shows "runs (if 2 * length (filter (\<lambda>v. mmu s v \<noteq> None) (pages PHY_MEM USR_MEM)) \<le> length ps then {} else {Abort})
    (vm_copycurr p) (\<lambda>_ t. \<forall>v. PHY_MEM \<le> v \<and> v < USR_MEM \<longrightarrow>
      (case mmu s v of
         None \<Rightarrow> mmu t v = None \<and> mmu (t\<lparr>cr3 := p\<rparr>) v = None
       | Some a \<Rightarrow> mmu t v = Some a \<and> mem t a = mem s a \<and>
           (\<exists>b. mmu (t\<lparr>cr3 := p\<rparr>) v = Some b \<and> b \<noteq> a \<and> mem t b = mem s a))) s"
proof (rule runs_mono [OF copycurr_runs [OF assms]], elim exE, intro allI impI)
  fix x t n v
  assume cp: "copying n c p ps s {ij. \<exists>v. PHY_MEM \<le> v \<and> v < USR_MEM \<and> ij = (dirno v, tblno v)} t"
    and v: "PHY_MEM \<le> v \<and> v < USR_MEM"
  have ij: "user (dirno v)" "tblno v < 1024" using user_dirno v dirno_less(2) by auto
  have old: "\<forall>x. pgno x \<in> pgno ` owned (mem s) c \<longrightarrow> mem t x = mem s x" and cr3: "cr3 t = cr3 s"
    and own: "owned (mem t) p \<subseteq> owned (mem s) p \<union> set ps"
    using cp unfolding copying_def by auto
  have at: "case frame (mem s) c (dirno v) (tblno v) of None \<Rightarrow> frame (mem t) p (dirno v) (tblno v) = None
     | Some f \<Rightarrow> \<exists>g. frame (mem t) p (dirno v) (tblno v) = Some g \<and> (\<forall>x. pgno x = pgno g \<longrightarrow> mem t x = mem s (f + (x - g)))"
    by (rule copyingD [OF cp ij]) (use v in blast)
  have "\<forall>x. pgno x \<in> pgno ` insert c (tabs (mem s) c) \<longrightarrow> mem t x = mem s x" using old by (auto simp: owned_def)
  note fr = space_cong(2) [OF assms(2) this ij]
  have p: "PAGE_DOWN (cr3 (t\<lparr>cr3 := p\<rparr>)) = p" "PAGE_DOWN (cr3 t) = c"
    using page_down_up(4) spaceD(1) [OF assms(3)] assms(4) cr3 by simp_all
  show "case mmu s v of
         None \<Rightarrow> mmu t v = None \<and> mmu (t\<lparr>cr3 := p\<rparr>) v = None
       | Some a \<Rightarrow> mmu t v = Some a \<and> mem t a = mem s a \<and>
           (\<exists>b. mmu (t\<lparr>cr3 := p\<rparr>) v = Some b \<and> b \<noteq> a \<and> mem t b = mem s a)"
  proof (cases "frame (mem s) c (dirno v) (tblno v)")
    case None
    then show ?thesis using at fr by (simp add: mmu_frame [OF assms(4)] mmu_frame [OF p(1)] mmu_frame [OF p(2)])
  next
    case (Some f)
    then obtain g where g: "frame (mem t) p (dirno v) (tblno v) = Some g"
        "\<forall>x. pgno x = pgno g \<longrightarrow> mem t x = mem s (f + (x - g))" using at by auto
    have f: "f \<in> owned (mem s) c" "4096 dvd unat f" using owned_frame [OF ij Some] frames_space [OF assms(2)] by auto
    have go: "g \<in> owned (mem t) p" using owned_frame [OF ij g(1)] by simp
    then have "g \<noteq> f" using own f(1) assms(5,6) by auto
    have "heap_page g" using go own owned_heap [OF assms(3)] assms(1) by (auto simp: heap_def)
    then have "mem t (g + ADDR2OFF v) = mem s (f + ADDR2OFF v)"
      using g(2) off_page [OF heap_pageD(1)] by simp
    moreover have "mem t (f + ADDR2OFF v) = mem s (f + ADDR2OFF v)"
      using old off_page [OF f(2)] f(1) by simp
    ultimately show ?thesis
      using Some g(1) fr \<open>g \<noteq> f\<close> by (simp add: mmu_frame [OF assms(4)] mmu_frame [OF p(1)] mmu_frame [OF p(2)])
  qed
qed (simp add: mmu_frame [OF assms(4)])

section \<open>A small machine\<close>

text \<open>Four free pages, and two page directories that map nothing.\<close>

definition small_vm :: vm where
  "small_vm = \<lparr>mem = st32 0x200000 0x201000 (st32 0x201000 0x202000 (st32 0x202000 0x203000 (st32 0x203000 0 (\<lambda>_. 0)))),
     cr3 = 0x300000, paging = True, free_page_list = 0x200000, tss_ss0 = 0, tss_esp0 = 0, kpd = 0, kpt = 0\<rparr>"

lemma small_heap: "heap small_vm [0x200000, 0x201000, 0x202000, 0x203000]"
  by (simp add: heap_def small_vm_def heap_page_def ld32_st32_other)

theorem kalloc_kfree_witness:
  "runs {} (bindS (repS 3 kalloc) (\<lambda>rs. thenS (forS kfree (rev rs)) (retS rs)))
     (\<lambda>rs t. rs = [0x200000, 0x201000, 0x202000]) small_vm"
  by (rule runs_mono [OF kalloc_kfree [OF small_heap, of 3, THEN conjunct2]]) (simp_all add: numeral_3_eq_3)

lemma blank_space:
  assumes "heap_page pd" "blank m pd"
  shows "space m pd" "owned m pd = {pd}" "frames m pd = {}" "tabs m pd = {}"
proof -
  have n: "table m pd i = None" if "user i" for i
    using entry_zero [OF heap_pageD(1) [OF assms(1)] user_less [OF that], of m] assms(2)
    by (simp add: table_def blank_def)
  have t: "tabs m pd = {}" "frames m pd = {}" using n by (auto simp: tabs_def frames_def frame_def)
  show "tabs m pd = {}" "frames m pd = {}" by (rule t)+
  show "owned m pd = {pd}" by (simp add: owned_def t)
  show "space m pd"
    unfolding space_def owned_def t using assms(1) n table_none_frame by fastforce
qed

lemma small_blank: "blank (mem small_vm) 0x300000" "blank (mem small_vm) 0x301000"
  by (auto simp: blank_def small_vm_def st32_other pgno_def)

lemma small_space:
  "space (mem small_vm) 0x300000" "owned (mem small_vm) 0x300000 = {0x300000}"
  using blank_space [OF _ small_blank(1)] by (simp_all add: heap_page_def)

lemma small_apart: "set [0x200000, 0x201000, 0x202000, 0x203000] \<inter> owned (mem small_vm) 0x300000 = {}"
  by (simp add: small_space)

lemma small_range:
  "PAGE_DOWN 0x8000010 = 0x8000000" "PAGE_UP 0x8000014 = 0x8001000" "pages 0x8000000 0x8001000 = [0x8000000]"
  by (simp_all add: PAGE_DOWN_def PAGE_UP_def memory_consts pages_def)

theorem vm_map_maps_witness:
  "runs {} (vm_map 0x300000 0x8000010 4 7)
     (\<lambda>_ t. \<exists>a. mmu (t\<lparr>cr3 := 0x300000\<rparr>) 0x8000012 = Some a \<and> mem t a = 0) small_vm"
proof -
  have none: "mmu (small_vm\<lparr>cr3 := 0x300000\<rparr>) 0x8000012 = None"
    using blank_space(3) [OF _ small_blank(1)] owned_frame [of 32 0 "mem small_vm" "0x300000"]
    by (cases "frame (mem small_vm) 0x300000 32 0")
      (auto simp: mmu_frame heap_page_def user_def PAGE_DOWN_def memory_consts)
  have up: "PAGE_UP (0x8000010 + 4) = 0x8001000" using small_range(2) by simp
  note run = vm_map_maps [OF small_heap small_space(1) small_apart, of 7 "0x8000010" 4, unfolded up small_range]
  show ?thesis
  proof (rule runs_mono [OF run])
    fix x t
    assume "(\<exists>qs. grown 0x300000 [0x200000, 0x201000, 0x202000, 0x203000] small_vm qs t) \<and>
     (\<forall>v \<ge> PHY_MEM. case mmu (small_vm\<lparr>cr3 := 0x300000\<rparr>) v of
         None \<Rightarrow> if 0x8000000 \<le> v \<and> v < 0x8001000
                 then \<exists>a. mmu (t\<lparr>cr3 := 0x300000\<rparr>) v = Some a \<and> mem t a = 0
                 else mmu (t\<lparr>cr3 := 0x300000\<rparr>) v = None
       | Some a \<Rightarrow> mmu (t\<lparr>cr3 := 0x300000\<rparr>) v = Some a \<and> mem t a = mem small_vm a)"
    from this [THEN conjunct2, THEN spec, of "0x8000012"]
    show "\<exists>a. mmu (t\<lparr>cr3 := 0x300000\<rparr>) 0x8000012 = Some a \<and> mem t a = 0"
      using none by (simp add: PHY_MEM_def)
  qed (simp_all add: PTE_P_def PHY_MEM_def)
qed

lemma distinct_pages: "distinct (pages PHY_MEM USR_MEM)"
proof -
  have "distinct (map pgno (pages PHY_MEM USR_MEM))" by (subst pages_pgno(1)) (simp_all add: memory_consts)
  then show ?thesis by (simp add: distinct_map)
qed

theorem vm_copycurr_copies_witness:
  "runs {} (thenS (vm_map 0x300000 0x8000000 PGSIZE 7) (vm_copycurr 0x301000))
     (\<lambda>_ t. \<exists>b. mmu (t\<lparr>cr3 := 0x301000\<rparr>) 0x8000012 = Some b \<and> mmu t 0x8000012 \<noteq> Some b) small_vm"
proof -
  let ?ps = "[0x200000, 0x201000, 0x202000, 0x203000] :: u32 list" and ?c = "0x300000 :: u32" and ?p = "0x301000 :: u32"
  have copy: "runs {} (vm_copycurr ?p)
      (\<lambda>_ u. \<exists>b. mmu (u\<lparr>cr3 := ?p\<rparr>) 0x8000012 = Some b \<and> mmu u 0x8000012 \<noteq> Some b) t"
    if g: "grown ?c ?ps small_vm qs t" "length ?ps \<le> length qs + 2" and e: "extended ?c {(32, 0)} ?ps small_vm t" for qs t
  proof -
    note gs = grown_space [OF g(1)]
    have hp: "heap_page ?p" by (simp add: heap_page_def)
    have "mem t x = mem small_vm x" if "pgno x = pgno ?p" for x
      by (rule grown_keeps [OF g(1) small_heap small_space(1) small_apart, of ?p])
        (use that in \<open>simp_all add: blank_space(4) [OF _ small_blank(1)] heap_page_def\<close>)
    then have "blank (mem t) ?p" using small_blank(2) by (simp add: blank_def)
    note p = blank_space [OF hp this]
    have own: "owned (mem t) ?c \<subseteq> {?c} \<union> set ?ps" using g(1) small_space(2) unfolding grown_def by blast
    have cr3: "PAGE_DOWN (cr3 t) = ?c"
      using g(1) unfolding grown_def small_vm_def by (metis vm.select_convs(2) vm.surjective vm.update_convs(1,4) page_down_up(4) spaceD(1) gs)
    have dis: "owned (mem t) ?c \<inter> owned (mem t) ?p = {}" using own p(2) by auto
    have dis': "set qs \<inter> (owned (mem t) ?c \<union> owned (mem t) ?p) = {}" using gs p(2) by auto
    have none: "frame (mem small_vm) ?c i j = None" if "user i" "j < 1024" for i j
      using that blank_space(3) [OF _ small_blank(1)] owned_frame [OF that, of "mem small_vm" ?c]
      by (cases "frame (mem small_vm) ?c i j") (auto simp: heap_page_def)
    then obtain d where d: "frame (mem t) ?c 32 0 = Some d"
      using extendedD [OF e, of 32 0] by (auto simp: user_def)
    have "v = 0x8000000" if v: "v \<in> set (pages PHY_MEM USR_MEM)" "mmu t v \<noteq> None" for v
    proof -
      have al: "4096 dvd unat v" "PHY_MEM \<le> v"
        using v(1) pages_pgno(2) [of PHY_MEM USR_MEM v] pages_index(2) [of PHY_MEM USR_MEM v] by (simp_all add: memory_consts)
      have "frame (mem t) ?c (dirno v) (tblno v) \<noteq> None" using v(2) by (simp add: mmu_frame [OF cr3])
      then have "(dirno v, tblno v) = (32, 0)"
        using extendedD [OF e user_dirno [OF al(2)] dirno_less(2) [of v]] none [OF user_dirno [OF al(2)] dirno_less(2) [of v]]
        by (auto split: if_splits)
      then have "pgno v = pgno 0x8000000" using page_index [of v "0x8000000"] by simp
      then show ?thesis using aligned_pgno [OF al(1), of "0x8000000"] by simp
    qed
    then have "set (filter (\<lambda>v. mmu t v \<noteq> None) (pages PHY_MEM USR_MEM)) \<subseteq> {0x8000000}" by auto
    from card_mono [OF _ this] have n: "2 * length (filter (\<lambda>v. mmu t v \<noteq> None) (pages PHY_MEM USR_MEM)) \<le> length qs"
      using distinct_card [OF distinct_filter [OF distinct_pages], of "\<lambda>v. mmu t v \<noteq> None"] g(2) by simp
    have "mmu t 0x8000012 = Some (d + ADDR2OFF 0x8000012)" using d by (simp add: mmu_frame [OF cr3])
    moreover have "PHY_MEM \<le> 0x8000012 \<and> 0x8000012 < USR_MEM" by (simp add: memory_consts)
    ultimately show ?thesis
      by (intro runs_mono [OF vm_copycurr_copies [OF _ _ p(1) cr3 dis dis' p(3), unfolded if_P [OF n]]])
        (use gs in \<open>force dest!: spec [of _ "0x8000012"]\<close>)+
  qed
  have "(7 :: u32) AND NOT 7 = 0" "(7 :: u32) AND PTE_P \<noteq> 0" "user (dirno 0x8000000)" by (simp_all add: PTE_P_def user_def)
  note step = map_page_runs [OF small_heap small_space(1) small_apart this(3,1,2)]
  have one: "vm_map ?c 0x8000000 PGSIZE 7 = vm_map_page ?c 7 0x8000000" by (rule vm_map_one) (simp_all add: memory_consts)
  show ?thesis
    unfolding one runs_simps by (rule runs_mono [OF step]) (use copy in \<open>auto simp del: runs_bind\<close>)
qed

end
