(* ===== verification/KList.thy ===== *)
theory KList
  imports Prelude
begin

text \<open>
  \<open>kernel/klib/list.c\<close>: circular doubly linked lists with a head, whose nodes come from one
  pool of 256. A node is \<open>Buf i\<close> for \<open>&list_buf[i]\<close>, \<open>Free\<close> for \<open>&free_list\<close>, or \<open>Head h\<close> for
  a list head elsewhere in the kernel. The three fields of \<open>list_t\<close> are maps from nodes.

  A list is entered after its head and left before it: a queue. The locale \<open>fifo\<close> states what
  the semaphores rely on.
\<close>

section \<open>The operations\<close>

datatype 'h node = Buf nat | Free | Head 'h

record ('h, 'p) lists =
  l_ptr :: "'h node \<Rightarrow> 'p"
  l_prev :: "'h node \<Rightarrow> 'h node"
  l_next :: "'h node \<Rightarrow> 'h node"
  l_inited :: bool

definition list_add_next :: "'h node \<Rightarrow> 'h node \<Rightarrow> ('h, 'p) lists \<Rightarrow> ('h, 'p) lists" where
  "list_add_next l p s =
     (let s = s\<lparr>l_prev := (l_prev s)(p := l)\<rparr>;
          s = s\<lparr>l_next := (l_next s)(p := l_next s l)\<rparr>;
          s = s\<lparr>l_next := (l_next s)(l_prev s p := p)\<rparr>
      in s\<lparr>l_prev := (l_prev s)(l_next s p := p)\<rparr>)"

definition list_empty :: "'h node \<Rightarrow> ('h, 'p) lists \<Rightarrow> bool" where
  "list_empty l s \<longleftrightarrow> l = l_next s l"

definition list_remove_prev :: "'h node \<Rightarrow> (('h, 'p) lists, 'h node) prog" where
  "list_remove_prev l s =
     (if list_empty l s then Inl Abort
      else let p = l_prev s l;
               s = s\<lparr>l_next := (l_next s)(l_prev s p := l_next s p)\<rparr>;
               s = s\<lparr>l_prev := (l_prev s)(l_next s p := l_prev s p)\<rparr>
           in Inr (p, s))"

definition list_self :: "'h node \<Rightarrow> ('h, 'p) lists \<Rightarrow> ('h, 'p) lists" where
  "list_self l s = s\<lparr>l_prev := (l_prev s)(l := l), l_next := (l_next s)(l := l)\<rparr>"

text \<open>\<open>init_list\<close> calls \<open>list_init\<close> when \<open>inited\<close> is already set.\<close>

definition init_list :: "('h, 'p) lists \<Rightarrow> ('h, 'p) lists" where
  "init_list s = fold (\<lambda>i. list_add_next Free (Buf i)) [0 ..< 256] (list_self Free s)"

definition list_init :: "'h node \<Rightarrow> ('h, 'p) lists \<Rightarrow> ('h, 'p) lists" where
  "list_init l s = list_self l (if \<not> l_inited s then init_list (s\<lparr>l_inited := True\<rparr>) else s)"

definition list_enqueue :: "'h node \<Rightarrow> 'p \<Rightarrow> (('h, 'p) lists, 'h node) prog" where
  "list_enqueue l p = bindS (list_remove_prev Free) (\<lambda>n.
     thenS (modS (\<lambda>s. s\<lparr>l_ptr := (l_ptr s)(n := p)\<rparr>))
     (thenS (modS (list_add_next l n)) (retS n)))"

definition list_dequeue :: "'h node \<Rightarrow> (('h, 'p) lists, 'p option) prog" where
  "list_dequeue l s =
     (if list_empty l s then Inr (None, s)
      else bindS (list_remove_prev l) (\<lambda>n. bindS (getS (\<lambda>s. l_ptr s n)) (\<lambda>p.
             thenS (modS (list_add_next Free n)) (retS (Some p)))) s)"

definition list_remove :: "'h node \<Rightarrow> ('h, 'p) lists \<Rightarrow> ('h, 'p) lists" where
  "list_remove e s =
     (let s = s\<lparr>l_prev := (l_prev s)(l_next s e := l_prev s e)\<rparr>;
          s = s\<lparr>l_next := (l_next s)(l_prev s e := l_next s e)\<rparr>
      in list_add_next Free e s)"

section \<open>Rings\<close>

text \<open>
  \<open>chain s a ns b\<close>: the links lead from \<open>a\<close> through \<open>ns\<close> to \<open>b\<close>, and back. A ring is a chain
  from its head to its head.
\<close>

fun chain :: "('h, 'p) lists \<Rightarrow> 'h node \<Rightarrow> 'h node list \<Rightarrow> 'h node \<Rightarrow> bool" where
  "chain s a [] b \<longleftrightarrow> l_next s a = b \<and> l_prev s b = a"
| "chain s a (n # ns) b \<longleftrightarrow> l_next s a = n \<and> l_prev s n = a \<and> chain s n ns b"

definition ring :: "('h, 'p) lists \<Rightarrow> 'h node \<Rightarrow> 'h node list \<Rightarrow> bool" where
  "ring s h ns \<longleftrightarrow> chain s h ns h \<and> distinct (h # ns)"

lemma chain_append:
  "chain s a (xs @ x # ys) b \<longleftrightarrow> chain s a xs x \<and> chain s x ys b"
  by (induction xs arbitrary: a) auto

lemma chain_cong:
  "\<forall>n \<in> set (a # ns). l_next t n = l_next s n \<Longrightarrow> \<forall>n \<in> set (ns @ [b]). l_prev t n = l_prev s n \<Longrightarrow>
   chain t a ns b = chain s a ns b"
  by (induction ns arbitrary: a) auto

lemma ring_cong:
  "\<forall>n \<in> set (h # ns). l_next t n = l_next s n \<and> l_prev t n = l_prev s n \<Longrightarrow> ring t h ns = ring s h ns"
  unfolding ring_def using chain_cong [of h ns t s h] by auto

lemma ring_empty: "ring s h ns \<Longrightarrow> list_empty h s \<longleftrightarrow> ns = []"
  by (cases ns) (auto simp: ring_def list_empty_def)

lemma ring_self: "ring (list_self h s) h []"
  by (simp add: ring_def list_self_def)

lemma list_self_links:
  "x \<noteq> h \<Longrightarrow> l_next (list_self h s) x = l_next s x \<and> l_prev (list_self h s) x = l_prev s x"
  by (simp add: list_self_def)

lemma list_self_ptr [simp]: "l_ptr (list_self h s) = l_ptr s" "l_inited (list_self h s) = l_inited s"
  by (simp_all add: list_self_def)

text \<open>Inserting a node after the head.\<close>

lemma add_next_links:
  "l_ptr (list_add_next h n s) = l_ptr s" "l_inited (list_add_next h n s) = l_inited s"
  "h \<noteq> n \<Longrightarrow> l_next (list_add_next h n s) x = (if x = h then n else if x = n then l_next s h else l_next s x)"
  "h \<noteq> n \<Longrightarrow> l_next s h \<noteq> n \<Longrightarrow>
   l_prev (list_add_next h n s) x = (if x = l_next s h then n else if x = n then h else l_prev s x)"
  by (auto simp: list_add_next_def Let_def)

lemma ring_add:
  assumes "ring s h ns" "n \<notin> set (h # ns)"
  shows "ring (list_add_next h n s) h (n # ns)"
proof (cases ns)
  case Nil
  then show ?thesis using assms by (auto simp: ring_def add_next_links)
next
  case (Cons m ms)
  have nx: "l_next s h = m" using assms(1) Cons by (simp add: ring_def)
  have ne: "h \<noteq> n" "m \<noteq> n" using assms(2) Cons by auto
  have m: "chain s m ms h" "distinct (h # m # ms)" using assms(1) Cons by (auto simp: ring_def)
  have "chain (list_add_next h n s) m ms h = chain s m ms h"
    using m assms(2) Cons ne nx by (intro chain_cong) (auto simp: add_next_links)
  then show ?thesis using assms m Cons ne nx by (auto simp: ring_def add_next_links)
qed

lemma ring_add_other:
  assumes "ring s h ns" "ring s g ms" "set (g # ms) \<inter> set (h # ns) = {}" "n \<notin> set (h # ns)" "n \<notin> set (g # ms)"
  shows "ring (list_add_next h n s) g ms"
proof -
  have nx: "l_next s h \<in> set (h # ns)" using assms(1) by (cases ns) (auto simp: ring_def)
  then have ne: "h \<noteq> n" "l_next s h \<noteq> n" using assms(4) by auto
  have "x \<noteq> h \<and> x \<noteq> n \<and> x \<noteq> l_next s h" if "x \<in> set (g # ms)" for x
    using that assms(3,5) nx by auto
  then have "\<forall>x \<in> set (g # ms). l_next (list_add_next h n s) x = l_next s x \<and> l_prev (list_add_next h n s) x = l_prev s x"
    using ne by (simp add: add_next_links)
  then show ?thesis using ring_cong assms(2) by blast
qed

text \<open>Taking the node before the head.\<close>

lemma ring_remove:
  assumes "ring s h (ns @ [n])"
  obtains t where "list_remove_prev h s = Inr (n, t)" "ring t h ns" "l_ptr t = l_ptr s" "l_inited t = l_inited s"
    "\<And>x. x \<notin> set (h # ns) \<Longrightarrow> l_next t x = l_next s x \<and> l_prev t x = l_prev s x"
proof -
  have c: "chain s h ns n" "l_next s n = h" "l_prev s h = n" and d: "distinct (h # ns @ [n])"
    using assms by (auto simp: ring_def chain_append)
  define p where "p = l_prev s n"
  have p: "p \<in> set (h # ns)" "l_prev s n = p" "l_next s p = n"
    using c(1) unfolding p_def by (cases ns rule: rev_cases; auto simp: chain_append)+
  let ?t = "s\<lparr>l_next := (l_next s)(p := h), l_prev := (l_prev s)(h := p)\<rparr>"
  have ne: "\<not> list_empty h s" using ring_empty [OF assms] by simp
  have pn: "p \<noteq> n" using p(1) d by auto
  have ret: "list_remove_prev h s = Inr (n, ?t)"
    using ne c p pn by (simp add: list_remove_prev_def Let_def)
  have "ring ?t h ns"
  proof (cases ns rule: rev_cases)
    case Nil
    then have "p = h" using c(1) p by simp
    then show ?thesis using Nil by (simp add: ring_def)
  next
    case (snoc ms m)
    then have m: "chain s h ms m" "p = m" using c(1) p(2) by (auto simp: chain_append)
    have "chain ?t h ms m = chain s h ms m"
      using d snoc m(2) by (intro chain_cong) auto
    then show ?thesis using m d snoc by (auto simp: ring_def chain_append)
  qed
  moreover have "l_next ?t x = l_next s x \<and> l_prev ?t x = l_prev s x" if "x \<notin> set (h # ns)" for x
    using that p(1) by auto
  ultimately show thesis using that [of ?t] ret by simp
qed

section \<open>Queues\<close>

text \<open>
  \<open>queues n Q s\<close>: \<open>n\<close> nodes are free, and the list at head \<open>h\<close> holds the queue \<open>Q h\<close>, the
  oldest entry first, where \<open>Q h\<close> is not \<open>None\<close> (an initialised head).
\<close>

definition queues :: "nat \<Rightarrow> ('h \<Rightarrow> 'p list option) \<Rightarrow> ('h, 'p) lists \<Rightarrow> bool" where
  "queues n Q s \<longleftrightarrow> l_inited s \<and> (\<exists>fs N. ring s Free fs \<and> length fs = n \<and> set fs \<subseteq> range Buf \<and>
     (\<forall>h q. Q h = Some q \<longrightarrow> ring s (Head h) (N h) \<and> q = rev (map (l_ptr s) (N h)) \<and>
        set (N h) \<subseteq> range Buf \<and> set (N h) \<inter> set fs = {}) \<and>
     (\<forall>h g. Q h \<noteq> None \<and> Q g \<noteq> None \<and> h \<noteq> g \<longrightarrow> set (N h) \<inter> set (N g) = {}))"

lemma queues_init:
  assumes "queues n Q s"
  shows "queues n (Q(h \<mapsto> [])) (list_init (Head h) s)"
proof -
  obtain fs N where r: "l_inited s" "ring s Free fs" "length fs = n" "set fs \<subseteq> range Buf"
    and N: "\<And>h q. Q h = Some q \<Longrightarrow> ring s (Head h) (N h) \<and> q = rev (map (l_ptr s) (N h)) \<and>
        set (N h) \<subseteq> range Buf \<and> set (N h) \<inter> set fs = {}"
    and D: "\<And>h g. Q h \<noteq> None \<Longrightarrow> Q g \<noteq> None \<Longrightarrow> h \<noteq> g \<Longrightarrow> set (N h) \<inter> set (N g) = {}"
    using assms(1) unfolding queues_def by blast
  let ?t = "list_self (Head h) s"
  have keep: "ring ?t g ns = ring s g ns" if "g \<noteq> Head h" "set ns \<subseteq> range Buf" for g ns
    by (rule ring_cong) (use that list_self_links in auto)
  have "ring ?t (Head g) ((N(h := [])) g) \<and> q = rev (map (l_ptr ?t) ((N(h := [])) g)) \<and>
      set ((N(h := [])) g) \<subseteq> range Buf \<and> set ((N(h := [])) g) \<inter> set fs = {}"
    if "(Q(h \<mapsto> [])) g = Some q" for g q
    using that N [of g q] ring_self [of "Head h" s] keep by (cases "g = h") auto
  moreover have "set ((N(h := [])) g) \<inter> set ((N(h := [])) g') = {}"
    if "(Q(h \<mapsto> [])) g \<noteq> None" "(Q(h \<mapsto> [])) g' \<noteq> None" "g \<noteq> g'" for g g'
    by (cases "g = h"; cases "g' = h") (use that D [of g g'] in simp_all)
  moreover have "ring ?t Free fs" using r keep by simp
  ultimately show ?thesis
    using r unfolding queues_def list_init_def
    by (intro conjI exI [of _ fs] exI [of _ "N(h := [])"]) auto
qed

lemma queues_enqueue:
  assumes "queues (Suc n) Q s" "Q h = Some q"
  shows "runs {} (list_enqueue (Head h) p) (\<lambda>_ t. queues n (Q(h \<mapsto> q @ [p])) t) s"
proof -
  obtain fs N where r: "l_inited s" "ring s Free fs" "length fs = Suc n" "set fs \<subseteq> range Buf"
    and N: "\<And>h q. Q h = Some q \<Longrightarrow> ring s (Head h) (N h) \<and> q = rev (map (l_ptr s) (N h)) \<and>
        set (N h) \<subseteq> range Buf \<and> set (N h) \<inter> set fs = {}"
    and D: "\<And>h g. Q h \<noteq> None \<Longrightarrow> Q g \<noteq> None \<Longrightarrow> h \<noteq> g \<Longrightarrow> set (N h) \<inter> set (N g) = {}"
    using assms(1) unfolding queues_def by blast
  obtain gs m where fs: "fs = gs @ [m]" using r(3) unfolding length_Suc_conv_rev by blast
  obtain t where t: "list_remove_prev Free s = Inr (m, t)" "ring t Free gs" "l_ptr t = l_ptr s" "l_inited t = l_inited s"
    "\<And>x. x \<notin> set (Free # gs) \<Longrightarrow> l_next t x = l_next s x \<and> l_prev t x = l_prev s x"
    using ring_remove [OF r(2) [unfolded fs]] by metis
  let ?u = "t\<lparr>l_ptr := (l_ptr t)(m := p)\<rparr>"
  let ?v = "list_add_next (Head h) m ?u"
  have dist: "m \<notin> set gs" "m \<in> range Buf" "set gs \<subseteq> range Buf" using r(2,4) fs by (auto simp: ring_def)
  have links: "l_next ?u x = l_next s x \<and> l_prev ?u x = l_prev s x" if "x \<notin> set (Free # gs)" for x
    using t(5) [OF that] by simp
  have rings: "ring ?u (Head g) (N g)" if "Q g = Some q'" for g q'
  proof -
    have "\<forall>x \<in> set (Head g # N g). x \<notin> set (Free # gs)" using N [OF that] fs dist by auto
    then show ?thesis using N [OF that] ring_cong [of "Head g" "N g" ?u s] links by blast
  qed
  have free: "ring ?u Free gs" using t(2) ring_cong [of Free gs ?u t] by simp
  have mN: "m \<notin> set (Head g # N g)" if "Q g = Some q'" for g q' using N [OF that] fs dist by auto
  have at: "ring ?v (Head h) (m # N h)" by (rule ring_add [OF rings [OF assms(2)] mN [OF assms(2)]])
  have other: "ring ?v (Head g) (N g)" if "Q g = Some q'" "g \<noteq> h" for g q'
    by (rule ring_add_other [OF rings [OF assms(2)] rings [OF that(1)] _ mN [OF assms(2)] mN [OF that(1)]])
      (use D [of g h] that assms(2) N [OF that(1)] N [OF assms(2)] in auto)
  have free': "ring ?v Free gs"
    by (rule ring_add_other [OF rings [OF assms(2)] free _ mN [OF assms(2)]])
      (use N [OF assms(2)] fs dist in auto)
  have ptr: "l_ptr ?v = (l_ptr s)(m := p)" by (simp add: add_next_links t(3))
  let ?N = "N(h := m # N h)"
  have "ring ?v (Head g) (?N g) \<and> q' = rev (map (l_ptr ?v) (?N g)) \<and> set (?N g) \<subseteq> range Buf \<and> set (?N g) \<inter> set gs = {}"
    if "(Q(h \<mapsto> q @ [p])) g = Some q'" for g q'
  proof (cases "g = h")
    case True
    have "map ((l_ptr s)(m := p)) (N h) = map (l_ptr s) (N h)" using mN [OF assms(2)] by auto
    then show ?thesis
      using True that at N [OF assms(2)] dist fs by (auto simp: ptr)
  next
    case False
    then have g: "Q g = Some q'" using that by simp
    have "map ((l_ptr s)(m := p)) (N g) = map (l_ptr s) (N g)" using mN [OF g] by auto
    then show ?thesis using False other [OF g] N [OF g] fs by (auto simp: ptr)
  qed
  moreover have "set (?N g) \<inter> set (?N g') = {}"
    if "(Q(h \<mapsto> q @ [p])) g \<noteq> None" "(Q(h \<mapsto> q @ [p])) g' \<noteq> None" "g \<noteq> g'" for g g'
    using that D [of g g'] mN assms(2) by (auto split: if_splits)
  ultimately have "queues n (Q(h \<mapsto> q @ [p])) ?v"
    using r fs dist free' t(4) unfolding queues_def
    by (intro conjI exI [of _ gs] exI [of _ ?N]) (auto simp: add_next_links)
  then show ?thesis using t(1) by (simp add: runs_total list_enqueue_def)
qed

lemma queues_full: "queues 0 Q s \<Longrightarrow> list_enqueue (Head h) p s = Inl Abort"
  using ring_empty [of s Free "[]"] by (auto simp: queues_def list_enqueue_def list_remove_prev_def)

lemma queues_dequeue_empty:
  "queues n Q s \<Longrightarrow> Q h = Some [] \<Longrightarrow> list_dequeue (Head h) s = Inr (None, s)"
  using ring_empty [of s "Head h"] unfolding queues_def list_dequeue_def by fastforce

lemma queues_dequeue:
  assumes "queues n Q s" "Q h = Some (p # q)"
  shows "runs {} (list_dequeue (Head h)) (\<lambda>r t. r = Some p \<and> queues (Suc n) (Q(h \<mapsto> q)) t) s"
proof -
  obtain fs N where r: "l_inited s" "ring s Free fs" "length fs = n" "set fs \<subseteq> range Buf"
    and N: "\<And>h q. Q h = Some q \<Longrightarrow> ring s (Head h) (N h) \<and> q = rev (map (l_ptr s) (N h)) \<and>
        set (N h) \<subseteq> range Buf \<and> set (N h) \<inter> set fs = {}"
    and D: "\<And>h g. Q h \<noteq> None \<Longrightarrow> Q g \<noteq> None \<Longrightarrow> h \<noteq> g \<Longrightarrow> set (N h) \<inter> set (N g) = {}"
    using assms(1) unfolding queues_def by blast
  obtain ns m where ns: "N h = ns @ [m]" using N [OF assms(2)] by (cases "N h" rule: rev_cases) auto
  have m: "l_ptr s m = p" "q = rev (map (l_ptr s) ns)" using N [OF assms(2)] ns by auto
  have ne: "\<not> list_empty (Head h) s" using N [OF assms(2)] ring_empty ns by fastforce
  obtain t where t: "list_remove_prev (Head h) s = Inr (m, t)" "ring t (Head h) ns" "l_ptr t = l_ptr s" "l_inited t = l_inited s"
    "\<And>x. x \<notin> set (Head h # ns) \<Longrightarrow> l_next t x = l_next s x \<and> l_prev t x = l_prev s x"
    using ring_remove [OF N [OF assms(2), THEN conjunct1, unfolded ns]] by metis
  let ?v = "list_add_next Free m t"
  have dist: "m \<notin> set ns" "m \<in> range Buf" "set ns \<subseteq> range Buf" "m \<notin> set fs" "set ns \<inter> set fs = {}"
    using N [OF assms(2)] ns by (auto simp: ring_def)
  have apart: "set (N g) \<inter> set (ns @ [m]) = {}" if "Q g = Some q'" "g \<noteq> h" for g q'
    using D [of g h] that assms(2) ns by auto
  have rings: "ring t (Head g) (N g)" if g: "Q g = Some q'" "g \<noteq> h" for g q'
  proof -
    have "\<forall>x \<in> set (Head g # N g). x \<notin> set (Head h # ns)" using N [OF g(1)] apart [OF g] g(2) dist by auto
    then show ?thesis using N [OF g(1)] ring_cong [of "Head g" "N g" t s] t(5) by blast
  qed
  have free: "ring t Free fs"
  proof -
    have "\<forall>x \<in> set (Free # fs). x \<notin> set (Head h # ns)" using r(4) dist by auto
    then show ?thesis using r(2) ring_cong [of Free fs t s] t(5) by blast
  qed
  have mf: "m \<notin> set (Free # fs)" using dist by auto
  have free': "ring ?v Free (m # fs)" by (rule ring_add [OF free mf])
  have other: "ring ?v (Head g) (N g)" if g: "Q g = Some q'" "g \<noteq> h" for g q'
    by (rule ring_add_other [OF free rings [OF g] _ mf])
      (use N [OF g(1)] apart [OF g] r(4) dist in auto)
  have here: "ring ?v (Head h) ns"
    by (rule ring_add_other [OF free t(2) _ mf]) (use r(4) dist in auto)
  let ?N = "N(h := ns)"
  have "ring ?v (Head g) (?N g) \<and> q' = rev (map (l_ptr ?v) (?N g)) \<and> set (?N g) \<subseteq> range Buf \<and> set (?N g) \<inter> set (m # fs) = {}"
    if "(Q(h \<mapsto> q)) g = Some q'" for g q'
  proof (cases "g = h")
    case True
    then show ?thesis using that here m t(3) dist by (auto simp: add_next_links)
  next
    case False
    then have g: "Q g = Some q'" using that by simp
    show ?thesis using False other [OF g] N [OF g] apart [OF g] t(3) by (auto simp: add_next_links)
  qed
  moreover have "set (?N g) \<inter> set (?N g') = {}"
    if "(Q(h \<mapsto> q)) g \<noteq> None" "(Q(h \<mapsto> q)) g' \<noteq> None" "g \<noteq> g'" for g g'
    using that D [of g g'] apart assms(2) by (auto split: if_splits)
  ultimately have "queues (Suc n) (Q(h \<mapsto> q)) ?v"
    using r dist free' t(4) unfolding queues_def
    by (intro conjI exI [of _ "m # fs"] exI [of _ ?N]) (auto simp: add_next_links)
  then show ?thesis using t m ne by (simp add: runs_total list_dequeue_def)
qed

section \<open>The contract of a queue\<close>

text \<open>The pool after \<open>init_list\<close>: all nodes are free.\<close>

lemma ring_pool:
  "k \<le> 256 \<Longrightarrow> ring (fold (\<lambda>i. list_add_next Free (Buf i)) [0 ..< k] (list_self Free s)) Free (rev (map Buf [0 ..< k]))"
  by (induction k) (auto simp: ring_self intro!: ring_add)

lemma fold_add_inited: "l_inited (fold (\<lambda>i. list_add_next Free (Buf i)) xs s) = l_inited s"
  by (induction xs arbitrary: s) (simp_all add: list_add_next_def Let_def)

lemma queues_boot:
  assumes "\<not> l_inited s"
  shows "queues 256 [h \<mapsto> []] (list_init (Head h) s)"
proof -
  let ?t = "init_list (s\<lparr>l_inited := True\<rparr>)"
  have "ring ?t Free (rev (map Buf [0 ..< 256]))"
    unfolding init_list_def by (rule ring_pool) simp
  moreover have "l_inited ?t" unfolding init_list_def fold_add_inited by simp
  ultimately have "queues 256 Map.empty ?t"
    unfolding queues_def by (intro conjI exI [of _ "rev (map Buf [0 ..< 256])"]) auto
  from queues_init [OF this, of h] show ?thesis
    using assms \<open>l_inited ?t\<close> by (simp add: list_init_def)
qed

locale fifo =
  fixes rel :: "nat \<Rightarrow> ('h \<Rightarrow> 'p list option) \<Rightarrow> 's \<Rightarrow> bool"
    and enq :: "'h \<Rightarrow> 'p \<Rightarrow> ('s, 'n) prog"
    and deq :: "'h \<Rightarrow> ('s, 'p option) prog"
  assumes enq_law: "rel (Suc n) Q s \<Longrightarrow> Q h = Some q \<Longrightarrow>
      runs {} (enq h p) (\<lambda>_ t. rel n (Q(h \<mapsto> q @ [p])) t) s"
    and full_law: "rel 0 Q s \<Longrightarrow> enq h p s = Inl Abort"
    and empty_law: "rel n Q s \<Longrightarrow> Q h = Some [] \<Longrightarrow> deq h s = Inr (None, s)"
    and deq_law: "rel n Q s \<Longrightarrow> Q h = Some (p # q) \<Longrightarrow>
      runs {} (deq h) (\<lambda>r t. r = Some p \<and> rel (Suc n) (Q(h \<mapsto> q)) t) s"
begin

lemma enq_all:
  "rel (length ps + n) Q s \<Longrightarrow> Q h = Some q \<Longrightarrow>
   runs {} (forS (\<lambda>p. thenS (enq h p) (retS ())) ps) (\<lambda>_ t. rel n (Q(h \<mapsto> q @ ps)) t) s"
proof (induction ps arbitrary: q Q s)
  case Nil
  then have "Q(h \<mapsto> q) = Q" by auto
  then show ?case using Nil by (simp add: runs_def)
next
  case (Cons p ps)
  have step: "runs {} (enq h p) (\<lambda>_ t. rel (length ps + n) (Q(h \<mapsto> q @ [p])) t) s"
    using Cons.prems by (intro enq_law) auto
  have rest: "runs {} (forS (\<lambda>p. thenS (enq h p) (retS ())) ps) (\<lambda>_ t. rel n (Q(h \<mapsto> q @ p # ps)) t) t"
    if "rel (length ps + n) (Q(h \<mapsto> q @ [p])) t" for t
    using Cons.IH [where Q = "Q(h \<mapsto> q @ [p])", OF that fun_upd_same]
    by (simp only: fun_upd_upd append_assoc append_Cons append_Nil add_Suc_right)
  show ?case
    by (simp only: forS.simps runs_simps, rule runs_mono [OF step]) (use rest in simp_all)
qed

lemma deq_all:
  "rel n Q s \<Longrightarrow> Q h = Some (ps @ q) \<Longrightarrow>
   runs {} (repS (length ps) (deq h)) (\<lambda>rs t. rs = map Some ps \<and> rel (length ps + n) (Q(h \<mapsto> q)) t) s"
proof (induction ps arbitrary: n Q s)
  case Nil
  then have "Q(h \<mapsto> q) = Q" by auto
  then show ?case using Nil by (simp add: runs_def)
next
  case (Cons p ps)
  have step: "runs {} (deq h) (\<lambda>r t. r = Some p \<and> rel (Suc n) (Q(h \<mapsto> ps @ q)) t) s"
    using Cons.prems by (intro deq_law) auto
  have rest: "runs {} (repS (length ps) (deq h))
      (\<lambda>rs t. rs = map Some ps \<and> rel (Suc (length ps + n)) (Q(h \<mapsto> q)) t) t"
    if "rel (Suc n) (Q(h \<mapsto> ps @ q)) t" for t
    using Cons.IH [where Q = "Q(h \<mapsto> ps @ q)", OF that fun_upd_same]
    by (simp only: fun_upd_upd append_assoc append_Cons append_Nil add_Suc_right)
  show ?case
    by (simp only: repS.simps runs_bind runs_simps length_Cons, rule runs_mono [OF step])
      (auto intro!: runs_mono [OF rest])
qed

text \<open>What enters a queue leaves it in order, and the other queues stay as they were.\<close>

lemma first_in_first_out:
  assumes "rel (length ps + n) Q s" "Q h = Some []"
  shows "runs {} (thenS (forS (\<lambda>p. thenS (enq h p) (retS ())) ps) (repS (length ps) (deq h)))
    (\<lambda>rs t. rs = map Some ps \<and> rel (length ps + n) Q t \<and> deq h t = Inr (None, t)) s"
proof -
  have again: "Q(h \<mapsto> ps, h \<mapsto> []) = Q" using assms(2) by auto
  have "runs {} (repS (length ps) (deq h))
      (\<lambda>rs t. rs = map Some ps \<and> rel (length ps + n) Q t \<and> deq h t = Inr (None, t)) t"
    if "rel n (Q(h \<mapsto> [] @ ps)) t" for t
    using deq_all [of n "Q(h \<mapsto> ps)" t h ps "[]"] that again empty_law assms(2)
    by (auto elim: runs_mono)
  then show ?thesis using enq_all [OF assms] by (auto elim: runs_mono)
qed

end

interpretation lq: fifo queues "\<lambda>h. list_enqueue (Head h)" "\<lambda>h. list_dequeue (Head h)"
  by unfold_locales (auto intro: queues_enqueue queues_full queues_dequeue_empty queues_dequeue)

text \<open>
  C35. From a pool with enough free nodes, entries put into an empty list with \<open>list_enqueue\<close>
  come out of \<open>list_dequeue\<close> in the order they went in; then the list is empty again
  (\<open>list_dequeue\<close> gives \<open>NULL\<close>), every node used is free again, and all other lists hold what
  they held.
\<close>
theorem list_fifo:
  assumes "queues (length ps + n) Q s" "Q h = Some []"
  shows "runs {} (thenS (forS (\<lambda>p. thenS (list_enqueue (Head h) p) (retS ())) ps)
      (repS (length ps) (list_dequeue (Head h))))
    (\<lambda>rs t. rs = map Some ps \<and> queues (length ps + n) Q t \<and> list_dequeue (Head h) t = Inr (None, t)) s"
  by (rule lq.first_in_first_out [OF assms])

text \<open>The kernel's lists at start: three semaphores, the pool untouched.\<close>

definition boot_lists :: "(nat, nat) lists" where
  "boot_lists = \<lparr>l_ptr = (\<lambda>_. 0), l_prev = (\<lambda>_. Free), l_next = (\<lambda>_. Free), l_inited = False\<rparr>"

lemma boot_queues: "queues 256 [0 \<mapsto> [], 1 \<mapsto> []] (list_init (Head 1) (list_init (Head 0) boot_lists))"
  by (rule queues_init, rule queues_boot) (simp add: boot_lists_def)

theorem list_fifo_witness:
  "runs {} (thenS (forS (\<lambda>p. thenS (list_enqueue (Head 1) p) (retS ())) [7, 8, 9])
      (repS 3 (list_dequeue (Head 1))))
    (\<lambda>rs t. rs = [Some 7, Some 8, Some 9]) (list_init (Head 1) (list_init (Head 0) boot_lists))"
proof -
  have pool: "queues (length [7 :: nat, 8, 9] + 253) [0 \<mapsto> [], 1 \<mapsto> []]
      (list_init (Head 1) (list_init (Head 0) boot_lists))" using boot_queues by simp
  have three: "3 = length [7 :: nat, 8, 9]" by simp
  show ?thesis
    unfolding three by (rule runs_mono [OF list_fifo [OF pool]]) simp_all
qed

text \<open>
  The pool of list nodes bounds all queues together: from the state \<open>init_list\<close> makes,
  entries can be queued until all 256 nodes are used, and the next \<open>list_enqueue\<close> aborts.
\<close>
lemma list_pool_bound:
  assumes "\<not> l_inited s" "length ps = 256"
  shows "runs {} (forS (\<lambda>p. thenS (list_enqueue (Head h) p) (retS ())) ps)
    (\<lambda>_ t. list_enqueue (Head h) p t = Inl Abort) (list_init (Head h) s)"
  using lq.enq_all [of ps 0 "[h \<mapsto> []]" "list_init (Head h) s" h "[]"] queues_boot [OF assms(1), of h] assms(2)
  by (auto elim!: runs_mono intro: queues_full)

lemma list_pool_bound_witness:
  "runs {} (forS (\<lambda>p. thenS (list_enqueue (Head 5) p) (retS ())) (replicate 256 3))
    (\<lambda>_ t. list_enqueue (Head 5) 4 t = Inl Abort) (list_init (Head 5) boot_lists)"
  by (rule list_pool_bound) (simp_all add: boot_lists_def)

end
