(* ===== verification/Kern.thy ===== *)
theory Kern
  imports KList Vme Fs
begin

text \<open>
  The state of the kernel: the process table, the tables of open files and user semaphores, the
  list nodes, memory, the file system and the devices; with the calls from one component into
  another (\<open>on_vm\<close>, \<open>on_fs\<close>, \<open>on_lists\<close>).

  A pointer to a \<open>proc_t\<close>, \<open>file_t\<close> or \<open>usem_t\<close> is an index into its table, \<open>NULL\<close> is \<open>None\<close>.
  The trap frame at the top of a process's kernel stack is \<open>frame_of\<close>. What else is on that
  stack when the process is switched away is the rest of the kernel code it was executing; the
  places from which \<open>INT(0x81)\<close> is raised are finitely many, and \<open>kont\<close> names them.
\<close>

section \<open>Processes\<close>

record Context =
  r_ds :: u32
  r_ebp :: u32
  r_edi :: u32
  r_esi :: u32
  r_edx :: u32
  r_ecx :: u32
  r_ebx :: u32
  r_eax :: u32
  r_irq :: u32
  r_errcode :: u32
  r_eip :: u32
  r_cs :: u32
  r_eflags :: u32
  r_esp :: u32
  r_ss :: u32

datatype status = UNUSED | UNINIT | RUNNING | READY | ZOMBIE | BLOCKED

text \<open>
  Where a process resumes: at its trap frame (\<open>KUser\<close>: a new process, or the end of
  \<open>timer_handle\<close>), after the call of \<open>proc_yield\<close> in \<open>sys_yield\<close>, in the loop of \<open>sys_sleep\<close>,
  after the \<open>sem_p\<close> of \<open>sys_sem_p\<close>, in the loop of \<open>sys_wait\<close>, after the \<open>sem_p\<close> of the
  \<open>getchar\<close> that fetches byte \<open>i\<close> of \<open>serial_read(buf, count)\<close>, or at the end of \<open>sys_exit\<close>.
\<close>

datatype kont =
    KUser
  | KYield
  | KSleep u32 u32
  | KSemP
  | KWait u32
  | KRead u32 u32 nat
  | KExit

record proc =
  pid :: u32
  status :: status
  pgdir :: u32
  brk :: u32
  kstack :: u32
  frame_of :: Context
  kont :: kont
  parent :: "nat option"
  child_num :: u32
  exit_code :: u32
  usems :: "nat option list"
  fds :: "nat option list"
  cwd :: "nat option"

abbreviation (input) "PROC_NUM \<equiv> 64 :: nat"
abbreviation (input) "MAX_USEM \<equiv> 32 :: nat"
abbreviation (input) "MAX_UFILE \<equiv> 32 :: nat"

section \<open>Files and semaphores\<close>

record file_t =
  f_type :: u32
  f_ref :: u32
  readable :: bool
  writable :: bool
  f_inode :: "nat option"
  f_offset :: u32
  dev_op :: "nat option"

text \<open>The semaphores of the kernel, by where they are: in a \<open>proc_t\<close>, in \<open>user_sem\<close>, or \<open>serial_sem\<close>.\<close>

datatype sem_t = Zombie_Sem nat | User_Sem nat | Serial_Sem

section \<open>The kernel\<close>

record kern =
  vmem :: vm
  fsys :: fs
  klists :: "(sem_t, nat) lists"
  sem_value :: "sem_t \<Rightarrow> u32"
  usem_ref :: "u32 list"
  file_tab :: "file_t list"
  pcb :: "proc list"
  curr :: nat
  next_pid :: u32
  tick :: u32
  buffer :: "byte list"
  buf_head :: u32
  buf_tail :: u32
  clapboard :: u32
  screen :: "byte list"
  unset :: "byte list"

type_synonym 'a kprog = "(kern, 'a) prog"

definition on_vm :: "(vm, 'a) prog \<Rightarrow> 'a kprog" where
  "on_vm m s = (case m (vmem s) of Inl e \<Rightarrow> Inl e | Inr (x, t) \<Rightarrow> Inr (x, s\<lparr>vmem := t\<rparr>))"

definition on_fs :: "'a fsprog \<Rightarrow> 'a kprog" where
  "on_fs m s = (case m (fsys s) of Inl e \<Rightarrow> Inl e | Inr (x, t) \<Rightarrow> Inr (x, s\<lparr>fsys := t\<rparr>))"

definition on_lists :: "((sem_t, nat) lists, 'a) prog \<Rightarrow> 'a kprog" where
  "on_lists m s = (case m (klists s) of Inl e \<Rightarrow> Inl e | Inr (x, t) \<Rightarrow> Inr (x, s\<lparr>klists := t\<rparr>))"

abbreviation proc_at :: "nat \<Rightarrow> kern \<Rightarrow> proc" where
  "proc_at i s \<equiv> pcb s ! i"

definition set_proc :: "nat \<Rightarrow> (proc \<Rightarrow> proc) \<Rightarrow> unit kprog" where
  "set_proc i f = modS (\<lambda>s. s\<lparr>pcb := (pcb s)[i := f (pcb s ! i)]\<rparr>)"

definition set_file :: "nat \<Rightarrow> (file_t \<Rightarrow> file_t) \<Rightarrow> unit kprog" where
  "set_file i f = modS (\<lambda>s. s\<lparr>file_tab := (file_tab s)[i := f (file_tab s ! i)]\<rparr>)"

definition proc_curr :: "nat kprog" where
  "proc_curr = getS curr"

text \<open>\<open>++\<close> on an \<open>int\<close>: past the greatest one C gives it no meaning.\<close>

definition int_inc :: "u32 \<Rightarrow> u32 kprog" where
  "int_inc n = (if n = 0x7fffffff then stopS Undef else retS (n + 1))"

section \<open>Calls that may block\<close>

text \<open>
  A system call returns a value to its caller (\<open>Value None\<close>: a handler of type \<open>void\<close>, whose
  caller finds whatever is in the register), raises \<open>INT(0x81)\<close> and leaves \<open>kont\<close> to do, or goes to the
  process by \<open>irq_iret\<close>.
\<close>

datatype call = Value "u32 option" | Switch kont | Iret

section \<open>Memory of the process\<close>

text \<open>
  A pointer from a process is an address under the current page directory. The kernel reads and
  writes through it; a page that is not present is a page fault, which panics. Below \<open>PHY_MEM\<close>
  lie the kernel's own objects: the code does not check for it, and C gives it no meaning.
\<close>

definition user_at :: "u32 \<Rightarrow> kern \<Rightarrow> u32 res" where
  "user_at va s = (if va < PHY_MEM then Inl Undef else
     case mmu (vmem s) va of None \<Rightarrow> Inl Abort | Some pa \<Rightarrow> Inr pa)"

definition user_load :: "u32 \<Rightarrow> byte kprog" where
  "user_load va s = bindR (user_at va s) (\<lambda>pa. Inr (mem (vmem s) pa, s))"

definition user_store :: "u32 \<Rightarrow> byte \<Rightarrow> unit kprog" where
  "user_store va v s = bindR (user_at va s) (\<lambda>pa.
     Inr ((), s\<lparr>vmem := (vmem s)\<lparr>mem := (mem (vmem s))(pa := v)\<rparr>\<rparr>))"

definition user_loads :: "u32 \<Rightarrow> nat \<Rightarrow> (byte list) kprog" where
  "user_loads va n = foldr (\<lambda>i m. bindS (user_load (va + of_nat i)) (\<lambda>b. bindS m (\<lambda>bs. retS (b # bs)))) [0 ..< n] (retS [])"

definition user_stores :: "u32 \<Rightarrow> byte list \<Rightarrow> unit kprog" where
  "user_stores va bs = forS (\<lambda>i. user_store (va + of_nat i) (bs ! i)) [0 ..< length bs]"

definition user_load32 :: "u32 \<Rightarrow> u32 kprog" where
  "user_load32 va = bindS (user_loads va 4) (\<lambda>bs. retS (of_le32 bs))"

text \<open>The string at \<open>va\<close>, up to and with its NUL.\<close>

function user_str :: "u32 \<Rightarrow> (byte list) kprog" where
  "user_str va s =
     (case user_load va s of Inl e \<Rightarrow> Inl e
      | Inr (c, _) \<Rightarrow> if c = 0 then Inr ([0], s)
          else if va = - 1 then Inl Undef
          else bindS (user_str (va + 1)) (\<lambda>cs. retS (c # cs)) s)"
  by pat_completeness auto
termination
proof (relation "measure (\<lambda>(va, s). 4294967296 - unat va)")
  fix va :: u32 and s :: kern
  assume "va \<noteq> - 1"
  have "unat va \<noteq> 4294967295"
  proof
    assume "unat va = 4294967295"
    then have "va = - 1" using unat_u32_minus [of 1] by (intro unsigned_word_eqI [where ?'a = nat]) simp
    then show False using \<open>va \<noteq> - 1\<close> by simp
  qed
  then have "unat (va + 1) = unat va + 1"
    using unat_u32 [of va] unat_add_u32 [of va 1] by simp
  then show "((va + 1, t), va, s) \<in> measure (\<lambda>(va, s). 4294967296 - unat va)" for t
    using unat_u32 [of va] unat_u32 [of "va + 1"] by simp
qed simp

declare user_str.simps [simp del]

end
