(* ===== verification/Sem.thy ===== *)
theory Sem
  imports Kern
begin

text \<open>
  \<open>kernel/src/sem.c\<close>, with \<open>proc_addready\<close>, \<open>proc_yield\<close> and \<open>proc_block\<close> of \<open>proc.c\<close>.

  \<open>sem_p\<close> says whether it blocked the current process. Then it has raised \<open>INT(0x81)\<close>, and the
  caller must leave with \<open>Switch\<close>; it goes on when a \<open>sem_v\<close> has taken the process out of the queue.
  The value is an \<open>int\<close>: decrementing the least one and incrementing the greatest one is undefined in C.
\<close>

definition proc_addready :: "nat \<Rightarrow> unit kprog" where
  "proc_addready i = set_proc i (\<lambda>p. p\<lparr>status := READY\<rparr>)"

text \<open>Up to the \<open>INT(0x81)\<close>.\<close>

definition proc_yield :: "unit kprog" where
  "proc_yield = bindS proc_curr (\<lambda>c. set_proc c (\<lambda>p. p\<lparr>status := READY\<rparr>))"

definition proc_block :: "unit kprog" where
  "proc_block = bindS proc_curr (\<lambda>c. set_proc c (\<lambda>p. p\<lparr>status := BLOCKED\<rparr>))"

definition sem_init :: "sem_t \<Rightarrow> u32 \<Rightarrow> unit kprog" where
  "sem_init sem v = thenS (modS (\<lambda>s. s\<lparr>sem_value := (sem_value s)(sem := v)\<rparr>))
     (on_lists (modS (list_init (Head sem))))"

definition sem_p :: "sem_t \<Rightarrow> bool kprog" where
  "sem_p sem = bindS (getS (\<lambda>s. sem_value s sem)) (\<lambda>v.
     if v = 0 then
       bindS proc_curr (\<lambda>cur_proc.
       bindS (on_lists (list_enqueue (Head sem) cur_proc)) (\<lambda>_.
       thenS proc_block (retS True)))
     else if v = 0x80000000 then stopS Undef
     else thenS (modS (\<lambda>s. s\<lparr>sem_value := (sem_value s)(sem := v - 1)\<rparr>)) (retS False))"

definition sem_v :: "sem_t \<Rightarrow> unit kprog" where
  "sem_v sem = bindS (on_lists (list_dequeue (Head sem))) (\<lambda>r. case r of
       Some proc \<Rightarrow> proc_addready proc
     | None \<Rightarrow> bindS (getS (\<lambda>s. sem_value s sem)) (\<lambda>v.
         if v = 0x7fffffff then stopS Undef
         else modS (\<lambda>s. s\<lparr>sem_value := (sem_value s)(sem := v + 1)\<rparr>)))"

definition usem_alloc :: "u32 \<Rightarrow> nat option kprog" where
  "usem_alloc v = bindS (getS usem_ref) (\<lambda>tab.
     case find_slot (\<lambda>r. r = 0) tab of
       Some i \<Rightarrow> thenS (sem_init (User_Sem i) v)
         (thenS (modS (\<lambda>s. s\<lparr>usem_ref := (usem_ref s)[i := 1]\<rparr>)) (retS (Some i)))
     | None \<Rightarrow> retS None)"

definition usem_dup :: "nat \<Rightarrow> nat kprog" where
  "usem_dup i = thenS (modS (\<lambda>s. s\<lparr>usem_ref := (usem_ref s)[i := usem_ref s ! i + 1]\<rparr>)) (retS i)"

definition usem_close :: "nat \<Rightarrow> unit kprog" where
  "usem_close i = modS (\<lambda>s. s\<lparr>usem_ref := (usem_ref s)[i := usem_ref s ! i - 1]\<rparr>)"

end
