(* ===== verification/File.thy ===== *)
theory File
  imports Sem
begin

unbundle bit_operations_syntax

text \<open>
  \<open>kernel/src/serial.c\<close>, \<open>dev.c\<close> and \<open>file.c\<close>: the serial line with its line buffer, the two
  devices, and open files over inodes and devices.

  The serial port is hardware: \<open>screen\<close> is what has been sent to it; \<open>serial_handle\<close> is given the bytes
  that the port delivers until its status register says that there are no more.
\<close>

section \<open>The serial line\<close>

definition putchar :: "byte \<Rightarrow> unit kprog" where
  "putchar ch = modS (\<lambda>s. s\<lparr>screen := screen s @ [ch]\<rparr>)"

text \<open>\<open>putstrn\<close> is given memory of the process, \<open>putstr\<close> a string of the kernel.\<close>

definition putstrn :: "u32 \<Rightarrow> u32 \<Rightarrow> unit kprog" where
  "putstrn str count = forS (\<lambda>i. bindS (user_load (str + of_nat i)) putchar) [0 ..< unat count]"

definition putstr :: "byte list \<Rightarrow> unit kprog" where
  "putstr bs = forS putchar bs"

text \<open>The accesses to the ports of the line control are not modelled.\<close>

definition init_serial :: "unit kprog" where
  "init_serial = thenS (putchar 10) (sem_init Serial_Sem 0)"

text \<open>\<open>buffer[i % BUFFER_SIZE]\<close>: for a negative \<open>i\<close> the index is outside the array.\<close>

definition buf_index :: "u32 \<Rightarrow> nat res" where
  "buf_index i = (if sint i < 0 \<and> sint i mod 256 \<noteq> 0 then Inl Undef else Inr (nat (sint i mod 256)))"

definition push_back :: "byte \<Rightarrow> unit kprog" where
  "push_back ch = bindS (getS buf_tail) (\<lambda>t. bindS (int_inc t) (\<lambda>t'. bindS (liftS (buf_index t)) (\<lambda>i.
     thenS (modS (\<lambda>s. s\<lparr>buf_tail := t', buffer := (buffer s)[i := ch]\<rparr>))
     (if ch = 10 then
        bindS (getS (\<lambda>s. buf_tail s - clapboard s)) (\<lambda>n.
        thenS (forS (\<lambda>_. sem_v Serial_Sem) [0 ..< nat (sint n)])
        (modS (\<lambda>s. s\<lparr>clapboard := buf_tail s\<rparr>)))
      else retS ()))))"

definition pop_back :: "byte kprog" where
  "pop_back = bindS (getS id) (\<lambda>s.
     if clapboard s <s buf_tail s then
       bindS (liftS (buf_index (buf_tail s - 1))) (\<lambda>i.
       thenS (modS (\<lambda>s. s\<lparr>buf_tail := buf_tail s - 1\<rparr>)) (retS (buffer s ! i)))
     else retS 0)"

definition pop_front :: "byte kprog" where
  "pop_front = bindS (getS id) (\<lambda>s.
     if buf_head s <s clapboard s then
       bindS (liftS (buf_index (buf_head s))) (\<lambda>i.
       thenS (modS (\<lambda>s. s\<lparr>buf_head := buf_head s + 1\<rparr>)) (retS (buffer s ! i)))
     else retS 0)"

text \<open>One round of the loop for a byte that is not the escape character.\<close>

definition serial_char :: "byte \<Rightarrow> unit kprog" where
  "serial_char ch =
     (if ch = 0 then retS ()
      else if ch = 8 \<or> ch = 0x7f then bindS pop_back (\<lambda>c.
        if c \<noteq> 0 then thenS (putchar 8) (thenS (putchar 32) (putchar 8)) else retS ())
      else let ch = (if ch = 13 then 10 else ch) in
        if ch = 10 \<or> 32 \<le> sint ch \<and> sint ch < 127
        then thenS (putchar ch) (push_back ch) else retS ())"

fun serial_handle :: "byte list \<Rightarrow> unit kprog" where
  "serial_handle [] = retS ()"
| "serial_handle (ch # input) =
     (if ch = 0x1b then retS () else thenS (serial_char ch) (serial_handle input))"

text \<open>\<open>getchar\<close> in two parts: the \<open>sem_p\<close>, and what follows it.\<close>

definition getchar_p :: "bool kprog" where
  "getchar_p = sem_p Serial_Sem"

definition getchar_rest :: "byte kprog" where
  "getchar_rest = bindS pop_front (\<lambda>ch. thenS (assertS (ch \<noteq> 0)) (retS ch))"

definition serial_write :: "u32 \<Rightarrow> u32 \<Rightarrow> u32 kprog" where
  "serial_write buf count = thenS (putstrn buf count) (retS count)"

text \<open>
  The loop of \<open>serial_read\<close> from its head, for the bytes \<open>i\<close> up to \<open>count\<close>, and from after the
  \<open>sem_p\<close> for byte \<open>i\<close>.
\<close>

function serial_read_from :: "u32 \<Rightarrow> u32 \<Rightarrow> nat \<Rightarrow> byte \<Rightarrow> call kprog" where
  "serial_read_from buf count i ch s =
     (if i < unat count \<and> ch \<noteq> 10
      then bindS getchar_p (\<lambda>blocked.
           if blocked then retS (Switch (KRead buf count i))
           else bindS getchar_rest (\<lambda>ch.
                thenS (user_store (buf + of_nat i) ch)
                (serial_read_from buf count (i + 1) ch))) s
      else Inr (Value (Some (of_nat i)), s))"
  by pat_completeness auto
termination
  by (relation "measure (\<lambda>(buf, count, i, ch, s). unat count - i)") auto

declare serial_read_from.simps [simp del]

definition serial_read_rest :: "u32 \<Rightarrow> u32 \<Rightarrow> nat \<Rightarrow> call kprog" where
  "serial_read_rest buf count i = bindS getchar_rest (\<lambda>ch.
     thenS (user_store (buf + of_nat i) ch)
     (serial_read_from buf count (i + 1) ch))"

definition serial_read :: "u32 \<Rightarrow> u32 \<Rightarrow> call kprog" where
  "serial_read buf count = serial_read_from buf count 0 0"

section \<open>Devices\<close>

definition ban_read :: "u32 \<Rightarrow> u32 \<Rightarrow> call kprog" where
  "ban_read buf count = retS (Value (Some (- 1)))"

definition ignore_write :: "u32 \<Rightarrow> u32 \<Rightarrow> u32 kprog" where
  "ignore_write buf count = retS count"

definition dev_table :: "(string \<times> (u32 \<Rightarrow> u32 \<Rightarrow> call kprog) \<times> (u32 \<Rightarrow> u32 \<Rightarrow> u32 kprog)) list" where
  "dev_table = [(''/dev/serial'', serial_read, serial_write), (''/dev/null'', ban_read, ignore_write)]"

definition init_dev :: "nat option \<Rightarrow> unit kprog" where
  "init_dev wd = thenS (on_fs (bindS (iopen wd (bytes_of ''/dev'' @ [0]) TYPE_DIR) iclose))
     (forS (\<lambda>i. on_fs (iadddev wd (bytes_of (fst (dev_table ! i)) @ [0]) (of_nat i))) [0 ..< length dev_table])"

definition dev_get :: "u32 \<Rightarrow> nat option" where
  "dev_get id' = (if of_nat (length dev_table) \<le> id' then None else Some (unat id'))"

section \<open>Open files\<close>

definition O_WRONLY :: u32 where "O_WRONLY = 0x001"
definition O_RDWR :: u32 where "O_RDWR = 0x002"
definition O_CREATE :: u32 where "O_CREATE = 0x200"
definition O_TRUNC :: u32 where "O_TRUNC = 0x400"
definition O_DIR :: u32 where "O_DIR = 0x800"

definition falloc :: "nat option kprog" where
  "falloc = bindS (getS file_tab) (\<lambda>tab.
     case find_slot (\<lambda>f. f_ref f = 0) tab of
       Some i \<Rightarrow> thenS (set_file i (\<lambda>f. f\<lparr>f_ref := f_ref f + 1, f_type := TYPE_NONE\<rparr>)) (retS (Some i))
     | None \<Rightarrow> retS None)"

definition fdup :: "nat \<Rightarrow> nat kprog" where
  "fdup i = thenS (set_file i (\<lambda>f. f\<lparr>f_ref := f_ref f + 1\<rparr>)) (retS i)"

definition fclose :: "nat \<Rightarrow> unit kprog" where
  "fclose i = thenS (set_file i (\<lambda>f. f\<lparr>f_ref := f_ref f - 1\<rparr>))
     (bindS (getS (\<lambda>s. file_tab s ! i)) (\<lambda>f.
      if f_ref f = 0 \<and> (f_type f = TYPE_FILE \<or> f_type f = TYPE_DIR) then on_fs (iclose (f_inode f))
      else retS ()))"

text \<open>The label \<open>bad\<close>.\<close>

definition fopen_bad :: "nat option \<Rightarrow> nat option \<Rightarrow> nat option kprog" where
  "fopen_bad fp ip =
     thenS (case fp of Some i \<Rightarrow> fclose i | None \<Rightarrow> retS ())
     (thenS (case ip of Some k \<Rightarrow> on_fs (iclose (Some k)) | None \<Rightarrow> retS ())
     (retS None))"

text \<open>The assignments that depend on the kind of the inode; \<open>False\<close> for the jump to \<open>bad\<close>.\<close>

definition fopen_inode :: "nat \<Rightarrow> nat \<Rightarrow> u32 \<Rightarrow> bool kprog" where
  "fopen_inode i k mode = bindS (on_fs (getS (itype k))) (\<lambda>type.
     if type = TYPE_FILE \<or> type = TYPE_DIR then
       if type \<noteq> TYPE_DIR \<and> mode AND O_DIR \<noteq> 0 then retS False
       else if type = TYPE_DIR \<and> (mode AND O_WRONLY \<noteq> 0 \<or> mode AND O_RDWR \<noteq> 0 \<or> mode AND O_TRUNC \<noteq> 0) then retS False
       else thenS (if mode AND O_TRUNC \<noteq> 0 then on_fs (itrunc k) else retS ())
         (thenS (set_file i (\<lambda>f. f\<lparr>f_type := TYPE_FILE, f_inode := Some k, f_offset := 0\<rparr>)) (retS True))
     else if type = TYPE_DEV then
       bindS (on_fs (getS (idevid k))) (\<lambda>d.
       thenS (set_file i (\<lambda>f. f\<lparr>f_type := TYPE_DEV, dev_op := dev_get d\<rparr>))
       (thenS (on_fs (iclose (Some k))) (retS True)))
     else stopS Abort)"

definition fopen :: "nat option \<Rightarrow> byte list \<Rightarrow> u32 \<Rightarrow> nat option kprog" where
  "fopen wd path mode = bindS falloc (\<lambda>fp. case fp of
       None \<Rightarrow> fopen_bad None None
     | Some i \<Rightarrow>
         (let open_type = (if mode AND O_CREATE \<noteq> 0 then if mode AND O_DIR \<noteq> 0 then TYPE_DIR else TYPE_FILE
                           else TYPE_NONE) in
          bindS (on_fs (iopen wd path open_type)) (\<lambda>ip. case ip of
              None \<Rightarrow> fopen_bad (Some i) None
            | Some k \<Rightarrow> bindS (fopen_inode i k mode) (\<lambda>ok.
                if ok then
                  thenS (set_file i (\<lambda>f. f\<lparr>readable := (mode AND O_WRONLY = 0),
                      writable := (mode AND O_WRONLY \<noteq> 0 \<or> mode AND O_RDWR \<noteq> 0)\<rparr>))
                  (retS (Some i))
                else fopen_bad (Some i) (Some k)))))"

definition fread :: "nat \<Rightarrow> u32 \<Rightarrow> u32 \<Rightarrow> call kprog" where
  "fread i buf sz = bindS (getS (\<lambda>s. file_tab s ! i)) (\<lambda>f.
     if \<not> readable f then retS (Value (Some (- 1)))
     else if f_type f = TYPE_FILE \<or> f_type f = TYPE_DIR then
       (case f_inode f of None \<Rightarrow> stopS Undef
        | Some k \<Rightarrow> bindS (on_fs (iread k (f_offset f) sz)) (\<lambda>xs.
            thenS (user_stores buf xs)
            (let read_size = of_nat (length xs) in
             thenS (if read_size \<noteq> - 1 then set_file i (\<lambda>f. f\<lparr>f_offset := f_offset f + read_size\<rparr>) else retS ())
             (retS (Value (Some read_size))))))
     else if f_type f = TYPE_DEV then
       (case dev_op f of None \<Rightarrow> stopS Undef
        | Some d \<Rightarrow> bindS (liftS (rdR dev_table d)) (\<lambda>dev. fst (snd dev) buf sz))
     else retS (Value (Some (- 1))))"

text \<open>When the offset is past the end, \<open>iwrite\<close> returns before it reads the buffer.\<close>

definition fwrite :: "nat \<Rightarrow> u32 \<Rightarrow> u32 \<Rightarrow> u32 kprog" where
  "fwrite i buf sz = bindS (getS (\<lambda>s. file_tab s ! i)) (\<lambda>f.
     if \<not> writable f then retS (- 1)
     else if f_type f = TYPE_FILE \<or> f_type f = TYPE_DIR then
       (case f_inode f of None \<Rightarrow> stopS Undef
        | Some k \<Rightarrow> bindS (on_fs (getS (isize k))) (\<lambda>n.
            bindS (if f_offset f > n then retS [] else user_loads buf (unat sz)) (\<lambda>bs.
            bindS (on_fs (iwrite k (f_offset f) bs sz)) (\<lambda>write_size.
            thenS (if write_size \<noteq> - 1 then set_file i (\<lambda>f. f\<lparr>f_offset := f_offset f + write_size\<rparr>) else retS ())
            (retS write_size)))))
     else if f_type f = TYPE_DEV then
       (case dev_op f of None \<Rightarrow> stopS Undef
        | Some d \<Rightarrow> bindS (liftS (rdR dev_table d)) (\<lambda>dev. snd (snd dev) buf sz))
     else retS (- 1))"

definition fseek :: "nat \<Rightarrow> u32 \<Rightarrow> u32 \<Rightarrow> u32 kprog" where
  "fseek i off whence = bindS (getS (\<lambda>s. file_tab s ! i)) (\<lambda>f.
     if f_type f = TYPE_FILE \<or> f_type f = TYPE_DIR then
       bindS (if whence = 2 then
           (case f_inode f of None \<Rightarrow> stopS Undef | Some k \<Rightarrow> on_fs (getS (isize k)))
         else retS 0) (\<lambda>n.
       thenS (set_file i (\<lambda>f. f\<lparr>f_offset :=
           (if whence = 0 then off else if whence = 1 then f_offset f + off
            else if whence = 2 then n + off else f_offset f)\<rparr>))
       (getS (\<lambda>s. f_offset (file_tab s ! i))))
     else retS (- 1))"

end
