(* ===== verification/Proc.thy ===== *)
theory Proc
  imports File
begin

text \<open>
  \<open>kernel/src/proc.c\<close>: the process table, creation, exit and reaping of processes, and the round-robin
  scheduler. \<open>proc_run\<close> ends in \<open>irq_iret\<close>; what the process does then is its \<open>kont\<close>.
\<close>

definition init_proc :: "unit kprog" where
  "init_proc =
     thenS (set_proc 0 (\<lambda>p. p\<lparr>status := RUNNING\<rparr>))
     (bindS (on_vm vm_curr) (\<lambda>pd.
      thenS (set_proc 0 (\<lambda>p. p\<lparr>pgdir := pd\<rparr>))
      (thenS (sem_init (Zombie_Sem 0) 0)
      (bindS (getS (\<lambda>s. cwd (proc_at (curr s) s))) (\<lambda>wd.
       bindS (on_fs (iopen wd (bytes_of ''/'' @ [0]) TYPE_NONE)) (\<lambda>root.
       bindS proc_curr (\<lambda>c. set_proc c (\<lambda>p. p\<lparr>cwd := root\<rparr>))))))))"

definition proc_alloc :: "nat option kprog" where
  "proc_alloc = bindS (getS pcb) (\<lambda>tab.
     case find_slot (\<lambda>i. status (tab ! i) = UNUSED) [1 ..< PROC_NUM] of
       None \<Rightarrow> retS None
     | Some j \<Rightarrow>
         let i = j + 1 in
         bindS (getS next_pid) (\<lambda>n. bindS (int_inc n) (\<lambda>n'.
         thenS (modS (\<lambda>s. s\<lparr>next_pid := n'\<rparr>))
         (thenS (set_proc i (\<lambda>p. p\<lparr>pid := n, status := UNINIT\<rparr>))
         (bindS (on_vm vm_alloc) (\<lambda>pd.
          thenS (set_proc i (\<lambda>p. p\<lparr>pgdir := pd, brk := 0\<rparr>))
          (bindS (on_vm kalloc) (\<lambda>ks.
           thenS (set_proc i (\<lambda>p. p\<lparr>kstack := ks, kont := KUser, cwd := None, parent := None, child_num := 0\<rparr>))
           (thenS (sem_init (Zombie_Sem i) 0)
           (thenS (set_proc i (\<lambda>p. p\<lparr>usems := replicate MAX_USEM None, fds := replicate MAX_UFILE None\<rparr>))
           (retS (Some i))))))))))))"

definition proc_free :: "nat \<Rightarrow> unit kprog" where
  "proc_free i = bindS (getS (\<lambda>s. status (proc_at i s))) (\<lambda>st.
     if st \<noteq> RUNNING then set_proc i (\<lambda>p. p\<lparr>status := UNUSED\<rparr>) else retS ())"

definition STACK_TOP :: "u32 \<Rightarrow> u32" where
  "STACK_TOP ks = ks + 4096"

definition proc_run :: "nat \<Rightarrow> unit kprog" where
  "proc_run i =
     thenS (set_proc i (\<lambda>p. p\<lparr>status := RUNNING\<rparr>))
     (thenS (modS (\<lambda>s. s\<lparr>curr := i\<rparr>))
     (bindS (getS (proc_at i)) (\<lambda>p.
      thenS (on_vm (modS (\<lambda>v. v\<lparr>cr3 := pgdir p\<rparr>)))
      (on_vm (modS (set_tss 16 (STACK_TOP (kstack p))))))))"

definition proc_copycurr :: "nat \<Rightarrow> unit kprog" where
  "proc_copycurr i =
     bindS (getS (\<lambda>s. pgdir (proc_at i s))) (\<lambda>pd.
     thenS (on_vm (vm_copycurr pd))
     (bindS proc_curr (\<lambda>c. bindS (getS (proc_at c)) (\<lambda>me.
      thenS (set_proc i (\<lambda>p. p\<lparr>frame_of := (frame_of me)\<lparr>r_eax := 0\<rparr>, kont := KUser, brk := brk me\<rparr>))
      (thenS (set_proc c (\<lambda>p. p\<lparr>child_num := child_num p + 1\<rparr>))
      (thenS (set_proc i (\<lambda>p. p\<lparr>parent := Some c\<rparr>))
      (bindS (on_fs (idup (cwd me))) (\<lambda>wd.
       thenS (set_proc i (\<lambda>p. p\<lparr>cwd := Some wd\<rparr>))
       (thenS (forS (\<lambda>j. case usems me ! j of None \<Rightarrow> retS ()
            | Some u \<Rightarrow> thenS (set_proc i (\<lambda>p. p\<lparr>usems := (usems p)[j := Some u]\<rparr>))
                (bindS (usem_dup u) (\<lambda>_. retS ()))) [0 ..< MAX_USEM])
       (forS (\<lambda>j. case fds me ! j of None \<Rightarrow> retS ()
            | Some f \<Rightarrow> thenS (set_proc i (\<lambda>p. p\<lparr>fds := (fds p)[j := Some f]\<rparr>))
                (bindS (fdup f) (\<lambda>_. retS ()))) [0 ..< MAX_UFILE]))))))))))"

definition proc_makezombie :: "nat \<Rightarrow> u32 \<Rightarrow> unit kprog" where
  "proc_makezombie i exitcode =
     thenS (set_proc i (\<lambda>p. p\<lparr>status := ZOMBIE, exit_code := exitcode\<rparr>))
     (thenS (forS (\<lambda>j. bindS (getS (\<lambda>s. parent (proc_at j s))) (\<lambda>q.
          if q = Some i then set_proc j (\<lambda>p. p\<lparr>parent := None\<rparr>) else retS ())) [0 ..< PROC_NUM])
     (thenS (bindS (getS (\<lambda>s. parent (proc_at i s))) (\<lambda>q.
          case q of Some a \<Rightarrow> sem_v (Zombie_Sem a) | None \<Rightarrow> retS ()))
     (thenS (forS (\<lambda>j. bindS (getS (\<lambda>s. usems (proc_at i s) ! j)) (\<lambda>u. case u of None \<Rightarrow> retS ()
          | Some k \<Rightarrow> thenS (usem_close k) (set_proc i (\<lambda>p. p\<lparr>usems := (usems p)[j := None]\<rparr>)))) [0 ..< MAX_USEM])
     (thenS (forS (\<lambda>j. bindS (getS (\<lambda>s. fds (proc_at i s) ! j)) (\<lambda>f. case f of None \<Rightarrow> retS ()
          | Some k \<Rightarrow> thenS (fclose k) (set_proc i (\<lambda>p. p\<lparr>fds := (fds p)[j := None]\<rparr>)))) [0 ..< MAX_UFILE])
     (thenS (bindS (getS (\<lambda>s. cwd (proc_at i s))) (\<lambda>wd. on_fs (iclose wd)))
     (set_proc i (\<lambda>p. p\<lparr>cwd := None\<rparr>)))))))"

definition proc_findzombie :: "nat \<Rightarrow> kern \<Rightarrow> nat option" where
  "proc_findzombie i s = find_slot (\<lambda>j. parent (proc_at j s) = Some i \<and> status (proc_at j s) = ZOMBIE) [0 ..< PROC_NUM]"

definition proc_allocusem :: "nat \<Rightarrow> kern \<Rightarrow> nat option" where
  "proc_allocusem i s = find_slot (\<lambda>j. usems (proc_at i s) ! j = None) [0 ..< 32]"

definition proc_getusem :: "nat \<Rightarrow> u32 \<Rightarrow> kern \<Rightarrow> nat option" where
  "proc_getusem i sem_id s = (if sint sem_id < 0 \<or> 32 \<le> sint sem_id then None else usems (proc_at i s) ! unat sem_id)"

definition proc_allocfile :: "nat \<Rightarrow> kern \<Rightarrow> nat option" where
  "proc_allocfile i s = find_slot (\<lambda>j. fds (proc_at i s) ! j = None) [0 ..< 32]"

definition proc_getfile :: "nat \<Rightarrow> u32 \<Rightarrow> kern \<Rightarrow> nat option" where
  "proc_getfile i fd s = (if sint fd < 0 \<or> 32 \<le> sint fd then None else fds (proc_at i s) ! unat fd)"

text \<open>
  \<open>schedule\<close>: the current process is left with \<open>k\<close> to do; the loop looks at the other slots in a circle,
  and at its own slot last. If no process is \<open>READY\<close> it goes on for ever.
\<close>

definition circle :: "nat \<Rightarrow> nat list" where
  "circle c = map (\<lambda>k. (c + 1 + k) mod PROC_NUM) [0 ..< PROC_NUM]"

definition schedule :: "kont \<Rightarrow> unit kprog" where
  "schedule k = bindS proc_curr (\<lambda>c. thenS (set_proc c (\<lambda>p. p\<lparr>kont := k\<rparr>))
     (bindS (getS pcb) (\<lambda>tab.
      case find_slot (\<lambda>i. status (tab ! i) = READY) (circle c) of
        None \<Rightarrow> stopS Hang
      | Some j \<Rightarrow> proc_run (circle c ! j))))"

end
