(* ===== verification/Loader.thy ===== *)
theory Loader
  imports Proc
begin

unbundle bit_operations_syntax

text \<open>
  \<open>kernel/src/loader.c\<close>: a program is read from its ELF file into a new address space; its arguments are put
  on the new stack through the physical page of the stack.

  The ELF structures are those of \<open>elf.h\<close>: their bytes as the file has them. What a short \<open>iread\<close> does not
  fill keeps the value \<open>unset\<close> of an uninitialised variable.
\<close>

definition half_at :: "nat \<Rightarrow> byte list \<Rightarrow> u32" where
  "half_at o' bs = ucast (bs ! o') OR push_bit 8 (ucast (bs ! (o' + 1)))"

definition word_at :: "nat \<Rightarrow> byte list \<Rightarrow> u32" where
  "word_at o' bs = of_le32 (span_at o' 4 bs)"

definition e_magic :: "byte list \<Rightarrow> u32" where "e_magic elf = word_at 0 elf"
definition e_entry :: "byte list \<Rightarrow> u32" where "e_entry elf = word_at 24 elf"
definition e_phoff :: "byte list \<Rightarrow> u32" where "e_phoff elf = word_at 28 elf"
definition e_phnum :: "byte list \<Rightarrow> u32" where "e_phnum elf = half_at 44 elf"
definition p_type :: "byte list \<Rightarrow> u32" where "p_type ph = word_at 0 ph"
definition p_offset :: "byte list \<Rightarrow> u32" where "p_offset ph = word_at 4 ph"
definition p_vaddr :: "byte list \<Rightarrow> u32" where "p_vaddr ph = word_at 8 ph"
definition p_filesz :: "byte list \<Rightarrow> u32" where "p_filesz ph = word_at 16 ph"
definition p_memsz :: "byte list \<Rightarrow> u32" where "p_memsz ph = word_at 20 ph"

text \<open>\<open>iread(inode, off, &v, n)\<close> into a local variable with the bytes \<open>old\<close>.\<close>

definition iread_local :: "nat \<Rightarrow> u32 \<Rightarrow> byte list \<Rightarrow> (byte list) kprog" where
  "iread_local k off old = bindS (on_fs (iread k off (of_nat (length old)))) (\<lambda>xs.
     retS (xs @ drop (length xs) old))"

definition set_cr3 :: "u32 \<Rightarrow> unit kprog" where
  "set_cr3 pd = on_vm (modS (\<lambda>v. v\<lparr>cr3 := pd\<rparr>))"

text \<open>The body of the loop over the program headers, and the loop.\<close>

definition load_segment :: "u32 \<Rightarrow> nat \<Rightarrow> byte list \<Rightarrow> unit kprog" where
  "load_segment pd k ph =
     (if p_type ph = 1 then
        thenS (on_vm (vm_map pd (p_vaddr ph) (p_memsz ph) 7))
        (bindS (on_fs (iread k (p_offset ph) (p_filesz ph))) (\<lambda>xs.
         thenS (user_stores (p_vaddr ph) xs)
         (thenS (user_stores (p_vaddr ph + p_filesz ph) (replicate (unat (p_memsz ph - p_filesz ph)) 0))
         (on_vm (vm_map pd (USR_MEM - PGSIZE) PGSIZE 7)))))
      else retS ())"

primrec load_segments :: "u32 \<Rightarrow> nat \<Rightarrow> u32 \<Rightarrow> nat \<Rightarrow> nat \<Rightarrow> byte list \<Rightarrow> unit kprog" where
  "load_segments pd k phoff i 0 ph = retS ()"
| "load_segments pd k phoff i (Suc n) ph =
     bindS (iread_local k (phoff + of_nat (i * 32)) ph) (\<lambda>ph.
     thenS (load_segment pd k ph) (load_segments pd k phoff (i + 1) n ph))"

definition load_elf :: "u32 \<Rightarrow> byte list \<Rightarrow> u32 kprog" where
  "load_elf pd name = bindS (getS (\<lambda>s. cwd (proc_at (curr s) s))) (\<lambda>wd.
     bindS (on_fs (iopen wd name TYPE_NONE)) (\<lambda>inode. case inode of
       None \<Rightarrow> retS (- 1)
     | Some k \<Rightarrow> bindS (getS unset) (\<lambda>junk.
         bindS (iread_local k 0 (take 52 junk)) (\<lambda>elf.
         if e_magic elf \<noteq> 0x464c457f then thenS (on_fs (iclose (Some k))) (retS (- 1))
         else bindS (on_vm vm_curr) (\<lambda>curr_pgdir.
           thenS (set_cr3 pd)
           (thenS (load_segments pd k (e_phoff elf) 0 (unat (e_phnum elf)) (take 32 junk))
           (thenS (set_cr3 curr_pgdir)
           (thenS (on_fs (iclose (Some k)))
           (retS (e_entry elf))))))))))"

text \<open>
  \<open>load_arg\<close>. The pointers here are physical: \<open>stack_top\<close> points into the page of the stack. The first loop
  pushes the strings, from \<open>argc\<close> on; it collects their virtual addresses.
\<close>

definition push_bytes :: "u32 \<Rightarrow> byte list \<Rightarrow> unit kprog" where
  "push_bytes a bs = on_vm (fill a bs)"

primrec push_strings :: "byte list list \<Rightarrow> nat \<Rightarrow> u32 \<Rightarrow> u32 list \<Rightarrow> (u32 \<times> u32 list) kprog" where
  "push_strings [] argc stk vas = retS (stk, vas)"
| "push_strings (arg # args) argc stk vas =
     thenS (assertS (argc < 31))
     (bindS (liftS (strlen arg)) (\<lambda>n.
      let stk = stk - of_nat (n + 1) in
      thenS (push_bytes stk (take (n + 1) arg))
      (push_strings args (argc + 1) stk (vas @ [USR_MEM - PGSIZE + ADDR2OFF stk]))))"

definition push_word :: "u32 \<Rightarrow> u32 \<Rightarrow> u32 kprog" where
  "push_word v stk = thenS (on_vm (store (stk - 4) v)) (retS (stk - 4))"

definition load_arg :: "u32 \<Rightarrow> byte list list \<Rightarrow> u32 kprog" where
  "load_arg pd args = bindS (on_vm (vm_walk pd (USR_MEM - PGSIZE) 7)) (\<lambda>page.
     bindS (push_strings args 0 (page + PGSIZE) []) (\<lambda>(stk, vas).
     let argv_va = vas @ [0];
         stk = stk - ADDR2OFF stk mod 4 in
     bindS (foldr (\<lambda>v m. bindS m (push_word v)) argv_va (retS stk)) (\<lambda>stk.
     bindS (push_word (USR_MEM - PGSIZE + ADDR2OFF stk) stk) (\<lambda>stk.
     bindS (push_word (of_nat (length args)) stk) (\<lambda>stk.
     let stk = stk - 4 in
     retS (USR_MEM - PGSIZE + ADDR2OFF stk))))))"

definition USEL :: "u32 \<Rightarrow> u32" where
  "USEL seg = push_bit 3 seg OR 3"

text \<open>
  \<open>load_user\<close> fills the context it is given; the result is \<open>None\<close> for \<open>-1\<close>. \<open>argv\<close> fetches the argument
  strings, from the old address space.
\<close>

definition load_user :: "u32 \<Rightarrow> Context \<Rightarrow> byte list \<Rightarrow> (byte list list) kprog \<Rightarrow> Context option kprog" where
  "load_user pd ctx name argv = bindS (load_elf pd name) (\<lambda>eip.
     if eip = - 1 then retS None
     else bindS argv (\<lambda>args. bindS (load_arg pd args) (\<lambda>esp.
       retS (Some (ctx\<lparr>r_cs := USEL 3, r_ds := USEL 4, r_eip := eip, r_ss := USEL 4, r_esp := esp, r_eflags := 0x202\<rparr>)))))"

end
