(* ===== verification/Syscall.thy ===== *)
theory Syscall
  imports Loader
begin

unbundle bit_operations_syntax

text \<open>
  \<open>kernel/src/syscall.c\<close>, \<open>cte.c\<close>, \<open>timer.c\<close> and \<open>main.c\<close>: the system calls, the interrupt handler and the
  start of the kernel.

  A handler that blocks returns \<open>Switch\<close>; what it does after the \<open>INT(0x81)\<close> is a definition of its own
  (\<open>sleep_rest\<close>, \<open>wait_rest\<close>, ...), run by \<open>resume\<close> when the process is scheduled again.
\<close>

section \<open>Time\<close>

definition timer_handle :: "call kprog" where
  "timer_handle = thenS (modS (\<lambda>s. s\<lparr>tick := tick s + 1\<rparr>)) (thenS proc_yield (retS (Switch KUser)))"

definition get_tick :: "kern \<Rightarrow> u32" where
  "get_tick s = tick s"

section \<open>System calls\<close>

text \<open>The two values of most handlers, and the file of a descriptor.\<close>

abbreviation (input) value_of :: "u32 \<Rightarrow> call kprog" where
  "value_of v \<equiv> retS (Value (Some v))"

abbreviation (input) failed :: "call kprog" where
  "failed \<equiv> value_of (- 1)"

definition with_file :: "u32 \<Rightarrow> (nat \<Rightarrow> call kprog) \<Rightarrow> call kprog" where
  "with_file fd m = bindS proc_curr (\<lambda>c. bindS (getS (proc_getfile c fd)) (\<lambda>f. case f of
       None \<Rightarrow> failed | Some i \<Rightarrow> m i))"

definition with_usem :: "u32 \<Rightarrow> (nat \<Rightarrow> call kprog) \<Rightarrow> call kprog" where
  "with_usem sem_id m = bindS proc_curr (\<lambda>c. bindS (getS (proc_getusem c sem_id)) (\<lambda>u. case u of
       None \<Rightarrow> failed | Some i \<Rightarrow> m i))"

definition curr_cwd :: "nat option kprog" where
  "curr_cwd = getS (\<lambda>s. cwd (proc_at (curr s) s))"

definition sys_write :: "u32 \<Rightarrow> u32 \<Rightarrow> u32 \<Rightarrow> call kprog" where
  "sys_write fd buf count = with_file fd (\<lambda>i. bindS (fwrite i buf count) value_of)"

definition sys_read :: "u32 \<Rightarrow> u32 \<Rightarrow> u32 \<Rightarrow> call kprog" where
  "sys_read fd buf count = with_file fd (\<lambda>i. fread i buf count)"

definition sys_brk :: "u32 \<Rightarrow> call kprog" where
  "sys_brk addr = bindS proc_curr (\<lambda>c. bindS (getS (\<lambda>s. brk (proc_at c s))) (\<lambda>b.
     let new_brk = PAGE_UP addr in
     thenS (if b = 0 then set_proc c (\<lambda>p. p\<lparr>brk := new_brk\<rparr>)
        else if new_brk > b then
          bindS (on_vm vm_curr) (\<lambda>pd.
          thenS (on_vm (vm_map pd b (new_brk - b) 7))
          (set_proc c (\<lambda>p. p\<lparr>brk := new_brk\<rparr>)))
        else retS ())
     (value_of 0)))"

definition sleep_rest :: "u32 \<Rightarrow> u32 \<Rightarrow> call kprog" where
  "sleep_rest start_tick ticks = bindS (getS get_tick) (\<lambda>t.
     if start_tick + ticks > t then thenS proc_yield (retS (Switch (KSleep start_tick ticks)))
     else retS (Value None))"

definition sys_sleep :: "u32 \<Rightarrow> call kprog" where
  "sys_sleep ticks = bindS (getS get_tick) (\<lambda>start_tick. sleep_rest start_tick ticks)"

text \<open>\<open>argv\<close>: pointers up to \<open>NULL\<close>; \<open>load_arg\<close> asserts that there are at most 31.\<close>

primrec user_argv :: "nat \<Rightarrow> u32 \<Rightarrow> (byte list list) kprog" where
  "user_argv 0 argv = bindS (user_load32 argv) (\<lambda>p. if p = 0 then retS [] else stopS Abort)"
| "user_argv (Suc n) argv = bindS (user_load32 argv) (\<lambda>p. if p = 0 then retS []
     else bindS (user_str p) (\<lambda>a. bindS (user_argv n (argv + 4)) (\<lambda>as. retS (a # as))))"

definition context_of :: "byte list \<Rightarrow> Context" where
  "context_of bs = (let w = words 15 bs in
     \<lparr>r_ds = w ! 0, r_ebp = w ! 1, r_edi = w ! 2, r_esi = w ! 3, r_edx = w ! 4, r_ecx = w ! 5, r_ebx = w ! 6,
      r_eax = w ! 7, r_irq = w ! 8, r_errcode = w ! 9, r_eip = w ! 10, r_cs = w ! 11, r_eflags = w ! 12,
      r_esp = w ! 13, r_ss = w ! 14\<rparr>)"

definition sys_exec :: "u32 \<Rightarrow> u32 \<Rightarrow> call kprog" where
  "sys_exec path argv = bindS (on_vm vm_alloc) (\<lambda>new_pdir.
     bindS (user_str path) (\<lambda>name.
     bindS (getS (\<lambda>s. context_of (unset s))) (\<lambda>new_context.
     bindS (load_user new_pdir new_context name (user_argv 31 argv)) (\<lambda>r. case r of
       None \<Rightarrow> failed
     | Some new_context \<Rightarrow>
         bindS (on_vm vm_curr) (\<lambda>old_pdir. bindS proc_curr (\<lambda>c.
         thenS (set_proc c (\<lambda>p. p\<lparr>pgdir := new_pdir\<rparr>))
         (thenS (set_cr3 new_pdir)
         (thenS (on_vm (vm_teardown old_pdir))
         (thenS (set_proc c (\<lambda>p. p\<lparr>frame_of := new_context\<rparr>))
         (retS Iret))))))))))"

definition sys_getpid :: "call kprog" where
  "sys_getpid = bindS proc_curr (\<lambda>c. bindS (getS (\<lambda>s. pid (proc_at c s))) value_of)"

definition sys_yield :: "call kprog" where
  "sys_yield = thenS proc_yield (retS (Switch KYield))"

definition sys_fork :: "call kprog" where
  "sys_fork = bindS proc_alloc (\<lambda>r. case r of
       None \<Rightarrow> failed
     | Some i \<Rightarrow> thenS (proc_copycurr i) (thenS (proc_addready i)
         (bindS (getS (\<lambda>s. pid (proc_at i s))) value_of)))"

definition sys_exit :: "u32 \<Rightarrow> call kprog" where
  "sys_exit status' = bindS proc_curr (\<lambda>c. thenS (proc_makezombie c status') (retS (Switch KExit)))"

definition wait_rest :: "u32 \<Rightarrow> call kprog" where
  "wait_rest st = bindS proc_curr (\<lambda>c. bindS (getS (proc_findzombie c)) (\<lambda>z. case z of
       None \<Rightarrow> thenS proc_yield (retS (Switch (KWait st)))
     | Some j \<Rightarrow>
         thenS (set_proc c (\<lambda>p. p\<lparr>child_num := child_num p - 1\<rparr>))
         (bindS (getS (proc_at j)) (\<lambda>zombie_child.
          thenS (if st \<noteq> 0 then user_stores st (le32 (exit_code zombie_child)) else retS ())
          (thenS (proc_free j) (value_of (pid zombie_child)))))))"

definition sys_wait :: "u32 \<Rightarrow> call kprog" where
  "sys_wait st = bindS proc_curr (\<lambda>c. bindS (getS (\<lambda>s. child_num (proc_at c s))) (\<lambda>n.
     if n = 0 then failed
     else bindS (sem_p (Zombie_Sem c)) (\<lambda>blocked.
       if blocked then retS (Switch (KWait st)) else wait_rest st)))"

definition sys_sem_open :: "u32 \<Rightarrow> call kprog" where
  "sys_sem_open v = bindS proc_curr (\<lambda>c. bindS (getS (proc_allocusem c)) (\<lambda>id'. case id' of
       None \<Rightarrow> failed
     | Some sem_id \<Rightarrow> bindS (usem_alloc v) (\<lambda>u. case u of
           None \<Rightarrow> failed
         | Some k \<Rightarrow> thenS (set_proc c (\<lambda>p. p\<lparr>usems := (usems p)[sem_id := Some k]\<rparr>)) (value_of (of_nat sem_id)))))"

definition sys_sem_p :: "u32 \<Rightarrow> call kprog" where
  "sys_sem_p sem_id = with_usem sem_id (\<lambda>k. bindS (sem_p (User_Sem k)) (\<lambda>blocked.
     if blocked then retS (Switch KSemP) else value_of 0))"

definition sys_sem_v :: "u32 \<Rightarrow> call kprog" where
  "sys_sem_v sem_id = with_usem sem_id (\<lambda>k. thenS (sem_v (User_Sem k)) (value_of 0))"

definition sys_sem_close :: "u32 \<Rightarrow> call kprog" where
  "sys_sem_close sem_id = with_usem sem_id (\<lambda>k. thenS (usem_close k) (bindS proc_curr (\<lambda>c.
     thenS (set_proc c (\<lambda>p. p\<lparr>usems := (usems p)[unat sem_id := None]\<rparr>)) (value_of 0))))"

definition sys_open :: "u32 \<Rightarrow> u32 \<Rightarrow> call kprog" where
  "sys_open path mode = bindS proc_curr (\<lambda>c. bindS (getS (proc_allocfile c)) (\<lambda>r. case r of
       None \<Rightarrow> failed
     | Some fd \<Rightarrow> bindS curr_cwd (\<lambda>wd. bindS (user_str path) (\<lambda>name. bindS (fopen wd name mode) (\<lambda>f. case f of
           None \<Rightarrow> failed
         | Some i \<Rightarrow> thenS (set_proc c (\<lambda>p. p\<lparr>fds := (fds p)[fd := Some i]\<rparr>)) (value_of (of_nat fd)))))))"

definition sys_close :: "u32 \<Rightarrow> call kprog" where
  "sys_close fd = with_file fd (\<lambda>i. thenS (fclose i) (bindS proc_curr (\<lambda>c.
     thenS (set_proc c (\<lambda>p. p\<lparr>fds := (fds p)[unat fd := None]\<rparr>)) (value_of 0))))"

definition sys_dup :: "u32 \<Rightarrow> call kprog" where
  "sys_dup fd = with_file fd (\<lambda>i. bindS proc_curr (\<lambda>c. bindS (getS (proc_allocfile c)) (\<lambda>r. case r of
       None \<Rightarrow> failed
     | Some new_fd \<Rightarrow> bindS (fdup i) (\<lambda>i.
         thenS (set_proc c (\<lambda>p. p\<lparr>fds := (fds p)[new_fd := Some i]\<rparr>)) (value_of (of_nat new_fd))))))"

definition sys_lseek :: "u32 \<Rightarrow> u32 \<Rightarrow> u32 \<Rightarrow> call kprog" where
  "sys_lseek fd off whence = with_file fd (\<lambda>i. bindS (fseek i off whence) value_of)"

text \<open>A \<open>struct stat\<close> is three words: type, size and node.\<close>

definition sys_fstat :: "u32 \<Rightarrow> u32 \<Rightarrow> call kprog" where
  "sys_fstat fd st = with_file fd (\<lambda>i. bindS (getS (\<lambda>s. file_tab s ! i)) (\<lambda>f.
     thenS (if f_type f = TYPE_FILE \<or> f_type f = TYPE_DIR then
         (case f_inode f of None \<Rightarrow> stopS Undef
          | Some k \<Rightarrow> bindS (on_fs (getS id)) (\<lambda>t.
              thenS (user_stores st (le32 (itype k t)))
              (thenS (user_stores (st + 4) (le32 (isize k t)))
              (user_stores (st + 8) (le32 (ino k t))))))
       else if f_type f = TYPE_DEV then
         thenS (user_stores st (le32 TYPE_DEV))
         (thenS (user_stores (st + 4) (le32 0))
         (user_stores (st + 8) (le32 0)))
       else retS ())
     (value_of 0)))"

definition sys_chdir :: "u32 \<Rightarrow> call kprog" where
  "sys_chdir path = bindS proc_curr (\<lambda>c. bindS curr_cwd (\<lambda>wd. bindS (user_str path) (\<lambda>name.
     bindS (on_fs (iopen wd name TYPE_NONE)) (\<lambda>inode. case inode of
       None \<Rightarrow> failed
     | Some k \<Rightarrow> bindS (on_fs (getS (itype k))) (\<lambda>t.
         if t \<noteq> TYPE_DIR then thenS (on_fs (iclose (Some k))) failed
         else thenS (bindS curr_cwd (\<lambda>wd. on_fs (iclose wd)))
           (thenS (set_proc c (\<lambda>p. p\<lparr>cwd := Some k\<rparr>)) (value_of 0)))))))"

definition sys_unlink :: "u32 \<Rightarrow> call kprog" where
  "sys_unlink path = bindS curr_cwd (\<lambda>wd. bindS (user_str path) (\<lambda>name.
     bindS (on_fs (iremove wd name)) value_of))"

text \<open>The twelve optional calls are \<open>TODO()\<close>: they panic.\<close>

definition TODO :: "call kprog" where
  "TODO = stopS Abort"

definition NR_SYS :: nat where "NR_SYS = 33"

definition syscall_handle :: "(u32 \<Rightarrow> u32 \<Rightarrow> u32 \<Rightarrow> call kprog) list" where
  "syscall_handle =
    [\<lambda>a b c. sys_write a b c, \<lambda>a b c. sys_read a b c, \<lambda>a b c. sys_brk a, \<lambda>a b c. sys_sleep a,
     \<lambda>a b c. sys_exec a b, \<lambda>a b c. sys_getpid, \<lambda>a b c. sys_yield, \<lambda>a b c. sys_fork, \<lambda>a b c. sys_exit a,
     \<lambda>a b c. sys_wait a, \<lambda>a b c. sys_sem_open a, \<lambda>a b c. sys_sem_p a, \<lambda>a b c. sys_sem_v a,
     \<lambda>a b c. sys_sem_close a, \<lambda>a b c. sys_open a b, \<lambda>a b c. sys_close a, \<lambda>a b c. sys_dup a,
     \<lambda>a b c. sys_lseek a b c, \<lambda>a b c. sys_fstat a b, \<lambda>a b c. sys_chdir a, \<lambda>a b c. sys_unlink a]
    @ replicate 12 (\<lambda>a b c. TODO)"

text \<open>The end of \<open>do_syscall\<close>; the value of a \<open>void\<close> handler is unspecified.\<close>

definition set_result :: "call \<Rightarrow> call kprog" where
  "set_result r = (case r of
       Value v \<Rightarrow> bindS proc_curr (\<lambda>c. bindS (getS unset) (\<lambda>junk.
         thenS (set_proc c (\<lambda>p. p\<lparr>frame_of := (frame_of p)
           \<lparr>r_eax := (case v of Some x \<Rightarrow> x | None \<Rightarrow> of_le32 junk)\<rparr>\<rparr>)) (retS Iret)))
     | _ \<Rightarrow> retS r)"

definition do_syscall :: "Context \<Rightarrow> call kprog" where
  "do_syscall ctx =
     (let sysnum = r_eax ctx in
      bindS (if sint sysnum < 0 \<or> int NR_SYS \<le> sint sysnum then failed
         else (syscall_handle ! unat sysnum) (r_ebx ctx) (r_ecx ctx) (r_edx ctx))
      set_result)"

section \<open>Interrupts\<close>

text \<open>
  The vectors of \<open>init_cte\<close>: the entry point of \<open>trap.S\<close> (\<open>None\<close> for \<open>irqall\<close>) and the privilege level.
\<close>

definition init_cte :: "nat \<Rightarrow> nat option \<times> u32" where
  "init_cte = fold (\<lambda>i t. t(i := (Some i, if i = 128 then 3 else 0)))
     ([0 ..< 17] @ [32 ..< 48] @ [128, 129]) (\<lambda>_. (None, 0))"

text \<open>
  \<open>irq_handle\<close> on the trap frame of the current process, up to the final \<open>irq_iret\<close>. \<open>input\<close> is what the
  serial port delivers. \<open>0x81\<close> is raised by the kernel only: it is \<open>Switch\<close>.
\<close>

definition irq_handle :: "byte list \<Rightarrow> Context \<Rightarrow> call kprog" where
  "irq_handle input ctx =
     (if r_irq ctx = 14 then vm_pgfault 0 (r_errcode ctx)
      else if r_irq ctx = 0x80 then do_syscall ctx
      else if r_irq ctx = 36 then thenS (serial_handle input) (retS Iret)
      else if r_irq ctx = 32 then timer_handle
      else thenS (assertS (32 \<le> r_irq ctx \<and> r_irq ctx < 32 + 16)) (retS Iret))"

text \<open>A process that is scheduled again goes on where it left.\<close>

definition resume :: "call kprog" where
  "resume = bindS proc_curr (\<lambda>c. bindS (getS (\<lambda>s. kont (proc_at c s))) (\<lambda>k. case k of
       KUser \<Rightarrow> retS Iret
     | KYield \<Rightarrow> set_result (Value None)
     | KSleep start_tick ticks \<Rightarrow> bindS (sleep_rest start_tick ticks) set_result
     | KSemP \<Rightarrow> set_result (Value (Some 0))
     | KWait st \<Rightarrow> bindS (wait_rest st) set_result
     | KRead buf count i \<Rightarrow> bindS (serial_read_rest buf count i) set_result
     | KExit \<Rightarrow> set_result (Value None)))"

text \<open>\<open>True\<close> when another process has been given the processor, and is to be resumed.\<close>

definition leave :: "call \<Rightarrow> bool kprog" where
  "leave r = (case r of Switch k \<Rightarrow> thenS (schedule k) (retS True) | _ \<Rightarrow> retS False)"

section \<open>The start of the kernel\<close>

definition init_user_and_go :: "unit kprog" where
  "init_user_and_go = bindS proc_alloc (\<lambda>r. case r of
       None \<Rightarrow> stopS Abort
     | Some i \<Rightarrow> bindS (getS (proc_at i)) (\<lambda>p.
         bindS (load_user (pgdir p) (frame_of p) (bytes_of ''sh'' @ [0]) (retS [bytes_of ''sh'' @ [0]])) (\<lambda>c. case c of
           None \<Rightarrow> stopS Abort
         | Some ctx \<Rightarrow>
             thenS (set_proc i (\<lambda>p. p\<lparr>frame_of := ctx\<rparr>))
             (bindS curr_cwd (\<lambda>wd. bindS (on_fs (iopen wd (bytes_of ''/'' @ [0]) TYPE_NONE)) (\<lambda>root.
              thenS (set_proc i (\<lambda>p. p\<lparr>cwd := root\<rparr>)) (proc_addready i)))))))"

text \<open>\<open>main\<close> up to its idle loop; the tables of the processor and its devices are not modelled.\<close>

definition main :: "u32 \<Rightarrow> unit kprog" where
  "main kend =
     thenS init_serial
     (thenS (on_fs init_fs)
     (thenS (on_vm (init_page kend))
     (thenS init_proc
     (thenS (bindS curr_cwd init_dev)
     (thenS (putstr (bytes_of ''Hello from OS!'' @ [10]))
     init_user_and_go)))))"

end
