(* ===== verification/Sched.thy ===== *)
theory Sched
  imports Syscall
begin

text \<open>
  The scheduling state of the kernel: which process runs, which waits where, and who holds which semaphore.
  \<open>sinv\<close> is its invariant. It is stated on the parts that matter (\<open>view\<close>): the states of the processes,
  their semaphores and parents, the list nodes, the values and reference counts of the semaphores.
\<close>

section \<open>What matters for scheduling\<close>

definition stat :: "kern \<Rightarrow> nat \<Rightarrow> status" where
  "stat s p = status (pcb s ! p)"

definition held :: "kern \<Rightarrow> nat \<Rightarrow> nat option list" where
  "held s p = usems (pcb s ! p)"

definition par :: "kern \<Rightarrow> nat \<Rightarrow> nat option" where
  "par s p = parent (pcb s ! p)"

definition view :: "kern \<Rightarrow> nat \<times> nat \<times> (nat \<Rightarrow> status) \<times> (nat \<Rightarrow> nat option list) \<times> (nat \<Rightarrow> nat option) \<times>
    (sem_t, nat) lists \<times> (sem_t \<Rightarrow> u32) \<times> u32 list" where
  "view s = (length (pcb s), curr s, stat s, held s, par s, klists s, sem_value s, usem_ref s)"

text \<open>Who waits in the queue of a semaphore, and which semaphores are in use.\<close>

fun may_wait :: "(nat \<Rightarrow> nat option list) \<Rightarrow> nat \<Rightarrow> sem_t \<Rightarrow> bool" where
  "may_wait us p (Zombie_Sem a) \<longleftrightarrow> a = p"
| "may_wait us p (User_Sem k) \<longleftrightarrow> Some k \<in> set (us p)"
| "may_wait us p Serial_Sem \<longleftrightarrow> True"

fun in_use :: "(nat \<Rightarrow> status) \<Rightarrow> (nat \<Rightarrow> nat option list) \<Rightarrow> (nat \<Rightarrow> nat option) \<Rightarrow> sem_t \<Rightarrow> bool" where
  "in_use st us pa (Zombie_Sem a) \<longleftrightarrow> a < 64 \<and> st a \<noteq> UNUSED \<or> (\<exists>p < 64. pa p = Some a)"
| "in_use st us pa (User_Sem k) \<longleftrightarrow> (\<exists>p < 64. Some k \<in> set (us p))"
| "in_use st us pa Serial_Sem \<longleftrightarrow> True"

definition blocked :: "(nat \<Rightarrow> status) \<Rightarrow> nat set" where
  "blocked st = {p. p < 64 \<and> st p = BLOCKED}"

text \<open>The queues \<open>Q\<close> of the semaphores: they hold the blocked processes, each one once.\<close>

definition waiting :: "(nat \<Rightarrow> status) \<Rightarrow> (nat \<Rightarrow> nat option list) \<Rightarrow> (sem_t \<Rightarrow> u32) \<Rightarrow> (sem_t \<Rightarrow> nat list option) \<Rightarrow> bool" where
  "waiting st us v Q \<longleftrightarrow>
     (\<forall>h q. Q h = Some q \<longrightarrow> distinct q \<and> (q \<noteq> [] \<longrightarrow> v h = 0) \<and>
        (\<forall>p \<in> set q. 0 < p \<and> p \<in> blocked st \<and> may_wait us p h)) \<and>
     (\<forall>h g q r. Q h = Some q \<and> Q g = Some r \<and> h \<noteq> g \<longrightarrow> set q \<inter> set r = {}) \<and>
     (\<forall>p \<in> blocked st. \<exists>h q. Q h = Some q \<and> p \<in> set q)"

text \<open>The reference count of a user semaphore is the number of table entries that hold it.\<close>

definition holders :: "(nat \<Rightarrow> nat option list) \<Rightarrow> nat \<Rightarrow> (nat \<times> nat) set" where
  "holders us k = {(p, j). p < 64 \<and> j < 32 \<and> us p ! j = Some k}"

definition sinv :: "nat set \<Rightarrow> (nat \<Rightarrow> status) \<Rightarrow> (nat \<Rightarrow> nat option list) \<Rightarrow> (nat \<Rightarrow> nat option) \<Rightarrow>
    (sem_t, nat) lists \<Rightarrow> (sem_t \<Rightarrow> u32) \<Rightarrow> u32 list \<Rightarrow> bool" where
  "sinv X st us pa L v r \<longleftrightarrow>
     (\<exists>n Q. queues n Q L \<and> 256 \<le> n + card (blocked st) \<and> waiting st us v Q \<and> (\<forall>h. in_use st us pa h \<longrightarrow> Q h \<noteq> None)) \<and>
     (\<forall>p < 64. \<forall>k. Some k \<in> set (us p) \<longrightarrow> k < 128) \<and> (\<forall>p < 64. \<forall>a. pa p = Some a \<longrightarrow> a < 64) \<and>
     length r = 128 \<and> (\<forall>k < 128. unat (r ! k) = card (holders us k)) \<and>
     (\<forall>p < 64. length (us p) = 32 \<and> (p \<notin> X \<and> st p \<in> {UNUSED, ZOMBIE} \<longrightarrow> us p = replicate 32 None))"

lemma sinvE:
  assumes "sinv X st us pa L v r"
  obtains n Q where "queues n Q L" "256 \<le> n + card (blocked st)" "waiting st us v Q"
    "\<And>h. in_use st us pa h \<Longrightarrow> \<exists>q. Q h = Some q"
  using assms unfolding sinv_def by blast

lemma finite_blocked [simp]: "finite (blocked st)"
  by (simp add: blocked_def)

lemma card_blocked: "card (blocked st) \<le> 64"
proof -
  have "card (blocked st) \<le> card {..< 64 :: nat}" by (rule card_mono) (auto simp: blocked_def)
  then show ?thesis by simp
qed

lemma blocked_upd:
  "i < 64 \<Longrightarrow> blocked (st(i := x)) = (if x = BLOCKED then insert i (blocked st) else blocked st - {i})"
  by (auto simp: blocked_def)

lemma finite_holders [simp]: "finite (holders us k)"
  by (rule finite_subset [of _ "{..< 64} \<times> {..< 32}"]) (auto simp: holders_def)

lemma card_holders: "card (holders us k) \<le> 2048"
proof -
  have "card (holders us k) \<le> card ({..< 64 :: nat} \<times> {..< 32 :: nat})"
    by (rule card_mono) (auto simp: holders_def)
  then show ?thesis by simp
qed

section \<open>The changes the kernel makes\<close>

text \<open>A process changes between states in which it neither waits nor is free.\<close>

lemma sinv_status:
  assumes "sinv X st us pa L v r" "i < 64" "st i \<notin> {BLOCKED, UNUSED}" "x \<notin> {BLOCKED, UNUSED}" "x = ZOMBIE \<longrightarrow> i \<in> X"
  shows "sinv X (st(i := x)) us pa L v r"
proof -
  obtain n Q where Q: "queues n Q L" "256 \<le> n + card (blocked st)" "waiting st us v Q"
    "\<And>h. in_use st us pa h \<Longrightarrow> \<exists>q. Q h = Some q" using assms(1) by (elim sinvE) blast
  have b: "blocked (st(i := x)) = blocked st" using assms(2-4) by (auto simp: blocked_upd) (auto simp: blocked_def)
  have "in_use (st(i := x)) us pa h = in_use st us pa h" for h
    using assms(2-4) by (cases h) auto
  then show ?thesis
    using assms Q b unfolding sinv_def waiting_def by (intro conjI exI [of _ n] exI [of _ Q]) auto
qed

text \<open>A reaped child leaves its slot.\<close>

lemma sinv_free:
  assumes "sinv X st us pa L v r" "i < 64" "st i = ZOMBIE" "i \<notin> X"
  shows "sinv X (st(i := UNUSED)) us pa L v r"
proof -
  obtain n Q where Q: "queues n Q L" "256 \<le> n + card (blocked st)" "waiting st us v Q"
    "\<And>h. in_use st us pa h \<Longrightarrow> \<exists>q. Q h = Some q" using assms(1) by (elim sinvE) blast
  have b: "blocked (st(i := UNUSED)) = blocked st" using assms(2,3) by (auto simp: blocked_upd) (auto simp: blocked_def)
  have "in_use st us pa h" if "in_use (st(i := UNUSED)) us pa h" for h
    using that by (cases h) (auto split: if_splits)
  then show ?thesis
    using assms Q b unfolding sinv_def waiting_def by (intro conjI exI [of _ n] exI [of _ Q]) auto
qed

lemma sinv_parent:
  assumes "sinv X st us pa L v r" "\<forall>a. q = Some a \<longrightarrow> a < 64 \<and> st a \<noteq> UNUSED"
  shows "sinv X st us (pa(i := q)) L v r"
proof -
  obtain n Q where Q: "queues n Q L" "256 \<le> n + card (blocked st)" "waiting st us v Q"
    "\<And>h. in_use st us pa h \<Longrightarrow> \<exists>q. Q h = Some q" using assms(1) by (elim sinvE) blast
  have "in_use st us pa h" if "in_use st us (pa(i := q)) h" for h
    using that assms(2) by (cases h) (auto split: if_splits)
  then show ?thesis
    using assms Q unfolding sinv_def by (intro conjI exI [of _ n] exI [of _ Q]) (auto split: if_splits)
qed

lemma sinv_mono: "sinv X st us pa L v r \<Longrightarrow> X \<subseteq> Y \<Longrightarrow> sinv Y st us pa L v r"
  unfolding sinv_def by blast

text \<open>\<open>sem_p\<close> on a semaphore at 0.\<close>

lemma sinv_block:
  assumes "sinv X st us pa L v r" "in_use st us pa h" "v h = 0" "0 < i" "i < 64" "st i \<noteq> BLOCKED" "st i \<noteq> UNUSED" "may_wait us i h"
  obtains x L' where "list_enqueue (Head h) i L = Inr (x, L')" "sinv X (st(i := BLOCKED)) us pa L' v r"
proof -
  obtain n Q where Q: "queues n Q L" "256 \<le> n + card (blocked st)" "waiting st us v Q"
    "\<And>h. in_use st us pa h \<Longrightarrow> \<exists>q. Q h = Some q" using assms(1) by (elim sinvE) blast
  obtain q where q: "Q h = Some q" using Q(4) assms(2) by blast
  have "0 < n" using Q(2) card_blocked [of st] by simp
  then obtain m where m: "n = Suc m" by (cases n) auto
  obtain x L' where L': "list_enqueue (Head h) i L = Inr (x, L')" "queues m (Q(h \<mapsto> q @ [i])) L'"
    using queues_enqueue [OF Q(1) [unfolded m] q, of i] by (auto simp: runs_total)
  have b: "blocked (st(i := BLOCKED)) = insert i (blocked st)" "i \<notin> blocked st"
    using assms(5,6) by (auto simp: blocked_upd) (auto simp: blocked_def)
  have iq: "i \<notin> set q'" if "Q g = Some q'" for g q'
    using Q(3) that b(2) unfolding waiting_def by blast
  have "waiting (st(i := BLOCKED)) us v (Q(h \<mapsto> q @ [i]))"
    unfolding waiting_def b(1)
  proof (intro conjI allI impI ballI)
    fix g q' assume "(Q(h \<mapsto> q @ [i])) g = Some q'"
    then have "g = h \<and> q' = q @ [i] \<or> g \<noteq> h \<and> Q g = Some q'" by (auto split: if_splits)
    then show "distinct q'" "q' \<noteq> [] \<Longrightarrow> v g = 0" "p \<in> set q' \<Longrightarrow> 0 < p" "p \<in> set q' \<Longrightarrow> p \<in> insert i (blocked st)"
        "p \<in> set q' \<Longrightarrow> may_wait us p g" for p
      using Q(3) q iq assms(3,4,8) unfolding waiting_def by auto
  next
    fix g g' q1 q2 assume "(Q(h \<mapsto> q @ [i])) g = Some q1 \<and> (Q(h \<mapsto> q @ [i])) g' = Some q2 \<and> g \<noteq> g'"
    then show "set q1 \<inter> set q2 = {}"
      using Q(3) q iq unfolding waiting_def by (auto split: if_splits) blast+
  next
    fix p assume "p \<in> insert i (blocked st)"
    then show "\<exists>g q'. (Q(h \<mapsto> q @ [i])) g = Some q' \<and> p \<in> set q'"
    proof
      assume "p \<in> blocked st"
      then obtain g q' where "Q g = Some q'" "p \<in> set q'" using Q(3) unfolding waiting_def by blast
      then show ?thesis using q by (cases "g = h") auto
    qed auto
  qed
  moreover have "in_use (st(i := BLOCKED)) us pa g = in_use st us pa g" for g
    using assms(5,7) by (cases g) auto
  moreover have "256 \<le> m + card (blocked (st(i := BLOCKED)))" using Q(2) m b by simp
  ultimately have "sinv X (st(i := BLOCKED)) us pa L' v r"
    using assms(1) Q(4) L'(2) unfolding sinv_def
    by (intro conjI exI [of _ m] exI [of _ "Q(h \<mapsto> q @ [i])"]) auto
  then show thesis using that L'(1) by blast
qed

text \<open>\<open>sem_v\<close>: the process that has waited longest becomes ready, or the value grows.\<close>

lemma sinv_wake:
  assumes "sinv X st us pa L v r" "in_use st us pa h"
  obtains "list_dequeue (Head h) L = Inr (None, L)" "sinv X st us pa L (v(h := x)) r"
  | p L' where "list_dequeue (Head h) L = Inr (Some p, L')" "sinv X (st(p := READY)) us pa L' v r"
      "0 < p" "p < 64" "st p = BLOCKED"
proof -
  obtain n Q where Q: "queues n Q L" "256 \<le> n + card (blocked st)" "waiting st us v Q"
    "\<And>h. in_use st us pa h \<Longrightarrow> \<exists>q. Q h = Some q" using assms(1) by (elim sinvE) blast
  obtain q where q: "Q h = Some q" using Q(4) assms(2) by blast
  show thesis
  proof (cases q)
    case Nil
    have "waiting st us (v(h := x)) Q" using Q(3) q Nil unfolding waiting_def by auto
    then have "sinv X st us pa L (v(h := x)) r"
      using assms(1) Q unfolding sinv_def by (intro conjI exI [of _ n] exI [of _ Q]) auto
    then show thesis using that(1) queues_dequeue_empty [OF Q(1)] q Nil by blast
  next
    case (Cons p q')
    obtain L' where L': "list_dequeue (Head h) L = Inr (Some p, L')" "queues (Suc n) (Q(h \<mapsto> q')) L'"
      using queues_dequeue [OF Q(1) q [unfolded Cons]] by (auto simp: runs_total)
    have "Q h = Some (p # q')" using q Cons by simp
    then have "distinct (p # q') \<and> (p # q' \<noteq> [] \<longrightarrow> v h = 0) \<and> (\<forall>i \<in> set (p # q'). 0 < i \<and> i \<in> blocked st \<and> may_wait us i h)"
      using Q(3) unfolding waiting_def by blast
    then have W: "distinct (p # q')" "v h = 0" "\<forall>i \<in> set (p # q'). 0 < i \<and> i \<in> blocked st \<and> may_wait us i h"
      by auto
    then have p: "0 < p" "p < 64" "st p = BLOCKED" by (auto simp: blocked_def)
    have b: "blocked (st(p := READY)) = blocked st - {p}" using p(2) by (simp add: blocked_upd)
    have only: "p \<notin> set r'" if "Q g = Some r'" "g \<noteq> h" for g r'
    proof -
      have "set r' \<inter> set q = {}" using Q(3) that q unfolding waiting_def by blast
      then show ?thesis using Cons by auto
    qed
    have "waiting (st(p := READY)) us v (Q(h \<mapsto> q'))"
      unfolding waiting_def b
    proof (intro conjI allI impI ballI)
      fix g r' assume "(Q(h \<mapsto> q')) g = Some r'"
      then consider "g = h" "r' = q'" | "g \<noteq> h" "Q g = Some r'" by (auto split: if_splits)
      then have "distinct r' \<and> (r' \<noteq> [] \<longrightarrow> v g = 0) \<and> (\<forall>i \<in> set r'. 0 < i \<and> i \<in> blocked st - {p} \<and> may_wait us i g)"
      proof cases
        case 1
        then show ?thesis using W by auto
      next
        case 2
        then have "distinct r' \<and> (r' \<noteq> [] \<longrightarrow> v g = 0) \<and> (\<forall>i \<in> set r'. 0 < i \<and> i \<in> blocked st \<and> may_wait us i g)"
          using Q(3) unfolding waiting_def by blast
        then show ?thesis using only [OF 2(2,1)] by auto
      qed
      then show "distinct r'" "r' \<noteq> [] \<Longrightarrow> v g = 0" "i \<in> set r' \<Longrightarrow> 0 < i" "i \<in> set r' \<Longrightarrow> i \<in> blocked st - {p}"
          "i \<in> set r' \<Longrightarrow> may_wait us i g" for i
        by auto
    next
      fix g g' q1 q2 assume "(Q(h \<mapsto> q')) g = Some q1 \<and> (Q(h \<mapsto> q')) g' = Some q2 \<and> g \<noteq> g'"
      then show "set q1 \<inter> set q2 = {}"
        using Q(3) q Cons unfolding waiting_def by (auto split: if_splits) (metis disjoint_iff list.set_intros(2))+
    next
      fix i assume "i \<in> blocked st - {p}"
      then obtain g r' where "Q g = Some r'" "i \<in> set r'" "i \<noteq> p" using Q(3) unfolding waiting_def by blast
      then show "\<exists>g r'. (Q(h \<mapsto> q')) g = Some r' \<and> i \<in> set r'" using q Cons by (cases "g = h") auto
    qed
    moreover have "in_use (st(p := READY)) us pa g = in_use st us pa g" for g
      using p by (cases g) auto
    moreover have "256 \<le> Suc n + card (blocked (st(p := READY)))"
      using Q(2) b p card_Diff_singleton [of p "blocked st"] by (auto simp: blocked_def)
    ultimately have "sinv X (st(p := READY)) us pa L' v r"
      using assms(1) Q(4) L'(2) unfolding sinv_def
      by (intro conjI exI [of _ "Suc n"] exI [of _ "Q(h \<mapsto> q')"]) auto
    then show thesis using that(2) L'(1) p by blast
  qed
qed

lemma waiting_init:
  assumes "waiting st us v Q" "\<And>q. Q h = Some q \<Longrightarrow> q = []"
  shows "waiting st us (v(h := x)) (Q(h \<mapsto> []))"
  unfolding waiting_def
proof (intro conjI allI impI ballI)
  fix g q assume "(Q(h \<mapsto> [])) g = Some q"
  then consider "g = h" "q = []" | "g \<noteq> h" "Q g = Some q" by (auto split: if_splits)
  then have "distinct q \<and> (q \<noteq> [] \<longrightarrow> (v(h := x)) g = 0) \<and> (\<forall>i \<in> set q. 0 < i \<and> i \<in> blocked st \<and> may_wait us i g)"
  proof cases
    case 2
    then have "distinct q \<and> (q \<noteq> [] \<longrightarrow> v g = 0) \<and> (\<forall>i \<in> set q. 0 < i \<and> i \<in> blocked st \<and> may_wait us i g)"
      using assms(1) unfolding waiting_def by blast
    then show ?thesis using 2 by simp
  qed simp
  then show "distinct q" "q \<noteq> [] \<Longrightarrow> (v(h := x)) g = 0" "i \<in> set q \<Longrightarrow> 0 < i" "i \<in> set q \<Longrightarrow> i \<in> blocked st"
      "i \<in> set q \<Longrightarrow> may_wait us i g" for i by (simp_all only: simp_thms)
next
  fix g g' q1 q2 assume "(Q(h \<mapsto> [])) g = Some q1 \<and> (Q(h \<mapsto> [])) g' = Some q2 \<and> g \<noteq> g'"
  then consider "q1 = []" | "q2 = []" | "Q g = Some q1" "Q g' = Some q2" "g \<noteq> g'"
    by (cases "g = h"; cases "g' = h") simp_all
  then show "set q1 \<inter> set q2 = {}" using assms(1) unfolding waiting_def by cases (simp, simp, blast)
next
  fix i assume "i \<in> blocked st"
  then obtain g q where g: "Q g = Some q" "i \<in> set q" using assms(1) unfolding waiting_def by blast
  then have "g \<noteq> h" using assms(2) by fastforce
  then show "\<exists>g q. (Q(h \<mapsto> [])) g = Some q \<and> i \<in> set q" using g by auto
qed

lemma waiting_cong:
  assumes "waiting st us v Q" "blocked st' = blocked st" "\<And>p h. p \<in> blocked st \<Longrightarrow> may_wait us p h \<Longrightarrow> may_wait us' p h"
  shows "waiting st' us' v Q"
  using assms(1,3) unfolding waiting_def assms(2) by blast

text \<open>A new process takes a free slot.\<close>

lemma sinv_alloc:
  assumes "sinv X st us pa L v r" "i < 64" "st i = UNUSED" "i \<notin> X"
  shows "sinv X (st(i := UNINIT)) (us(i := replicate 32 None)) (pa(i := None))
    (list_init (Head (Zombie_Sem i)) L) (v(Zombie_Sem i := 0)) r"
proof -
  obtain n Q where Q: "queues n Q L" "256 \<le> n + card (blocked st)" "waiting st us v Q"
    "\<And>h. in_use st us pa h \<Longrightarrow> \<exists>q. Q h = Some q" using assms(1) by (elim sinvE) blast
  have none: "us i = replicate 32 None" using assms unfolding sinv_def by auto
  have us: "us(i := replicate 32 None) = us" using none by auto
  have b: "blocked (st(i := UNINIT)) = blocked st" using assms(2,3) by (auto simp: blocked_upd) (auto simp: blocked_def)
  have "q = []" if "Q (Zombie_Sem i) = Some q" for q
  proof (rule ccontr)
    assume "q \<noteq> []"
    then obtain p where "p \<in> set q" by (cases q) auto
    then have "p \<in> blocked st \<and> may_wait us p (Zombie_Sem i)" using Q(3) that unfolding waiting_def by blast
    then show False using assms(3) by (auto simp: blocked_def)
  qed
  then have "waiting (st(i := UNINIT)) us (v(Zombie_Sem i := 0)) (Q(Zombie_Sem i \<mapsto> []))"
    using waiting_cong [OF waiting_init [OF Q(3)] b] by blast
  moreover have "in_use st us pa h \<or> h = Zombie_Sem i" if "in_use (st(i := UNINIT)) us (pa(i := None)) h" for h
    using that assms(2) by (cases h) (auto split: if_splits)
  then have "\<forall>h. in_use (st(i := UNINIT)) us (pa(i := None)) h \<longrightarrow> (Q(Zombie_Sem i \<mapsto> [])) h \<noteq> None"
    using Q(4) by fastforce
  ultimately show ?thesis
    using assms none Q(2) b queues_init [OF Q(1), of "Zombie_Sem i"] unfolding us sinv_def
    by (intro conjI exI [of _ n] exI [of _ "Q(Zombie_Sem i \<mapsto> [])"]) auto
qed

lemma holders_upd:
  "c < 64 \<Longrightarrow> j < 32 \<Longrightarrow> length (us c) = 32 \<Longrightarrow> us c ! j = None \<Longrightarrow>
   holders (us(c := (us c)[j := Some k])) k' = (if k' = k then insert (c, j) (holders us k) else holders us k')"
  "c < 64 \<Longrightarrow> j < 32 \<Longrightarrow> length (us c) = 32 \<Longrightarrow> us c ! j = Some k \<Longrightarrow>
   holders (us(c := (us c)[j := None])) k' = (if k' = k then holders us k - {(c, j)} else holders us k')"
  by (auto simp: holders_def nth_list_update split: if_splits)

lemma set_upd_None: "j < length xs \<Longrightarrow> xs ! j = None \<Longrightarrow> Some k' \<in> set xs \<Longrightarrow> Some k' \<in> set (xs[j := Some k])"
proof -
  assume a: "j < length xs" "xs ! j = None" "Some k' \<in> set xs"
  then obtain l where l: "l < length xs" "xs ! l = Some k'" by (auto simp: in_set_conv_nth)
  then have "l \<noteq> j" using a(2) by auto
  then have "(xs[j := Some k]) ! l = Some k'" using l by simp
  then show ?thesis using l(1) by (metis length_list_update nth_mem)
qed

text \<open>A process gets hold of a user semaphore: a fresh one, or one somebody holds.\<close>

lemma sinv_open:
  assumes "sinv X st us pa L v r" "k < 128" "r ! k = 0" "c < 64" "j < 32" "us c ! j = None" "c \<in> X \<or> st c \<notin> {UNUSED, ZOMBIE}"
  shows "sinv X st (us(c := (us c)[j := Some k])) pa (list_init (Head (User_Sem k)) L) (v(User_Sem k := x)) (r[k := 1])"
proof -
  let ?us = "us(c := (us c)[j := Some k])"
  obtain n Q where Q: "queues n Q L" "256 \<le> n + card (blocked st)" "waiting st us v Q"
    "\<And>h. in_use st us pa h \<Longrightarrow> \<exists>q. Q h = Some q" using assms(1) by (elim sinvE) blast
  have I: "\<forall>p < 64. \<forall>k. Some k \<in> set (us p) \<longrightarrow> k < 128" "\<forall>p < 64. \<forall>a. pa p = Some a \<longrightarrow> a < 64" "length r = 128"
    "\<forall>k < 128. unat (r ! k) = card (holders us k)"
    "\<forall>p < 64. length (us p) = 32 \<and> (p \<notin> X \<and> st p \<in> {UNUSED, ZOMBIE} \<longrightarrow> us p = replicate 32 None)"
    using assms(1) unfolding sinv_def by blast+
  have len: "length (us c) = 32" using I(5) assms(4) by blast
  have "unat (r ! k) = card (holders us k)" using I(4) assms(2) by blast
  then have none: "holders us k = {}" using assms(3) by simp
  have "q = []" if "Q (User_Sem k) = Some q" for q
  proof (rule ccontr)
    assume "q \<noteq> []"
    then obtain p where "p \<in> set q" by (cases q) auto
    then have p: "p \<in> blocked st \<and> may_wait us p (User_Sem k)" using Q(3) that unfolding waiting_def by blast
    then obtain l where "l < 32" "us p ! l = Some k" "p < 64" using I(5) by (auto simp: blocked_def in_set_conv_nth)
    then have "(p, l) \<in> holders us k" by (simp add: holders_def)
    then show False using none by simp
  qed
  then have w: "waiting st us (v(User_Sem k := x)) (Q(User_Sem k \<mapsto> []))" using waiting_init [OF Q(3)] by blast
  have "may_wait ?us p h" if "may_wait us p h" for p h
    using that set_upd_None [of j "us c"] assms(5,6) len by (cases h) auto
  then have "waiting st ?us (v(User_Sem k := x)) (Q(User_Sem k \<mapsto> []))" using waiting_cong [OF w] by blast
  moreover have "in_use st us pa h \<or> h = User_Sem k" if "in_use st ?us pa h" for h
    using that assms(4) set_update_subset_insert [of "us c" j "Some k"] by (cases h) (auto split: if_splits)
  then have "\<forall>h. in_use st ?us pa h \<longrightarrow> (Q(User_Sem k \<mapsto> [])) h \<noteq> None" using Q(4) by fastforce
  moreover have "\<forall>k' < 128. unat (r[k := 1] ! k') = card (holders ?us k')"
    using I(3,4) assms(2) none holders_upd(1) [of c j us k, OF assms(4,5) len assms(6)] by (auto simp: nth_list_update)
  moreover have "\<forall>p < 64. \<forall>k. Some k \<in> set (?us p) \<longrightarrow> k < 128"
    using I(1) assms(2) set_update_subset_insert [of "us c" j "Some k"] by auto
  ultimately show ?thesis
    using I assms(7) Q(2) queues_init [OF Q(1), of "User_Sem k"] unfolding sinv_def
    by (intro conjI exI [of _ n] exI [of _ "Q(User_Sem k \<mapsto> [])"]) auto
qed

lemma sinv_hold:
  assumes "sinv X st us pa L v r" "in_use st us pa (User_Sem k)" "c < 64" "j < 32" "us c ! j = None" "c \<in> X \<or> st c \<notin> {UNUSED, ZOMBIE}"
  shows "sinv X st (us(c := (us c)[j := Some k])) pa L v (r[k := r ! k + 1])"
proof -
  let ?us = "us(c := (us c)[j := Some k])"
  obtain n Q where Q: "queues n Q L" "256 \<le> n + card (blocked st)" "waiting st us v Q"
    "\<And>h. in_use st us pa h \<Longrightarrow> \<exists>q. Q h = Some q" using assms(1) by (elim sinvE) blast
  have I: "\<forall>p < 64. \<forall>k. Some k \<in> set (us p) \<longrightarrow> k < 128" "\<forall>p < 64. \<forall>a. pa p = Some a \<longrightarrow> a < 64" "length r = 128"
    "\<forall>k < 128. unat (r ! k) = card (holders us k)"
    "\<forall>p < 64. length (us p) = 32 \<and> (p \<notin> X \<and> st p \<in> {UNUSED, ZOMBIE} \<longrightarrow> us p = replicate 32 None)"
    using assms(1) unfolding sinv_def by blast+
  have len: "length (us c) = 32" using I(5) assms(3) by blast
  have k: "k < 128" using assms(2) I(1) by auto
  have new: "(c, j) \<notin> holders us k" using assms(5) by (simp add: holders_def)
  have "may_wait ?us p h" if "may_wait us p h" for p h
    using that set_upd_None [of j "us c"] assms(4,5) len by (cases h) auto
  then have "waiting st ?us v Q" using waiting_cong [OF Q(3)] by blast
  moreover have "in_use st us pa h" if "in_use st ?us pa h" for h
    using that assms(2,3) set_update_subset_insert [of "us c" j "Some k"] by (cases h) (auto split: if_splits)
  then have "\<forall>h. in_use st ?us pa h \<longrightarrow> Q h \<noteq> None" using Q(4) by fastforce
  moreover have "\<forall>k' < 128. unat (r[k := r ! k + 1] ! k') = card (holders ?us k')"
  proof (intro allI impI)
    fix k' :: nat assume "k' < 128"
    have "unat (r ! k) = card (holders us k)" using I(4) k by blast
    then have "unat (r ! k + 1) = card (holders us k) + 1"
      using card_holders [of us k] unat_add_u32 [of "r ! k" 1] by simp
    then show "unat (r[k := r ! k + 1] ! k') = card (holders ?us k')"
      using I(3,4) k \<open>k' < 128\<close> new holders_upd(1) [of c j us k, OF assms(3,4) len assms(5)] by (simp add: nth_list_update)
  qed
  moreover have "\<forall>p < 64. \<forall>k. Some k \<in> set (?us p) \<longrightarrow> k < 128"
    using I(1) k set_update_subset_insert [of "us c" j "Some k"] by auto
  ultimately show ?thesis
    using I assms(6) Q(1,2) unfolding sinv_def by (intro conjI exI [of _ n] exI [of _ Q]) auto
qed

lemma sinv_drop:
  assumes "sinv X st us pa L v r" "c < 64" "j < 32" "us c ! j = Some k" "st c \<noteq> BLOCKED" "c \<in> X \<or> st c \<notin> {UNUSED, ZOMBIE}"
  shows "sinv X st (us(c := (us c)[j := None])) pa L v (r[k := r ! k - 1])"
proof -
  let ?us = "us(c := (us c)[j := None])"
  obtain n Q where Q: "queues n Q L" "256 \<le> n + card (blocked st)" "waiting st us v Q"
    "\<And>h. in_use st us pa h \<Longrightarrow> \<exists>q. Q h = Some q" using assms(1) by (elim sinvE) blast
  have I: "\<forall>p < 64. \<forall>k. Some k \<in> set (us p) \<longrightarrow> k < 128" "\<forall>p < 64. \<forall>a. pa p = Some a \<longrightarrow> a < 64" "length r = 128"
    "\<forall>k < 128. unat (r ! k) = card (holders us k)"
    "\<forall>p < 64. length (us p) = 32 \<and> (p \<notin> X \<and> st p \<in> {UNUSED, ZOMBIE} \<longrightarrow> us p = replicate 32 None)"
    using assms(1) unfolding sinv_def by blast+
  have len: "length (us c) = 32" using I(5) assms(2) by blast
  have "Some k \<in> set (us c)" using assms(3,4) len by (metis nth_mem)
  then have k: "k < 128" using assms(2) I(1) by blast
  have old: "(c, j) \<in> holders us k" using assms(2-4) by (simp add: holders_def)
  have "may_wait ?us p h" if "p \<in> blocked st" "may_wait us p h" for p h
    using that assms(5) by (cases h) (auto simp: blocked_def)
  then have "waiting st ?us v Q" using waiting_cong [OF Q(3)] by blast
  moreover have "in_use st us pa h" if "in_use st ?us pa h" for h
    using that assms(2) set_update_subset_insert [of "us c" j None] by (cases h) (auto split: if_splits)
  then have "\<forall>h. in_use st ?us pa h \<longrightarrow> Q h \<noteq> None" using Q(4) by fastforce
  moreover have "\<forall>k' < 128. unat (r[k := r ! k - 1] ! k') = card (holders ?us k')"
  proof (intro allI impI)
    fix k' :: nat assume "k' < 128"
    have u: "unat (r ! k) = card (holders us k)" using I(4) k by blast
    have "holders us k \<noteq> {}" using old by blast
    then have "0 < card (holders us k)" by (simp add: card_gt_0_iff)
    then have "1 \<le> r ! k" using u by (simp add: word_le_nat_alt)
    then have "unat (r ! k - 1) = card (holders us k - {(c, j)})" using u old by (simp add: unat_sub)
    then show "unat (r[k := r ! k - 1] ! k') = card (holders ?us k')"
      using I(3,4) k \<open>k' < 128\<close> holders_upd(2) [of c j us k, OF assms(2,3) len assms(4)] by (simp add: nth_list_update)
  qed
  moreover have "\<forall>p < 64. \<forall>k. Some k \<in> set (?us p) \<longrightarrow> k < 128"
    using I(1) set_update_subset_insert [of "us c" j None] by auto
  ultimately show ?thesis
    using I assms(6) Q(1,2) unfolding sinv_def by (intro conjI exI [of _ n] exI [of _ Q]) auto
qed

end
