(* ===== verification/Quiet.thy ===== *)
theory Quiet
  imports Sched
begin

text \<open>
  Which code leaves the scheduling state alone: the rules for a relation that memory, files, devices and the
  unrelated fields of a process do not affect (locale \<open>untouched\<close>), the handlers that only do such
  things, and the invariant of the kernel (\<open>kinv\<close>, \<open>sys\<close>, \<open>left\<close>) that the other handlers have to keep.
\<close>

section \<open>Code that does not touch the scheduling state\<close>

text \<open>\<open>keeps R P m\<close>: when \<open>m\<close> returns, the states before and after are related by \<open>R\<close> and \<open>P\<close> holds of the value.\<close>

definition keeps :: "(kern \<Rightarrow> kern \<Rightarrow> bool) \<Rightarrow> ('a \<Rightarrow> bool) \<Rightarrow> 'a kprog \<Rightarrow> bool" where
  "keeps R P m \<longleftrightarrow> (\<forall>s x t. m s = Inr (x, t) \<longrightarrow> R s t \<and> P x)"

abbreviation silent :: "(kern \<Rightarrow> kern \<Rightarrow> bool) \<Rightarrow> 'a kprog \<Rightarrow> bool" where
  "silent R m \<equiv> keeps R (\<lambda>_. True) m"

text \<open>A handler that does not block.\<close>

abbreviation returns :: "call \<Rightarrow> bool" where
  "returns r \<equiv> (case r of Switch k \<Rightarrow> False | _ \<Rightarrow> True)"

named_theorems ends_intros \<open>code that respects a relation on states\<close>

lemma keeps_split [ends_intros]:
  "(b \<Longrightarrow> keeps R P m) \<Longrightarrow> (\<not> b \<Longrightarrow> keeps R P n) \<Longrightarrow> keeps R P (if b then m else n)"
  "(r = None \<Longrightarrow> keeps R P m) \<Longrightarrow> (\<And>y. r = Some y \<Longrightarrow> keeps R P (g y)) \<Longrightarrow> keeps R P (case r of None \<Rightarrow> m | Some y \<Rightarrow> g y)"
  "(\<And>a b. x = (a, b) \<Longrightarrow> keeps R P (h a b)) \<Longrightarrow> keeps R P (case x of (a, b) \<Rightarrow> h a b)"
  by (auto split: option.splits prod.splits)

text \<open>
  The interface between the scheduler and the rest of the kernel: a relation that holds between two states
  when only memory, the file system, open files, the buffer and counters, or other fields of a process differ.
\<close>

locale untouched =
  fixes R :: "kern \<Rightarrow> kern \<Rightarrow> bool"
  assumes R_refl: "R s s"
    and R_trans: "R s t \<Longrightarrow> R t u \<Longrightarrow> R s u"
    and R_fields: "R s (s\<lparr>vmem := a\<rparr>)" "R s (s\<lparr>fsys := b\<rparr>)" "R s (s\<lparr>file_tab := c\<rparr>)" "R s (s\<lparr>next_pid := d\<rparr>)"
      "R s (s\<lparr>screen := e\<rparr>)" "R s (s\<lparr>tick := f\<rparr>)" "R s (s\<lparr>buf_head := g\<rparr>)" "R s (s\<lparr>buf_tail := h\<rparr>)"
      "R s (s\<lparr>clapboard := i\<rparr>)" "R s (s\<lparr>buf_tail := h, buffer := j\<rparr>)"
    and R_entry: "(\<And>p. status (q p) = status p \<and> usems (q p) = usems p \<and> parent (q p) = parent p \<and> kont (q p) = kont p) \<Longrightarrow>
      R s (s\<lparr>pcb := (pcb s)[k := q (pcb s ! k)]\<rparr>)"
begin

lemma keeps_basic [ends_intros]:
  "P x \<Longrightarrow> keeps R P (retS x)" "keeps R P' (stopS e)" "(\<And>s. Q (f s)) \<Longrightarrow> keeps R Q (getS f)"
  "silent R (assertS b)" "silent R (liftS r)" "silent R proc_curr" "(\<And>s. R s (g s)) \<Longrightarrow> silent R (modS g)"
  by (auto simp: keeps_def proc_curr_def R_refl split: if_splits sum.splits)

lemma keeps_bind [ends_intros]: "silent R m \<Longrightarrow> (\<And>x. keeps R P (f x)) \<Longrightarrow> keeps R P (bindS m f)"
  unfolding keeps_def bindS_def by (simp split: sum.splits prod.splits) (blast intro: R_trans)

lemma keeps_then [ends_intros]: "silent R m \<Longrightarrow> keeps R P n \<Longrightarrow> keeps R P (thenS m n)"
  unfolding thenS_def by (rule keeps_bind)

lemma keeps_for [ends_intros]: "(\<And>x. silent R (f x)) \<Longrightarrow> silent R (forS f xs)"
  by (induction xs) (auto intro!: ends_intros)

lemma keeps_foldr [ends_intros]: "(\<And>x m. silent R m \<Longrightarrow> silent R (f x m)) \<Longrightarrow> silent R m \<Longrightarrow> silent R (foldr f xs m)"
  by (induction xs) auto

lemma keeps_parts [ends_intros]:
  "silent R (on_vm m)" "silent R (on_fs n)" "silent R (set_file i f)" "silent R (set_cr3 pd)"
  by (auto simp: keeps_def on_vm_def on_fs_def set_file_def set_cr3_def R_fields split: sum.splits prod.splits)

lemma keeps_set_proc [ends_intros]:
  "(\<And>p. status (f p) = status p \<and> usems (f p) = usems p \<and> parent (f p) = parent p \<and> kont (f p) = kont p) \<Longrightarrow> silent R (set_proc i f)"
  unfolding keeps_def set_proc_def by (auto simp: R_entry)

lemma keeps_int_inc [ends_intros]: "silent R (int_inc n)"
  by (simp add: keeps_def int_inc_def R_refl)

lemma keeps_user [ends_intros]: "silent R (user_load va)" "silent R (user_store va v)"
  by (auto simp: keeps_def user_load_def user_store_def bindR_def R_refl R_fields split: sum.splits)

lemma keeps_more [ends_intros]:
  "silent R (user_loads va n)" "silent R (user_stores va bs)" "silent R (putchar ch)"
  unfolding user_loads_def user_stores_def putchar_def
  by ((intro ends_intros; simp)+, simp add: keeps_def R_fields)

lemma keeps_load32 [ends_intros]: "silent R (user_load32 va)"
  unfolding user_load32_def by (intro ends_intros TrueI)

lemma user_str_keeps: "user_str va s = Inr (bs, t) \<Longrightarrow> R s t"
proof (induction va s arbitrary: bs t rule: user_str.induct)
  case (1 va s)
  have "R s u" if "user_load va s = Inr (c, u)" for c u
    using that keeps_user(1) [of va] unfolding keeps_def by blast
  then show ?case
    using 1 unfolding user_str.simps [of va s] by (auto intro: R_refl simp: bindS_def split: sum.splits prod.splits if_splits)
qed

lemma keeps_str [ends_intros]: "silent R (user_str va)"
  by (auto simp: keeps_def user_str_keeps)

lemma keeps_files [ends_intros]:
  "silent R falloc" "silent R (fdup i)" "silent R (fclose i)" "silent R (fseek i a b)" "silent R (serial_write buf n)"
  unfolding falloc_def fdup_def fclose_def fseek_def serial_write_def putstrn_def Let_def
  by (intro ends_intros TrueI; simp)+

lemma keeps_device: "(\<And>dev. dev \<in> set dev_table \<Longrightarrow> keeps R P (f dev)) \<Longrightarrow> keeps R P (bindS (liftS (rdR dev_table d)) f)"
proof (cases "d < length dev_table")
  case True
  assume "\<And>dev. dev \<in> set dev_table \<Longrightarrow> keeps R P (f dev)"
  from this [OF nth_mem [OF True]] show ?thesis using True unfolding keeps_def bindS_def by simp
qed (simp add: keeps_def bindS_def rdR_def)

lemma keeps_fopen [ends_intros]: "silent R (fopen_bad a b)" "silent R (fopen_inode i k mode)" "silent R (fopen wd path mode)"
  unfolding fopen_bad_def fopen_inode_def fopen_def Let_def
  by (intro ends_intros TrueI; simp)+

lemma keeps_fwrite [ends_intros]: "silent R (fwrite i buf sz)"
  unfolding fwrite_def
  by (intro ends_intros keeps_device TrueI) (auto simp: dev_table_def ignore_write_def intro!: ends_intros)

lemma keeps_load [ends_intros]:
  "silent R (iread_local k off old)" "silent R (load_segment pd k ph)" "silent R (load_segments pd k phoff i n ph)"
  "silent R (load_elf pd name)"
proof -
  show 1: "silent R (iread_local k off old)" "silent R (load_segment pd k ph)" for k off old pd ph
    unfolding iread_local_def load_segment_def by (intro ends_intros TrueI; simp)+
  show 2: "silent R (load_segments pd k phoff i n ph)" for pd k phoff i n ph
    by (induction n arbitrary: i ph) (simp_all, (intro ends_intros 1 TrueI | simp)+)
  show "silent R (load_elf pd name)"
    unfolding load_elf_def by (intro ends_intros 1 2 TrueI; simp)
qed

lemma keeps_arg [ends_intros]: "silent R (push_strings args argc stk vas)" "silent R (load_arg pd args)"
proof -
  show 1: "silent R (push_strings args argc stk vas)" for args argc stk vas
    unfolding push_bytes_def
    by (induction args arbitrary: argc stk vas) (simp_all add: push_bytes_def Let_def, (intro ends_intros TrueI | simp)+)
  show "silent R (load_arg pd args)"
    unfolding load_arg_def Let_def push_word_def by (intro ends_intros 1 TrueI; simp)
qed

lemma keeps_argv [ends_intros]: "silent R (user_argv n argv)"
  by (induction n arbitrary: argv) (simp_all, (intro ends_intros TrueI | simp)+)

lemma keeps_load_user [ends_intros]: "silent R m \<Longrightarrow> silent R (load_user pd ctx name m)"
  unfolding load_user_def by (intro ends_intros TrueI | simp)+

lemma keeps_buffer [ends_intros]: "silent R pop_back" "silent R pop_front" "silent R getchar_rest"
  unfolding pop_back_def pop_front_def getchar_rest_def
  by (intro ends_intros TrueI; simp add: R_fields)+

lemma keeps_with_file: "(\<And>i. keeps R returns (m i)) \<Longrightarrow> keeps R returns (with_file fd m)"
  unfolding with_file_def by (intro ends_intros) simp_all

lemma keeps_handlers:
  "keeps R returns (sys_write fd buf count)" "keeps R returns (sys_brk addr)" "keeps R returns (sys_exec path argv)"
  "keeps R returns sys_getpid" "keeps R returns (sys_open path mode)" "keeps R returns (sys_close fd)"
  "keeps R returns (sys_dup fd)" "keeps R returns (sys_lseek fd off whence)" "keeps R returns (sys_fstat fd st)"
  "keeps R returns (sys_chdir path)" "keeps R returns (sys_unlink path)" "keeps R returns TODO"
  unfolding sys_write_def sys_brk_def sys_exec_def sys_getpid_def sys_open_def sys_close_def sys_dup_def sys_lseek_def
    sys_fstat_def sys_chdir_def sys_unlink_def TODO_def curr_cwd_def Let_def
  by (intro ends_intros keeps_with_file TrueI; simp)+

end

lemma view_parts:
  "view (s\<lparr>vmem := a\<rparr>) = view s" "view (s\<lparr>fsys := b\<rparr>) = view s" "view (s\<lparr>file_tab := c\<rparr>) = view s"
  "view (s\<lparr>next_pid := d\<rparr>) = view s" "view (s\<lparr>screen := e\<rparr>) = view s" "view (s\<lparr>tick := f\<rparr>) = view s"
  "view (s\<lparr>buf_head := g\<rparr>) = view s" "view (s\<lparr>buf_tail := h\<rparr>) = view s" "view (s\<lparr>clapboard := i\<rparr>) = view s"
  "view (s\<lparr>buffer := j\<rparr>) = view s"
  by (simp_all add: view_def stat_def [abs_def] held_def [abs_def] par_def [abs_def])

text \<open>What matters to the scheduler is the same, or the idle process has nothing left to do.\<close>

definition same_view :: "kern \<Rightarrow> kern \<Rightarrow> bool" where
  "same_view s t \<longleftrightarrow> view t = view s"

definition idle_stays :: "kern \<Rightarrow> kern \<Rightarrow> bool" where
  "idle_stays s t \<longleftrightarrow> (kont (pcb s ! 0) = KUser \<longrightarrow> kont (pcb t ! 0) = KUser)"

lemma view_buffer: "view (s\<lparr>buf_tail := a, buffer := b\<rparr>) = view s"
  using view_parts(8,10) by metis

lemma nth_update_same:
  "g (f (xs ! i)) = g (xs ! i) \<Longrightarrow> g (xs[i := f (xs ! i)] ! p) = g (xs ! p)"
  by (cases "p = i"; cases "i < length xs") (simp_all add: list_update_beyond)

lemma view_set_proc:
  "(\<And>p. status (f p) = status p \<and> usems (f p) = usems p \<and> parent (f p) = parent p) \<Longrightarrow>
   view (s\<lparr>pcb := (pcb s)[i := f (pcb s ! i)]\<rparr>) = view s"
  by (simp add: view_def stat_def [abs_def] held_def [abs_def] par_def [abs_def] nth_update_same)

interpretation same: untouched same_view
  by unfold_locales (simp_all add: same_view_def view_parts view_buffer view_set_proc)

interpretation idle: untouched idle_stays
  by unfold_locales (simp_all add: idle_stays_def nth_update_same)

abbreviation quiet :: "'a kprog \<Rightarrow> bool" where
  "quiet m \<equiv> silent same_view m"

lemma quiet_set_proc [ends_intros]:
  "(\<And>p. status (f p) = status p \<and> usems (f p) = usems p \<and> parent (f p) = parent p) \<Longrightarrow> quiet (set_proc i f)"
  unfolding keeps_def set_proc_def by (auto simp: same_view_def view_set_proc)

section \<open>The invariant of the kernel\<close>

text \<open>What matters to the system, seen from the table of processes.\<close>

definition kinv :: "nat set \<Rightarrow> kern \<Rightarrow> bool" where
  "kinv X s \<longleftrightarrow> length (pcb s) = 64 \<and> curr s < 64 \<and>
     sinv X (stat s) (held s) (par s) (klists s) (sem_value s) (usem_ref s)"

text \<open>A process runs; it is the current one, and no other is running.\<close>

definition sys :: "kern \<Rightarrow> bool" where
  "sys s \<longleftrightarrow> kinv {} s \<and> stat s (curr s) = RUNNING \<and> (\<forall>p < 64. stat s p = RUNNING \<longrightarrow> p = curr s) \<and>
     stat s 0 \<in> {RUNNING, READY}"

text \<open>The current process has given up the processor; the idle process is \<open>READY\<close>.\<close>

definition left :: "kern \<Rightarrow> bool" where
  "left s \<longleftrightarrow> kinv {} s \<and> (\<forall>p < 64. stat s p \<noteq> RUNNING) \<and> stat s 0 = READY \<and> stat s (curr s) \<noteq> UNUSED"

text \<open>What a handler leaves behind; a process that is ready stays so.\<close>

definition after :: "kern \<Rightarrow> call \<Rightarrow> kern \<Rightarrow> bool" where
  "after s r t \<longleftrightarrow> curr t = curr s \<and> (\<forall>p. stat s p = READY \<longrightarrow> stat t p = READY) \<and>
     (case r of Switch k \<Rightarrow> left t | _ \<Rightarrow> sys t)"

lemma view_eq: "view t = view s \<longleftrightarrow> length (pcb t) = length (pcb s) \<and> curr t = curr s \<and> stat t = stat s \<and>
    held t = held s \<and> par t = par s \<and> klists t = klists s \<and> sem_value t = sem_value s \<and> usem_ref t = usem_ref s"
  by (auto simp: view_def)

lemma kinv_view: "view t = view s \<Longrightarrow> kinv X t = kinv X s"
  by (simp add: kinv_def view_eq)

lemma sys_view: "view t = view s \<Longrightarrow> sys t = sys s"
proof -
  assume v: "view t = view s"
  then have "stat t = stat s" "curr t = curr s" by (simp_all add: view_eq)
  then show ?thesis by (simp add: sys_def kinv_view [OF v])
qed

lemma after_ends: "keeps same_view returns m \<Longrightarrow> sys s \<Longrightarrow> m s = Inr (r, t) \<Longrightarrow> after s r t"
proof -
  assume "keeps same_view returns m" "sys s" "m s = Inr (r, t)"
  then have "view t = view s" "returns r" unfolding keeps_def same_view_def by blast+
  moreover from this(1) have "sys t" using \<open>sys s\<close> sys_view by blast
  ultimately show ?thesis unfolding after_def view_eq by (cases r) simp_all
qed

lemma set_proc_apply: "set_proc i f s = Inr ((), s\<lparr>pcb := (pcb s)[i := f (pcb s ! i)]\<rparr>)"
  by (simp add: set_proc_def)

lemma table_pcb [simp]:
  "stat (s\<lparr>pcb := ps\<rparr>) = (\<lambda>p. status (ps ! p))" "held (s\<lparr>pcb := ps\<rparr>) = (\<lambda>p. usems (ps ! p))"
  "par (s\<lparr>pcb := ps\<rparr>) = (\<lambda>p. parent (ps ! p))"
  by (simp_all add: stat_def held_def par_def fun_eq_iff)

lemma table_upd [simp]:
  "i < length ps \<Longrightarrow> (\<lambda>p. g (ps[i := q] ! p)) = (\<lambda>p. g (ps ! p))(i := g q)"
  by (auto simp: fun_eq_iff nth_list_update)

lemma table_fold [simp]:
  "(\<lambda>p. status (pcb s ! p)) = stat s" "(\<lambda>p. usems (pcb s ! p)) = held s" "(\<lambda>p. parent (pcb s ! p)) = par s"
  by (simp_all add: stat_def held_def par_def fun_eq_iff)

lemma table_other [simp]:
  "stat (s\<lparr>klists := a\<rparr>) = stat s" "held (s\<lparr>klists := a\<rparr>) = held s" "par (s\<lparr>klists := a\<rparr>) = par s"
  "stat (s\<lparr>sem_value := b\<rparr>) = stat s" "held (s\<lparr>sem_value := b\<rparr>) = held s" "par (s\<lparr>sem_value := b\<rparr>) = par s"
  "stat (s\<lparr>usem_ref := c\<rparr>) = stat s" "held (s\<lparr>usem_ref := c\<rparr>) = held s" "par (s\<lparr>usem_ref := c\<rparr>) = par s"
  "stat (s\<lparr>vmem := e\<rparr>) = stat s" "held (s\<lparr>vmem := e\<rparr>) = held s" "par (s\<lparr>vmem := e\<rparr>) = par s"
  "stat (s\<lparr>curr := d\<rparr>) = stat s" "held (s\<lparr>curr := d\<rparr>) = held s" "par (s\<lparr>curr := d\<rparr>) = par s"
  by (simp_all add: stat_def held_def par_def fun_eq_iff)

lemma table_self [simp]:
  "(stat s)(i := status (pcb s ! i)) = stat s" "(held s)(i := usems (pcb s ! i)) = held s"
  "(par s)(i := parent (pcb s ! i)) = par s"
  by (auto simp: stat_def held_def par_def)

end
