(* ===== verification/Handlers.thy ===== *)
theory Handlers
  imports Quiet
begin

text \<open>
  The handlers that change the scheduling state, each one from a state with the invariant \<open>sys\<close> to what \<open>after\<close>
  says: \<open>sem_p\<close> and \<open>sem_v\<close>, the serial line, yielding and sleeping, the semaphores of a process, reading from the
  serial line, \<open>wait\<close>, \<open>exit\<close> and \<open>fork\<close>.
\<close>

section \<open>Semaphores\<close>

text \<open>What \<open>sem_v\<close> does to the processes: it may make one of those that wait ready.\<close>

definition wakes :: "kern \<Rightarrow> kern \<Rightarrow> bool" where
  "wakes s t \<longleftrightarrow> curr t = curr s \<and> length (pcb t) = length (pcb s) \<and> held t = held s \<and> par t = par s \<and> usem_ref t = usem_ref s \<and>
     (\<forall>p. stat t p = stat s p \<or> 0 < p \<and> p < 64 \<and> stat s p = BLOCKED \<and> stat t p = READY)"

lemma wakes_refl [simp]: "wakes s s"
  by (simp add: wakes_def)

lemma wakes_trans: "wakes s t \<Longrightarrow> wakes t u \<Longrightarrow> wakes s u"
  unfolding wakes_def by (smt (verit) status.distinct)

lemma wakes_view: "view t = view s \<Longrightarrow> wakes s t"
  by (simp add: wakes_def view_eq)

lemma wakes_in_use: "wakes s t \<Longrightarrow> in_use (stat t) (held t) (par t) h = in_use (stat s) (held s) (par s) h"
  unfolding wakes_def by (cases h) (auto, (metis status.distinct)+)

lemma sem_v_wakes:
  assumes "kinv X s" "in_use (stat s) (held s) (par s) h"
  shows "runs {Undef} (sem_v h) (\<lambda>_ t. kinv X t \<and> wakes s t) s"
proof -
  have I: "sinv X (stat s) (held s) (par s) (klists s) (sem_value s) (usem_ref s)" "length (pcb s) = 64" "curr s < 64"
    using assms(1) unfolding kinv_def by auto
  from I(1) assms(2) show ?thesis
  proof (rule sinv_wake [where x = "sem_value s h + 1"])
    assume "list_dequeue (Head h) (klists s) = Inr (None, klists s)"
      "sinv X (stat s) (held s) (par s) (klists s) ((sem_value s)(h := sem_value s h + 1)) (usem_ref s)"
    then show ?thesis
      using I(2,3) by (simp add: runs_def sem_v_def on_lists_def bindS_def kinv_def wakes_def)
  next
    fix p L'
    assume "list_dequeue (Head h) (klists s) = Inr (Some p, L')" "0 < p" "p < 64" "stat s p = BLOCKED"
      "sinv X ((stat s)(p := READY)) (held s) (par s) L' (sem_value s) (usem_ref s)"
    then show ?thesis
      using I(2,3) by (simp add: runs_def sem_v_def on_lists_def bindS_def proc_addready_def set_proc_apply kinv_def wakes_def
        del: fun_upd_apply) simp
  qed
qed

lemma sinv_take:
  assumes "sinv X st us pa L v r" "v h \<noteq> 0"
  shows "sinv X st us pa L (v(h := x)) r"
proof -
  obtain n Q where Q: "queues n Q L" "256 \<le> n + card (blocked st)" "waiting st us v Q"
    "\<And>h. in_use st us pa h \<Longrightarrow> \<exists>q. Q h = Some q" using assms(1) by (elim sinvE) blast
  have "waiting st us (v(h := x)) Q" using Q(3) assms(2) unfolding waiting_def by auto
  then show ?thesis
    using assms(1) Q unfolding sinv_def by (intro conjI exI [of _ n] exI [of _ Q]) auto
qed

lemma sem_p_blocks:
  assumes "kinv X s" "in_use (stat s) (held s) (par s) h" "0 < curr s" "stat s (curr s) = RUNNING" "may_wait (held s) (curr s) h"
  shows "runs (if sem_value s h = 0x80000000 then {Undef} else {}) (sem_p h) (\<lambda>b t. kinv X t \<and> curr t = curr s \<and> held t = held s \<and> par t = par s \<and>
     stat t = (if b then (stat s)(curr s := BLOCKED) else stat s) \<and> b = (sem_value s h = 0)) s"
proof (cases "sem_value s h = 0")
  case True
  have I: "sinv X (stat s) (held s) (par s) (klists s) (sem_value s) (usem_ref s)" "length (pcb s) = 64" "curr s < 64"
    using assms(1) unfolding kinv_def by auto
  have n: "stat s (curr s) \<noteq> BLOCKED" "stat s (curr s) \<noteq> UNUSED" using assms(4) by simp_all
  obtain x L' where "list_enqueue (Head h) (curr s) (klists s) = Inr (x, L')"
    "sinv X ((stat s)(curr s := BLOCKED)) (held s) (par s) L' (sem_value s) (usem_ref s)"
    using sinv_block [OF I(1) assms(2) True assms(3) I(3) n assms(5)] by blast
  then show ?thesis
    using True I(2,3) by (simp add: runs_def sem_p_def proc_curr_def on_lists_def bindS_def proc_block_def set_proc_apply kinv_def
      del: fun_upd_apply)
next
  case False
  then show ?thesis
    using assms(1) sinv_take [of X _ _ _ _ "sem_value s" _ h] by (simp add: runs_def sem_p_def bindS_def kinv_def)
qed

lemma sys_wakes: "sys s \<Longrightarrow> kinv {} t \<Longrightarrow> wakes s t \<Longrightarrow> sys t"
  unfolding sys_def wakes_def by (metis status.distinct insertCI insertE singletonD)

lemma after_wakes: "sys s \<Longrightarrow> kinv {} t \<Longrightarrow> wakes s t \<Longrightarrow> returns r \<Longrightarrow> after s r t"
  using sys_wakes [of s t] unfolding after_def wakes_def by (cases r) (auto, (metis status.distinct)+)

section \<open>The operations that wake, block and free\<close>

lemma runs_UNIV: "runs UNIV m Q s \<longleftrightarrow> (\<forall>x t. m s = Inr (x, t) \<longrightarrow> Q x t)"
  by (auto simp: runs_def split: sum.splits prod.splits)

lemma runs_quiet:
  "quiet m \<Longrightarrow> (\<And>x t. view t = view s \<Longrightarrow> Q x t) \<Longrightarrow> runs UNIV m Q s"
  by (auto simp: runs_UNIV keeps_def same_view_def)

definition woke :: "'a kprog \<Rightarrow> bool" where
  "woke m \<longleftrightarrow> (\<forall>X s. kinv X s \<longrightarrow> runs UNIV m (\<lambda>_ t. kinv X t \<and> wakes s t) s)"

lemma woke_quiet: "quiet m \<Longrightarrow> woke m"
  unfolding woke_def
proof (intro allI impI)
  fix X s assume m: "quiet m" and "kinv X s"
  moreover have "kinv X t \<and> wakes s t" if v: "view t = view s" "kinv X s" for t
    using kinv_view [OF v(1)] wakes_view [OF v(1)] v(2) by simp
  ultimately show "runs UNIV m (\<lambda>_ t. kinv X t \<and> wakes s t) s" by (intro runs_quiet [OF m]) blast
qed

lemma woke_bind: "woke m \<Longrightarrow> (\<And>x. woke (f x)) \<Longrightarrow> woke (bindS m f)"
  unfolding woke_def runs_bind
proof (intro allI impI)
  fix X s assume m: "\<forall>X s. kinv X s \<longrightarrow> runs UNIV m (\<lambda>_ t. kinv X t \<and> wakes s t) s" and "kinv X s"
    and f: "\<And>x. \<forall>X s. kinv X s \<longrightarrow> runs UNIV (f x) (\<lambda>_ t. kinv X t \<and> wakes s t) s"
  then have "runs UNIV m (\<lambda>_ t. kinv X t \<and> wakes s t) s" by blast
  then show "runs UNIV m (\<lambda>x. runs UNIV (f x) (\<lambda>_ t. kinv X t \<and> wakes s t)) s"
  proof (rule runs_mono)
    fix x t assume t: "kinv X t \<and> wakes s t"
    then have "runs UNIV (f x) (\<lambda>_ u. kinv X u \<and> wakes t u) t" using f by blast
    then show "runs UNIV (f x) (\<lambda>_ u. kinv X u \<and> wakes s u) t"
      by (rule runs_mono) (use t wakes_trans in blast)+
  qed simp
qed

lemma woke_then: "woke m \<Longrightarrow> woke n \<Longrightarrow> woke (thenS m n)"
  unfolding thenS_def by (rule woke_bind)

lemma woke_for: "(\<And>x. woke (f x)) \<Longrightarrow> woke (forS f xs)"
  by (induction xs) (auto intro: woke_then woke_quiet ends_intros)

lemma woke_if: "woke m \<Longrightarrow> woke n \<Longrightarrow> woke (if b then m else n)"
  by simp

lemma woke_serial: "woke (sem_v Serial_Sem)"
  unfolding woke_def by (intro allI impI, rule runs_mono, rule sem_v_wakes) simp_all

lemma woke_serial_handle: "woke (serial_handle input)"
proof (induction input)
  case (Cons ch input)
  have p: "woke (push_back ch)" for ch
    unfolding push_back_def
    by (intro woke_bind woke_then woke_for woke_if woke_serial; (rule woke_quiet)?;
        (intro ends_intros TrueI)?; simp add: same_view_def view_parts view_buffer)
  have "woke (serial_char ch)"
    unfolding serial_char_def Let_def
    by (intro woke_bind woke_then woke_if p; (rule woke_quiet)?; (intro ends_intros TrueI)?; simp)
  then show ?case using Cons unfolding serial_handle.simps
    by (intro woke_if woke_then) (auto intro: woke_quiet ends_intros)
qed (simp add: woke_quiet same.keeps_basic(1) del: prog_apply)

text \<open>\<open>timer_handle\<close>, \<open>sys_yield\<close>, \<open>sys_sleep\<close>: the current process becomes ready.\<close>

lemma sys_parts:
  assumes "sys s"
  shows "length (pcb s) = 64" "curr s < 64" "sinv {} (stat s) (held s) (par s) (klists s) (sem_value s) (usem_ref s)"
    "stat s (curr s) = RUNNING" "\<And>p. p < 64 \<Longrightarrow> p \<noteq> curr s \<Longrightarrow> stat s p \<noteq> RUNNING" "stat s 0 = RUNNING \<or> stat s 0 = READY"
  using assms unfolding sys_def kinv_def by auto

text \<open>Everything but the state of process \<open>i\<close> is as before.\<close>

definition restated :: "nat \<Rightarrow> status \<Rightarrow> kern \<Rightarrow> kern \<Rightarrow> bool" where
  "restated i x s t \<longleftrightarrow> length (pcb t) = length (pcb s) \<and> curr t = curr s \<and> stat t = (stat s)(i := x) \<and>
     held t = held s \<and> par t = par s \<and> klists t = klists s \<and> sem_value t = sem_value s \<and> usem_ref t = usem_ref s"

lemma restate:
  assumes "i < length (pcb s)" "status (f (pcb s ! i)) = x" "usems (f (pcb s ! i)) = held s i" "parent (f (pcb s ! i)) = par s i"
  shows "runs {} (set_proc i f) (\<lambda>_. restated i x s) s"
  using assms by (simp add: runs_def restated_def set_proc_apply del: fun_upd_apply)

lemma yield_leaves:
  assumes "sys s"
  shows "runs {} proc_yield (\<lambda>_. after s (Switch k)) s"
proof -
  note p = sys_parts [OF assms]
  have "runs {} proc_yield (\<lambda>_. restated (curr s) READY s) s"
    using restate [of "curr s" s "\<lambda>p. p\<lparr>status := READY\<rparr>" READY] p(1,2)
    by (simp add: proc_yield_def proc_curr_def held_def par_def)
  then show ?thesis
  proof (rule runs_mono)
    fix u t assume t: "restated (curr s) READY s t"
    have "sinv {} ((stat s)(curr s := READY)) (held s) (par s) (klists s) (sem_value s) (usem_ref s)"
      by (rule sinv_status) (use p in auto)
    then show "after s (Switch k) t"
      using t p(1,2,5) p(6) unfolding after_def left_def kinv_def restated_def by auto
  qed simp
qed

definition good :: "call kprog \<Rightarrow> bool" where
  "good m \<longleftrightarrow> (\<forall>s. sys s \<and> 0 < curr s \<longrightarrow> runs UNIV m (after s) s)"

lemma good_ends: "keeps same_view returns m \<Longrightarrow> good m"
  by (auto simp: good_def runs_UNIV after_ends)

lemma after_view: "view t = view s \<Longrightarrow> after t r u = after s r u"
  unfolding after_def by (auto simp: view_eq)

lemma good_bind: "quiet m \<Longrightarrow> (\<And>x. good (f x)) \<Longrightarrow> good (bindS m f)"
  unfolding good_def runs_bind
proof (intro allI impI)
  fix s assume m: "quiet m" and f: "\<And>x. \<forall>s. sys s \<and> 0 < curr s \<longrightarrow> runs UNIV (f x) (after s) s" and s: "sys s \<and> 0 < curr s"
  have "runs UNIV (f x) (after s) t" if v: "view t = view s" for x t
  proof -
    have "sys t \<and> 0 < curr t" using s sys_view [OF v] v unfolding view_eq by simp
    then have "runs UNIV (f x) (after t) t" using f by blast
    then show ?thesis using after_view [OF v] by (simp add: runs_UNIV)
  qed
  then show "runs UNIV m (\<lambda>x. runs UNIV (f x) (after s)) s" by (rule runs_quiet [OF m])
qed

lemma good_then: "quiet m \<Longrightarrow> good n \<Longrightarrow> good (thenS m n)"
  unfolding thenS_def by (rule good_bind)

lemma good_if: "good m \<Longrightarrow> good n \<Longrightarrow> good (if b then m else n)"
  by simp

lemma good_yield: "good (thenS proc_yield (retS (Switch k)))"
  unfolding good_def runs_simps by (intro allI impI, rule runs_mono, rule yield_leaves) simp_all

lemma good_sleep: "good (sleep_rest a b)" "good (sys_sleep b)" "good sys_yield"
  unfolding sys_sleep_def sleep_rest_def sys_yield_def
  by (intro good_bind good_if good_yield good_ends ends_intros TrueI; simp)+

section \<open>The handlers that block, fork, exit and reap\<close>

lemma sys_held: "sys s \<Longrightarrow> p < 64 \<Longrightarrow> length (held s p) = 32"
  using sys_parts(3) [of s] unfolding sinv_def by blast

lemma small_id: "\<not> (sint w < 0 \<or> int n \<le> sint w) \<Longrightarrow> unat (w :: u32) < n"
proof -
  assume "\<not> (sint w < 0 \<or> int n \<le> sint w)"
  then have "uint w < int n" using sint_u32 [of w] uint_u32 [of w] by (simp split: if_splits)
  then have "int (unat w) < int n" by simp
  then show ?thesis by linarith
qed

lemma good_with_usem:
  assumes "\<And>k s. sys s \<Longrightarrow> 0 < curr s \<Longrightarrow> unat sem_id < 32 \<Longrightarrow> held s (curr s) ! unat sem_id = Some k \<Longrightarrow>
    runs UNIV (m k) (after s) s"
  shows "good (with_usem sem_id m)"
  unfolding good_def
proof (intro allI impI)
  fix s assume s: "sys s \<and> 0 < curr s"
  show "runs UNIV (with_usem sem_id m) (after s) s"
  proof (cases "proc_getusem (curr s) sem_id s")
    case None
    then show ?thesis
      using s after_ends [of "value_of (- 1)" s] by (simp add: runs_def with_usem_def proc_curr_def bindS_def same.keeps_basic(1))
  next
    case (Some k)
    then have "unat sem_id < 32" "held s (curr s) ! unat sem_id = Some k"
      using small_id [of sem_id 32] by (auto simp: proc_getusem_def held_def split: if_splits)
    then show ?thesis
      using s Some assms by (simp add: with_usem_def proc_curr_def runs_def bindS_def)
  qed
qed

text \<open>\<open>sem_p\<close> of the current process, on a semaphore that it may wait for.\<close>

lemma sem_p_after:
  assumes "sys s" "0 < curr s" "in_use (stat s) (held s) (par s) h" "may_wait (held s) (curr s) h"
  shows "runs {Undef} (sem_p h) (\<lambda>b t. if b then after s (Switch k) t else sys t \<and> curr t = curr s \<and> stat t = stat s) s"
proof -
  note p = sys_parts [OF assms(1)]
  have "kinv {} s" using assms(1) unfolding sys_def by blast
  from sem_p_blocks [OF this assms(3,2) p(4) assms(4)] show ?thesis
  proof (rule runs_mono)
    fix b t assume t: "kinv {} t \<and> curr t = curr s \<and> held t = held s \<and> par t = par s \<and>
      stat t = (if b then (stat s)(curr s := BLOCKED) else stat s) \<and> b = (sem_value s h = 0)"
    show "if b then after s (Switch k) t else sys t \<and> curr t = curr s \<and> stat t = stat s"
    proof (cases b)
      case True
      then show ?thesis using t assms(2) p(2,4,5) p(6) unfolding after_def left_def by auto
    next
      case False
      then show ?thesis using t assms(1) unfolding sys_def by simp
    qed
  qed simp
qed

lemma after_sys: "sys t \<Longrightarrow> curr t = curr s \<Longrightarrow> stat t = stat s \<Longrightarrow> returns r \<Longrightarrow> after s r t"
  by (auto simp: after_def split: call.splits)

lemma in_use_held: "p < 64 \<Longrightarrow> j < length (us p) \<Longrightarrow> us p ! j = Some k \<Longrightarrow> in_use st us pa (User_Sem k)"
  using nth_mem by fastforce

lemma good_sem_p: "good (sys_sem_p sem_id)"
  unfolding sys_sem_p_def
proof (rule good_with_usem)
  fix k s assume s: "sys s" "0 < curr s" "unat sem_id < 32" "held s (curr s) ! unat sem_id = Some k"
  have l: "curr s < 64" "length (held s (curr s)) = 32" using sys_parts(2) [OF s(1)] sys_held [OF s(1)] by auto
  then have "may_wait (held s) (curr s) (User_Sem k)" using s(3,4) by simp (metis nth_mem)
  then have "runs {Undef} (sem_p (User_Sem k)) (\<lambda>b t. if b then after s (Switch KSemP) t else sys t \<and> curr t = curr s \<and> stat t = stat s) s"
    using s l by (intro sem_p_after in_use_held) auto
  then show "runs UNIV (bindS (sem_p (User_Sem k)) (\<lambda>b. if b then retS (Switch KSemP) else value_of 0)) (after s) s"
    unfolding runs_bind by (rule runs_mono) (auto simp: after_sys split: if_splits)
qed

lemma good_sem_v: "good (sys_sem_v sem_id)"
  unfolding sys_sem_v_def
proof (rule good_with_usem)
  fix k s assume s: "sys s" "0 < curr s" "unat sem_id < 32" "held s (curr s) ! unat sem_id = Some k"
  have l: "curr s < 64" "length (held s (curr s)) = 32" using sys_parts(2) [OF s(1)] sys_held [OF s(1)] by auto
  have "kinv {} s" using s(1) unfolding sys_def by blast
  then have "runs {Undef} (sem_v (User_Sem k)) (\<lambda>_ t. kinv {} t \<and> wakes s t) s"
    using s l by (intro sem_v_wakes in_use_held) auto
  then show "runs UNIV (thenS (sem_v (User_Sem k)) (value_of 0)) (after s) s"
    unfolding runs_simps by (rule runs_mono) (auto simp: after_wakes s(1))
qed

lemma sinv_ranges:
  assumes "sinv X st us pa L v r"
  shows "length r = 128" "\<And>p k. p < 64 \<Longrightarrow> Some k \<in> set (us p) \<Longrightarrow> k < 128" "\<And>p a. p < 64 \<Longrightarrow> pa p = Some a \<Longrightarrow> a < 64"
    "\<And>p. p < 64 \<Longrightarrow> length (us p) = 32"
  using assms unfolding sinv_def by blast+

text \<open>A change of one entry in the table of semaphores of process \<open>c\<close>, after one of the reference counts.\<close>

lemma sys_held_upd:
  assumes "sys s" "t = u\<lparr>pcb := (pcb u)[c := (pcb u ! c)\<lparr>usems := x\<rparr>]\<rparr>" "pcb u = pcb s" "curr u = curr s" "c < 64"
    "sinv {} (stat s) ((held s)(c := x)) (par s) (klists u) (sem_value u) (usem_ref u)"
  shows "sys t" "curr t = curr s" "stat t = stat s"
proof -
  note p = sys_parts [OF assms(1)]
  have "stat t = stat s" "held t = (held s)(c := x)" "par t = par s" "curr t = curr s"
    "length (pcb t) = 64" "klists t = klists u" "sem_value t = sem_value u" "usem_ref t = usem_ref u"
    using assms(2,3,4,5) p(1) by (simp_all del: fun_upd_apply)
  then show "sys t" "curr t = curr s" "stat t = stat s"
    using assms(1,6) unfolding sys_def kinv_def by simp_all
qed

lemma good_sem_close: "good (sys_sem_close sem_id)"
  unfolding sys_sem_close_def
proof (rule good_with_usem)
  fix k s assume s: "sys s" "0 < curr s" "unat sem_id < 32" "held s (curr s) ! unat sem_id = Some k"
  note p = sys_parts [OF s(1)]
  let ?u = "s\<lparr>usem_ref := (usem_ref s)[k := usem_ref s ! k - 1]\<rparr>"
  let ?t = "?u\<lparr>pcb := (pcb ?u)[curr s := (pcb ?u ! curr s)\<lparr>usems := (held s (curr s))[unat sem_id := None]\<rparr>]\<rparr>"
  have "sinv {} (stat s) ((held s)(curr s := (held s (curr s))[unat sem_id := None])) (par s) (klists s) (sem_value s)
      ((usem_ref s)[k := usem_ref s ! k - 1])"
    using p s by (intro sinv_drop) auto
  then have "sys ?t" "curr ?t = curr s" "stat ?t = stat s"
    by (rule_tac [!] sys_held_upd [OF s(1) refl, where c = "curr s"]) (use p(2) in simp_all)
  then show "runs UNIV (thenS (usem_close k) (bindS proc_curr (\<lambda>c. thenS (set_proc c (\<lambda>p. p\<lparr>usems := (usems p)[unat sem_id := None]\<rparr>)) (value_of 0)))) (after s) s"
    by (simp add: runs_def bindS_def usem_close_def proc_curr_def set_proc_apply after_sys held_def)
qed

lemma good_sem_open: "good (sys_sem_open v)"
  unfolding good_def
proof (intro allI impI)
  fix s :: kern assume "sys s \<and> 0 < curr s"
  then have s: "sys s" "0 < curr s" by auto
  note p = sys_parts [OF s(1)]
  have f: "after s (Value (Some x)) s" for x using s(1) by (simp add: after_def)
  show "runs UNIV (sys_sem_open v) (after s) s"
  proof (cases "proc_allocusem (curr s) s")
    case None
    then show ?thesis using f by (simp add: sys_sem_open_def runs_def bindS_def proc_curr_def)
  next
    case (Some j)
    then have j: "j < 32" "held s (curr s) ! j = None"
      unfolding proc_allocusem_def held_def by (auto simp: find_slot_Some)
    show ?thesis
    proof (cases "find_slot (\<lambda>r. r = 0) (usem_ref s)")
      case None
      then show ?thesis using f Some by (simp add: sys_sem_open_def usem_alloc_def runs_def bindS_def proc_curr_def)
    next
      case k: (Some k)
      then have r: "k < 128" "usem_ref s ! k = 0"
        using k sinv_ranges(1) [OF p(3)] by (auto simp: find_slot_Some)
      let ?u = "s\<lparr>sem_value := (sem_value s)(User_Sem k := v), klists := list_init (Head (User_Sem k)) (klists s),
        usem_ref := (usem_ref s)[k := 1]\<rparr>"
      let ?t = "?u\<lparr>pcb := (pcb ?u)[curr s := (pcb ?u ! curr s)\<lparr>usems := (held s (curr s))[j := Some k]\<rparr>]\<rparr>"
      have "sinv {} (stat s) ((held s)(curr s := (held s (curr s))[j := Some k])) (par s) (list_init (Head (User_Sem k)) (klists s))
          ((sem_value s)(User_Sem k := v)) ((usem_ref s)[k := 1])"
        using p r j by (intro sinv_open) auto
      then have "sys ?t" "curr ?t = curr s" "stat ?t = stat s"
        by (rule_tac [!] sys_held_upd [OF s(1) refl, where c = "curr s"]) (use p(2) in simp_all)
      then show ?thesis
        using Some k by (simp add: sys_sem_open_def usem_alloc_def sem_init_def on_lists_def runs_def bindS_def proc_curr_def
          set_proc_apply after_sys held_def)
    qed
  qed
qed

lemma runs_forS:
  assumes "\<And>k t. k < length xs \<Longrightarrow> P k t \<Longrightarrow> runs A (f (xs ! k)) (\<lambda>_. P (Suc k)) t" "P 0 s"
  shows "runs A (forS f xs) (\<lambda>_. P (length xs)) s"
  using assms
proof (induction xs arbitrary: P s)
  case (Cons x xs)
  have 1: "runs A (f x) (\<lambda>_. P 1) s" using Cons.prems(1) [of 0 s] Cons.prems(2) by simp
  have 2: "runs A (forS f xs) (\<lambda>_. P (Suc (length xs))) t" if "P 1 t" for t
  proof (rule Cons.IH [of "\<lambda>k. P (Suc k)"])
    show "runs A (f (xs ! k)) (\<lambda>_. P (Suc (Suc k))) t" if "k < length xs" "P (Suc k) t" for k t
      using Cons.prems(1) [of "Suc k" t] that by simp
  qed (use that in simp)
  show ?case unfolding forS.simps runs_simps list.size
    by (rule runs_mono [OF 1]) (use 2 in auto)
qed simp

text \<open>Reaping a child.\<close>

lemma free_after:
  assumes "sys t" "j < 64" "stat t j = ZOMBIE"
  shows "runs {} (proc_free j) (\<lambda>_. after t (Value x)) t"
proof -
  note p = sys_parts [OF assms(1)]
  have "runs {} (proc_free j) (\<lambda>_. restated j UNUSED t) t"
    using restate [of j t "\<lambda>p. p\<lparr>status := UNUSED\<rparr>" UNUSED] p(1) assms(2,3)
    by (simp add: proc_free_def held_def par_def stat_def)
  then show ?thesis
  proof (rule runs_mono)
    fix y u assume u: "restated j UNUSED t u"
    have "sinv {} ((stat t)(j := UNUSED)) (held t) (par t) (klists t) (sem_value t) (usem_ref t)"
      by (rule sinv_free) (use p assms in auto)
    then show "after t (Value x) u"
      using u p(1,2,4,5) p(6) assms(2,3) unfolding after_def sys_def kinv_def restated_def by auto
  qed simp
qed

lemma good_wait_rest: "good (wait_rest st)"
  unfolding good_def
proof (intro allI impI)
  fix s :: kern assume s: "sys s \<and> 0 < curr s"
  show "runs UNIV (wait_rest st) (after s) s"
  proof (cases "proc_findzombie (curr s) s")
    case None
    have "runs UNIV (thenS proc_yield (retS (Switch (KWait st)))) (after s) s"
      using good_yield s unfolding good_def by blast
    then show ?thesis using None by (simp add: wait_rest_def proc_curr_def)
  next
    case (Some j)
    then have j: "j < 64" "stat s j = ZOMBIE"
      by (auto simp: proc_findzombie_def find_slot_Some stat_def)
    let ?c = "curr s"
    have "runs UNIV (thenS (set_proc ?c (\<lambda>p. p\<lparr>child_num := child_num p - 1\<rparr>))
         (bindS (getS (proc_at j)) (\<lambda>zombie_child.
          thenS (if st \<noteq> 0 then user_stores st (le32 (exit_code zombie_child)) else retS ())
          (retS zombie_child)))) (\<lambda>z t. runs UNIV (thenS (proc_free j) (value_of (pid z))) (after s) t) s"
    proof (rule runs_quiet)
      fix z t assume v: "view t = view s"
      then have "sys t" "stat t j = ZOMBIE" using s j(2) sys_view [OF v] by (simp_all add: view_eq)
      from free_after [OF this(1) j(1) this(2)]
      show "runs UNIV (thenS (proc_free j) (value_of (pid z))) (after s) t"
        unfolding runs_simps by (rule runs_mono) (simp_all add: after_view [OF v])
    qed (intro ends_intros TrueI; simp)
    then show ?thesis using Some by (simp add: wait_rest_def proc_curr_def)
  qed
qed

lemma good_wait: "good (sys_wait st)"
  unfolding good_def
proof (intro allI impI)
  fix s :: kern assume s: "sys s \<and> 0 < curr s"
  note p = sys_parts [OF conjunct1 [OF s]]
  have "runs {Undef} (sem_p (Zombie_Sem (curr s))) (\<lambda>b t. if b then after s (Switch (KWait st)) t
      else sys t \<and> curr t = curr s \<and> stat t = stat s) s"
    using s p(2,4) by (intro sem_p_after) auto
  then have "runs UNIV (bindS (sem_p (Zombie_Sem (curr s))) (\<lambda>blocked. if blocked then retS (Switch (KWait st)) else wait_rest st))
      (after s) s"
    unfolding runs_bind
  proof (rule runs_mono)
    fix b t assume t: "if b then after s (Switch (KWait st)) t else sys t \<and> curr t = curr s \<and> stat t = stat s"
    have "runs UNIV (wait_rest st) (after t) t" if "\<not> b" using good_wait_rest that t s unfolding good_def by simp
    then show "runs UNIV (if b then retS (Switch (KWait st)) else wait_rest st) (after s) t"
      using t by (auto simp: after_def intro: runs_mono)
  qed simp
  moreover have "after s (Value (Some (- 1))) s" using s by (simp add: after_def)
  ultimately show "runs UNIV (sys_wait st) (after s) s" by (simp add: sys_wait_def proc_curr_def)
qed

text \<open>A loop of \<open>serial_read\<close>.\<close>

lemma good_read_step:
  assumes "sys s" "0 < curr s" "\<And>ch t. sys t \<Longrightarrow> curr t = curr s \<Longrightarrow> stat t = stat s \<Longrightarrow>
    runs UNIV (serial_read_from buf count (i + 1) ch) (after s) t"
  shows "runs UNIV (serial_read_rest buf count i) (after s) s"
proof -
  have "runs UNIV (bindS getchar_rest (\<lambda>ch. thenS (user_store (buf + of_nat i) ch) (retS ch)))
      (\<lambda>ch. runs UNIV (serial_read_from buf count (i + 1) ch) (after s)) s"
  proof (rule runs_quiet)
    fix ch t assume v: "view t = view s"
    then show "runs UNIV (serial_read_from buf count (i + 1) ch) (after s) t"
      using assms(1,3) sys_view [OF v] by (simp add: view_eq)
  qed (intro ends_intros TrueI)
  then show ?thesis by (simp add: serial_read_rest_def)
qed

lemma serial_read_from_step:
  assumes "i < unat count \<and> ch \<noteq> 10"
  shows "serial_read_from buf count i ch s =
    bindS getchar_p (\<lambda>b. if b then retS (Switch (KRead buf count i)) else serial_read_rest buf count i) s"
  unfolding serial_read_rest_def by (subst serial_read_from.simps) (rule if_P [OF assms])

lemma good_read_from: "sys s \<Longrightarrow> 0 < curr s \<Longrightarrow> runs UNIV (serial_read_from buf count i ch) (after s) s"
proof (induction "unat count - i" arbitrary: i ch s rule: less_induct)
  case less
  show ?case
  proof (cases "i < unat count \<and> ch \<noteq> 10")
    case False
    then have "serial_read_from buf count i ch s = Inr (Value (Some (of_nat i)), s)"
      by (subst serial_read_from.simps) auto
    then show ?thesis using less(2) by (simp add: runs_Inr after_def)
  next
    case True
    have go: "runs UNIV (serial_read_rest buf count i) (after s) t" if t: "sys t" "curr t = curr s" "stat t = stat s" for t
    proof -
      have a: "after t = after s" using t(2,3) by (simp add: after_def fun_eq_iff)
      have "runs UNIV (serial_read_rest buf count i) (after t) t"
      proof (rule good_read_step)
        fix ch u assume u: "sys u" "curr u = curr t" "stat u = stat t"
        then have "after u = after t" by (simp add: after_def fun_eq_iff)
        moreover have "unat count - (i + 1) < unat count - i" using True by linarith
        ultimately show "runs UNIV (serial_read_from buf count (i + 1) ch) (after t) u"
          using less(1) [of "i + 1" u ch] u(1,2) less(3) t(2) by simp
      qed (use t less(3) in simp_all)
      then show ?thesis using a by simp
    qed
    have "runs {Undef} (sem_p Serial_Sem) (\<lambda>b t. if b then after s (Switch (KRead buf count i)) t
        else sys t \<and> curr t = curr s \<and> stat t = stat s) s"
      using less(2,3) by (intro sem_p_after) auto
    then have "runs UNIV (bindS getchar_p (\<lambda>b. if b then retS (Switch (KRead buf count i)) else serial_read_rest buf count i)) (after s) s"
      unfolding runs_bind getchar_p_def
    proof (rule runs_mono)
      fix b t assume "if b then after s (Switch (KRead buf count i)) t else sys t \<and> curr t = curr s \<and> stat t = stat s"
      then show "runs UNIV (if b then retS (Switch (KRead buf count i)) else serial_read_rest buf count i) (after s) t"
        using go [of t] by (cases b) simp_all
    qed simp
    then show ?thesis by (simp only: runs_def serial_read_from_step [OF True])
  qed
qed

lemma good_serial_read: "good (serial_read buf count)"
  unfolding good_def serial_read_def using good_read_from by blast

lemma good_read_rest: "good (serial_read_rest buf count i)"
  unfolding good_def
proof (intro allI impI)
  fix s :: kern assume s: "sys s \<and> 0 < curr s"
  show "runs UNIV (serial_read_rest buf count i) (after s) s"
  proof (rule good_read_step)
    fix ch t assume t: "sys t" "curr t = curr s" "stat t = stat s"
    then have "after t = after s" by (simp add: after_def fun_eq_iff)
    then show "runs UNIV (serial_read_from buf count (i + 1) ch) (after s) t" using good_read_from [OF t(1)] s t(2) by simp
  qed (use s in auto)
qed

lemma good_option: "(r = None \<Longrightarrow> good m) \<Longrightarrow> (\<And>y. r = Some y \<Longrightarrow> good (g y)) \<Longrightarrow> good (case r of None \<Rightarrow> m | Some y \<Rightarrow> g y)"
  by (cases r) simp_all

lemma good_device: "(\<And>dev. dev \<in> set dev_table \<Longrightarrow> good (f dev)) \<Longrightarrow> good (bindS (liftS (rdR dev_table d)) f)"
proof (cases "d < length dev_table")
  case True
  assume "\<And>dev. dev \<in> set dev_table \<Longrightarrow> good (f dev)"
  from this [OF nth_mem [OF True]] show ?thesis using True by (simp add: good_def runs_UNIV bindS_def)
qed (simp add: good_def runs_def bindS_def rdR_def)

lemma good_value: "good (retS (Value v))"
  by (intro good_ends same.keeps_basic(1)) simp

lemma good_with_file: "(\<And>i. good (m i)) \<Longrightarrow> good (with_file fd m)"
  unfolding with_file_def
  by (intro good_bind good_option) (auto intro: good_value ends_intros)

lemma good_read: "good (sys_read fd buf count)"
  unfolding sys_read_def
proof (rule good_with_file)
  have d: "good (fst (snd dev) buf' n)" if "dev \<in> set dev_table" for dev buf' n
  proof -
    have "fst (snd dev) = serial_read \<or> fst (snd dev) = ban_read" using that by (auto simp: dev_table_def)
    then show ?thesis using good_serial_read good_value by (auto simp: ban_read_def)
  qed
  show "good (fread i buf count)" for i
    unfolding fread_def Let_def
    by (intro good_bind good_then good_if good_option good_device d good_ends ends_intros TrueI; simp)
qed

lemma runs_then: "runs A m P s \<Longrightarrow> (\<And>x t. P x t \<Longrightarrow> runs A n Q t) \<Longrightarrow> runs A (thenS m n) Q s"
  by (auto simp: runs_simps intro: runs_mono)

text \<open>\<open>proc_makezombie\<close> on the current process, step by step.\<close>

definition gone :: "kern \<Rightarrow> kern \<Rightarrow> bool" where
  "gone s t \<longleftrightarrow> kinv {curr s} t \<and> curr t = curr s \<and> stat t (curr s) = ZOMBIE \<and> (\<forall>p < 64. stat t p \<noteq> RUNNING) \<and>
     stat t 0 = READY \<and> (\<forall>p. stat s p = READY \<longrightarrow> stat t p = READY)"

lemma gone_view: "view t = view u \<Longrightarrow> gone s t = gone s u"
  using kinv_view [of t u] by (auto simp: gone_def view_eq)

lemma gone_quiet: "quiet m \<Longrightarrow> gone s t \<Longrightarrow> runs UNIV m (\<lambda>_. gone s) t"
  by (rule runs_quiet) (use gone_view in blast)+

lemma gone_start:
  assumes "sys s" "0 < curr s"
  shows "runs UNIV (set_proc (curr s) (\<lambda>p. p\<lparr>status := ZOMBIE, exit_code := x\<rparr>)) (\<lambda>_. gone s) s"
proof -
  note p = sys_parts [OF assms(1)]
  have "runs {} (set_proc (curr s) (\<lambda>p. p\<lparr>status := ZOMBIE, exit_code := x\<rparr>)) (\<lambda>_. restated (curr s) ZOMBIE s) s"
    using p(1,2) by (intro restate) (simp_all add: held_def par_def)
  then show ?thesis
  proof (rule runs_mono)
    fix y t assume t: "restated (curr s) ZOMBIE s t"
    have "sinv {curr s} ((stat s)(curr s := ZOMBIE)) (held s) (par s) (klists s) (sem_value s) (usem_ref s)"
      by (rule sinv_status) (use p sinv_mono [OF p(3)] in auto)
    then show "gone s t"
      using t p(1,2,4,5) p(6) assms(2) unfolding gone_def kinv_def restated_def by auto
  qed simp
qed

lemma gone_orphan:
  assumes "gone s t" "j < 64"
  shows "runs UNIV (set_proc j (\<lambda>p. p\<lparr>parent := None\<rparr>)) (\<lambda>_. gone s) t"
proof -
  let ?u = "t\<lparr>pcb := (pcb t)[j := (pcb t ! j)\<lparr>parent := None\<rparr>]\<rparr>"
  have t: "length (pcb t) = 64" "sinv {curr s} (stat t) (held t) (par t) (klists t) (sem_value t) (usem_ref t)"
    using assms(1) unfolding gone_def kinv_def by auto
  have "stat ?u = stat t" "held ?u = held t" "par ?u = (par t)(j := None)"
    using t(1) assms(2) by (simp_all del: fun_upd_apply)
  moreover have "sinv {curr s} (stat t) (held t) ((par t)(j := None)) (klists t) (sem_value t) (usem_ref t)"
    by (rule sinv_parent [OF t(2)]) simp
  ultimately have "gone s ?u" using assms(1) unfolding gone_def kinv_def by simp
  then show ?thesis by (simp add: runs_def set_proc_apply)
qed

lemma gone_wakes: "gone s t \<Longrightarrow> kinv {curr s} u \<Longrightarrow> wakes t u \<Longrightarrow> gone s u"
  unfolding gone_def wakes_def by (metis status.distinct)

lemma gone_parent:
  assumes "gone s t" and c: "c = curr s"
  shows "runs UNIV (bindS (getS (\<lambda>s. parent (proc_at c s))) (\<lambda>q. case q of Some a \<Rightarrow> sem_v (Zombie_Sem a) | None \<Rightarrow> retS ())) (\<lambda>_. gone s) t"
proof (cases "par t c")
  case None
  then show ?thesis using assms by (simp add: runs_def bindS_def par_def)
next
  case (Some a)
  have k: "kinv {curr s} t" "c < 64" using assms c unfolding gone_def kinv_def by auto
  then have "in_use (stat t) (held t) (par t) (Zombie_Sem a)" using Some by auto
  from sem_v_wakes [OF k(1) this] have "runs UNIV (sem_v (Zombie_Sem a)) (\<lambda>_. gone s) t"
    by (rule runs_mono) (use gone_wakes [OF assms(1)] in auto)
  then show ?thesis using Some by (simp add: par_def)
qed

lemma gone_close:
  assumes "gone s t" "j < 32" "\<forall>i < j. held t (curr s) ! i = None" and c: "c = curr s"
  shows "runs UNIV (bindS (getS (\<lambda>s. usems (proc_at c s) ! j)) (\<lambda>u. case u of None \<Rightarrow> retS ()
          | Some k \<Rightarrow> thenS (usem_close k) (set_proc c (\<lambda>p. p\<lparr>usems := (usems p)[j := None]\<rparr>))))
        (\<lambda>_ u. gone s u \<and> (\<forall>i < Suc j. held u (curr s) ! i = None)) t"
proof (cases "held t c ! j")
  case None
  then show ?thesis using assms c by (simp add: runs_def bindS_def held_def less_Suc_eq)
next
  case (Some k)
  have t: "length (pcb t) = 64" "sinv {curr s} (stat t) (held t) (par t) (klists t) (sem_value t) (usem_ref t)" "c < 64"
    "stat t c = ZOMBIE"
    using assms(1) c unfolding gone_def kinv_def by auto
  let ?u = "t\<lparr>usem_ref := (usem_ref t)[k := usem_ref t ! k - 1],
    pcb := (pcb t)[c := (pcb t ! c)\<lparr>usems := (held t c)[j := None]\<rparr>]\<rparr>"
  have parts: "stat ?u = stat t" "held ?u = (held t)(c := (held t c)[j := None])" "par ?u = par t"
    using t(1,3) by (simp_all del: fun_upd_apply)
  have "sinv {curr s} (stat t) ((held t)(c := (held t c)[j := None])) (par t) (klists t) (sem_value t) ((usem_ref t)[k := usem_ref t ! k - 1])"
    using t Some assms(2) c by (intro sinv_drop) auto
  then have "gone s ?u" using assms(1) unfolding gone_def kinv_def parts by simp
  moreover have "\<forall>i < Suc j. held ?u (curr s) ! i = None"
    using assms(2,3) c sinv_ranges(4) [OF t(2,3)] unfolding parts by (auto simp: less_Suc_eq)
  ultimately show ?thesis
    using Some by (simp add: runs_def bindS_def usem_close_def set_proc_apply held_def [of t])
qed

lemma sinv_closed: "sinv {c} st us pa L v r \<Longrightarrow> us c = replicate 32 None \<Longrightarrow> sinv {} st us pa L v r"
  unfolding sinv_def by auto

lemma gone_orphans:
  assumes "gone s t"
  shows "runs UNIV (forS (\<lambda>j. bindS (getS (\<lambda>s. parent (proc_at j s))) (\<lambda>q.
     if q = Some c then set_proc j (\<lambda>p. p\<lparr>parent := None\<rparr>) else retS ())) [0 ..< 64]) (\<lambda>_. gone s) t"
  by (rule runs_forS [of _ "\<lambda>_. gone s"]) (use assms gone_orphan in auto)

definition emptied :: "kern \<Rightarrow> kern \<Rightarrow> bool" where
  "emptied s = (\<lambda>t. gone s t \<and> (\<forall>i < 32. held t (curr s) ! i = None))"

lemma gone_closes:
  assumes "gone s t" "c = curr s"
  shows "runs UNIV (forS (\<lambda>j. bindS (getS (\<lambda>s. usems (proc_at c s) ! j)) (\<lambda>u. case u of None \<Rightarrow> retS ()
     | Some k \<Rightarrow> thenS (usem_close k) (set_proc c (\<lambda>p. p\<lparr>usems := (usems p)[j := None]\<rparr>)))) [0 ..< 32]) (\<lambda>_. emptied s) t"
proof -
  let ?P = "\<lambda>j u. gone s u \<and> (\<forall>i < j. held u (curr s) ! i = None)"
  have "runs UNIV (forS (\<lambda>j. bindS (getS (\<lambda>s. usems (proc_at c s) ! j)) (\<lambda>u. case u of None \<Rightarrow> retS ()
     | Some k \<Rightarrow> thenS (usem_close k) (set_proc c (\<lambda>p. p\<lparr>usems := (usems p)[j := None]\<rparr>)))) [0 ..< 32])
     (\<lambda>_. ?P (length [0 ..< 32])) t"
  proof (rule runs_forS)
    fix j u assume "j < length [0 ..< 32]" "?P j u"
    then have "[0 ..< 32] ! j = j" "j < 32" "gone s u" "\<forall>i < j. held u (curr s) ! i = None" by auto
    then show "runs UNIV (bindS (getS (\<lambda>s. usems (proc_at c s) ! ([0 ..< 32] ! j))) (\<lambda>u. case u of None \<Rightarrow> retS ()
        | Some k \<Rightarrow> thenS (usem_close k) (set_proc c (\<lambda>p. p\<lparr>usems := (usems p)[[0 ..< 32] ! j := None]\<rparr>)))) (\<lambda>_. ?P (Suc j)) u"
      using gone_close [of s u j c] assms(2) by (simp only:)
  qed (use assms in simp)
  then show ?thesis unfolding emptied_def by simp
qed

lemma emptied_quiet: "quiet m \<Longrightarrow> emptied s t \<Longrightarrow> runs UNIV m (\<lambda>_. emptied s) t"
proof (rule runs_quiet)
  fix x u assume e: "emptied s t" and v: "view u = view t"
  then show "emptied s u" using gone_view [OF v] unfolding emptied_def by (simp add: view_eq)
qed

lemma emptied_after: "emptied s t \<Longrightarrow> after s (Switch k) t"
proof -
  assume t: "emptied s t"
  then have k: "kinv {curr s} t" "curr t = curr s" unfolding emptied_def gone_def by auto
  then have i: "sinv {curr s} (stat t) (held t) (par t) (klists t) (sem_value t) (usem_ref t)" "curr s < 64"
    unfolding kinv_def by auto
  have "held t (curr s) = replicate 32 None"
    using t sinv_ranges(4) [OF i] unfolding emptied_def by (intro nth_equalityI) auto
  from sinv_closed [OF i(1) this] have "kinv {} t" using k unfolding kinv_def by auto
  then show ?thesis using t unfolding emptied_def after_def gone_def left_def by simp
qed

lemma good_exit: "good (sys_exit x)"
  unfolding good_def
proof (intro allI impI)
  fix s :: kern assume s: "sys s \<and> 0 < curr s"
  have "runs UNIV (proc_makezombie (curr s) x) (\<lambda>_. emptied s) s"
    unfolding proc_makezombie_def
    apply (rule runs_then [OF gone_start [OF conjunct1 [OF s] conjunct2 [OF s]]])
    apply (erule runs_then [OF gone_orphans])
    apply (erule runs_then [OF gone_parent [OF _ refl]])
    apply (erule runs_then [OF gone_closes [OF _ refl]])
    apply (erule emptied_quiet [rotated])
    apply (intro ends_intros TrueI; simp)
    done
  then show "runs UNIV (sys_exit x) (after s) s"
    unfolding sys_exit_def proc_curr_def runs_bind runs_simps by (rule runs_mono) (simp_all add: emptied_after)
qed

text \<open>\<open>sys_fork\<close>: the steps of \<open>proc_alloc\<close> on the view, then the loop that shares the semaphores.\<close>

lemma view_quiet: "quiet m \<Longrightarrow> view s = V \<Longrightarrow> runs UNIV m (\<lambda>_ t. view t = V) s"
  by (rule runs_quiet) simp_all

lemma view_fields: "view t = (n, c, st, us, pa, L, v, r) \<Longrightarrow> status (pcb t ! i) = st i \<and> usems (pcb t ! i) = us i \<and> parent (pcb t ! i) = pa i"
  by (auto simp: view_def stat_def held_def par_def)

lemma view_set:
  assumes "view t = (n, c, st, us, pa, L, v, r)" "i < n"
    "\<And>p. status p = st i \<Longrightarrow> usems p = us i \<Longrightarrow> parent p = pa i \<Longrightarrow> status (f p) = x \<and> usems (f p) = y \<and> parent (f p) = z"
  shows "runs UNIV (set_proc i f) (\<lambda>_ u. view u = (n, c, st(i := x), us(i := y), pa(i := z), L, v, r)) t"
proof -
  have "status (f (pcb t ! i)) = x \<and> usems (f (pcb t ! i)) = y \<and> parent (f (pcb t ! i)) = z"
    using view_fields [OF assms(1), of i] by (intro assms(3)) simp_all
  then show ?thesis
    using assms(1,2) by (auto simp: runs_def set_proc_apply view_def simp del: fun_upd_apply)
qed

lemma view_sem_init:
  "view t = (n, c, st, us, pa, L, v, r) \<Longrightarrow>
   runs UNIV (sem_init h x) (\<lambda>_ u. view u = (n, c, st, us, pa, list_init (Head h) L, v(h := x), r)) t"
  by (auto simp: runs_def sem_init_def on_lists_def bindS_def view_def)

lemma alloc_view:
  assumes "view s = (64, c, st, us, pa, L, v, r)"
  shows "runs UNIV proc_alloc (\<lambda>q t. case q of None \<Rightarrow> view t = view s
    | Some i \<Rightarrow> 0 < i \<and> i < 64 \<and> st i = UNUSED \<and> view t = (64, c, st(i := UNINIT), us(i := replicate 32 None), pa(i := None),
        list_init (Head (Zombie_Sem i)) L, v(Zombie_Sem i := 0), r)) s"
proof (cases "find_slot (\<lambda>i. status (pcb s ! i) = UNUSED) [1 ..< 64]")
  case None
  then show ?thesis by (simp add: proc_alloc_def runs_def bindS_def)
next
  case (Some j)
  define i where "i = j + 1"
  have i: "0 < i" "i < 64" "st i = UNUSED"
    using Some view_fields [OF assms] by (auto simp: find_slot_Some i_def)
  have run: "runs UNIV (thenS (modS (\<lambda>s. s\<lparr>next_pid := n'\<rparr>))
         (thenS (set_proc i (\<lambda>p. p\<lparr>pid := n, status := UNINIT\<rparr>))
         (bindS (on_vm vm_alloc) (\<lambda>pd.
          thenS (set_proc i (\<lambda>p. p\<lparr>pgdir := pd, brk := 0\<rparr>))
          (bindS (on_vm kalloc) (\<lambda>ks.
           thenS (set_proc i (\<lambda>p. p\<lparr>kstack := ks, kont := KUser, cwd := None, parent := None, child_num := 0\<rparr>))
           (thenS (sem_init (Zombie_Sem i) 0)
           (thenS (set_proc i (\<lambda>p. p\<lparr>usems := replicate 32 None, fds := replicate 32 None\<rparr>))
           (retS (Some i))))))))))
     (\<lambda>q t. q = Some i \<and> view t = (64, c, st(i := UNINIT), us(i := replicate 32 None), pa(i := None),
        list_init (Head (Zombie_Sem i)) L, v(Zombie_Sem i := 0), r)) s" for n n'
    apply (rule runs_then [OF view_quiet [OF _ assms]])
     apply (intro ends_intros; simp add: same_view_def view_parts)
    apply (rule runs_then [OF view_set [where x = UNINIT and y = "us i" and z = "pa i"]], assumption, rule i(2), simp)
    apply (subst runs_bind, rule runs_mono [OF view_quiet], intro ends_intros, assumption)
     apply (rule runs_then [OF view_quiet], intro ends_intros, simp, assumption)
     apply (subst runs_bind, rule runs_mono [OF view_quiet], intro ends_intros, assumption)
      apply (rule runs_then [OF view_set [where x = UNINIT and y = "us i" and z = None]], assumption, rule i(2), simp)
      apply (rule runs_then [OF view_sem_init], assumption)
      apply (rule runs_then [OF view_set [where x = UNINIT and y = "replicate 32 None" and z = None]], assumption, rule i(2), simp)
      apply simp_all
    done
  have "Suc j = i" by (simp add: i_def)
  then show ?thesis
    using Some run [of "next_pid s + 1" "next_pid s"] i by (cases "next_pid s = 0x7fffffff") (simp_all add: proc_alloc_def Let_def int_inc_def)
qed

text \<open>The child \<open>i\<close> of \<open>c\<close> has the entries below \<open>j\<close> of its parent's table.\<close>

definition forked :: "kern \<Rightarrow> nat \<Rightarrow> nat \<Rightarrow> kern \<Rightarrow> bool" where
  "forked s i j t \<longleftrightarrow> kinv {} t \<and> curr t = curr s \<and> stat t = (stat s)(i := UNINIT) \<and> held t (curr s) = held s (curr s) \<and>
     (\<forall>j' < 32. j \<le> j' \<longrightarrow> held t i ! j' = None)"

lemma forked_view: "view t = view u \<Longrightarrow> forked s i j t = forked s i j u"
  using kinv_view [of t u] by (auto simp: forked_def view_eq)

lemma forked_quiet: "quiet m \<Longrightarrow> forked s i j t \<Longrightarrow> runs UNIV m (\<lambda>_. forked s i j) t"
  by (rule runs_quiet) (use forked_view in blast)+

lemma forked_share:
  assumes "forked s i j t" "sys s" "i < 64" "stat s i = UNUSED" "j < 32"
  shows "runs UNIV (case held s (curr s) ! j of None \<Rightarrow> retS ()
    | Some u \<Rightarrow> thenS (set_proc i (\<lambda>p. p\<lparr>usems := (usems p)[j := Some u]\<rparr>)) (bindS (usem_dup u) (\<lambda>_. retS ())))
    (\<lambda>_. forked s i (Suc j)) t"
proof (cases "held s (curr s) ! j")
  case None
  then show ?thesis using assms(1) by (auto simp: runs_def forked_def)
next
  case (Some k)
  note p = sys_parts [OF assms(2)]
  have t: "length (pcb t) = 64" "sinv {} (stat t) (held t) (par t) (klists t) (sem_value t) (usem_ref t)"
    "stat t i = UNINIT" "held t i ! j = None" "held t (curr s) = held s (curr s)" "curr t = curr s" "stat t = (stat s)(i := UNINIT)"
    using assms(1,3,5) unfolding forked_def kinv_def by auto
  have ic: "i \<noteq> curr s" using assms(4) p(4) by auto
  let ?u = "t\<lparr>pcb := (pcb t)[i := (pcb t ! i)\<lparr>usems := (held t i)[j := Some k]\<rparr>],
    usem_ref := (usem_ref t)[k := usem_ref t ! k + 1]\<rparr>"
  have parts: "stat ?u = stat t" "held ?u = (held t)(i := (held t i)[j := Some k])" "par ?u = par t"
    using t(1) assms(3) by (simp_all del: fun_upd_apply)
  have "length (held t (curr s)) = 32" using sinv_ranges(4) [OF t(2) p(2)] .
  then have use: "in_use (stat t) (held t) (par t) (User_Sem k)"
    using Some t(5) assms(5) p(2) by (intro in_use_held [where p = "curr s" and j = j]) simp_all
  have "sinv {} (stat t) ((held t)(i := (held t i)[j := Some k])) (par t) (klists t) (sem_value t) ((usem_ref t)[k := usem_ref t ! k + 1])"
    by (rule sinv_hold [OF t(2) use assms(3,5) t(4)]) (simp add: t(3))
  then have "kinv {} ?u" using assms(1) unfolding forked_def kinv_def parts by simp
  moreover have "\<forall>j' < 32. Suc j \<le> j' \<longrightarrow> held ?u i ! j' = None" "held ?u (curr s) = held s (curr s)"
    using assms(1) ic unfolding forked_def parts by auto
  ultimately have "forked s i (Suc j) ?u" using t(6,7) parts(1) unfolding forked_def by simp
  then show ?thesis
    using Some by (simp add: runs_def bindS_def usem_dup_def set_proc_apply held_def [of t])
qed

lemma forked_shares:
  assumes "forked s i 0 t" "sys s" "i < 64" "stat s i = UNUSED"
  shows "runs UNIV (forS (\<lambda>j. case held s (curr s) ! j of None \<Rightarrow> retS ()
    | Some u \<Rightarrow> thenS (set_proc i (\<lambda>p. p\<lparr>usems := (usems p)[j := Some u]\<rparr>)) (bindS (usem_dup u) (\<lambda>_. retS ()))) [0 ..< 32])
    (\<lambda>_. forked s i 32) t"
proof -
  have "runs UNIV (forS (\<lambda>j. case held s (curr s) ! j of None \<Rightarrow> retS ()
    | Some u \<Rightarrow> thenS (set_proc i (\<lambda>p. p\<lparr>usems := (usems p)[j := Some u]\<rparr>)) (bindS (usem_dup u) (\<lambda>_. retS ()))) [0 ..< 32])
    (\<lambda>_. forked s i (length [0 ..< 32])) t"
  proof (rule runs_forS [where P = "forked s i"])
    fix j u assume "j < length [0 ..< 32]" "forked s i j u"
    then have "[0 ..< 32] ! j = j" "j < 32" "forked s i j u" by auto
    then show "runs UNIV (case held s (curr s) ! ([0 ..< 32] ! j) of None \<Rightarrow> retS ()
      | Some u \<Rightarrow> thenS (set_proc i (\<lambda>p. p\<lparr>usems := (usems p)[[0 ..< 32] ! j := Some u]\<rparr>)) (bindS (usem_dup u) (\<lambda>_. retS ())))
      (\<lambda>_. forked s i (Suc j)) u"
      using forked_share [OF _ assms(2-4), of j u] by (simp only:)
  qed (rule assms(1))
  then show ?thesis by simp
qed

lemma forked_parent:
  assumes "forked s i j t" "sys s" "i < 64" "stat s i = UNUSED"
  shows "runs UNIV (set_proc i (\<lambda>p. p\<lparr>parent := Some (curr s)\<rparr>)) (\<lambda>_. forked s i j) t"
proof -
  note p = sys_parts [OF assms(2)]
  let ?u = "t\<lparr>pcb := (pcb t)[i := (pcb t ! i)\<lparr>parent := Some (curr s)\<rparr>]\<rparr>"
  have t: "length (pcb t) = 64" "sinv {} (stat t) (held t) (par t) (klists t) (sem_value t) (usem_ref t)"
    "stat t (curr s) = RUNNING"
    using assms(1,4) p(4) unfolding forked_def kinv_def by auto
  have parts: "stat ?u = stat t" "held ?u = held t" "par ?u = (par t)(i := Some (curr s))"
    using t(1) assms(3) by (simp_all del: fun_upd_apply)
  have "sinv {} (stat t) (held t) ((par t)(i := Some (curr s))) (klists t) (sem_value t) (usem_ref t)"
    by (rule sinv_parent [OF t(2)]) (use t(3) p(2) in simp)
  then have "forked s i j ?u" using assms(1) unfolding forked_def kinv_def parts by simp
  then show ?thesis by (simp add: runs_def set_proc_apply)
qed

lemma runs_seq: "runs A m P s \<Longrightarrow> (\<And>x t. P x t \<Longrightarrow> runs A (f x) Q t) \<Longrightarrow> runs A (bindS m f) Q s"
  by (auto intro: runs_mono)

lemma forked_copy:
  assumes "forked s i 0 t" "sys s" "i < 64" "stat s i = UNUSED"
  shows "runs UNIV (proc_copycurr i) (\<lambda>_. forked s i 32) t"
proof -
  have body: "runs UNIV (bindS proc_curr (\<lambda>c. bindS (getS (proc_at c)) (\<lambda>me.
      thenS (set_proc i (\<lambda>p. p\<lparr>frame_of := (frame_of me)\<lparr>r_eax := 0\<rparr>, kont := KUser, brk := brk me\<rparr>))
      (thenS (set_proc c (\<lambda>p. p\<lparr>child_num := child_num p + 1\<rparr>))
      (thenS (set_proc i (\<lambda>p. p\<lparr>parent := Some c\<rparr>))
      (bindS (on_fs (idup (cwd me))) (\<lambda>wd.
       thenS (set_proc i (\<lambda>p. p\<lparr>cwd := Some wd\<rparr>))
       (thenS (forS (\<lambda>j. case usems me ! j of None \<Rightarrow> retS ()
            | Some u \<Rightarrow> thenS (set_proc i (\<lambda>p. p\<lparr>usems := (usems p)[j := Some u]\<rparr>))
                (bindS (usem_dup u) (\<lambda>_. retS ()))) [0 ..< 32])
       (forS (\<lambda>j. case fds me ! j of None \<Rightarrow> retS ()
            | Some f \<Rightarrow> thenS (set_proc i (\<lambda>p. p\<lparr>fds := (fds p)[j := Some f]\<rparr>))
                (bindS (fdup f) (\<lambda>_. retS ()))) [0 ..< 32])))))))) ) (\<lambda>_. forked s i 32) u" if u: "forked s i 0 u" for u
  proof -
    have c: "curr u = curr s" and me: "usems (pcb u ! curr s) = held s (curr s)"
      using u unfolding forked_def held_def by auto
    show ?thesis
      unfolding proc_curr_def runs_bind runs_simps c me
      unfolding runs_bind [symmetric] thenS_def [symmetric]
      apply (rule runs_then [OF forked_quiet [OF quiet_set_proc u]], simp)
      apply (rule runs_then [OF forked_quiet], intro ends_intros, simp, assumption)
      apply (rule runs_then [OF forked_parent [OF _ assms(2-4)]], assumption)
      apply (rule runs_seq [OF forked_quiet], intro ends_intros, assumption)
      apply (rule runs_then [OF forked_quiet], intro ends_intros, simp, assumption)
      apply (rule runs_then [OF forked_shares [OF _ assms(2-4), folded thenS_def]], assumption)
      apply (erule forked_quiet [rotated], intro ends_intros TrueI; simp)
      done
  qed
  show ?thesis
    unfolding proc_copycurr_def
    by (rule runs_seq [OF forked_quiet [OF _ assms(1)]], intro ends_intros TrueI,
        rule runs_then [OF forked_quiet], intro ends_intros, assumption, erule body)
qed

lemma good_fork: "good sys_fork"
  unfolding good_def
proof (intro allI impI)
  fix s :: kern assume "sys s \<and> 0 < curr s"
  then have s: "sys s" by blast
  note p = sys_parts [OF s]
  have v: "view s = (64, curr s, stat s, held s, par s, klists s, sem_value s, usem_ref s)"
    using p(1) by (simp add: view_def)
  have child: "runs UNIV (thenS (proc_copycurr i) (thenS (proc_addready i) (bindS (getS (\<lambda>s. pid (proc_at i s))) value_of))) (after s) t"
    if i: "0 < i" "i < 64" "stat s i = UNUSED"
      and t: "view t = (64, curr s, (stat s)(i := UNINIT), (held s)(i := replicate 32 None), (par s)(i := None),
        list_init (Head (Zombie_Sem i)) (klists s), (sem_value s)(Zombie_Sem i := 0), usem_ref s)" for i t
  proof -
    have "kinv {} t" using sinv_alloc [OF p(3) i(2,3)] t p(2) by (simp add: kinv_def view_def del: fun_upd_apply)
    then have f: "forked s i 0 t" using t i(3) p(4) unfolding forked_def by (auto simp: view_def)
    show ?thesis
    proof (rule runs_then [OF forked_copy [OF f s i(2,3)]])
      fix x u assume u: "forked s i 32 u"
      then have k: "kinv {} u" "curr u = curr s" "stat u = (stat s)(i := UNINIT)" unfolding forked_def by auto
      have "runs {} (proc_addready i) (\<lambda>_. restated i READY u) u"
        unfolding proc_addready_def using k i(2) by (intro restate) (simp_all add: held_def par_def kinv_def)
      then have "runs UNIV (proc_addready i) (\<lambda>_ w. sys w \<and> curr w = curr s \<and> (\<forall>p. stat s p = READY \<longrightarrow> stat w p = READY)) u"
      proof (rule runs_mono)
        fix y w assume w: "restated i READY u w"
        have "sinv {} ((stat u)(i := READY)) (held u) (par u) (klists u) (sem_value u) (usem_ref u)"
          by (rule sinv_status) (use k i in \<open>auto simp: kinv_def\<close>)
        then show "sys w \<and> curr w = curr s \<and> (\<forall>p. stat s p = READY \<longrightarrow> stat w p = READY)"
          using w k i p(2,4) p(5,6) unfolding sys_def kinv_def restated_def by auto
      qed simp
      then show "runs UNIV (thenS (proc_addready i) (bindS (getS (\<lambda>s. pid (proc_at i s))) value_of)) (after s) u"
        by (rule runs_then) (simp add: after_def)
    qed
  qed
  show "runs UNIV sys_fork (after s) s"
    unfolding sys_fork_def
  proof (rule runs_seq [OF alloc_view [OF v]])
    fix q t assume q: "case q of None \<Rightarrow> view t = view s
      | Some i \<Rightarrow> 0 < i \<and> i < 64 \<and> stat s i = UNUSED \<and> view t = (64, curr s, (stat s)(i := UNINIT), (held s)(i := replicate 32 None),
          (par s)(i := None), list_init (Head (Zombie_Sem i)) (klists s), (sem_value s)(Zombie_Sem i := 0), usem_ref s)"
    show "runs UNIV (case q of None \<Rightarrow> failed | Some i \<Rightarrow> thenS (proc_copycurr i) (thenS (proc_addready i)
         (bindS (getS (\<lambda>s. pid (proc_at i s))) value_of))) (after s) t"
    proof (cases q)
      case None
      then have w: "view t = view s" using q by simp
      then show ?thesis using None sys_view [OF w] s by (simp add: after_def view_eq)
    next
      case (Some i)
      then show ?thesis using child q by simp
    qed
  qed
qed

end
