(* ===== verification/SchedRun.thy ===== *)
theory SchedRun
  imports Handlers
begin

text \<open>
  The kernel as a transition system: interrupts and resumed processes, with the switch that may follow. The state
  after \<open>main\<close> has the invariant and every step keeps it; from that follow what holds in every reachable state,
  and that the scheduler is fair.
\<close>

section \<open>The idle process\<close>

text \<open>No handler gives process 0 anything to do.\<close>

lemma idle_intros [ends_intros]:
  "(\<And>p. kont p = KUser \<Longrightarrow> kont (f p) = KUser) \<Longrightarrow> silent idle_stays (set_proc i f)" "silent idle_stays (on_lists m)"
proof -
  assume f: "\<And>p. kont p = KUser \<Longrightarrow> kont (f p) = KUser"
  have "kont ((pcb s)[i := f (pcb s ! i)] ! 0) = KUser" if "kont (pcb s ! 0) = KUser" for s :: kern
    using that f by (cases "i = 0"; cases "i < length (pcb s)") (simp_all add: list_update_beyond)
  then show "silent idle_stays (set_proc i f)" by (simp add: keeps_def set_proc_def idle_stays_def)
qed (auto simp: keeps_def on_lists_def idle_stays_def split: sum.splits prod.splits)

lemma idle_sems [ends_intros]:
  "silent idle_stays (proc_addready i)" "silent idle_stays proc_yield" "silent idle_stays proc_block"
  "silent idle_stays (sem_init h v)" "silent idle_stays (sem_p h)" "silent idle_stays (sem_v h)"
  "silent idle_stays (usem_alloc v)" "silent idle_stays (usem_dup k)" "silent idle_stays (usem_close k)"
proof -
  show 1: "silent idle_stays (proc_addready i)" "silent idle_stays proc_yield" "silent idle_stays proc_block" for i
    unfolding proc_addready_def proc_yield_def proc_block_def by (intro ends_intros; simp)+
  show 2: "silent idle_stays (sem_init h v)" "silent idle_stays (sem_p h)" "silent idle_stays (sem_v h)" for h v
    unfolding sem_init_def sem_p_def sem_v_def by (intro ends_intros 1 TrueI; simp add: idle_stays_def)+
  show "silent idle_stays (usem_alloc v)" "silent idle_stays (usem_dup k)" "silent idle_stays (usem_close k)"
    unfolding usem_alloc_def usem_dup_def usem_close_def by (intro ends_intros 2 TrueI; simp add: idle_stays_def)+
qed

lemma idle_procs [ends_intros]:
  "silent idle_stays proc_alloc" "silent idle_stays (proc_free i)" "silent idle_stays (proc_copycurr i)"
  "silent idle_stays (proc_makezombie i x)"
  unfolding proc_alloc_def proc_free_def proc_copycurr_def proc_makezombie_def Let_def
  by (intro ends_intros TrueI; simp add: idle_stays_def)+

lemma idle_serial [ends_intros]: "silent idle_stays (serial_handle input)"
proof (induction input)
  case (Cons ch input)
  have "silent idle_stays (serial_char ch)"
    unfolding serial_char_def push_back_def Let_def by (intro ends_intros TrueI; simp add: idle_stays_def)
  then show ?case using Cons by (simp add: ends_intros)
qed (simp add: idle.keeps_basic(1) del: prog_apply)

lemma serial_read_from_end: "\<not> (i < unat count \<and> ch \<noteq> 10) \<Longrightarrow> serial_read_from buf count i ch = retS (Value (Some (of_nat i)))"
  by (rule ext, subst serial_read_from.simps) auto

lemma idle_read_from: "silent idle_stays (serial_read_from buf count i ch)"
proof (induction "unat count - i" arbitrary: i ch rule: less_induct)
  case less
  show ?case
  proof (cases "i < unat count \<and> ch \<noteq> 10")
    case False
    show ?thesis unfolding serial_read_from_end [OF False] by (intro ends_intros TrueI)
  next
    case True
    then have "unat count - (i + 1) < unat count - i" by linarith
    then have "silent idle_stays (serial_read_from buf count (i + 1) ch)" for ch by (rule less)
    moreover have "serial_read_from buf count i ch =
        bindS getchar_p (\<lambda>b. if b then retS (Switch (KRead buf count i)) else serial_read_rest buf count i)"
      using serial_read_from_step [OF True] by (rule ext)
    ultimately show ?thesis
      unfolding serial_read_rest_def getchar_p_def by (simp only:) (intro ends_intros TrueI)
  qed
qed

lemma idle_read [ends_intros]: "silent idle_stays (serial_read buf count)" "silent idle_stays (serial_read_rest buf count i)"
  unfolding serial_read_def serial_read_rest_def by (intro ends_intros idle_read_from TrueI)+

lemma idle_fread [ends_intros]: "silent idle_stays (fread i buf sz)"
  unfolding fread_def Let_def
  by (intro ends_intros idle.keeps_device TrueI)
    (auto simp: dev_table_def ban_read_def intro!: idle_read idle.keeps_basic(1))

lemma silent_returns: "keeps R P m \<Longrightarrow> silent R m"
  by (auto simp: keeps_def)

lemma idle_handlers: "m \<in> set syscall_handle \<Longrightarrow> silent idle_stays (m a b c)"
proof -
  have 1: "silent idle_stays (sleep_rest x y)" "silent idle_stays (wait_rest x)" for x y
    unfolding sleep_rest_def wait_rest_def by (intro ends_intros TrueI; simp)+
  have 2: "silent idle_stays (sys_read x y z)" "silent idle_stays (sys_sleep x)" "silent idle_stays sys_yield" "silent idle_stays sys_fork"
    "silent idle_stays (sys_exit x)" "silent idle_stays (sys_wait x)" "silent idle_stays (sys_sem_open x)" "silent idle_stays (sys_sem_p x)"
    "silent idle_stays (sys_sem_v x)" "silent idle_stays (sys_sem_close x)" for x y z
    unfolding sys_read_def sys_sleep_def sys_yield_def sys_fork_def sys_exit_def sys_wait_def sys_sem_open_def sys_sem_p_def sys_sem_v_def
      sys_sem_close_def with_file_def with_usem_def
    by (intro ends_intros 1 TrueI; simp)+
  assume "m \<in> set syscall_handle"
  then show ?thesis
    using 2 idle.keeps_handlers [THEN silent_returns] by (auto simp: syscall_handle_def)
qed

section \<open>The kernel as a transition system\<close>

text \<open>
  \<open>step\<close>: an interrupt or a trap of the process that runs (\<open>False\<close>), with the trap frame \<open>ctx\<close>, whatever the process
  has done to memory, and any input at the serial port; or a process that has been given the processor goes on
  in the kernel (\<open>True\<close>). Process 0 is the idle loop of the kernel: it makes no system calls.
\<close>

definition trapped :: "Context \<Rightarrow> (u32 \<Rightarrow> byte) \<Rightarrow> kern \<Rightarrow> kern" where
  "trapped ctx m s = s\<lparr>vmem := (vmem s)\<lparr>mem := m\<rparr>, pcb := (pcb s)[curr s := (pcb s ! curr s)\<lparr>frame_of := ctx\<rparr>]\<rparr>"

inductive step :: "bool \<times> kern \<Rightarrow> bool \<times> kern \<Rightarrow> bool" where
  trap: "irq_handle input ctx (trapped ctx m s) = Inr (r, t) \<Longrightarrow> leave r t = Inr (b, u) \<Longrightarrow>
     (curr s = 0 \<longrightarrow> r_irq ctx \<noteq> 0x80) \<Longrightarrow> step (False, s) (b, u)"
| go: "resume s = Inr (r, t) \<Longrightarrow> leave r t = Inr (b, u) \<Longrightarrow> step (True, s) (b, u)"

inductive_cases trapE: "step (False, s) (b, u)"
inductive_cases goE: "step (True, s) (b, u)"

definition steady :: "kern \<Rightarrow> bool" where
  "steady s \<longleftrightarrow> sys s \<and> kont (pcb s ! 0) = KUser"

text \<open>The scheduler gives the processor to the first ready process after the current one, in the circle.\<close>

definition dispatched :: "kern \<Rightarrow> kern \<Rightarrow> bool" where
  "dispatched t u \<longleftrightarrow> (\<exists>j < 64. curr u = circle (curr t) ! j \<and> stat t (curr u) = READY \<and>
     (\<forall>i < j. stat t (circle (curr t) ! i) \<noteq> READY)) \<and> stat u = (stat t)(curr u := RUNNING)"

lemma good_handlers: "m \<in> set syscall_handle \<Longrightarrow> good (m a b c)"
  using good_read good_sleep good_fork good_exit good_wait good_sem_open good_sem_p good_sem_v good_sem_close
    same.keeps_handlers [THEN good_ends]
  by (auto simp: syscall_handle_def)

lemma good_result: "good m \<Longrightarrow> good (bindS m set_result)"
  unfolding good_def runs_bind
proof (intro allI impI)
  fix s :: kern assume "\<forall>s. sys s \<and> 0 < curr s \<longrightarrow> runs UNIV m (after s) s" "sys s \<and> 0 < curr s"
  then have "runs UNIV m (after s) s" by blast
  then show "runs UNIV m (\<lambda>r. runs UNIV (set_result r) (after s)) s"
  proof (rule runs_mono)
    fix r t assume a: "after s r t"
    show "runs UNIV (set_result r) (after s) t"
    proof (cases r)
      case (Value v)
      have "runs UNIV (set_result r) (\<lambda>x u. x = Iret \<and> view u = view t) t"
        unfolding set_result_def Value by (simp add: runs_def proc_curr_def bindS_def set_proc_apply view_set_proc)
      then show ?thesis
      proof (rule runs_mono)
        fix x u assume "x = Iret \<and> view u = view t"
        then show "after s x u" using a sys_view [of u t] unfolding after_def Value by (auto simp: view_eq)
      qed simp
    qed (use a in \<open>simp_all add: set_result_def\<close>)
  qed simp
qed

lemma good_syscall: "good (do_syscall ctx)"
proof -
  have "good (if sint (r_eax ctx) < 0 \<or> int NR_SYS \<le> sint (r_eax ctx) then failed
     else (syscall_handle ! unat (r_eax ctx)) (r_ebx ctx) (r_ecx ctx) (r_edx ctx))"
  proof (cases "sint (r_eax ctx) < 0 \<or> int NR_SYS \<le> sint (r_eax ctx)")
    case False
    then have "unat (r_eax ctx) < length syscall_handle"
      using small_id [of "r_eax ctx" NR_SYS] by (simp add: syscall_handle_def NR_SYS_def)
    then show ?thesis using False good_handlers nth_mem by simp
  qed (simp add: good_value)
  then show ?thesis unfolding do_syscall_def Let_def by (rule good_result)
qed

lemma idle_result [ends_intros]: "silent idle_stays (set_result r)"
  unfolding set_result_def by (cases r; simp; intro ends_intros TrueI; simp)

lemma idle_syscall [ends_intros]: "silent idle_stays (do_syscall ctx)"
proof -
  have "unat (r_eax ctx) < length syscall_handle" if "\<not> (sint (r_eax ctx) < 0 \<or> int NR_SYS \<le> sint (r_eax ctx))"
    using that small_id [of "r_eax ctx" NR_SYS] by (simp add: syscall_handle_def NR_SYS_def)
  then show ?thesis unfolding do_syscall_def Let_def by (intro ends_intros TrueI idle_handlers nth_mem; simp)
qed

lemma idle_kont: "silent idle_stays m \<Longrightarrow> m s = Inr (r, t) \<Longrightarrow> kont (pcb s ! 0) = KUser \<Longrightarrow> kont (pcb t ! 0) = KUser"
  unfolding keeps_def idle_stays_def by blast

text \<open>What an interrupt and a resumed process leave behind.\<close>

lemma irq_after:
  assumes "steady s" "curr s = 0 \<longrightarrow> r_irq ctx \<noteq> 0x80" "irq_handle input ctx s = Inr (r, t)"
  shows "after s r t \<and> kont (pcb t ! 0) = KUser \<and> (curr s = 0 \<longrightarrow> r \<in> {Iret, Switch KUser})"
proof -
  have s: "sys s" "kont (pcb s ! 0) = KUser" "kinv {} s" using assms(1) unfolding steady_def sys_def by auto
  consider (call) "r_irq ctx = 0x80" | (serial) "r_irq ctx = 36" | (timer) "r_irq ctx = 32"
    | (other) "r_irq ctx \<noteq> 0x80" "r_irq ctx \<noteq> 36" "r_irq ctx \<noteq> 32" by blast
  then show ?thesis
  proof cases
    case call
    then have m: "do_syscall ctx s = Inr (r, t)" using assms(3) by (simp add: irq_handle_def)
    moreover have "runs UNIV (do_syscall ctx) (after s) s" using good_syscall s assms(2) call unfolding good_def by simp
    ultimately have "after s r t" by (rule runs_returned [rotated])
    then show ?thesis using idle_kont [OF idle_syscall m s(2)] call assms(2) by simp
  next
    case serial
    then obtain x where m: "serial_handle input s = Inr (x, t)" "r = Iret"
      using assms(3) by (auto simp: irq_handle_def bindS_def split: sum.splits)
    then have "kinv {} t \<and> wakes s t"
      using woke_serial_handle s(3) unfolding woke_def runs_UNIV by blast
    then show ?thesis using after_wakes [OF s(1)] idle_kont [OF idle_serial m(1) s(2)] m(2) by simp
  next
    case timer
    let ?s = "s\<lparr>tick := tick s + 1\<rparr>"
    have v: "view ?s = view s" by (simp add: view_parts)
    obtain x where m: "proc_yield ?s = Inr (x, t)" "r = Switch KUser"
      using assms(3) timer by (auto simp: irq_handle_def timer_handle_def bindS_def split: sum.splits)
    have "sys ?s" using s(1) sys_view [OF v] by simp
    from yield_leaves [OF this, of KUser] have "after s r t"
      using m after_view [OF v] by (simp add: runs_def)
    moreover have "silent idle_stays proc_yield" by (intro ends_intros)
    from idle_kont [OF this m(1)] have "kont (pcb t ! 0) = KUser" using s(2) by simp
    ultimately show ?thesis using m(2) by simp
  next
    case other
    then have "t = s" "r = Iret"
      using assms(3) by (auto simp: irq_handle_def vm_pgfault_def bindS_def split: if_splits)
    then show ?thesis using s by (simp add: after_def)
  qed
qed

lemma resume_after:
  assumes "steady s" "resume s = Inr (r, t)"
  shows "after s r t \<and> kont (pcb t ! 0) = KUser \<and> (curr s = 0 \<longrightarrow> r \<in> {Iret, Switch KUser})"
proof (cases "curr s = 0")
  case True
  then have "t = s" "r = Iret" using assms by (auto simp: resume_def proc_curr_def bindS_def steady_def)
  then show ?thesis using assms(1) by (simp add: after_def steady_def)
next
  case False
  have v: "good (set_result (Value x))" for x
    using good_result [OF good_value [of x]] by (simp add: good_def runs_UNIV bindS_def)
  have i: "good (retS Iret)" by (intro good_ends same.keeps_basic(1)) simp
  have "good resume"
    unfolding resume_def
    by (intro good_bind ends_intros TrueI, rename_tac k, case_tac k; simp del: runs_simps bindS_Inr)
      (auto intro!: i v good_result good_read_rest good_wait_rest good_sleep)
  then have "runs UNIV resume (after s) s" using False assms(1) unfolding good_def steady_def by simp
  then have "after s r t" by (rule runs_returned) (rule assms(2))
  moreover have 1: "silent idle_stays (sleep_rest x y)" "silent idle_stays (wait_rest x)" for x y
    unfolding sleep_rest_def wait_rest_def by (intro ends_intros TrueI; simp)+
  have k: "silent idle_stays (case k of KUser \<Rightarrow> retS Iret | KYield \<Rightarrow> set_result (Value None)
     | KSleep start_tick ticks \<Rightarrow> bindS (sleep_rest start_tick ticks) set_result | KSemP \<Rightarrow> set_result (Value (Some 0))
     | KWait st \<Rightarrow> bindS (wait_rest st) set_result | KRead buf count i \<Rightarrow> bindS (serial_read_rest buf count i) set_result
     | KExit \<Rightarrow> set_result (Value None))" for k
    by (cases k; simp only: kont.case; intro ends_intros 1 TrueI)
  have "silent idle_stays resume"
    unfolding resume_def
    by (rule idle.keeps_bind [OF idle.keeps_basic(6)], rule idle.keeps_bind [OF idle.keeps_basic(3)], rule TrueI, rule k)
  ultimately show ?thesis using idle_kont [where m = resume, OF _ assms(2)] assms(1) False unfolding steady_def by simp
qed

lemma steady_parts: "steady s \<Longrightarrow> sys s" "steady s \<Longrightarrow> kont (pcb s ! 0) = KUser"
  by (simp_all add: steady_def)

text \<open>The scheduler always finds a process.\<close>

lemma set_circle: "p < 64 \<Longrightarrow> \<exists>j < 64. circle c ! j = p"
proof -
  assume "p < 64"
  let ?j = "(p + 63 * (c + 1)) mod 64"
  have "(c + 1 + ?j) mod 64 = (c + 1 + (p + 63 * (c + 1))) mod 64" by (simp only: mod_add_right_eq)
  also have "c + 1 + (p + 63 * (c + 1)) = p + 64 * (c + 1)" by simp
  also have "(p + 64 * (c + 1)) mod 64 = p" using \<open>p < 64\<close> by (simp only: mod_mult_self2 mod_less)
  finally have "circle c ! ?j = p" by (simp add: circle_def)
  then show ?thesis by (intro exI [of _ ?j]) simp
qed

lemma circle_less: "j < 64 \<Longrightarrow> circle c ! j < 64"
  by (simp add: circle_def)

lemma run_picked:
  assumes "left s" "j < 64" "stat s j = READY" "kont (pcb s ! 0) = KUser"
  shows "runs {} (proc_run j) (\<lambda>_ u. steady u \<and> curr u = j \<and> stat u = (stat s)(j := RUNNING)) s"
proof -
  have l: "length (pcb s) = 64" "sinv {} (stat s) (held s) (par s) (klists s) (sem_value s) (usem_ref s)"
    "\<forall>p < 64. stat s p \<noteq> RUNNING" "stat s 0 = READY"
    using assms(1) unfolding left_def kinv_def by auto
  let ?u = "s\<lparr>pcb := (pcb s)[j := (pcb s ! j)\<lparr>status := RUNNING\<rparr>], curr := j\<rparr>"
  have parts: "stat ?u = (stat s)(j := RUNNING)" "held ?u = held s" "par ?u = par s"
    using l(1) assms(2) by (simp_all del: fun_upd_apply)
  have "sinv {} ((stat s)(j := RUNNING)) (held s) (par s) (klists s) (sem_value s) (usem_ref s)"
    by (rule sinv_status [OF l(2) assms(2)]) (simp_all add: assms(3))
  then have "sys ?u" unfolding sys_def kinv_def parts using l assms(2) by auto
  moreover have "kont (pcb ?u ! 0) = KUser" using assms(4) by (cases "j = 0") (simp_all add: l(1))
  ultimately have "steady ?u" unfolding steady_def by blast
  moreover have "steady (?u\<lparr>vmem := v\<rparr>) = steady ?u" for v
    using sys_view [of "?u\<lparr>vmem := v\<rparr>" ?u] by (simp add: steady_def view_parts)
  ultimately show ?thesis
    using parts(1) by (simp add: runs_def proc_run_def bindS_def set_proc_apply on_vm_def)
qed

lemma schedule_dispatches:
  assumes "left t" "kont (pcb t ! 0) = KUser" "curr t = 0 \<longrightarrow> k = KUser"
  shows "runs {} (schedule k) (\<lambda>_ u. steady u \<and> dispatched t u) t"
proof -
  let ?c = "curr t"
  let ?t = "t\<lparr>pcb := (pcb t)[?c := (pcb t ! ?c)\<lparr>kont := k\<rparr>]\<rparr>"
  have l: "length (pcb t) = 64" "?c < 64" "stat t 0 = READY" using assms(1) unfolding left_def kinv_def by auto
  have v: "view ?t = view t" by (rule view_set_proc) simp
  have st: "stat ?t = stat t" and c: "curr ?t = ?c" using v by (simp_all add: view_eq)
  have sp: "status (pcb ?t ! p) = stat t p" for p
    using fun_cong [OF st, of p] unfolding stat_def .
  have left: "left ?t" using assms(1) kinv_view [OF v] st c unfolding left_def by simp
  have k0: "kont (pcb ?t ! 0) = KUser" using assms(2,3) l(1,2) by (cases "?c = 0") simp_all
  obtain i where i: "i < 64" "circle ?c ! i = 0" using set_circle [of 0 ?c] by auto
  then have "find_slot (\<lambda>i. status (pcb ?t ! i) = READY) (circle ?c) \<noteq> None"
  proof -
    have "length (circle ?c) = 64" by (simp add: circle_def)
    then have "0 \<in> set (circle ?c)" using i by (metis nth_mem)
    then show ?thesis using l(3) unfolding find_slot_None sp by blast
  qed
  then obtain j where f: "find_slot (\<lambda>i. status (pcb ?t ! i) = READY) (circle ?c) = Some j" by blast
  then have j: "j < 64" "stat t (circle ?c ! j) = READY" "\<forall>i < j. stat t (circle ?c ! i) \<noteq> READY"
    unfolding sp find_slot_Some by (auto simp: circle_def)
  have "runs {} (proc_run (circle ?c ! j)) (\<lambda>_ u. steady u \<and> curr u = circle ?c ! j \<and> stat u = (stat ?t)(circle ?c ! j := RUNNING)) ?t"
  proof -
    have "stat ?t (circle ?c ! j) = READY" using j(2) st by (simp only:)
    from run_picked [OF left circle_less [OF j(1)] this k0] show ?thesis .
  qed
  then have "runs {} (proc_run (circle ?c ! j)) (\<lambda>_ u. steady u \<and> dispatched t u) ?t"
    by (rule runs_mono) (use j st in \<open>auto simp: dispatched_def\<close>)
  then show ?thesis using f by (simp add: schedule_def proc_curr_def runs_def bindS_def set_proc_apply)
qed

lemma leave_steady:
  assumes "after s r t" "kont (pcb t ! 0) = KUser" "curr s = 0 \<longrightarrow> r \<in> {Iret, Switch KUser}"
  shows "runs {} (leave r) (\<lambda>b u. steady u \<and> (\<forall>p. stat s p = READY \<longrightarrow> stat t p = READY) \<and> curr t = curr s \<and>
    (if b then dispatched t u else u = t)) t"
proof (cases r)
  case (Switch k)
  then have "left t" "curr t = curr s" using assms(1) unfolding after_def by auto
  then have "runs {} (schedule k) (\<lambda>_ u. steady u \<and> dispatched t u) t"
    using assms(2,3) Switch by (intro schedule_dispatches) auto
  then show ?thesis
    using assms(1) unfolding leave_def Switch call.case runs_simps by (elim runs_mono) (auto simp: after_def)
qed (use assms in \<open>simp_all add: leave_def after_def steady_def\<close>)

lemma steady_trapped: "steady (trapped ctx m s) = steady s" "curr (trapped ctx m s) = curr s" "stat (trapped ctx m s) = stat s"
proof -
  let ?u = "s\<lparr>pcb := (pcb s)[curr s := (pcb s ! curr s)\<lparr>frame_of := ctx\<rparr>]\<rparr>"
  have u: "view ?u = view s" by (rule view_set_proc) simp
  moreover have "trapped ctx m s = ?u\<lparr>vmem := (vmem s)\<lparr>mem := m\<rparr>\<rparr>" by (simp add: trapped_def)
  ultimately have v: "view (trapped ctx m s) = view s" by (simp only: view_parts(1))
  then show "curr (trapped ctx m s) = curr s" "stat (trapped ctx m s) = stat s" by (simp_all add: view_eq)
  have "kont (pcb (trapped ctx m s) ! 0) = kont (pcb s ! 0)" by (simp add: trapped_def nth_update_same)
  then show "steady (trapped ctx m s) = steady s" using sys_view [OF v] by (simp add: steady_def)
qed

text \<open>One step: the handler's effect, then perhaps a switch.\<close>

lemma step_steady:
  assumes "step (a, s) (b, u)" "steady s"
  obtains t where "steady u" "curr t = curr s" "\<And>p. stat s p = READY \<Longrightarrow> stat t p = READY" "if b then dispatched t u else u = t"
proof -
  have "\<exists>r t. after s r t \<and> kont (pcb t ! 0) = KUser \<and> (curr s = 0 \<longrightarrow> r \<in> {Iret, Switch KUser}) \<and> leave r t = Inr (b, u)"
  proof (cases a)
    case False
    then obtain input ctx m r t where 1: "irq_handle input ctx (trapped ctx m s) = Inr (r, t)" "leave r t = Inr (b, u)"
      "curr s = 0 \<longrightarrow> r_irq ctx \<noteq> 0x80" using assms(1) by (auto elim: trapE)
    have "steady (trapped ctx m s)" using assms(2) steady_trapped by simp
    then have "after (trapped ctx m s) r t \<and> kont (pcb t ! 0) = KUser \<and> (curr (trapped ctx m s) = 0 \<longrightarrow> r \<in> {Iret, Switch KUser})"
      using 1 steady_trapped(2) by (intro irq_after) auto
    moreover have "after (trapped ctx m s) = after s" by (simp add: after_def fun_eq_iff steady_trapped(2,3))
    ultimately have "after s r t \<and> kont (pcb t ! 0) = KUser \<and> (curr s = 0 \<longrightarrow> r \<in> {Iret, Switch KUser})"
      by (simp add: steady_trapped(2))
    then show ?thesis using 1(2) by (intro exI [of _ r] exI [of _ t]) simp
  next
    case True
    then obtain r t where 2: "resume s = Inr (r, t)" "leave r t = Inr (b, u)" using assms(1) by (auto elim: goE)
    then show ?thesis using resume_after [OF assms(2)] by blast
  qed
  then obtain r t where t: "after s r t" "kont (pcb t ! 0) = KUser" "curr s = 0 \<longrightarrow> r \<in> {Iret, Switch KUser}" "leave r t = Inr (b, u)"
    by (elim exE conjE)
  from runs_returned [OF leave_steady [OF t(1-3)] t(4)] show thesis using that by (elim conjE) blast
qed

lemma steps_steady: "step\<^sup>*\<^sup>* x y \<Longrightarrow> steady (snd x) \<Longrightarrow> steady (snd y)"
proof (induction rule: rtranclp_induct)
  case (step y z)
  then show ?case using step_steady [of "fst y" "snd y" "fst z" "snd z"] by auto
qed

section \<open>From the start of the kernel\<close>

text \<open>
  The state after \<open>main\<close>: the idle process runs, one process is ready, nobody holds or waits for a semaphore,
  and all nodes of the pool are free.
\<close>

definition booted :: "kern \<Rightarrow> bool" where
  "booted s \<longleftrightarrow> length (pcb s) = 64 \<and> curr s = 0 \<and> kont (pcb s ! 0) = KUser \<and>
     (\<exists>i. 0 < i \<and> i < 64 \<and> queues 256 [Serial_Sem \<mapsto> [], Zombie_Sem 0 \<mapsto> [], Zombie_Sem i \<mapsto> []] (klists s) \<and>
       (\<forall>p < 64. stat s p = (if p = 0 then RUNNING else if p = i then READY else UNUSED))) \<and>
     (\<forall>p < 64. held s p = replicate 32 None \<and> par s p = None) \<and> usem_ref s = replicate 128 0"

lemma booted_steady: "booted s \<Longrightarrow> steady s"
proof -
  assume b: "booted s"
  then obtain i where i: "0 < i" "i < 64" "queues 256 [Serial_Sem \<mapsto> [], Zombie_Sem 0 \<mapsto> [], Zombie_Sem i \<mapsto> []] (klists s)"
    and st: "\<And>p. p < 64 \<Longrightarrow> stat s p = (if p = 0 then RUNNING else if p = i then READY else UNUSED)"
    unfolding booted_def by blast
  have h: "\<And>p. p < 64 \<Longrightarrow> held s p = replicate 32 None" "\<And>p. p < 64 \<Longrightarrow> par s p = None"
    and c: "length (pcb s) = 64" "curr s = 0" "usem_ref s = replicate 128 0" "kont (pcb s ! 0) = KUser"
    using b unfolding booted_def by auto
  let ?Q = "[Serial_Sem \<mapsto> [], Zombie_Sem 0 \<mapsto> [], Zombie_Sem i \<mapsto> []]"
  have none: "blocked (stat s) = {}" using st by (auto simp: blocked_def)
  have "waiting (stat s) (held s) (sem_value s) ?Q"
    unfolding waiting_def none by (auto split: if_splits)
  moreover have "\<forall>g. in_use (stat s) (held s) (par s) g \<longrightarrow> ?Q g \<noteq> None"
  proof (intro allI impI)
    fix g assume "in_use (stat s) (held s) (par s) g"
    then show "?Q g \<noteq> None" using st h by (cases g) (auto split: if_splits)
  qed
  ultimately have q: "\<exists>n Q. queues n Q (klists s) \<and> 256 \<le> n + card (blocked (stat s)) \<and> waiting (stat s) (held s) (sem_value s) Q \<and>
      (\<forall>h. in_use (stat s) (held s) (par s) h \<longrightarrow> Q h \<noteq> None)"
    using i(3) by (intro exI [of _ 256] exI [of _ ?Q] conjI) simp_all
  have "holders (held s) k = {}" for k using h(1) by (auto simp: holders_def)
  then have "sinv {} (stat s) (held s) (par s) (klists s) (sem_value s) (usem_ref s)"
    unfolding sinv_def using h c by (intro conjI q) auto
  then have "sys s" using st c i unfolding sys_def kinv_def by auto
  then show ?thesis using c(4) unfolding steady_def by blast
qed

text \<open>Before \<open>main\<close>: the tables are zero.\<close>

definition bss :: "kern \<Rightarrow> bool" where
  "bss s \<longleftrightarrow> length (pcb s) = 64 \<and> curr s = 0 \<and> kont (pcb s ! 0) = KUser \<and> \<not> l_inited (klists s) \<and>
     (\<forall>p < 64. stat s p = UNUSED \<and> held s p = replicate 32 None \<and> par s p = None) \<and> usem_ref s = replicate 128 0"

lemma main_boots: "bss s \<Longrightarrow> runs UNIV (main kend) (\<lambda>_. booted) s"
proof -
  assume b: "bss s"
  obtain st us pa L v where w: "view s = (64, 0, st, us, pa, L, v, replicate 128 0)" and L: "\<not> l_inited L"
    and z: "\<And>p. p < 64 \<Longrightarrow> st p = UNUSED" "\<And>p. p < 64 \<Longrightarrow> us p = replicate 32 None" "\<And>p. p < 64 \<Longrightarrow> pa p = None"
    using b unfolding bss_def view_def by auto
  let ?L = "list_init (Head (Zombie_Sem 0)) (list_init (Head Serial_Sem) L)"
  let ?v = "v(Serial_Sem := 0, Zombie_Sem 0 := 0)"
  let ?V = "(64, 0, st(0 := RUNNING), us, pa, ?L, ?v, replicate 128 0)"
  have 1: "runs UNIV init_serial (\<lambda>_ t. view t = (64, 0, st, us, pa, list_init (Head Serial_Sem) L, v(Serial_Sem := 0), replicate 128 0)) s"
    unfolding init_serial_def by (rule runs_then [OF view_quiet [OF _ w]], intro ends_intros, erule view_sem_init)
  have 2: "runs UNIV init_proc (\<lambda>_ t. view t = ?V) t"
    if "view t = (64, 0, st, us, pa, list_init (Head Serial_Sem) L, v(Serial_Sem := 0), replicate 128 0)" for t
    unfolding init_proc_def
    apply (rule runs_then [OF view_set [OF that, where x = RUNNING and y = "us 0" and z = "pa 0"]], simp, simp)
    apply (rule runs_seq [OF view_quiet], intro ends_intros, simp)
    apply (rule runs_then [OF view_quiet], intro ends_intros, simp, assumption)
    apply (rule runs_then [OF view_sem_init], assumption)
    apply (erule view_quiet [rotated], intro ends_intros TrueI; simp)
    done
  have 3: "runs UNIV init_user_and_go (\<lambda>_ t. \<exists>i. 0 < i \<and> i < 64 \<and> view t = (64, 0, st(0 := RUNNING, i := READY),
      us(i := replicate 32 None), pa(i := None), list_init (Head (Zombie_Sem i)) ?L, ?v(Zombie_Sem i := 0), replicate 128 0)) t"
    if t: "view t = ?V" for t
    unfolding init_user_and_go_def
  proof (rule runs_seq [OF alloc_view [OF t]])
    fix q u
    assume q: "case q of None \<Rightarrow> view u = view t | Some i \<Rightarrow> 0 < i \<and> i < 64 \<and> (st(0 := RUNNING)) i = UNUSED \<and>
      view u = (64, 0, (st(0 := RUNNING))(i := UNINIT), us(i := replicate 32 None), pa(i := None),
        list_init (Head (Zombie_Sem i)) ?L, ?v(Zombie_Sem i := 0), replicate 128 0)"
    show "runs UNIV (case q of None \<Rightarrow> stopS Abort
     | Some i \<Rightarrow> bindS (getS (proc_at i)) (\<lambda>p.
         bindS (load_user (pgdir p) (frame_of p) (bytes_of ''sh'' @ [0]) (retS [bytes_of ''sh'' @ [0]])) (\<lambda>c. case c of
           None \<Rightarrow> stopS Abort
         | Some ctx \<Rightarrow>
             thenS (set_proc i (\<lambda>p. p\<lparr>frame_of := ctx\<rparr>))
             (bindS curr_cwd (\<lambda>wd. bindS (on_fs (iopen wd (bytes_of ''/'' @ [0]) TYPE_NONE)) (\<lambda>root.
              thenS (set_proc i (\<lambda>p. p\<lparr>cwd := root\<rparr>)) (proc_addready i)))))))
      (\<lambda>_ t. \<exists>i. 0 < i \<and> i < 64 \<and> view t = (64, 0, st(0 := RUNNING, i := READY),
        us(i := replicate 32 None), pa(i := None), list_init (Head (Zombie_Sem i)) ?L, ?v(Zombie_Sem i := 0), replicate 128 0)) u"
    proof (cases q)
      case (Some i)
      then have i: "0 < i" "i < 64" and u: "view u = (64, 0, (st(0 := RUNNING))(i := UNINIT), us(i := replicate 32 None), pa(i := None),
        list_init (Head (Zombie_Sem i)) ?L, ?v(Zombie_Sem i := 0), replicate 128 0)"
        using q by auto
      let ?Z = "\<lambda>_ t. \<exists>i. 0 < i \<and> i < 64 \<and> view t = (64, 0, st(0 := RUNNING, i := READY),
        us(i := replicate 32 None), pa(i := None), list_init (Head (Zombie_Sem i)) ?L, ?v(Zombie_Sem i := 0), replicate 128 0)"
      have "runs UNIV (thenS (set_proc i (\<lambda>p. p\<lparr>frame_of := ctx\<rparr>))
          (bindS curr_cwd (\<lambda>wd. bindS (on_fs (iopen wd (bytes_of ''/'' @ [0]) TYPE_NONE)) (\<lambda>root.
           thenS (set_proc i (\<lambda>p. p\<lparr>cwd := root\<rparr>)) (proc_addready i)))))
        (\<lambda>_ t. view t = (64, 0, (st(0 := RUNNING))(i := UNINIT, i := READY), us(i := replicate 32 None), pa(i := None),
          list_init (Head (Zombie_Sem i)) ?L, ?v(Zombie_Sem i := 0), replicate 128 0)) t"
        if "view t = view u" for ctx t
        unfolding proc_addready_def curr_cwd_def
        apply (rule runs_then [OF view_quiet [OF _ that]], intro ends_intros, simp)
        apply (rule runs_seq [OF view_quiet], intro ends_intros TrueI, assumption)
        apply (rule runs_seq [OF view_quiet], intro ends_intros TrueI, assumption)
        apply (rule runs_then [OF view_quiet], intro ends_intros, simp, assumption)
        apply (subst fun_upd_triv [of "us(i := replicate 32 None)" i, symmetric], subst fun_upd_triv [of "pa(i := None)" i, symmetric])
        apply (rule view_set [where x = READY], simp only: u, rule i(2), simp)
        done
      then have fin: "runs UNIV (thenS (set_proc i (\<lambda>p. p\<lparr>frame_of := ctx\<rparr>))
          (bindS curr_cwd (\<lambda>wd. bindS (on_fs (iopen wd (bytes_of ''/'' @ [0]) TYPE_NONE)) (\<lambda>root.
           thenS (set_proc i (\<lambda>p. p\<lparr>cwd := root\<rparr>)) (proc_addready i))))) ?Z t" if "view t = view u" for ctx t
        by (rule runs_mono) (use that i in auto)
      have "runs UNIV (bindS (getS (proc_at i)) (\<lambda>p. load_user (pgdir p) (frame_of p) (bytes_of ''sh'' @ [0]) (retS [bytes_of ''sh'' @ [0]])))
          (\<lambda>_ t. view t = view u) u"
        by (rule view_quiet [OF _ refl]) (intro ends_intros TrueI)
      then show ?thesis
        unfolding Some option.case runs_bind runs_simps
      proof (rule runs_mono)
        fix c t assume "view t = view u"
        then show "runs UNIV (case c of None \<Rightarrow> stopS Abort | Some ctx \<Rightarrow>
             thenS (set_proc i (\<lambda>p. p\<lparr>frame_of := ctx\<rparr>))
             (bindS curr_cwd (\<lambda>wd. bindS (on_fs (iopen wd (bytes_of ''/'' @ [0]) TYPE_NONE)) (\<lambda>root.
              thenS (set_proc i (\<lambda>p. p\<lparr>cwd := root\<rparr>)) (proc_addready i))))) ?Z t"
          using fin by (cases c) simp_all
      qed simp
    qed simp
  qed
  have 4: "quiet (bindS curr_cwd init_dev)" "quiet (putstr bs)" for bs
    unfolding curr_cwd_def init_dev_def putstr_def by (intro ends_intros TrueI)+
  have "runs UNIV (main kend) (\<lambda>_ t. \<exists>i. 0 < i \<and> i < 64 \<and> view t = (64, 0, st(0 := RUNNING, i := READY),
      us(i := replicate 32 None), pa(i := None), list_init (Head (Zombie_Sem i)) ?L, ?v(Zombie_Sem i := 0), replicate 128 0)) s"
    unfolding main_def
    apply (rule runs_then [OF 1])
    apply (rule runs_then [OF view_quiet], intro ends_intros, assumption)+
    apply (rule runs_then [OF 2], assumption)
    apply (rule runs_then [OF view_quiet [OF 4(1)]], assumption)
    apply (rule runs_then [OF view_quiet [OF 4(2)]], assumption)
    apply (erule 3)
    done
  note views = this
  have "silent idle_stays (main kend)"
    unfolding main_def init_serial_def init_proc_def curr_cwd_def init_dev_def putstr_def init_user_and_go_def
    by (intro ends_intros TrueI; simp)
  moreover have "kont (pcb s ! 0) = KUser" using b unfolding bss_def by blast
  ultimately have "runs UNIV (main kend) (\<lambda>_ t. kont (pcb t ! 0) = KUser) s"
    unfolding runs_UNIV by (intro allI impI) (rule idle_kont [where m = "main kend"])
  then have "runs UNIV (main kend) (\<lambda>_ t. (\<exists>i. 0 < i \<and> i < 64 \<and> view t = (64, 0, st(0 := RUNNING, i := READY),
      us(i := replicate 32 None), pa(i := None), list_init (Head (Zombie_Sem i)) ?L, ?v(Zombie_Sem i := 0), replicate 128 0)) \<and>
      kont (pcb t ! 0) = KUser) s"
    using runs_conj [OF views] by simp
  then show ?thesis
  proof (rule runs_mono)
    fix x t
    assume "(\<exists>i. 0 < i \<and> i < 64 \<and> view t = (64, 0, st(0 := RUNNING, i := READY),
      us(i := replicate 32 None), pa(i := None), list_init (Head (Zombie_Sem i)) ?L, ?v(Zombie_Sem i := 0), replicate 128 0)) \<and>
      kont (pcb t ! 0) = KUser"
    then obtain i where i: "0 < i" "i < 64" and v: "length (pcb t) = 64" "curr t = 0" "stat t = st(0 := RUNNING, i := READY)"
      "held t = us(i := replicate 32 None)" "par t = pa(i := None)" "klists t = list_init (Head (Zombie_Sem i)) ?L"
      "usem_ref t = replicate 128 0" "kont (pcb t ! 0) = KUser"
      unfolding view_def by auto
    have "queues 256 ([Serial_Sem \<mapsto> []](Zombie_Sem 0 \<mapsto> [], Zombie_Sem i \<mapsto> [])) (klists t)"
      unfolding v(6) by (intro queues_init queues_boot L)
    then show "booted t"
      unfolding booted_def v using i z by auto
  qed simp
qed

section \<open>What holds in every state that the kernel reaches\<close>

lemma reached: "booted s \<Longrightarrow> step\<^sup>*\<^sup>* (False, s) (b, t) \<Longrightarrow> steady t"
  using steps_steady [of "(False, s)" "(b, t)"] booted_steady by simp

text \<open>
  C3. Whatever interrupts, system calls and input occur after the kernel has started: exactly one process is
  \<open>RUNNING\<close>, the current one; and the idle process is \<open>RUNNING\<close> or \<open>READY\<close>.
\<close>

theorem one_process_runs:
  assumes "booted s" "step\<^sup>*\<^sup>* (False, s) (b, t)"
  shows "curr t < 64 \<and> (\<forall>p < 64. stat t p = RUNNING \<longleftrightarrow> p = curr t) \<and> stat t 0 \<in> {RUNNING, READY}"
  using sys_parts [OF steady_parts(1) [OF reached [OF assms]]] by auto

text \<open>
  C6. The \<open>BLOCKED\<close> processes are those in the queues of the semaphores, each in one place of one queue; a semaphore
  with a queue has the value 0; and a process waits only for its own \<open>zombie_sem\<close>, for a semaphore it holds, or
  for the serial line.
\<close>

theorem blocked_processes_wait:
  assumes "booted s" "step\<^sup>*\<^sup>* (False, s) (b, t)"
  shows "\<exists>n Q. queues n Q (klists t) \<and>
     (\<forall>p < 64. stat t p = BLOCKED \<longleftrightarrow> (\<exists>h q. Q h = Some q \<and> p \<in> set q)) \<and>
     (\<forall>h q. Q h = Some q \<longrightarrow> distinct q \<and> (q \<noteq> [] \<longrightarrow> sem_value t h = 0) \<and> (\<forall>p \<in> set q. p < 64 \<and> may_wait (held t) p h)) \<and>
     (\<forall>h g q r. Q h = Some q \<and> Q g = Some r \<and> h \<noteq> g \<longrightarrow> set q \<inter> set r = {})"
proof -
  obtain n Q where q: "queues n Q (klists t)" and w: "waiting (stat t) (held t) (sem_value t) Q"
    using sys_parts(3) [OF steady_parts(1) [OF reached [OF assms]]] by (elim sinvE) blast
  from w have w': "\<And>h q. Q h = Some q \<Longrightarrow> distinct q \<and> (q \<noteq> [] \<longrightarrow> sem_value t h = 0) \<and>
      (\<forall>p \<in> set q. 0 < p \<and> p \<in> blocked (stat t) \<and> may_wait (held t) p h)"
    "\<And>p. p \<in> blocked (stat t) \<Longrightarrow> \<exists>h q. Q h = Some q \<and> p \<in> set q"
    "\<And>h g q r. Q h = Some q \<and> Q g = Some r \<and> h \<noteq> g \<Longrightarrow> set q \<inter> set r = {}"
    unfolding waiting_def by blast+
  have b: "p \<in> blocked (stat t) \<longleftrightarrow> p < 64 \<and> stat t p = BLOCKED" for p by (simp add: blocked_def)
  show ?thesis
  proof (intro exI conjI allI impI)
    show "queues n Q (klists t)" by (rule q)
    show "stat t p = BLOCKED \<longleftrightarrow> (\<exists>h q. Q h = Some q \<and> p \<in> set q)" if "p < 64" for p
      using w'(1,2) b that by blast
    show "distinct q" "\<forall>p \<in> set q. p < 64 \<and> may_wait (held t) p h" if "Q h = Some q" for h q
      using w'(1) [OF that] b by blast+
    show "sem_value t h = 0" if "Q h = Some q" "q \<noteq> []" for h q using w'(1) [OF that(1)] that(2) by blast
    show "set q \<inter> set r = {}" if "Q h = Some q \<and> Q g = Some r \<and> h \<noteq> g" for h g q r by (rule w'(3) [OF that])
  qed
qed

text \<open>
  C9. The reference count of a user semaphore is the number of entries in the tables of the processes that
  point to it, so it is free when and only when nobody holds it; a free slot and a zombie hold none.
\<close>

theorem usem_references:
  assumes "booted s" "step\<^sup>*\<^sup>* (False, s) (b, t)"
  shows "(\<forall>k < 128. unat (usem_ref t ! k) = card {(p, j). p < 64 \<and> j < 32 \<and> usems (pcb t ! p) ! j = Some k}) \<and>
     (\<forall>p < 64. status (pcb t ! p) \<in> {UNUSED, ZOMBIE} \<longrightarrow> usems (pcb t ! p) = replicate 32 None)"
proof -
  have "(\<forall>k < 128. unat (usem_ref t ! k) = card (holders (held t) k)) \<and>
      (\<forall>p < 64. length (held t p) = 32 \<and> (p \<notin> {} \<and> stat t p \<in> {UNUSED, ZOMBIE} \<longrightarrow> held t p = replicate 32 None))"
    using sys_parts(3) [OF steady_parts(1) [OF reached [OF assms]]] unfolding sinv_def by blast
  then show ?thesis unfolding holders_def held_def stat_def by blast
qed

text \<open>
  C4. The scheduler never searches in vain: when a handler, or a process that has been resumed, gives up the
  processor, \<open>schedule\<close> returns, and gives it to the first ready process in the circle.
\<close>

theorem schedule_finds:
  assumes "booted s" "step\<^sup>*\<^sup>* (False, s) (b, t)"
    "if b then resume t = Inr (r, u)
     else irq_handle input ctx (trapped ctx m t) = Inr (r, u) \<and> (curr t = 0 \<longrightarrow> r_irq ctx \<noteq> 0x80)"
  shows "\<exists>c v. leave r u = Inr (c, v) \<and> (if c then dispatched u v else v = u)"
proof -
  have t: "steady t" by (rule reached [OF assms(1,2)])
  have "\<exists>s'. after s' r u \<and> kont (pcb u ! 0) = KUser \<and> (curr s' = 0 \<longrightarrow> r \<in> {Iret, Switch KUser})"
  proof (cases b)
    case True
    then show ?thesis using resume_after [OF t] assms(3) by (metis (full_types))
  next
    case False
    then have "irq_handle input ctx (trapped ctx m t) = Inr (r, u)" "curr t = 0 \<longrightarrow> r_irq ctx \<noteq> 0x80" using assms(3) by simp_all
    then show ?thesis
      using irq_after [of "trapped ctx m t" ctx input r u] t steady_trapped by (intro exI [of _ "trapped ctx m t"]) simp
  qed
  then obtain s' where "after s' r u" "kont (pcb u ! 0) = KUser" "curr s' = 0 \<longrightarrow> r \<in> {Iret, Switch KUser}" by (elim exE conjE)
  from leave_steady [OF this] show ?thesis unfolding runs_total by (elim exE conjE) blast
qed

text \<open>
  C7. \<open>sem_p\<close> never runs out of list nodes: on the serial semaphore, the \<open>zombie_sem\<close> of the current process or a
  semaphore that it holds, it returns, and blocks the process just when the value is 0. The only exception is the least \<open>int\<close> as
  the value, which C does not allow to decrement; \<open>sem_open\<close> takes any value from the program.
\<close>

theorem sem_p_returns:
  assumes "booted s" "step\<^sup>*\<^sup>* (False, s) (b, t)" "0 < curr t"
    "h = Serial_Sem \<or> h = Zombie_Sem (curr t) \<or> (\<exists>j < 32. \<exists>k. usems (pcb t ! curr t) ! j = Some k \<and> h = User_Sem k)"
  shows "if sem_value t h = 0x80000000 then sem_p h t = Inl Undef
    else \<exists>c u. sem_p h t = Inr (c, u) \<and> c = (sem_value t h = 0) \<and> stat u = (if c then (stat t)(curr t := BLOCKED) else stat t)"
proof -
  note p = sys_parts [OF steady_parts(1) [OF reached [OF assms(1,2)]]]
  have k: "kinv {} t" using p(1-3) unfolding kinv_def by simp
  have w: "in_use (stat t) (held t) (par t) h \<and> may_wait (held t) (curr t) h"
    using assms(4)
  proof (elim disjE exE conjE)
    fix j k' assume h: "j < 32" "usems (pcb t ! curr t) ! j = Some k'" "h = User_Sem k'"
    have "Some k' \<in> set (held t (curr t))" using h sinv_ranges(4) [OF p(3,2)] unfolding held_def by (metis nth_mem)
    then show ?thesis using h(3) p(2) by auto
  qed (use p(2,4) in auto)
  have r: "runs (if sem_value t h = 0x80000000 then {Undef} else {}) (sem_p h) (\<lambda>c u. c = (sem_value t h = 0) \<and>
      stat u = (if c then (stat t)(curr t := BLOCKED) else stat t)) t"
    by (rule runs_mono [OF sem_p_blocks [OF k conjunct1 [OF w] assms(3) p(4) conjunct2 [OF w]]]) auto
  show ?thesis
  proof (cases "sem_value t h = 0x80000000")
    case True
    then show ?thesis by (simp add: sem_p_def)
  next
    case False
    show ?thesis using r unfolding if_not_P [OF False] runs_total .
  qed
qed

text \<open>\<open>waits p n x y\<close>: a run from \<open>x\<close> to \<open>y\<close> in which the processor is given away \<open>n\<close> times, and never to \<open>p\<close>.\<close>

inductive waits :: "nat \<Rightarrow> nat \<Rightarrow> bool \<times> kern \<Rightarrow> bool \<times> kern \<Rightarrow> bool" for p where
  waits_refl: "waits p 0 x x"
| waits_step: "waits p n x y \<Longrightarrow> step y (b, u) \<Longrightarrow> curr u \<noteq> p \<Longrightarrow> waits p (if b then Suc n else n) x (b, u)"

lemma circle_nth: "k < 64 \<Longrightarrow> circle c ! k = (c + 1 + k) mod 64"
  by (simp add: circle_def)

lemma circle_step:
  assumes "circle c ! k = p" "j < k" "k < 64"
  shows "circle (circle c ! j) ! (k - j - 1) = p"
proof -
  have l: "k - j - 1 < 64" "j < 64" using assms(2,3) by linarith+
  have "((c + 1 + j) mod 64 + 1 + (k - j - 1)) mod 64 = (c + 1 + j + 1 + (k - j - 1)) mod 64"
    by (simp only: add.assoc mod_add_left_eq)
  also have "\<dots> = (c + 1 + k) mod 64" using assms(2) by simp
  finally show ?thesis using assms(1) unfolding circle_nth [OF l(1)] circle_nth [OF l(2)] circle_nth [OF assms(3)] by simp
qed

lemma waits_bound:
  assumes "waits p n x y" "steady (snd x)" "stat (snd x) p = READY" "p < 64"
  shows "steady (snd y) \<and> stat (snd y) p = READY \<and> (\<exists>k. k + n < 64 \<and> circle (curr (snd y)) ! k = p)"
  using assms
proof induction
  case (waits_refl x)
  then show ?case using set_circle [of p] by auto
next
  case (waits_step n x y b u)
  from waits_step.IH [OF waits_step.prems] obtain k where
    y: "steady (snd y)" "stat (snd y) p = READY" and k: "k + n < 64" "circle (curr (snd y)) ! k = p" by (elim conjE exE)
  have "step (fst y, snd y) (b, u)" using waits_step.hyps(2) by simp
  then obtain t where t: "steady u" "curr t = curr (snd y)" "\<And>q. stat (snd y) q = READY \<Longrightarrow> stat t q = READY"
    "if b then dispatched t u else u = t" using step_steady [OF _ y(1)] by blast
  show ?case
  proof (cases b)
    case False
    then show ?thesis using t y k by auto
  next
    case True
    then obtain j where j: "j < 64" "curr u = circle (curr t) ! j" "\<forall>i < j. stat t (circle (curr t) ! i) \<noteq> READY"
      "stat u = (stat t)(curr u := RUNNING)" using t(4) unfolding dispatched_def by auto
    have p: "circle (curr t) ! k = p" "stat t p = READY" using k(2) t(2) t(3) [OF y(2)] by simp_all
    then have "\<not> k < j" using j(3) by blast
    moreover have "k \<noteq> j" using p(1) j(2) waits_step.hyps(3) by auto
    ultimately have jk: "j < k" by simp
    have "circle (curr u) ! (k - j - 1) = p" using circle_step [OF p(1) jk] k(1) j(2) by simp
    moreover have "k - j - 1 + Suc n < 64" using k(1) jk by simp
    moreover have "stat u p = READY" using j(4) p(2) waits_step.hyps(3) by simp
    ultimately show ?thesis using t(1) True by auto
  qed
qed

text \<open>
  C5. No process starves: while a process is ready and is not chosen, the processor changes hands at most 63 times.
\<close>

theorem ready_runs_soon:
  assumes "booted s" "step\<^sup>*\<^sup>* (False, s) (b, t)" "p < 64" "stat t p = READY" "waits p n (b, t) y"
  shows "n < 64"
  using waits_bound [OF assms(5)] reached [OF assms(1,2)] assms(3,4) by auto

section \<open>A kernel that has started\<close>

definition blank_ctx :: Context where
  "blank_ctx = context_of (replicate 60 0)"

definition small_proc :: "status \<Rightarrow> proc" where
  "small_proc st = \<lparr>pid = 0, status = st, pgdir = 0, brk = 0, kstack = 0, frame_of = blank_ctx, kont = KUser, parent = None,
     child_num = 0, exit_code = 0, usems = replicate 32 None, fds = replicate 32 None, cwd = None\<rparr>"

definition small_kern :: kern where
  "small_kern = \<lparr>vmem = \<lparr>mem = \<lambda>_. 0, cr3 = 0, paging = True, free_page_list = 0, tss_ss0 = 0, tss_esp0 = 0, kpd = 0, kpt = 0\<rparr>,
     fsys = \<lparr>dev = \<lparr>sects = \<lambda>_. replicate 128 0, blk_cache = []\<rparr>, sb = \<lparr>bitmap = 0, istart = 0, inum = 0, root = 0\<rparr>,
       inodes = [], garbage = []\<rparr>,
     klists = list_init (Head (Zombie_Sem 1)) (list_init (Head (Zombie_Sem 0)) (list_init (Head Serial_Sem)
       \<lparr>l_ptr = \<lambda>_. 0, l_prev = \<lambda>_. Free, l_next = \<lambda>_. Free, l_inited = False\<rparr>)),
     sem_value = \<lambda>_. 0, usem_ref = replicate 128 0,
     file_tab = [\<lparr>f_type = TYPE_DEV, f_ref = 1, readable = True, writable = True, f_inode = None, f_offset = 0, dev_op = Some 0\<rparr>],
     pcb = small_proc RUNNING # (small_proc READY)\<lparr>fds := Some 0 # replicate 31 None\<rparr> # replicate 62 (small_proc UNUSED), curr = 0, next_pid = 2, tick = 0,
     buffer = replicate 256 0, buf_head = 0, buf_tail = 0, clapboard = 0, screen = [], unset = replicate 256 0\<rparr>"

lemma small_booted: "booted small_kern"
proof -
  have q: "queues 256 ([Serial_Sem \<mapsto> []](Zombie_Sem 0 \<mapsto> [], Zombie_Sem 1 \<mapsto> [])) (klists small_kern)"
    unfolding small_kern_def by simp (intro queues_init queues_boot, simp)
  have st: "stat small_kern p = (if p = 0 then RUNNING else if p = 1 then READY else UNUSED)" if "p < 64" for p
    using that by (cases p; cases "p - 1") (auto simp: stat_def small_kern_def small_proc_def)
  have h: "held small_kern p = replicate 32 None \<and> par small_kern p = None" if "p < 64" for p
    using that by (cases p; cases "p - 1") (auto simp: held_def par_def small_kern_def small_proc_def)
  show ?thesis
    unfolding booted_def using q st h by (auto simp: small_kern_def small_proc_def intro!: exI [of _ 1])
qed

text \<open>A timer interrupt gives the processor to process 1.\<close>

definition tick_ctx :: Context where
  "tick_ctx = blank_ctx\<lparr>r_irq := 32\<rparr>"

text \<open>What the witnesses need to know of a later state: the semaphores and the files of process 1.\<close>

abbreviation "like_start s \<equiv> sem_value s = sem_value small_kern \<and> file_tab s = file_tab small_kern \<and>
    map fds (pcb s) = map fds (pcb small_kern) \<and> kont (pcb s ! 1) = KUser"

lemma map_fds: "fds x = fds (xs ! i) \<Longrightarrow> map fds (xs[i := x]) = map fds xs"
  by (simp add: map_update) (metis list_update_id list_update_beyond map_update not_le_imp_less nth_map)

lemma nth_kont: "kont x = kont (xs ! i) \<Longrightarrow> kont (xs[i := x] ! j) = kont (xs ! j)"
  by (cases "i < length xs"; cases "i = j") (simp_all add: list_update_beyond not_less)

lemma small_size: "length (pcb small_kern) = 64" "curr small_kern = 0"
  by (simp_all add: small_kern_def)

lemma small_kont: "kont (pcb small_kern ! Suc 0) = KUser"
  by (simp add: small_kern_def small_proc_def)

lemma small_tick: "\<exists>t. irq_handle [] tick_ctx (trapped tick_ctx (\<lambda>_. 0) small_kern) = Inr (Switch KUser, t) \<and> like_start t"
  by (simp add: map_fds small_size small_kont trapped_def irq_handle_def tick_ctx_def timer_handle_def proc_yield_def proc_curr_def bindS_def set_proc_def)

lemma small_step:
  obtains u where "step (False, small_kern) (True, u)" "curr u = 1" "stat u 0 = READY" "0 < curr u" "like_start u"
proof -
  have s: "steady small_kern" by (rule booted_steady [OF small_booted])
  obtain t where t: "irq_handle [] tick_ctx (trapped tick_ctx (\<lambda>_. 0) small_kern) = Inr (Switch KUser, t)"
    and v: "like_start t"
    using small_tick by blast
  have c: "curr small_kern = 0" "stat small_kern 1 = READY" by (simp_all add: small_kern_def stat_def small_proc_def)
  have i: "r_irq tick_ctx \<noteq> 0x80" by (simp add: tick_ctx_def)
  have a: "after (trapped tick_ctx (\<lambda>_. 0) small_kern) (Switch KUser) t \<and> kont (pcb t ! 0) = KUser"
    using irq_after [OF _ _ t] s i unfolding steady_trapped by blast
  then obtain b u where u: "leave (Switch KUser) t = Inr (b, u)" "if b then dispatched t u else u = t"
    using leave_steady [of "trapped tick_ctx (\<lambda>_. 0) small_kern" "Switch KUser" t] unfolding runs_total by blast
  have b: "b" using u(1) by (auto simp: leave_def bindS_def split: sum.splits)
  have t': "curr t = 0" "stat t 1 = READY" "stat t 0 = READY"
    using a c unfolding after_def left_def steady_trapped by auto
  have "circle 0 ! 0 = 1" by (simp add: circle_nth)
  then have "curr u = 1" "stat u = (stat t)(1 := RUNNING)"
    using u(2) b t' unfolding dispatched_def by (auto, (metis One_nat_def gr0I)+)
  moreover have "step (False, small_kern) (True, u)"
    using step.trap [OF t u(1)] i b by simp
  moreover have "sem_value u = sem_value t \<and> file_tab u = file_tab t \<and> map fds (pcb u) = map fds (pcb t) \<and> kont (pcb u ! 1) = kont (pcb t ! 1)"
    using u(1) t'(1) by (auto simp: leave_def schedule_def proc_run_def proc_curr_def set_proc_def bindS_def on_vm_def map_fds nth_kont
      split: sum.splits prod.splits option.splits if_splits)
  ultimately show thesis using that [of u] t' v by simp
qed

theorem one_process_runs_witness:
  "\<exists>t. step\<^sup>*\<^sup>* (False, small_kern) (True, t) \<and> stat t 1 = RUNNING \<and> stat t 2 \<noteq> RUNNING"
proof -
  obtain u where u: "step (False, small_kern) (True, u)" "curr u = 1" by (rule small_step)
  have r: "step\<^sup>*\<^sup>* (False, small_kern) (True, u)" using u(1) by (rule r_into_rtranclp)
  then show ?thesis using one_process_runs [OF small_booted r] u(2) by auto
qed

text \<open>There it asks for a byte from the serial line, and blocks.\<close>

lemma small_read:
  obtains v where "step\<^sup>*\<^sup>* (False, small_kern) (True, v)" "stat v 1 = BLOCKED"
proof -
  obtain u where u: "step (False, small_kern) (True, u)" "curr u = 1" "like_start u" by (rule small_step)
  have reach: "step\<^sup>*\<^sup>* (False, small_kern) (True, u)" using u(1) by (rule r_into_rtranclp)
  have go: "step (True, u) (False, u)"
    by (rule step.go [of _ Iret u]) (use u(2,3) in \<open>simp_all add: resume_def proc_curr_def leave_def\<close>)
  define ctx where "ctx = blank_ctx\<lparr>r_irq := 0x80, r_eax := 1, r_ebx := 0, r_ecx := 0x8000000, r_edx := 1\<rparr>"
  define s where "s = trapped ctx (\<lambda>_. 0) u"
  have st: "steady s" "curr s = 1" using reached [OF small_booted reach] u(2) unfolding s_def steady_trapped by (simp_all add: trapped_def)
  note p = sys_parts [OF steady_parts(1) [OF st(1)]]
  have k: "kinv {} s" using p(1-3) unfolding kinv_def by simp
  have v0: "sem_value s Serial_Sem = 0" using u(3) by (simp add: s_def trapped_def small_kern_def)
  have "in_use (stat s) (held s) (par s) Serial_Sem" "may_wait (held s) (curr s) Serial_Sem" by simp_all
  from sem_p_blocks [OF k this(1) _ p(4) this(2)] obtain w where w: "sem_p Serial_Sem s = Inr (True, w)" "stat w = (stat s)(1 := BLOCKED)"
    using v0 st(2) by (auto simp: runs_total)
  have fd: "fds (pcb s ! 1) = Some 0 # replicate 31 None" "file_tab s = file_tab small_kern" "curr s = 1"
  proof -
    have l: "1 < length (pcb u)" using u(3) small_size by (metis length_map one_less_numeral_iff semiring_norm(76))
    then have "fds (pcb u ! 1) = map fds (pcb u) ! 1" by simp
    also have "\<dots> = Some 0 # replicate 31 None" using u(3) by (simp add: small_kern_def)
    finally show "fds (pcb s ! 1) = Some 0 # replicate 31 None" using l u(2) by (simp add: s_def trapped_def)
  qed (use u(3) st(2) in \<open>simp_all add: s_def trapped_def\<close>)
  have f: "file_tab small_kern ! 0 = \<lparr>f_type = TYPE_DEV, f_ref = 1, readable = True, writable = True, f_inode = None, f_offset = 0, dev_op = Some 0\<rparr>"
    by (simp add: small_kern_def)
  have "serial_read 0x8000000 1 s = Inr (Switch (KRead 0x8000000 1 0), w)"
    using w(1) by (simp add: serial_read_def serial_read_from.simps [of _ _ 0] getchar_p_def)
  then have "sys_read 0 0x8000000 1 s = Inr (Switch (KRead 0x8000000 1 0), w)"
    using fd f by (simp add: sys_read_def with_file_def proc_curr_def proc_getfile_def fread_def dev_table_def rdR_def)
  then have h: "irq_handle [] ctx s = Inr (Switch (KRead 0x8000000 1 0), w)"
    by (simp add: irq_handle_def ctx_def do_syscall_def Let_def syscall_handle_def NR_SYS_def set_result_def)
  have a: "after s (Switch (KRead 0x8000000 1 0)) w \<and> kont (pcb w ! 0) = KUser"
    using irq_after [OF st(1) _ h] st(2) by simp
  then obtain b v where v: "leave (Switch (KRead 0x8000000 1 0)) w = Inr (b, v)" "if b then dispatched w v else v = w"
    using leave_steady [of s _ w] st(2) unfolding runs_total by (metis One_nat_def zero_neq_one)
  have b: "b" using v(1) by (auto simp: leave_def bindS_def split: sum.splits)
  have "step (False, u) (True, v)"
    using step.trap [OF h [unfolded s_def] v(1)] b u(2) by simp
  moreover have "stat v 1 = BLOCKED" using v(2) b w(2) unfolding dispatched_def by (auto split: if_splits)
  ultimately show thesis using that reach go by (meson rtranclp.rtrancl_into_rtrancl)
qed

theorem blocked_processes_wait_witness:
  "\<exists>t n Q. step\<^sup>*\<^sup>* (False, small_kern) (True, t) \<and> stat t 1 = BLOCKED \<and> queues n Q (klists t) \<and>
     (\<exists>h q. Q h = Some q \<and> 1 \<in> set q \<and> sem_value t h = 0)"
proof -
  obtain v where v: "step\<^sup>*\<^sup>* (False, small_kern) (True, v)" "stat v 1 = BLOCKED" by (rule small_read)
  obtain n Q where q: "queues n Q (klists v)" "stat v 1 = BLOCKED \<longleftrightarrow> (\<exists>h q. Q h = Some q \<and> 1 \<in> set q)"
    "\<And>h q. Q h = Some q \<Longrightarrow> q \<noteq> [] \<longrightarrow> sem_value v h = 0"
    using blocked_processes_wait [OF small_booted v(1)] by (elim exE conjE) auto
  obtain h q where hq: "Q h = Some q" "1 \<in> set q" using q(2) v(2) by blast
  then have "sem_value v h = 0" using q(3) by fastforce
  then show ?thesis using v q(1) hq by blast
qed

theorem usem_references_witness:
  "\<exists>t. step\<^sup>*\<^sup>* (False, small_kern) (True, t) \<and>
     unat (usem_ref t ! 5) = card {(p, j). p < 64 \<and> j < 32 \<and> usems (pcb t ! p) ! j = Some 5}"
proof -
  obtain u where "step (False, small_kern) (True, u)" by (rule small_step)
  then have r: "step\<^sup>*\<^sup>* (False, small_kern) (True, u)" by (rule r_into_rtranclp)
  then show ?thesis using usem_references [OF small_booted r] by auto
qed

theorem schedule_finds_witness:
  "\<exists>u c v. irq_handle [] tick_ctx (trapped tick_ctx (\<lambda>_. 0) small_kern) = Inr (Switch KUser, u) \<and>
     leave (Switch KUser) u = Inr (c, v)"
proof -
  obtain u where u: "irq_handle [] tick_ctx (trapped tick_ctx (\<lambda>_. 0) small_kern) = Inr (Switch KUser, u)"
    using small_tick by blast
  have "if False then resume small_kern = Inr (Switch KUser, u)
     else irq_handle [] tick_ctx (trapped tick_ctx (\<lambda>_. 0) small_kern) = Inr (Switch KUser, u) \<and>
       (curr small_kern = 0 \<longrightarrow> r_irq tick_ctx \<noteq> 0x80)"
    using u by (simp add: tick_ctx_def)
  from schedule_finds [OF small_booted rtranclp.rtrancl_refl this] show ?thesis using u by blast
qed

theorem sem_p_returns_witness:
  "\<exists>t c u. step\<^sup>*\<^sup>* (False, small_kern) (True, t) \<and> sem_p (Zombie_Sem 1) t = Inr (c, u) \<and> c"
proof -
  obtain t where t: "step (False, small_kern) (True, t)" "curr t = 1" "0 < curr t" "like_start t" by (rule small_step)
  then have r: "step\<^sup>*\<^sup>* (False, small_kern) (True, t)" by (simp add: r_into_rtranclp)
  have v: "sem_value t (Zombie_Sem 1) = 0" using t(4) by (simp add: small_kern_def)
  have "Zombie_Sem 1 = Serial_Sem \<or> Zombie_Sem 1 = Zombie_Sem (curr t) \<or>
      (\<exists>j < 32. \<exists>k. usems (pcb t ! curr t) ! j = Some k \<and> Zombie_Sem 1 = User_Sem k)" by (simp add: t(2))
  from sem_p_returns [OF small_booted r t(3) this] show ?thesis using r v by auto
qed

theorem ready_runs_soon_witness:
  "\<exists>n y. waits 1 n (False, small_kern) y \<and> y \<noteq> (False, small_kern) \<and> n < 64"
proof -
  let ?c = "blank_ctx\<lparr>r_irq := 40\<rparr>"
  let ?t = "trapped ?c (\<lambda>_. 1) small_kern"
  have "irq_handle [] ?c ?t = Inr (Iret, ?t)" by (simp add: irq_handle_def bindS_def)
  then have s: "step (False, small_kern) (False, ?t)" by (rule step.trap) (simp_all add: leave_def)
  have c: "curr ?t \<noteq> 1" unfolding steady_trapped by (simp add: small_kern_def)
  have w: "waits 1 0 (False, small_kern) (False, ?t)"
    using waits_step [OF waits_refl s c] by simp
  moreover have "?t \<noteq> small_kern"
  proof
    assume "?t = small_kern"
    then have "mem (vmem ?t) 0 = mem (vmem small_kern) 0" by simp
    then show False by (simp add: trapped_def small_kern_def)
  qed
  moreover have "stat small_kern 1 = READY" by (simp add: stat_def small_kern_def small_proc_def)
  then have "0 < (64 :: nat)" using ready_runs_soon [OF small_booted rtranclp.rtrancl_refl _ _ w] by simp
  ultimately show ?thesis by blast
qed

section \<open>Errors\<close>

text \<open>
  C32. A call on a descriptor or a semaphore number that is out of range or not open returns -1 and changes nothing.
\<close>

theorem bad_descriptor_fails:
  assumes "sint fd < 0 \<or> 32 \<le> sint fd \<or> fds (pcb s ! curr s) ! unat fd = None"
    "sint sem_id < 0 \<or> 32 \<le> sint sem_id \<or> usems (pcb s ! curr s) ! unat sem_id = None"
    "m \<in> {sys_write fd buf count, sys_read fd buf count, sys_close fd, sys_dup fd, sys_lseek fd off whence, sys_fstat fd st,
      sys_sem_p sem_id, sys_sem_v sem_id, sys_sem_close sem_id}"
  shows "m s = Inr (Value (Some (- 1)), s)"
proof -
  have "proc_getfile (curr s) fd s = None" "proc_getusem (curr s) sem_id s = None"
    using assms(1,2) by (auto simp: proc_getfile_def proc_getusem_def)
  then have f: "with_file fd g s = Inr (Value (Some (- 1)), s)" "with_usem sem_id g s = Inr (Value (Some (- 1)), s)" for g
    by (simp_all add: with_file_def with_usem_def proc_curr_def)
  show ?thesis
    using assms(3) by (auto simp: f sys_write_def sys_read_def sys_close_def sys_dup_def sys_lseek_def sys_fstat_def sys_sem_p_def
      sys_sem_v_def sys_sem_close_def)
qed

theorem bad_descriptor_fails_witness:
  "sys_read 3 0 10 small_kern = Inr (Value (Some (- 1)), small_kern) \<and>
   sys_sem_v 32 small_kern = Inr (Value (Some (- 1)), small_kern)"
proof -
  have "fds (pcb small_kern ! curr small_kern) ! unat (3 :: u32) = None"
    by (simp add: small_kern_def small_proc_def)
  then show ?thesis
    using bad_descriptor_fails [where fd = 3 and s = small_kern and sem_id = 32 and buf = 0 and count = 10 and off = 0 and
      whence = 0 and st = 0] by simp
qed

text \<open>
  C33. When a table is full the call returns -1 and changes nothing: \<open>fork\<close> without a free process, \<open>open\<close> and \<open>dup\<close>
  of a process with 32 open files, \<open>sem_open\<close> of a process with 32 semaphores, or when all 128 are in use.
\<close>

theorem full_table_fails:
  "((\<forall>p. 0 < p \<and> p < 64 \<longrightarrow> status (pcb s ! p) \<noteq> UNUSED) \<longrightarrow> sys_fork s = Inr (Value (Some (- 1)), s)) \<and>
   ((\<forall>j < 32. fds (pcb s ! curr s) ! j \<noteq> None) \<longrightarrow>
      sys_open path mode s = Inr (Value (Some (- 1)), s) \<and> sys_dup fd s = Inr (Value (Some (- 1)), s)) \<and>
   ((\<forall>j < 32. usems (pcb s ! curr s) ! j \<noteq> None) \<or> (\<forall>r \<in> set (usem_ref s). r \<noteq> 0) \<longrightarrow>
      sys_sem_open v s = Inr (Value (Some (- 1)), s))"
proof (intro conjI impI)
  assume "\<forall>p. 0 < p \<and> p < 64 \<longrightarrow> status (pcb s ! p) \<noteq> UNUSED"
  then have "find_slot (\<lambda>i. status (pcb s ! i) = UNUSED) [1 ..< 64] = None" unfolding find_slot_None by auto
  then show "sys_fork s = Inr (Value (Some (- 1)), s)" by (simp add: sys_fork_def proc_alloc_def bindS_def)
next
  assume "\<forall>j < 32. fds (pcb s ! curr s) ! j \<noteq> None"
  then have a: "proc_allocfile (curr s) s = None" unfolding proc_allocfile_def find_slot_None by auto
  show "sys_open path mode s = Inr (Value (Some (- 1)), s)" by (simp add: sys_open_def proc_curr_def bindS_def a)
  show "sys_dup fd s = Inr (Value (Some (- 1)), s)"
    by (simp add: sys_dup_def with_file_def proc_curr_def bindS_def a split: option.split)
next
  assume "(\<forall>j < 32. usems (pcb s ! curr s) ! j \<noteq> None) \<or> (\<forall>r \<in> set (usem_ref s). r \<noteq> 0)"
  then have "proc_allocusem (curr s) s = None \<or> find_slot (\<lambda>r. r = 0) (usem_ref s) = None"
    unfolding proc_allocusem_def find_slot_None by auto
  then show "sys_sem_open v s = Inr (Value (Some (- 1)), s)"
    by (auto simp: sys_sem_open_def usem_alloc_def proc_curr_def bindS_def split: option.split)
qed

definition full_kern :: kern where
  "full_kern = small_kern\<lparr>pcb := replicate 64 ((small_proc READY)\<lparr>fds := replicate 32 (Some 0), usems := replicate 32 (Some 0)\<rparr>)\<rparr>"

theorem full_table_fails_witness:
  "sys_fork full_kern = Inr (Value (Some (- 1)), full_kern) \<and> sys_dup 0 full_kern = Inr (Value (Some (- 1)), full_kern) \<and>
   sys_sem_open 1 full_kern = Inr (Value (Some (- 1)), full_kern)"
proof -
  have "\<forall>p. 0 < p \<and> p < 64 \<longrightarrow> status (pcb full_kern ! p) \<noteq> UNUSED" by (simp add: full_kern_def small_proc_def)
  moreover have "\<forall>j < 32. fds (pcb full_kern ! curr full_kern) ! j \<noteq> None" "\<forall>j < 32. usems (pcb full_kern ! curr full_kern) ! j \<noteq> None"
    by (simp_all add: full_kern_def small_kern_def)
  ultimately show ?thesis using full_table_fails [of full_kern _ _ 0 1] by blast
qed

end
