(* ===== verification/SemPrograms.thy ===== *)
theory SemPrograms
  imports Sem
begin

text \<open>
  Programs that meet at semaphores: the ones of \<open>user/src/phase4\<close>, \<open>producer.c\<close> and \<open>philosopher.c\<close> with \<open>philosopher.h\<close>.

  A semaphore is a number of tokens and the processes that wait, in order; \<open>sem_p\<close> and \<open>sem_v\<close> of the kernel refine
  \<open>down\<close> and \<open>up\<close>. The programs are bodies of endless loops, and any process that does not wait may take the next
  step: the timer may interrupt every one of them, and how long a \<open>sleep\<close> lasts is left open.
\<close>

section \<open>Semaphores as the programs see them\<close>

record sema =
  tokens :: nat
  waiters :: "nat list"

definition down :: "nat \<Rightarrow> sema \<Rightarrow> sema" where
  "down p x = (if tokens x = 0 then x\<lparr>waiters := waiters x @ [p]\<rparr> else x\<lparr>tokens := tokens x - 1\<rparr>)"

definition up :: "sema \<Rightarrow> sema" where
  "up x = (case waiters x of [] \<Rightarrow> x\<lparr>tokens := tokens x + 1\<rparr> | _ # q \<Rightarrow> x\<lparr>waiters := q\<rparr>)"

text \<open>
  The semaphores \<open>D\<close> of the kernel as such values: the queue is the list of the semaphore in the pool, which has \<open>n\<close>
  free nodes.
\<close>

definition sems_of :: "nat \<Rightarrow> sem_t set \<Rightarrow> (sem_t \<Rightarrow> sema) \<Rightarrow> kern \<Rightarrow> bool" where
  "sems_of n D S s \<longleftrightarrow> queues n (\<lambda>h. if h \<in> D then Some (waiters (S h)) else None) (klists s) \<and>
     (\<forall>h \<in> D. tokens (S h) < 2 ^ 31 \<and> sem_value s h = of_nat (tokens (S h)))"

lemma queue_upd: "h \<in> D \<Longrightarrow> (\<lambda>g. if g \<in> D then Some (waiters (S g)) else None)(h \<mapsto> q) =
    (\<lambda>g. if g \<in> D then Some (waiters ((S(h := x)) g)) else None)" if "waiters x = q"
  using that by (auto simp: fun_eq_iff)

lemma sems_queue:
  assumes "sems_of n D S s" "h \<in> D" "waiters x = q" "queues m ((\<lambda>h. if h \<in> D then Some (waiters (S h)) else None)(h \<mapsto> q)) L"
    "tokens x < 2 ^ 31" "v = (sem_value s)(h := of_nat (tokens x))"
  shows "sems_of m D (S(h := x)) (s\<lparr>klists := L, sem_value := v, pcb := b\<rparr>)"
  using assms queue_upd [OF assms(3,2)] by (simp add: sems_of_def)

lemma sems_parts:
  assumes "sems_of n D S s" "h \<in> D"
  shows "queues n (\<lambda>h. if h \<in> D then Some (waiters (S h)) else None) (klists s)"
    "queues n ((\<lambda>h. if h \<in> D then Some (waiters (S h)) else None)(h \<mapsto> waiters (S h))) (klists s)"
    "sem_value s h = of_nat (tokens (S h))" "tokens (S h) \<noteq> 0 \<Longrightarrow> sem_value s h \<noteq> 0"
    "sem_value s h \<noteq> 0x80000000" "sem_value s h = 0x7fffffff \<longleftrightarrow> tokens (S h) = 2147483647"
proof -
  have q: "(if h \<in> D then Some (waiters (S h)) else None) = Some (waiters (S h))" using assms(2) by simp
  have "(\<lambda>h. if h \<in> D then Some (waiters (S h)) else None)(h \<mapsto> waiters (S h)) = (\<lambda>h. if h \<in> D then Some (waiters (S h)) else None)"
    using q by (rule fun_upd_idem)
  then show "queues n (\<lambda>h. if h \<in> D then Some (waiters (S h)) else None) (klists s)"
    "queues n ((\<lambda>h. if h \<in> D then Some (waiters (S h)) else None)(h \<mapsto> waiters (S h))) (klists s)"
    "sem_value s h = of_nat (tokens (S h))" using assms by (auto simp: sems_of_def)
  have t: "tokens (S h) < 2147483648" using assms by (simp add: sems_of_def)
  then have "unat (of_nat (tokens (S h)) :: u32) = tokens (S h)" by (intro unat_of_nat_u32) simp
  then have u: "unat (sem_value s h) = tokens (S h)" using assms by (simp add: sems_of_def)
  then show "tokens (S h) \<noteq> 0 \<Longrightarrow> sem_value s h \<noteq> 0" "sem_value s h \<noteq> 0x80000000"
    "sem_value s h = 0x7fffffff \<longleftrightarrow> tokens (S h) = 2147483647"
    using t by (auto simp: word_unat_eq_iff)
qed

lemma sem_p_down:
  assumes "sems_of (Suc m) D S s" "h \<in> D"
  shows "runs {} (sem_p h) (\<lambda>b t. sems_of (if b then m else Suc m) D (S(h := down (curr s) (S h))) t \<and> b = (tokens (S h) = 0) \<and>
    pcb t = (if b then (pcb s)[curr s := (pcb s ! curr s)\<lparr>status := BLOCKED\<rparr>] else pcb s)) s"
proof (cases "tokens (S h) = 0")
  case True
  note v = sems_parts [OF assms]
  obtain x L where L: "list_enqueue (Head h) (curr s) (klists s) = Inr (x, L)"
      "queues m ((\<lambda>h. if h \<in> D then Some (waiters (S h)) else None)(h \<mapsto> waiters (S h) @ [curr s])) L"
    using queues_enqueue [OF v(1), of h "waiters (S h)" "curr s"] assms(2) by (auto simp: runs_total)
  have "sems_of m D (S(h := down (curr s) (S h))) (s\<lparr>klists := L, sem_value := sem_value s, pcb := b\<rparr>)" for b
    by (rule sems_queue [OF assms _ L(2)]) (use True v(3) in \<open>auto simp: down_def\<close>)
  then show ?thesis
    using True v(3) L(1) by (simp add: runs_def sem_p_def proc_curr_def on_lists_def bindS_def proc_block_def set_proc_def)
next
  case False
  note v = sems_parts [OF assms]
  have "tokens (S h) < 2 ^ 31" using assms by (simp add: sems_of_def)
  then have "sems_of (Suc m) D (S(h := down (curr s) (S h))) (s\<lparr>klists := klists s, sem_value := (sem_value s)(h := sem_value s h - 1), pcb := pcb s\<rparr>)"
    by (intro sems_queue [OF assms _ v(2)]) (use False v(3) in \<open>auto simp: down_def of_nat_diff\<close>)
  then show ?thesis using False v(4,5) by (simp add: runs_def sem_p_def bindS_def)
qed

lemma sem_v_up:
  assumes "sems_of n D S s" "h \<in> D"
  shows "runs (if waiters (S h) = [] \<and> tokens (S h) = 2147483647 then {Undef} else {}) (sem_v h) (\<lambda>_ t. sems_of (if waiters (S h) = [] then n else Suc n) D (S(h := up (S h))) t \<and>
    pcb t = (case waiters (S h) of [] \<Rightarrow> pcb s | p # _ \<Rightarrow> (pcb s)[p := (pcb s ! p)\<lparr>status := READY\<rparr>])) s"
proof (cases "waiters (S h)")
  case Nil
  note v = sems_parts [OF assms]
  have d: "list_dequeue (Head h) (klists s) = Inr (None, klists s)" using Nil queues_dequeue_empty [OF v(1), of h] assms(2) by simp
  show ?thesis
  proof (cases "tokens (S h) = 2147483647")
    case True
    then show ?thesis using Nil d v(6) by (simp add: runs_def sem_v_def on_lists_def bindS_def)
  next
    case False
    have "tokens (S h) < 2 ^ 31" using assms by (simp add: sems_of_def)
    then have "sems_of n D (S(h := up (S h))) (s\<lparr>klists := klists s, sem_value := (sem_value s)(h := sem_value s h + 1), pcb := pcb s\<rparr>)"
      using False by (intro sems_queue [OF assms _ v(2)]) (use Nil v(3) in \<open>auto simp: up_def\<close>)
    then show ?thesis using Nil False d v(6) by (simp add: runs_def sem_v_def on_lists_def bindS_def)
  qed
next
  case (Cons p ps)
  note v = sems_parts [OF assms]
  have q: "(\<lambda>h. if h \<in> D then Some (waiters (S h)) else None) h = Some (p # ps)" using assms(2) Cons by simp
  obtain L where L: "list_dequeue (Head h) (klists s) = Inr (Some p, L)"
      "queues (Suc n) ((\<lambda>h. if h \<in> D then Some (waiters (S h)) else None)(h \<mapsto> ps)) L"
    using queues_dequeue [OF v(1), of h p ps, OF q] by (auto simp: runs_total)
  have "sems_of (Suc n) D (S(h := up (S h))) (s\<lparr>klists := L, sem_value := sem_value s, pcb := b\<rparr>)" for b
    by (rule sems_queue [OF assms _ L(2)]) (use Cons v(3) assms in \<open>auto simp: up_def sems_of_def\<close>)
  then show ?thesis
    using Cons L(1) by (simp add: runs_def sem_v_def on_lists_def bindS_def proc_addready_def set_proc_def)
qed

text \<open>
  C8. The semaphores of the kernel are tokens with a queue: while a list node is free, \<open>sem_p\<close> does \<open>down\<close> to its
  semaphore and leaves the others, and blocks the current process just when there is no token; \<open>sem_v\<close> does \<open>up\<close>, and
  the first process that waits, if there is one, gets ready. The tokens are those an \<open>int\<close> can count: only one more than
  2147483647 is undefined.
\<close>

theorem semaphores_refine:
  assumes "sems_of (Suc m) D S s" "h \<in> D"
  shows "runs {} (sem_p h) (\<lambda>b t. sems_of (if b then m else Suc m) D (S(h := down (curr s) (S h))) t \<and> b = (tokens (S h) = 0) \<and>
      pcb t = (if b then (pcb s)[curr s := (pcb s ! curr s)\<lparr>status := BLOCKED\<rparr>] else pcb s)) s \<and>
    runs (if waiters (S h) = [] \<and> tokens (S h) = 2147483647 then {Undef} else {}) (sem_v h)
      (\<lambda>_ t. sems_of (if waiters (S h) = [] then Suc m else Suc (Suc m)) D (S(h := up (S h))) t \<and>
      pcb t = (case waiters (S h) of [] \<Rightarrow> pcb s | p # _ \<Rightarrow> (pcb s)[p := (pcb s ! p)\<lparr>status := READY\<rparr>])) s"
  using sem_p_down [OF assms] sem_v_up [OF assms] by blast

theorem semaphores_refine_witness:
  "\<exists>s. sems_of 256 {Serial_Sem} (\<lambda>_. \<lparr>tokens = 0, waiters = []\<rparr>) s \<and>
    runs {} (sem_p Serial_Sem) (\<lambda>b t. b \<and> sems_of 255 {Serial_Sem} ((\<lambda>_. \<lparr>tokens = 0, waiters = []\<rparr>)(Serial_Sem := \<lparr>tokens = 0, waiters = [curr s]\<rparr>)) t) s"
proof -
  define s0 :: kern where "s0 = undefined"
  let ?l = "\<lparr>l_ptr = (\<lambda>_. 0), l_prev = (\<lambda>_. Free), l_next = (\<lambda>_. Free), l_inited = False\<rparr> :: (sem_t, nat) lists"
  let ?s = "s0\<lparr>klists := list_init (Head Serial_Sem) ?l, sem_value := (\<lambda>_. 0)\<rparr>" let ?S = "\<lambda>_. \<lparr>tokens = 0, waiters = []\<rparr>"
  have "queues 256 [Serial_Sem \<mapsto> []] (list_init (Head Serial_Sem) ?l)" by (rule queues_boot) simp
  moreover have "[Serial_Sem \<mapsto> []] = (\<lambda>h. if h \<in> {Serial_Sem} then Some (waiters (?S h)) else None)" by (simp add: fun_eq_iff)
  ultimately have "sems_of 256 {Serial_Sem} ?S ?s" by (simp only: sems_of_def) simp
  moreover have "(256 :: nat) = Suc 255" by simp
  ultimately have s: "sems_of (Suc 255) {Serial_Sem} ?S ?s" by metis
  show ?thesis
    using semaphores_refine [OF s, of Serial_Sem] s by (intro exI [of _ ?s]) (auto simp: down_def elim!: runs_mono)
qed

section \<open>Programs and their steps\<close>

text \<open>What a process does between two calls is in \<open>Out\<close>, a line printed, and \<open>Sleep\<close>.\<close>

datatype 'e instr = P nat | V nat | Out 'e | Sleep

record 'e conf =
  sems :: "nat \<Rightarrow> sema"
  pc :: "nat \<Rightarrow> nat"
  out :: "'e list"

definition waits :: "'e conf \<Rightarrow> nat \<Rightarrow> bool" where
  "waits c p \<longleftrightarrow> (\<exists>i. p \<in> set (waiters (sems c i)))"

fun exec :: "nat \<Rightarrow> 'e instr \<Rightarrow> 'e conf \<Rightarrow> 'e conf" where
  "exec p (P i) c = c\<lparr>sems := (sems c)(i := down p (sems c i))\<rparr>"
| "exec p (V i) c = c\<lparr>sems := (sems c)(i := up (sems c i))\<rparr>"
| "exec p (Out e) c = c\<lparr>out := out c @ [e]\<rparr>"
| "exec p Sleep c = c"

text \<open>Process \<open>p\<close> runs \<open>while (1) { prog p }\<close>; any process that does not wait may go on.\<close>

inductive moves :: "nat \<Rightarrow> (nat \<Rightarrow> 'e instr list) \<Rightarrow> 'e conf \<Rightarrow> 'e conf \<Rightarrow> bool" for n prog where
  move: "p < n \<Longrightarrow> \<not> waits c p \<Longrightarrow>
    moves n prog c ((exec p (prog p ! pc c p) c)\<lparr>pc := (pc c)(p := (pc c p + 1) mod length (prog p))\<rparr>)"

definition start_conf :: "(nat \<Rightarrow> nat) \<Rightarrow> 'e conf" where
  "start_conf v = \<lparr>sems = (\<lambda>i. \<lparr>tokens = v i, waiters = []\<rparr>), pc = (\<lambda>_. 0), out = []\<rparr>"

section \<open>Conservation\<close>

definition net :: "sema \<Rightarrow> int" where
  "net x = int (tokens x) - int (length (waiters x))"

fun wt :: "nat \<Rightarrow> ('e \<Rightarrow> int) \<Rightarrow> 'e instr \<Rightarrow> int" where
  "wt k b (P i) = (if i = k then 1 else 0)"
| "wt k b (V i) = (if i = k then - 1 else 0)"
| "wt k b (Out e) = b e"
| "wt k b Sleep = 0"

definition before :: "nat \<Rightarrow> ('e \<Rightarrow> int) \<Rightarrow> 'e instr list \<Rightarrow> nat \<Rightarrow> int" where
  "before k b xs j = sum_list (map (wt k b) (take j xs))"

lemma net_down [simp]: "net (down p x) = net x - 1"
  by (simp add: net_def down_def)

lemma net_up [simp]: "net (up x) = net x + 1"
  by (simp add: net_def up_def split: list.split)

text \<open>The programs of the processes: none is empty or ends with a \<open>P\<close>.\<close>

definition programs :: "nat \<Rightarrow> (nat \<Rightarrow> 'e instr list) \<Rightarrow> bool" where
  "programs n prog \<longleftrightarrow> (\<forall>p < n. prog p \<noteq> [] \<and> (\<forall>i. last (prog p) \<noteq> P i))"

definition well_kept :: "nat \<Rightarrow> (nat \<Rightarrow> 'e instr list) \<Rightarrow> 'e conf \<Rightarrow> bool" where
  "well_kept n prog c \<longleftrightarrow> (\<forall>p < n. pc c p < length (prog p)) \<and>
     (\<forall>i. distinct (waiters (sems c i)) \<and> (waiters (sems c i) \<noteq> [] \<longrightarrow> tokens (sems c i) = 0) \<and>
        (\<forall>p \<in> set (waiters (sems c i)). p < n \<and> 0 < pc c p \<and> prog p ! (pc c p - 1) = P i))"

lemma well_kept_start: "programs n prog \<Longrightarrow> well_kept n prog (start_conf v)"
  by (simp add: well_kept_def start_conf_def programs_def)

lemma well_kept_move:
  assumes "moves n prog c d" "programs n prog" "well_kept n prog c"
  shows "well_kept n prog d"
  using assms(1)
proof cases
  case (move p)
  have l: "prog p \<noteq> []" "pc c p < length (prog p)" "\<And>i. last (prog p) \<noteq> P i"
    using assms(2,3) move(2) by (auto simp: programs_def well_kept_def)
  have nw: "p \<notin> set (waiters (sems c i))" for i using move(3) by (auto simp: waits_def)
  have old: "distinct (waiters (sems c i))" "waiters (sems c i) \<noteq> [] \<Longrightarrow> tokens (sems c i) = 0"
    "q \<in> set (waiters (sems c i)) \<Longrightarrow> q < n \<and> q \<noteq> p \<and> 0 < pc c q \<and> prog q ! (pc c q - 1) = P i" for i q
    using assms(3) nw by (auto simp: well_kept_def)
  have next_pc: "(pc c p + 1) mod length (prog p) = pc c p + 1" "pc c p + 1 < length (prog p)" if "prog p ! pc c p = P i" for i
  proof -
    have "pc c p + 1 \<noteq> length (prog p)"
      using l that by (metis add_diff_cancel_right' last_conv_nth)
    then show "pc c p + 1 < length (prog p)" using l(2) by simp
    then show "(pc c p + 1) mod length (prog p) = pc c p + 1" by simp
  qed
  show ?thesis
  proof (cases "prog p ! pc c p")
    case (P i)
    then show ?thesis
      using old nw next_pc [OF P] assms(3) l move(2) unfolding move(1) well_kept_def by (auto simp: down_def)
  next
    case (V i)
    have "distinct (waiters (up (sems c i)))" "waiters (up (sems c i)) \<noteq> [] \<Longrightarrow> tokens (up (sems c i)) = 0"
      "set (waiters (up (sems c i))) \<subseteq> set (waiters (sems c i))"
      using old(1,2) [of i] by (auto simp: up_def split: list.splits)
    moreover have "p \<notin> set (waiters (up (sems c i)))" using calculation(3) nw by blast
    ultimately show ?thesis
      using V old assms(3) l(1) move(2) unfolding move(1) well_kept_def by (auto 0 3)
  next
    case (Out e)
    then show ?thesis using old assms(3) l(1) move(2) unfolding move(1) well_kept_def by auto
  next
    case Sleep
    then show ?thesis using old assms(3) l(1) move(2) unfolding move(1) well_kept_def by auto
  qed
qed

lemma well_kept_reach: "(moves n prog)\<^sup>*\<^sup>* c d \<Longrightarrow> programs n prog \<Longrightarrow> well_kept n prog c \<Longrightarrow> well_kept n prog d"
  by (induction rule: rtranclp_induct) (auto intro: well_kept_move)

text \<open>
  What is taken from a semaphore and not given back is with the processes. With weights for the lines of the output,
  such that a round of every process weighs nothing, the sum only changes with the output.
\<close>

lemma conserved:
  assumes "(moves n prog)\<^sup>*\<^sup>* (start_conf v) c" "programs n prog" "\<And>p. p < n \<Longrightarrow> before k b (prog p) (length (prog p)) = 0"
  shows "net (sems c k) + (\<Sum>p < n. before k b (prog p) (pc c p)) = int (v k) + sum_list (map b (out c))"
  using assms(1)
proof (induction rule: rtranclp_induct)
  case base
  show ?case by (simp add: start_conf_def before_def net_def)
next
  case (step c d)
  from step(2) show ?case
  proof cases
    case (move p)
    have l: "prog p \<noteq> []" "pc c p < length (prog p)"
      using assms(2) well_kept_reach [OF step(1) assms(2) well_kept_start [OF assms(2)]] move(2) by (auto simp: programs_def well_kept_def)
    have "before k b (prog p) ((pc c p + 1) mod length (prog p)) = before k b (prog p) (pc c p + 1)"
      using l assms(3) [OF move(2)] by (cases "pc c p + 1 = length (prog p)") (auto simp: before_def)
    also have "\<dots> = before k b (prog p) (pc c p) + wt k b (prog p ! pc c p)"
      using l by (simp add: before_def take_Suc_conv_app_nth)
    finally have w: "before k b (prog p) ((pc c p + 1) mod length (prog p)) = \<dots>" .
    have "(\<Sum>q < n. before k b (prog q) (pc d q)) = (\<Sum>q < n. before k b (prog q) (pc c q)) + wt k b (prog p ! pc c p)"
      using move(2) by (simp add: move(1) sum.remove [of "{..<n}" p] w [simplified])
    then show ?thesis using step.IH unfolding move(1) by (cases "prog p ! pc c p") auto
  qed
qed

text \<open>What a process holds of a semaphore: what it has taken, less what it still waits for.\<close>

definition hold :: "nat \<Rightarrow> ('e \<Rightarrow> int) \<Rightarrow> (nat \<Rightarrow> 'e instr list) \<Rightarrow> 'e conf \<Rightarrow> nat \<Rightarrow> int" where
  "hold k b prog c p = before k b (prog p) (pc c p) - (if p \<in> set (waiters (sems c k)) then 1 else 0)"

lemma balance:
  assumes "(moves n prog)\<^sup>*\<^sup>* (start_conf v) c" "programs n prog" "\<And>p. p < n \<Longrightarrow> before k b (prog p) (length (prog p)) = 0"
  shows "int (tokens (sems c k)) + (\<Sum>p < n. hold k b prog c p) = int (v k) + sum_list (map b (out c))"
proof -
  have w: "well_kept n prog c" by (rule well_kept_reach [OF assms(1,2) well_kept_start [OF assms(2)]])
  then have d: "distinct (waiters (sems c k))" and "set (waiters (sems c k)) \<subseteq> {..<n}" by (auto simp: well_kept_def)
  then have "{..<n} \<inter> {p. p \<in> set (waiters (sems c k))} = set (waiters (sems c k))" by blast
  then have "(\<Sum>p < n. if p \<in> set (waiters (sems c k)) then 1 else 0 :: int) = int (length (waiters (sems c k)))"
    by (simp add: sum.If_cases distinct_card [OF d])
  then show ?thesis using conserved [OF assms] by (simp add: hold_def sum_subtractf net_def)
qed

section \<open>Producers and consumers\<close>

text \<open>The semaphores \<open>empty\<close>, \<open>full\<close> and \<open>mutex\<close> are 0, 1 and 2; the processes are four producers and two consumers.\<close>

datatype line = Produce nat | Consume nat

definition produce_one :: "line instr list" where
  "produce_one = [Sleep]"

definition consume_one :: "line instr list" where
  "consume_one = [Sleep]"

definition producer :: "nat \<Rightarrow> line instr list" where
  "producer i = produce_one @ [P 0, P 2, Out (Produce i), V 2, V 1]"

definition consumer :: "nat \<Rightarrow> line instr list" where
  "consumer i = [P 1, P 2, Out (Consume i), V 2, V 0] @ consume_one"

definition workers :: "nat \<Rightarrow> line instr list" where
  "workers p = (if p < 4 then producer p else consumer (p - 4))"

definition workshop :: "line conf" where
  "workshop = start_conf ((\<lambda>_. 0)(0 := 32, 1 := 0, 2 := 1))"

definition made :: "line list \<Rightarrow> nat" where
  "made xs = length [x \<leftarrow> xs. case x of Produce _ \<Rightarrow> True | _ \<Rightarrow> False]"

definition used_up :: "line list \<Rightarrow> nat" where
  "used_up xs = length [x \<leftarrow> xs. case x of Consume _ \<Rightarrow> True | _ \<Rightarrow> False]"

text \<open>Between \<open>P(mutex)\<close> and \<open>V(mutex)\<close>.\<close>

definition in_section :: "line conf \<Rightarrow> nat \<Rightarrow> bool" where
  "in_section c p \<longleftrightarrow> p < 6 \<and> \<not> waits c p \<and> pc c p \<in> (if p < 4 then {3, 4} else {2, 3})"

lemmas worker_defs = workers_def producer_def consumer_def produce_one_def consume_one_def

lemma six: "{..<6 :: nat} = {0, 1, 2, 3, 4, 5}" by auto

lemma workers_programs: "programs 6 workers"
  by (simp add: programs_def worker_defs)

fun stock :: "line \<Rightarrow> int" where
  "stock (Produce _) = 1"
| "stock (Consume _) = - 1"

lemma sum_stock: "sum_list (map stock xs) = int (made xs) - int (used_up xs)"
  by (induction xs) (auto simp: made_def used_up_def split: line.splits)

lemma below_6: "j < (6 :: nat) \<longleftrightarrow> j = 0 \<or> j = 1 \<or> j = 2 \<or> j = 3 \<or> j = 4 \<or> j = 5" by auto


abbreviation (input) "reached_shop c \<equiv> (moves 6 workers)\<^sup>*\<^sup>* workshop c"

lemma worker_at:
  assumes "well_kept 6 workers c" "p < 6"
  shows "pc c p \<in> {0, 1, 2, 3, 4, 5}" "p \<in> set (waiters (sems c k)) \<Longrightarrow> (k, pc c p) \<in> (if p < 4 then {(0, 2), (2, 3)} else {(1, 1), (2, 2)})"
proof -
  have "length (workers p) = 6" by (simp add: worker_defs)
  then have "pc c p < 6" using assms unfolding well_kept_def by metis
  then show l: "pc c p \<in> {0, 1, 2, 3, 4, 5}" by (simp add: below_6)
  assume "p \<in> set (waiters (sems c k))"
  then have "0 < pc c p" "workers p ! (pc c p - 1) = P k" using assms unfolding well_kept_def by blast+
  then show "(k, pc c p) \<in> (if p < 4 then {(0, 2), (2, 3)} else {(1, 1), (2, 2)})"
    using l by (auto simp: worker_defs split: if_splits)
qed

lemma worker_before:
  "before 0 (\<lambda>e. - stock e) (workers p) j = (if p < 4 then if j \<in> {2, 3} then 1 else 0 else if j \<in> {3, 4} then 1 else 0)"
  "before (Suc 0) stock (workers p) j = (if p < 4 then if j \<in> {4, 5} then 1 else 0 else if j \<in> {1, 2} then 1 else 0)"
  "before 2 (\<lambda>_. 0) (workers p) j = (if p < 4 then if j \<in> {3, 4} then 1 else 0 else if j \<in> {2, 3} then 1 else 0)"
  if "j \<in> {0, 1, 2, 3, 4, 5, 6}"
  using that by (auto simp: before_def worker_defs numeral_eq_Suc)

lemma shop_wf: "reached_shop c \<Longrightarrow> well_kept 6 workers c"
  unfolding workshop_def by (rule well_kept_reach [OF _ workers_programs well_kept_start [OF workers_programs]])

lemma worker_length: "length (workers p) = 6"
  by (simp add: worker_defs)

lemma shop_balance:
  assumes "reached_shop c"
  shows "int (tokens (sems c 0)) + (\<Sum>p < 6. hold 0 (\<lambda>e. - stock e) workers c p) = 32 + int (used_up (out c)) - int (made (out c))"
    "int (tokens (sems c 1)) + (\<Sum>p < 6. hold 1 stock workers c p) = int (made (out c)) - int (used_up (out c))"
    "int (tokens (sems c 2)) + (\<Sum>p < 6. hold 2 (\<lambda>_. 0) workers c p) = 1"
proof -
  have n: "sum_list (map (\<lambda>e. - stock e) xs) = - sum_list (map stock xs)" for xs by (induction xs) auto
  note B = balance [OF assms [unfolded workshop_def] workers_programs]
  show "int (tokens (sems c 0)) + (\<Sum>p < 6. hold 0 (\<lambda>e. - stock e) workers c p) = 32 + int (used_up (out c)) - int (made (out c))"
    using B [of 0 "\<lambda>e. - stock e"] by (simp add: worker_length worker_before n sum_stock)
  show "int (tokens (sems c 1)) + (\<Sum>p < 6. hold 1 stock workers c p) = int (made (out c)) - int (used_up (out c))"
    using B [of 1 stock] worker_before by (simp add: worker_length worker_before sum_stock)
  show "int (tokens (sems c 2)) + (\<Sum>p < 6. hold 2 (\<lambda>_. 0) workers c p) = 1"
    using B [of 2 "\<lambda>_. 0"] by (simp add: worker_length worker_before)
qed

lemma shop_hold:
  assumes "well_kept 6 workers c" "p < 6"
  shows "0 \<le> hold 0 (\<lambda>e. - stock e) workers c p" "0 \<le> hold 1 stock workers c p"
    "hold 2 (\<lambda>_. 0) workers c p = (if p \<notin> set (waiters (sems c 2)) \<and> pc c p \<in> (if p < 4 then {3, 4} else {2, 3}) then 1 else 0)"
proof -
  have j: "pc c p \<in> {0, 1, 2, 3, 4, 5, 6}" using worker_at(1) [OF assms] by auto
  show "0 \<le> hold 0 (\<lambda>e. - stock e) workers c p" "0 \<le> hold 1 stock workers c p"
    "hold 2 (\<lambda>_. 0) workers c p = (if p \<notin> set (waiters (sems c 2)) \<and> pc c p \<in> (if p < 4 then {3, 4} else {2, 3}) then 1 else 0)"
    using worker_at(2) [OF assms, of 0] worker_at(2) [OF assms, of 1] worker_at(2) [OF assms, of 2]
    by (auto simp: hold_def worker_before [OF j] split: if_splits)
qed

lemma mutex_excludes:
  assumes "(moves 6 workers)\<^sup>*\<^sup>* workshop c" "in_section c p" "in_section c q"
  shows "p = q"
proof (rule ccontr)
  assume n: "p \<noteq> q"
  have pq: "p < 6" "q < 6" using assms(2,3) by (auto simp: in_section_def)
  let ?h = "hold 2 (\<lambda>_. 0) workers c"
  have h: "?h p = 1" "?h q = 1" "\<And>r. r < 6 \<Longrightarrow> 0 \<le> ?h r"
    using shop_hold(3) [OF shop_wf [OF assms(1)]] assms(2,3) by (auto simp: in_section_def waits_def)
  have "(\<Sum>r < 6. ?h r) \<ge> (\<Sum>r \<in> {p, q}. ?h r)" using pq h(3) by (intro sum_mono2) auto
  then show False using shop_balance(3) [OF assms(1)] h n by simp
qed

text \<open>
  C27. The producers and consumers keep to the buffer: in every state they reach, the lines printed say that no more was
  consumed than produced, and at most 32 more were produced; at most one process is between \<open>P(mutex)\<close> and \<open>V(mutex)\<close>.
\<close>

theorem producers_bounded:
  assumes "(moves 6 workers)\<^sup>*\<^sup>* workshop c"
  shows "used_up (out c) \<le> made (out c) \<and> made (out c) \<le> used_up (out c) + 32 \<and> card {p. in_section c p} \<le> 1"
proof -
  have "0 \<le> (\<Sum>p < 6. hold 0 (\<lambda>e. - stock e) workers c p)" "0 \<le> (\<Sum>p < 6. hold 1 stock workers c p)"
    using shop_hold [OF shop_wf [OF assms]] by (auto intro: sum_nonneg)
  then have "used_up (out c) \<le> made (out c)" "made (out c) \<le> used_up (out c) + 32" using shop_balance [OF assms] by linarith+
  moreover have "card {p. in_section c p} \<le> 1"
  proof -
    have "finite {p. in_section c p}" by (rule finite_subset [of _ "{..<6}"]) (auto simp: in_section_def)
    then show ?thesis using mutex_excludes [OF assms] by (metis One_nat_def card_le_Suc0_iff_eq mem_Collect_eq)
  qed
  ultimately show ?thesis by blast
qed

lemma moved:
  "moves n prog c d" if "p < n" "\<not> waits c p" "d = (exec p (prog p ! pc c p) c)\<lparr>pc := (pc c)(p := (pc c p + 1) mod length (prog p))\<rparr>"
  unfolding that(3) by (rule move [OF that(1,2)])

text \<open>Producer 0 up to its first line.\<close>

definition first_line :: "line conf" where
  "first_line = \<lparr>sems = (\<lambda>i. \<lparr>tokens = if i = 0 then 31 else 0, waiters = []\<rparr>), pc = (\<lambda>_. 0)(0 := 4), out = [Produce 0]\<rparr>"

lemma first_line_reached: "(moves 6 workers)\<^sup>*\<^sup>* workshop first_line"
proof -
  let ?c = "\<lambda>v w j xs. \<lparr>sems = (\<lambda>i. \<lparr>tokens = if i = 0 then v else if i = 2 then w else 0, waiters = []\<rparr>), pc = (\<lambda>_. 0)(0 := j), out = xs\<rparr> :: line conf"
  have w: "\<not> waits (?c v w j xs) 0" for v w j xs by (simp add: waits_def)
  have "moves 6 workers (?c 32 1 0 []) (?c 32 1 1 [])" "moves 6 workers (?c 32 1 1 []) (?c 31 1 2 [])"
    "moves 6 workers (?c 31 1 2 []) (?c 31 0 3 [])" "moves 6 workers (?c 31 0 3 []) (?c 31 0 4 [Produce 0])"
    by (rule moved [OF _ w]; simp add: worker_defs down_def fun_eq_iff)+
  moreover have "workshop = ?c 32 1 0 []" "first_line = ?c 31 0 4 [Produce 0]"
    by (simp_all add: workshop_def start_conf_def first_line_def fun_eq_iff)
  ultimately show ?thesis by (metis (no_types, lifting) rtranclp.simps)
qed

theorem producers_bounded_witness: "made (out first_line) = 1 \<and> card {p. in_section first_line p} \<le> 1"
  using producers_bounded [OF first_line_reached] by (simp add: first_line_def made_def)

text \<open>
  C28. The producers and consumers are free of deadlock: in every state they reach, one of them can go on.
\<close>

theorem producers_progress:
  assumes "(moves 6 workers)\<^sup>*\<^sup>* workshop c"
  shows "\<exists>d. moves 6 workers c d"
proof -
  note w = shop_wf [OF assms]
  have "\<exists>p < 6. \<not> waits c p"
  proof (rule ccontr)
    assume "\<not> ?thesis"
    then have all: "\<exists>k. p \<in> set (waiters (sems c k))" if "p < 6" for p using that by (auto simp: waits_def)
    have z: "p \<in> set (waiters (sems c k)) \<Longrightarrow> tokens (sems c k) = 0" for p k using w unfolding well_kept_def by (metis empty_iff empty_set)
    have h2: "hold 2 (\<lambda>_. 0) workers c p = 0" if "p < 6" for p
      using all [OF that] worker_at(2) [OF w that] by (auto simp: shop_hold(3) [OF w that] split: if_splits)
    then have t2: "tokens (sems c 2) = 1" using shop_balance(3) [OF assms] by simp
    then have at: "p \<in> set (waiters (sems c (if p < 4 then 0 else 1))) \<and> pc c p = (if p < 4 then 2 else 1)" if p: "p < 6" for p
    proof -
      obtain k where k: "p \<in> set (waiters (sems c k))" using all [OF p] by blast
      then have "k \<noteq> 2" using z [of p 2] t2 by auto
      then show ?thesis using k worker_at(2) [OF w p k] by (cases "p < 4") auto
    qed
    have h: "hold 0 (\<lambda>e. - stock e) workers c p = 0" "hold 1 stock workers c p = 0" if "p < 6" for p
      using at [OF that] worker_at(2) [OF w that] by (auto simp: hold_def worker_before split: if_splits)
    have "tokens (sems c 0) = 0" "tokens (sems c 1) = 0" using at [of 0] at [of 4] z by auto
    then show False using shop_balance(1,2) [OF assms] h by simp
  qed
  then show ?thesis using moves.move by blast
qed

theorem producers_progress_witness: "\<exists>d. moves 6 workers first_line d"
  by (rule producers_progress [OF first_line_reached])

section \<open>Philosophers\<close>

datatype meal = Eats nat | Stops nat

definition eat :: "nat \<Rightarrow> meal instr list" where
  "eat i = [Out (Eats i), Sleep, Out (Stops i)]"

definition think :: "nat \<Rightarrow> meal instr list" where
  "think i = [Sleep]"

definition philosopher :: "nat \<Rightarrow> meal instr list" where
  "philosopher i = [P ((i + 1) mod 5), P i] @ eat i @ [V i, V ((i + 1) mod 5)] @ think i"

definition table_set :: "meal conf" where
  "table_set = start_conf (\<lambda>_. 1)"

text \<open>Between the two lines that \<open>eat\<close> prints.\<close>

definition eating :: "meal conf \<Rightarrow> nat \<Rightarrow> bool" where
  "eating c i \<longleftrightarrow> i < 5 \<and> \<not> waits c i \<and> pc c i \<in> {3, 4}"

lemmas philosopher_defs = philosopher_def eat_def think_def

lemma right_fork: "p < (5 :: nat) \<Longrightarrow> p \<noteq> (p + 1) mod 5"
  by presburger

lemma right_inj: "p < 5 \<Longrightarrow> q < 5 \<Longrightarrow> (p + 1) mod 5 = (q + 1) mod 5 \<Longrightarrow> p = (q :: nat)"
  by (auto simp: mod_Suc split: if_splits)

lemma philosopher_programs: "programs 5 philosopher"
  by (simp add: programs_def philosopher_defs)

lemma philosopher_length: "length (philosopher p) = 8"
  by (simp add: philosopher_defs)

lemma philosopher_before:
  assumes "p < 5" "j \<in> {0, 1, 2, 3, 4, 5, 6, 7, 8}"
  shows "before k (\<lambda>_. 0) (philosopher p) j =
    (if k = p \<and> j \<in> {2, 3, 4, 5} \<or> k = (p + 1) mod 5 \<and> j \<in> {1, 2, 3, 4, 5, 6} then 1 else 0)"
proof -
  obtain r where r: "r = (p + 1) mod 5" "p \<noteq> r" using right_fork [OF assms(1)] by blast
  have "philosopher p = [P r, P p, Out (Eats p), Sleep, Out (Stops p), V p, V r, Sleep]" by (simp add: philosopher_defs r(1))
  then show ?thesis unfolding r(1) [symmetric] using assms(2) r(2) by (cases "k = p"; cases "k = r"; auto simp: before_def numeral_eq_Suc)
qed

lemma philosopher_hold:
  assumes "well_kept 5 philosopher c" "p < 5"
  shows "0 \<le> hold k (\<lambda>_. 0) philosopher c p"
    "eating c p \<Longrightarrow> k = p \<or> k = (p + 1) mod 5 \<Longrightarrow> hold k (\<lambda>_. 0) philosopher c p = 1"
proof -
  have "pc c p < 8" using assms unfolding well_kept_def by (metis philosopher_length)
  then have j: "pc c p \<in> {0, 1, 2, 3, 4, 5, 6, 7, 8}" by auto
  have w: "pc c p \<in> {1, 2} \<and> (pc c p = 1 \<longrightarrow> k = (p + 1) mod 5) \<and> (pc c p = 2 \<longrightarrow> k = p)" if "p \<in> set (waiters (sems c k))"
  proof -
    have "0 < pc c p" "philosopher p ! (pc c p - 1) = P k" using assms that unfolding well_kept_def by blast+
    then show ?thesis using j by (auto simp: philosopher_defs)
  qed
  show "0 \<le> hold k (\<lambda>_. 0) philosopher c p" "eating c p \<Longrightarrow> k = p \<or> k = (p + 1) mod 5 \<Longrightarrow> hold k (\<lambda>_. 0) philosopher c p = 1"
    using w by (auto simp: hold_def philosopher_before [OF assms(2) j] eating_def waits_def)
qed

text \<open>
  C29. Two philosophers who share a fork never eat at the same time.
\<close>

theorem neighbours_exclude:
  assumes "(moves 5 philosopher)\<^sup>*\<^sup>* table_set c"
  shows "\<not> (eating c p \<and> eating c ((p + 1) mod 5))"
proof
  assume e: "eating c p \<and> eating c ((p + 1) mod 5)"
  let ?q = "(p + 1) mod 5" let ?h = "hold ?q (\<lambda>_. 0) philosopher c"
  have w: "well_kept 5 philosopher c"
    using assms(1) unfolding table_set_def by (rule well_kept_reach [OF _ philosopher_programs well_kept_start [OF philosopher_programs]])
  have pq: "p < 5" "?q < 5" "p \<noteq> ?q" using e unfolding eating_def by presburger+
  have h: "?h p = 1" "?h ?q = 1" "\<And>r. r < 5 \<Longrightarrow> 0 \<le> ?h r" using philosopher_hold [OF w] pq e by auto
  have "(\<Sum>r < 5. ?h r) \<ge> (\<Sum>r \<in> {p, ?q}. ?h r)" using pq h(3) by (intro sum_mono2) auto
  moreover have "int (tokens (sems c ?q)) + (\<Sum>r < 5. ?h r) = 1"
    using balance [OF assms(1) [unfolded table_set_def] philosopher_programs, of ?q "\<lambda>_. 0"]
    by (simp add: philosopher_length philosopher_before)
  ultimately show False using h(1,2) pq(3) by simp
qed

text \<open>Philosopher 0 while eating.\<close>

definition first_meal :: "meal conf" where
  "first_meal = \<lparr>sems = (\<lambda>i. \<lparr>tokens = if i < 2 then 0 else 1, waiters = []\<rparr>), pc = (\<lambda>_. 0)(0 := 3), out = [Eats 0]\<rparr>"

lemma first_meal_reached: "(moves 5 philosopher)\<^sup>*\<^sup>* table_set first_meal"
proof -
  let ?c = "\<lambda>v w j xs. \<lparr>sems = (\<lambda>i. \<lparr>tokens = if i = 0 then v else if i = 1 then w else 1, waiters = []\<rparr>), pc = (\<lambda>_. 0)(0 := j), out = xs\<rparr> :: meal conf"
  have w: "\<not> waits (?c v w j xs) 0" for v w j xs by (simp add: waits_def)
  have "moves 5 philosopher (?c 1 1 0 []) (?c 1 0 1 [])" "moves 5 philosopher (?c 1 0 1 []) (?c 0 0 2 [])"
    "moves 5 philosopher (?c 0 0 2 []) (?c 0 0 3 [Eats 0])"
    by (rule moved [OF _ w]; simp add: philosopher_defs down_def fun_eq_iff)+
  moreover have "table_set = ?c 1 1 0 []" "first_meal = ?c 0 0 3 [Eats 0]"
    by (auto simp: table_set_def start_conf_def first_meal_def fun_eq_iff)
  ultimately show ?thesis by (metis (no_types, lifting) rtranclp.simps)
qed

theorem neighbours_exclude_witness: "eating first_meal 0 \<and> \<not> eating first_meal 1"
proof -
  have "eating first_meal 0" by (simp add: eating_def waits_def first_meal_def)
  then show ?thesis using neighbours_exclude [OF first_meal_reached, of 0] by simp
qed

text \<open>The run in which every philosopher takes the fork of the neighbour, and then every one waits for the own.\<close>

definition one_fork :: "nat \<Rightarrow> meal conf" where
  "one_fork j = \<lparr>sems = (\<lambda>i. \<lparr>tokens = if \<exists>p < j. i = (p + 1) mod 5 then 0 else 1, waiters = []\<rparr>),
     pc = (\<lambda>p. if p < j then 1 else 0), out = []\<rparr>"

definition all_wait :: "nat \<Rightarrow> meal conf" where
  "all_wait j = \<lparr>sems = (\<lambda>i. \<lparr>tokens = if i < 5 then 0 else 1, waiters = if i < j then [i] else []\<rparr>),
     pc = (\<lambda>p. if p < j then 2 else if p < 5 then 1 else 0), out = []\<rparr>"

lemma take_fork: "j < 5 \<Longrightarrow> moves 5 philosopher (one_fork j) (one_fork (Suc j))"
proof -
  assume j: "j < 5"
  have f: "\<not> (\<exists>p < j. (j + 1) mod 5 = (p + 1) mod 5)" using right_inj [OF j] j by (metis less_trans nat_neq_iff)
  have s: "\<not> waits (one_fork j) j" by (simp add: waits_def one_fork_def)
  have "one_fork (Suc j) = (exec j (philosopher j ! pc (one_fork j) j) (one_fork j))\<lparr>pc := (pc (one_fork j))(j := (pc (one_fork j) j + 1) mod length (philosopher j))\<rparr>"
    using f by (auto simp: one_fork_def philosopher_defs down_def fun_eq_iff less_Suc_eq)
  then show ?thesis using move [OF j s, of philosopher] by simp
qed

lemma take_none: "j < 5 \<Longrightarrow> moves 5 philosopher (all_wait j) (all_wait (Suc j))"
proof -
  assume j: "j < 5"
  have s: "\<not> waits (all_wait j) j" by (auto simp: waits_def all_wait_def)
  have "all_wait (Suc j) = (exec j (philosopher j ! pc (all_wait j) j) (all_wait j))\<lparr>pc := (pc (all_wait j))(j := (pc (all_wait j) j + 1) mod length (philosopher j))\<rparr>"
    using j by (auto simp: all_wait_def philosopher_defs down_def fun_eq_iff less_Suc_eq)
  then show ?thesis using move [OF j s, of philosopher] by simp
qed

lemma forks_taken: "j \<le> 5 \<Longrightarrow> (moves 5 philosopher)\<^sup>*\<^sup>* table_set (one_fork j)"
proof (induction j)
  case 0
  have "one_fork 0 = table_set" by (simp add: one_fork_def table_set_def start_conf_def)
  then show ?case by simp
qed (use take_fork in \<open>auto intro: rtranclp.rtrancl_into_rtrancl\<close>)

lemma all_waiting: "j \<le> 5 \<Longrightarrow> (moves 5 philosopher)\<^sup>*\<^sup>* table_set (all_wait j)"
proof (induction j)
  case 0
  have "(\<exists>p < 5. i = (p + 1) mod 5) \<longleftrightarrow> i < 5" for i :: nat
  proof
    assume "i < 5"
    then have "i = ((i + 4) mod 5 + 1) mod 5" by (simp add: mod_simps)
    then show "\<exists>p < 5. i = (p + 1) mod 5" by (metis mod_less_divisor zero_less_numeral)
  qed auto
  then have "one_fork 5 = all_wait 0" by (simp add: one_fork_def all_wait_def fun_eq_iff)
  then show ?case using forks_taken [of 5] by simp
qed (use take_none in \<open>auto intro: rtranclp.rtrancl_into_rtrancl\<close>)

text \<open>
  C30. The philosophers can deadlock: there is a run in which every one takes the fork at one side and then waits for the
  other, nobody has eaten, and no process can take a step.
\<close>

theorem philosophers_deadlock:
  "\<exists>c. (moves 5 philosopher)\<^sup>*\<^sup>* table_set c \<and> \<not> (\<exists>d. moves 5 philosopher c d) \<and> out c = []"
proof (intro exI conjI)
  show "(moves 5 philosopher)\<^sup>*\<^sup>* table_set (all_wait 5)" by (rule all_waiting) simp
  have "waits (all_wait 5) p" if "p < 5" for p using that by (auto simp: waits_def all_wait_def intro: exI [of _ p])
  then show "\<not> (\<exists>d. moves 5 philosopher (all_wait 5) d)" by (auto elim: moves.cases)
  show "out (all_wait 5) = []" by (simp add: all_wait_def)
qed

end
