(* ===== verification/UserCalls.thy ===== *)
theory UserCalls
  imports Syscall
begin

text \<open>
  \<open>user/ulib/syscall.c\<close> with the numbers of \<open>lib/include/sysnum.h\<close>: a call of the user library loads the registers and
  traps. A stub takes the registers \<open>ctx\<close> of the process to those of the trap frame; the value of the call is what
  the kernel leaves in \<open>eax\<close>.
\<close>

definition SYS_write :: u32 where "SYS_write = 0"
definition SYS_read :: u32 where "SYS_read = 1"
definition SYS_brk :: u32 where "SYS_brk = 2"
definition SYS_sleep :: u32 where "SYS_sleep = 3"
definition SYS_exec :: u32 where "SYS_exec = 4"
definition SYS_getpid :: u32 where "SYS_getpid = 5"
definition SYS_yield :: u32 where "SYS_yield = 6"
definition SYS_fork :: u32 where "SYS_fork = 7"
definition SYS_exit :: u32 where "SYS_exit = 8"
definition SYS_wait :: u32 where "SYS_wait = 9"
definition SYS_sem_open :: u32 where "SYS_sem_open = 10"
definition SYS_sem_p :: u32 where "SYS_sem_p = 11"
definition SYS_sem_v :: u32 where "SYS_sem_v = 12"
definition SYS_sem_close :: u32 where "SYS_sem_close = 13"
definition SYS_open :: u32 where "SYS_open = 14"
definition SYS_close :: u32 where "SYS_close = 15"
definition SYS_dup :: u32 where "SYS_dup = 16"
definition SYS_lseek :: u32 where "SYS_lseek = 17"
definition SYS_fstat :: u32 where "SYS_fstat = 18"
definition SYS_chdir :: u32 where "SYS_chdir = 19"
definition SYS_unlink :: u32 where "SYS_unlink = 20"
definition SYS_mmap :: u32 where "SYS_mmap = 21"
definition SYS_munmap :: u32 where "SYS_munmap = 22"
definition SYS_clone :: u32 where "SYS_clone = 23"
definition SYS_kill :: u32 where "SYS_kill = 24"
definition SYS_cv_open :: u32 where "SYS_cv_open = 25"
definition SYS_cv_wait :: u32 where "SYS_cv_wait = 26"
definition SYS_cv_sig :: u32 where "SYS_cv_sig = 27"
definition SYS_cv_sigall :: u32 where "SYS_cv_sigall = 28"
definition SYS_cv_close :: u32 where "SYS_cv_close = 29"
definition SYS_pipe :: u32 where "SYS_pipe = 30"
definition SYS_link :: u32 where "SYS_link = 31"
definition SYS_symlink :: u32 where "SYS_symlink = 32"

lemmas sysnum_defs =
  SYS_write_def SYS_read_def SYS_brk_def SYS_sleep_def SYS_exec_def SYS_getpid_def
  SYS_yield_def SYS_fork_def SYS_exit_def SYS_wait_def SYS_sem_open_def SYS_sem_p_def
  SYS_sem_v_def SYS_sem_close_def SYS_open_def SYS_close_def SYS_dup_def SYS_lseek_def
  SYS_fstat_def SYS_chdir_def SYS_unlink_def SYS_mmap_def SYS_munmap_def SYS_clone_def
  SYS_kill_def SYS_cv_open_def SYS_cv_wait_def SYS_cv_sig_def SYS_cv_sigall_def SYS_cv_close_def
  SYS_pipe_def SYS_link_def SYS_symlink_def

definition syscall :: "u32 \<Rightarrow> u32 \<Rightarrow> u32 \<Rightarrow> u32 \<Rightarrow> u32 \<Rightarrow> u32 \<Rightarrow> Context \<Rightarrow> Context" where
  "syscall num arg1 arg2 arg3 arg4 arg5 ctx =
     ctx\<lparr>r_eax := num, r_ebx := arg1, r_ecx := arg2, r_edx := arg3, r_esi := arg4, r_edi := arg5, r_irq := 0x80\<rparr>"

definition u_write :: "u32 \<Rightarrow> u32 \<Rightarrow> u32 \<Rightarrow> Context \<Rightarrow> Context" where
  "u_write fd buf count = syscall SYS_write fd buf count 0 0"

definition u_read :: "u32 \<Rightarrow> u32 \<Rightarrow> u32 \<Rightarrow> Context \<Rightarrow> Context" where
  "u_read fd buf count = syscall SYS_read fd buf count 0 0"

definition u_brk :: "u32 \<Rightarrow> Context \<Rightarrow> Context" where
  "u_brk addr = syscall SYS_brk addr 0 0 0 0"

definition u_sleep :: "u32 \<Rightarrow> Context \<Rightarrow> Context" where
  "u_sleep ticks = syscall SYS_sleep ticks 0 0 0 0"

definition u_exec :: "u32 \<Rightarrow> u32 \<Rightarrow> Context \<Rightarrow> Context" where
  "u_exec path argv = syscall SYS_exec path argv 0 0 0"

definition u_getpid :: "Context \<Rightarrow> Context" where
  "u_getpid = syscall SYS_getpid 0 0 0 0 0"

definition u_yield :: "Context \<Rightarrow> Context" where
  "u_yield = syscall SYS_yield 0 0 0 0 0"

definition u_fork :: "Context \<Rightarrow> Context" where
  "u_fork = syscall SYS_fork 0 0 0 0 0"

definition u_exit :: "u32 \<Rightarrow> Context \<Rightarrow> Context" where
  "u_exit st = syscall SYS_exit st 0 0 0 0"

definition u_wait :: "u32 \<Rightarrow> Context \<Rightarrow> Context" where
  "u_wait st = syscall SYS_wait st 0 0 0 0"

definition u_sem_open :: "u32 \<Rightarrow> Context \<Rightarrow> Context" where
  "u_sem_open v = syscall SYS_sem_open v 0 0 0 0"

definition u_sem_p :: "u32 \<Rightarrow> Context \<Rightarrow> Context" where
  "u_sem_p sem_id = syscall SYS_sem_p sem_id 0 0 0 0"

definition u_sem_v :: "u32 \<Rightarrow> Context \<Rightarrow> Context" where
  "u_sem_v sem_id = syscall SYS_sem_v sem_id 0 0 0 0"

definition u_sem_close :: "u32 \<Rightarrow> Context \<Rightarrow> Context" where
  "u_sem_close sem_id = syscall SYS_sem_close sem_id 0 0 0 0"

definition u_open :: "u32 \<Rightarrow> u32 \<Rightarrow> Context \<Rightarrow> Context" where
  "u_open path mode = syscall SYS_open path mode 0 0 0"

definition u_close :: "u32 \<Rightarrow> Context \<Rightarrow> Context" where
  "u_close fd = syscall SYS_close fd 0 0 0 0"

definition u_dup :: "u32 \<Rightarrow> Context \<Rightarrow> Context" where
  "u_dup fd = syscall SYS_dup fd 0 0 0 0"

definition u_lseek :: "u32 \<Rightarrow> u32 \<Rightarrow> u32 \<Rightarrow> Context \<Rightarrow> Context" where
  "u_lseek fd off whence = syscall SYS_lseek fd off whence 0 0"

definition u_fstat :: "u32 \<Rightarrow> u32 \<Rightarrow> Context \<Rightarrow> Context" where
  "u_fstat fd st = syscall SYS_fstat fd st 0 0 0"

definition u_chdir :: "u32 \<Rightarrow> Context \<Rightarrow> Context" where
  "u_chdir path = syscall SYS_chdir path 0 0 0 0"

definition u_unlink :: "u32 \<Rightarrow> Context \<Rightarrow> Context" where
  "u_unlink path = syscall SYS_unlink path 0 0 0 0"

definition u_mmap :: "Context \<Rightarrow> Context" where
  "u_mmap = syscall SYS_mmap 0 0 0 0 0"

definition u_munmap :: "u32 \<Rightarrow> Context \<Rightarrow> Context" where
  "u_munmap addr = syscall SYS_munmap addr 0 0 0 0"

definition u_clone :: "u32 \<Rightarrow> u32 \<Rightarrow> u32 \<Rightarrow> Context \<Rightarrow> Context" where
  "u_clone entry stack arg = syscall SYS_clone entry stack arg 0 0"

definition u_kill :: "u32 \<Rightarrow> Context \<Rightarrow> Context" where
  "u_kill p = syscall SYS_kill p 0 0 0 0"

definition u_cv_open :: "Context \<Rightarrow> Context" where
  "u_cv_open = syscall SYS_cv_open 0 0 0 0 0"

definition u_cv_wait :: "u32 \<Rightarrow> u32 \<Rightarrow> Context \<Rightarrow> Context" where
  "u_cv_wait cv_id sem_id = syscall SYS_cv_wait cv_id sem_id 0 0 0"

definition u_cv_sig :: "u32 \<Rightarrow> Context \<Rightarrow> Context" where
  "u_cv_sig cv_id = syscall SYS_cv_sig cv_id 0 0 0 0"

definition u_cv_sigall :: "u32 \<Rightarrow> Context \<Rightarrow> Context" where
  "u_cv_sigall cv_id = syscall SYS_cv_sigall cv_id 0 0 0 0"

definition u_cv_close :: "u32 \<Rightarrow> Context \<Rightarrow> Context" where
  "u_cv_close cv_id = syscall SYS_cv_close cv_id 0 0 0 0"

definition u_pipe :: "u32 \<Rightarrow> Context \<Rightarrow> Context" where
  "u_pipe fd = syscall SYS_pipe fd 0 0 0 0"

definition u_link :: "u32 \<Rightarrow> u32 \<Rightarrow> Context \<Rightarrow> Context" where
  "u_link oldpath newpath = syscall SYS_link oldpath newpath 0 0 0"

definition u_symlink :: "u32 \<Rightarrow> u32 \<Rightarrow> Context \<Rightarrow> Context" where
  "u_symlink oldpath newpath = syscall SYS_symlink oldpath newpath 0 0 0"

lemmas stub_defs =
  u_write_def u_read_def u_brk_def u_sleep_def u_exec_def u_getpid_def
  u_yield_def u_fork_def u_exit_def u_wait_def u_sem_open_def u_sem_p_def
  u_sem_v_def u_sem_close_def u_open_def u_close_def u_dup_def u_lseek_def
  u_fstat_def u_chdir_def u_unlink_def u_mmap_def u_munmap_def u_clone_def
  u_kill_def u_cv_open_def u_cv_wait_def u_cv_sig_def u_cv_sigall_def u_cv_close_def
  u_pipe_def u_link_def u_symlink_def

lemma trap_call:
  assumes "unat num < 33"
  shows "irq_handle input (syscall num a b c d e ctx) = bindS ((syscall_handle ! unat num) a b c) set_result"
proof -
  have "int (unat num) < 33" using assms by linarith
  then have "\<not> (sint num < 0 \<or> int NR_SYS \<le> sint num)"
    using sint_u32 [of num] by (simp add: NR_SYS_def split: if_splits)
  then show ?thesis by (simp add: irq_handle_def syscall_def do_syscall_def Let_def)
qed

text \<open>
  C31. The stubs and the table of the kernel agree: each of the 33 calls of the user library arrives, through the
  trap, at the handler of the same name with the same arguments; the optional ones at \<open>TODO\<close>.
\<close>

theorem stubs_reach_handlers:
  "irq_handle input (u_write fd buf count ctx) = bindS (sys_write fd buf count) set_result \<and>
   irq_handle input (u_read fd buf count ctx) = bindS (sys_read fd buf count) set_result \<and>
   irq_handle input (u_brk addr ctx) = bindS (sys_brk addr) set_result \<and>
   irq_handle input (u_sleep ticks ctx) = bindS (sys_sleep ticks) set_result \<and>
   irq_handle input (u_exec path argv ctx) = bindS (sys_exec path argv) set_result \<and>
   irq_handle input (u_getpid ctx) = bindS sys_getpid set_result \<and>
   irq_handle input (u_yield ctx) = bindS sys_yield set_result \<and>
   irq_handle input (u_fork ctx) = bindS sys_fork set_result \<and>
   irq_handle input (u_exit st ctx) = bindS (sys_exit st) set_result \<and>
   irq_handle input (u_wait st ctx) = bindS (sys_wait st) set_result \<and>
   irq_handle input (u_sem_open v ctx) = bindS (sys_sem_open v) set_result \<and>
   irq_handle input (u_sem_p sem_id ctx) = bindS (sys_sem_p sem_id) set_result \<and>
   irq_handle input (u_sem_v sem_id ctx) = bindS (sys_sem_v sem_id) set_result \<and>
   irq_handle input (u_sem_close sem_id ctx) = bindS (sys_sem_close sem_id) set_result \<and>
   irq_handle input (u_open path mode ctx) = bindS (sys_open path mode) set_result \<and>
   irq_handle input (u_close fd ctx) = bindS (sys_close fd) set_result \<and>
   irq_handle input (u_dup fd ctx) = bindS (sys_dup fd) set_result \<and>
   irq_handle input (u_lseek fd off whence ctx) = bindS (sys_lseek fd off whence) set_result \<and>
   irq_handle input (u_fstat fd st ctx) = bindS (sys_fstat fd st) set_result \<and>
   irq_handle input (u_chdir path ctx) = bindS (sys_chdir path) set_result \<and>
   irq_handle input (u_unlink path ctx) = bindS (sys_unlink path) set_result \<and>
   irq_handle input (u_mmap ctx) = bindS TODO set_result \<and>
   irq_handle input (u_munmap addr ctx) = bindS TODO set_result \<and>
   irq_handle input (u_clone entry stack arg ctx) = bindS TODO set_result \<and>
   irq_handle input (u_kill p ctx) = bindS TODO set_result \<and>
   irq_handle input (u_cv_open ctx) = bindS TODO set_result \<and>
   irq_handle input (u_cv_wait cv_id sem_id ctx) = bindS TODO set_result \<and>
   irq_handle input (u_cv_sig cv_id ctx) = bindS TODO set_result \<and>
   irq_handle input (u_cv_sigall cv_id ctx) = bindS TODO set_result \<and>
   irq_handle input (u_cv_close cv_id ctx) = bindS TODO set_result \<and>
   irq_handle input (u_pipe fd ctx) = bindS TODO set_result \<and>
   irq_handle input (u_link oldpath newpath ctx) = bindS TODO set_result \<and>
   irq_handle input (u_symlink oldpath newpath ctx) = bindS TODO set_result"
  unfolding stub_defs sysnum_defs
  by (intro conjI) (simp_all add: trap_call syscall_handle_def)

end
