(* ===== verification/UserIO.thy ===== *)
theory UserIO
  imports LibStdio
begin

text \<open>
  What the programs under \<open>user/src\<close> see of the system: the calls of \<open>ulib.h\<close> (\<open>sys\<close>, a parameter of every program),
  programs that return or exit, and \<open>user/ulib/printf.c\<close> and \<open>start.c\<close> over them.

  The programs' properties rest on the interface \<open>streams\<close>: an open descriptor delivers its bytes in order, in
  pieces of any size, and what is written to a descriptor that takes output (\<open>con\<close>) is appended to the output;
  \<open>files\<close> is what these calls do not change. The laws are for the sizes that the programs use, at most 4096 bytes. It is
  interpreted on the system calls of the kernel in \<open>UserFiles\<close>, and here on \<open>world\<close>, streams that a list of numbers
  cuts into pieces.
\<close>

section \<open>Calls and programs\<close>

text \<open>
  \<open>s_read fd n\<close>: the value and the bytes that it puts into the buffer; \<open>s_fstat\<close> the value and type, size and node.
  A program that calls \<open>exit(n)\<close> has the value \<open>Inl n\<close>; one that returns \<open>x\<close> the value \<open>Inr x\<close>. The child of \<open>fork\<close> is
  given to it as a program; an \<open>exec\<close> that succeeds has the value \<open>Inl n\<close>, the exit status of the new program.
\<close>

record 's sys =
  s_read :: "u32 \<Rightarrow> u32 \<Rightarrow> ('s, u32 \<times> byte list) prog"
  s_write :: "u32 \<Rightarrow> byte list \<Rightarrow> ('s, u32) prog"
  s_open :: "byte list \<Rightarrow> u32 \<Rightarrow> ('s, u32) prog"
  s_close :: "u32 \<Rightarrow> ('s, u32) prog"
  s_dup :: "u32 \<Rightarrow> ('s, u32) prog"
  s_lseek :: "u32 \<Rightarrow> u32 \<Rightarrow> u32 \<Rightarrow> ('s, u32) prog"
  s_fstat :: "u32 \<Rightarrow> ('s, u32 \<times> u32 \<times> u32 \<times> u32) prog"
  s_chdir :: "byte list \<Rightarrow> ('s, u32) prog"
  s_unlink :: "byte list \<Rightarrow> ('s, u32) prog"
  s_fork :: "('s, u32) prog \<Rightarrow> ('s, u32) prog"
  s_exec :: "byte list \<Rightarrow> byte list list \<Rightarrow> ('s, u32 + u32) prog"
  s_wait :: "('s, u32) prog"
  s_pipe :: "('s, u32 \<times> u32 \<times> u32) prog"

type_synonym ('s, 'a) uprog = "('s, u32 + 'a) prog"

definition bindU :: "('s, 'a) uprog \<Rightarrow> ('a \<Rightarrow> ('s, 'b) uprog) \<Rightarrow> ('s, 'b) uprog" where
  "bindU m f = bindS m (\<lambda>r. case r of Inl n \<Rightarrow> retS (Inl n) | Inr x \<Rightarrow> f x)"

abbreviation (input) retU :: "'a \<Rightarrow> ('s, 'a) uprog" where
  "retU x \<equiv> retS (Inr x)"

definition callU :: "('s, 'a) prog \<Rightarrow> ('s, 'a) uprog" where
  "callU m = bindS m (\<lambda>x. retS (Inr x))"

definition exitU :: "u32 \<Rightarrow> ('s, 'a) uprog" where
  "exitU n = retS (Inl n)"

text \<open>\<open>_start\<close>: what \<open>main\<close> returns is the exit status.\<close>

definition start :: "('s, u32) uprog \<Rightarrow> ('s, u32) prog" where
  "start m = bindS m (\<lambda>r. case r of Inl n \<Rightarrow> retS n | Inr n \<Rightarrow> retS n)"

section \<open>Formatted output\<close>

text \<open>A literal of the source, with its NUL.\<close>

definition lit :: "string \<Rightarrow> byte list" where
  "lit s = bytes_of s @ [0]"

definition putstr_user :: "'s sys \<Rightarrow> byte list \<Rightarrow> ('s, u32) prog" where
  "putstr_user sys str = bindS (liftS (strlen str)) (\<lambda>n. s_write sys 1 (take n str))"

definition printf :: "'s sys \<Rightarrow> string \<Rightarrow> va list \<Rightarrow> ('s, u32) uprog" where
  "printf sys format args = bindS (liftS (vcprintf (lit format) args)) (\<lambda>(r, str).
     bindS (putstr_user sys (str @ [0])) (\<lambda>_. retU (of_nat r)))"

definition fprintf :: "'s sys \<Rightarrow> u32 \<Rightarrow> string \<Rightarrow> va list \<Rightarrow> ('s, u32) uprog" where
  "fprintf sys fd format args = bindS (liftS (vsprintf (lit format) args)) (\<lambda>str.
     if length str < 512 then callU (s_write sys fd str) else stopS Undef)"

text \<open>\<open>abort\<close> of \<open>start.c\<close>, which a failing \<open>assert\<close> calls: it reports and never ends.\<close>

definition abort_user :: "'s sys \<Rightarrow> string \<Rightarrow> u32 \<Rightarrow> string \<Rightarrow> ('s, 'a) uprog" where
  "abort_user sys file l info =
     bindU (printf sys (''Abort @ [%s:%d] %s'' @ [CHR 0x0A]) [VPtr (Some (lit file)), VInt l, VPtr (Some (lit info))]) (\<lambda>_. stopS Hang)"

text \<open>The directives that the programs use.\<close>

lemma decimal_no_nul: "0 \<notin> set (decimal n)"
proof -
  obtain ds where ds: "utoa (if sint n < 0 then - n else n) (int 10) = (True, ds @ [0])" "is_digits 10 ds"
    by (rule utoa_string [of 10 "if sint n < 0 then - n else n"]) auto
  have "digit_val 0 = None" by (simp add: digit_val_def)
  then have "0 \<notin> set ds" using ds(2) unfolding is_digits_def by fastforce
  then show ?thesis using ds(1) by (auto simp: decimal_def split: if_splits)
qed

lemma fmt_simps:
  "vsprintf (37 # 100 # fmt) (VInt n # args) = (if n = 0x80000000 then Inl Undef else mapR (append (decimal n)) (vsprintf fmt args))"
  "0 \<notin> set s \<Longrightarrow> length s < 4294967295 \<Longrightarrow>
     vsprintf (37 # 115 # fmt) (VPtr (Some (s @ 0 # r)) # args) = mapR (append s) (vsprintf fmt args)"
  "c \<noteq> 0 \<Longrightarrow> c \<noteq> 37 \<Longrightarrow> vsprintf (c # fmt) args = mapR (Cons c) (vsprintf fmt args)"
  "vsprintf [0] args = Inr []"
proof -
  show "vsprintf (37 # 100 # fmt) (VInt n # args) = (if n = 0x80000000 then Inl Undef else mapR (append (decimal n)) (vsprintf fmt args))"
    by (simp add: vsprintf_directive directive_plain convert_def put_number_def number_plain)
  have m: "unat (- 1 :: u32) = 4294967295" by (simp add: unat_u32_minus)
  show "vsprintf (37 # 115 # fmt) (VPtr (Some (s @ 0 # r)) # args) = mapR (append s) (vsprintf fmt args)"
    if "0 \<notin> set s" "length s < 4294967295"
    using that strnlen_cstr [OF that(1), of r 4294967295]
    by (simp add: vsprintf_directive directive_plain convert_def put_string_def pad_text_def m)
qed (simp_all add: vsprintf.simps)

lemma bindU_simps [simp, prog_simps]:
  "bindU (retS (Inr x)) f = f x" "bindU (exitU n) f = exitU n"
  by (rule ext, simp add: bindU_def exitU_def)+

lemma bindU_Inr: "m s = Inr (Inr x, t) \<Longrightarrow> bindU m f s = f x t"
  by (simp add: bindU_def)

lemma callU_Inr: "m s = Inr (x, t) \<Longrightarrow> callU m s = Inr (Inr x, t)"
  by (simp add: callU_def)

section \<open>Streams\<close>

locale streams =
  fixes sys :: "'s sys"
    and files :: "'s \<Rightarrow> 'f"
    and inp :: "'s \<Rightarrow> u32 \<Rightarrow> byte list option"
    and out :: "'s \<Rightarrow> (u32 \<times> byte) list"
    and con :: "'s \<Rightarrow> u32 \<Rightarrow> bool"
  assumes read_law: "inp s fd = Some xs \<Longrightarrow> 0 < n \<Longrightarrow> unat n \<le> 4096 \<Longrightarrow>
      \<exists>ys zs t. s_read sys fd n s = Inr ((of_nat (length ys), ys), t) \<and> xs = ys @ zs \<and> length ys \<le> unat n \<and>
        (ys = [] \<longrightarrow> xs = []) \<and> inp t = (inp s)(fd \<mapsto> zs) \<and> out t = out s \<and> files t = files s \<and> con t = con s"
    and write_law: "con s fd \<Longrightarrow> length bs \<le> 4096 \<Longrightarrow>
      \<exists>t. s_write sys fd bs s = Inr (of_nat (length bs), t) \<and> inp t = inp s \<and> out t = out s @ map (Pair fd) bs \<and>
        files t = files s \<and> con t = con s"
begin

text \<open>Formatted text reaches descriptor 1, or the one that is given.\<close>

lemma printf_writes:
  assumes "vsprintf (lit format) args = Inr str" "0 \<notin> set str" "length str < 512" "con s 1"
  shows "\<exists>r t. printf sys format args s = Inr (Inr r, t) \<and> inp t = inp s \<and> out t = out s @ map (Pair 1) str \<and> files t = files s"
proof -
  have tw: "takeWhile (\<lambda>c. c \<noteq> 0) str = str" using assms(2) by (induction str) auto
  obtain t where t: "s_write sys 1 str s = Inr (of_nat (length str), t)" "inp t = inp s" "out t = out s @ map (Pair 1) str"
    "files t = files s" using write_law [of s 1 str] assms(3,4) by auto
  then show ?thesis
    using assms strlen_cstr [OF assms(2), of "[]"] by (simp add: tw printf_def vcprintf_def putstr_user_def bindS_def)
qed

lemma fprintf_writes:
  assumes "vsprintf (lit format) args = Inr str" "length str < 512" "con s fd"
  shows "\<exists>r t. fprintf sys fd format args s = Inr (Inr r, t) \<and> inp t = inp s \<and> out t = out s @ map (Pair fd) str \<and>
    files t = files s \<and> con t = con s"
  using write_law [of s fd str] assms by (auto simp: fprintf_def callU_def bindS_def)

end

section \<open>A world of files\<close>

text \<open>Each read delivers at most as many bytes as the next number of \<open>w_cuts\<close> says, but at least one if there is one.\<close>

record world =
  w_files :: "byte list \<Rightarrow> byte list option"
  w_inp :: "u32 \<Rightarrow> byte list option"
  w_cuts :: "nat list"
  w_out :: "(u32 \<times> byte) list"

definition w_read :: "u32 \<Rightarrow> u32 \<Rightarrow> (world, u32 \<times> byte list) prog" where
  "w_read fd n w = (case w_inp w fd of
       None \<Rightarrow> Inr ((- 1, []), w)
     | Some xs \<Rightarrow>
         let k = (case w_cuts w of [] \<Rightarrow> unat n | c # _ \<Rightarrow> min (unat n) (max 1 c)) in
         Inr ((of_nat (length (take k xs)), take k xs), w\<lparr>w_inp := (w_inp w)(fd \<mapsto> drop k xs), w_cuts := tl (w_cuts w)\<rparr>))"

definition w_write :: "u32 \<Rightarrow> byte list \<Rightarrow> (world, u32) prog" where
  "w_write fd bs w = Inr (of_nat (length bs), w\<lparr>w_out := w_out w @ map (Pair fd) bs\<rparr>)"

definition w_open :: "byte list \<Rightarrow> u32 \<Rightarrow> (world, u32) prog" where
  "w_open path mode w =
     (case w_files w (takeWhile (\<lambda>c. c \<noteq> 0) path) of
        None \<Rightarrow> Inr (- 1, w)
      | Some xs \<Rightarrow> (case find_slot (\<lambda>i. w_inp w (of_nat i) = None) [0 ..< 32] of
            None \<Rightarrow> Inr (- 1, w)
          | Some i \<Rightarrow> Inr (of_nat i, w\<lparr>w_inp := (w_inp w)(of_nat i \<mapsto> xs)\<rparr>)))"

definition w_close :: "u32 \<Rightarrow> (world, u32) prog" where
  "w_close fd w = (if w_inp w fd = None then Inr (- 1, w) else Inr (0, w\<lparr>w_inp := (w_inp w)(fd := None)\<rparr>))"

definition world_sys :: "world sys" where
  "world_sys = \<lparr>s_read = w_read, s_write = w_write, s_open = w_open, s_close = w_close, s_dup = \<lambda>_. retS (- 1),
     s_lseek = \<lambda>_ _ _. retS (- 1), s_fstat = \<lambda>_. retS (- 1, 0, 0, 0), s_chdir = \<lambda>_. retS (- 1), s_unlink = \<lambda>_. retS (- 1),
     s_fork = \<lambda>_. retS (- 1), s_exec = \<lambda>_ _. retS (Inr (- 1)), s_wait = retS (- 1), s_pipe = retS (- 1, 0, 0)\<rparr>"

interpretation files: streams world_sys w_files w_inp w_out "\<lambda>_ _. True"
proof unfold_locales
  fix s :: world and fd xs and n :: u32
  assume n: "w_inp s fd = Some xs" "0 < n" "unat n \<le> 4096"
  define k where "k = (case w_cuts s of [] \<Rightarrow> unat n | c # _ \<Rightarrow> min (unat n) (max 1 c))"
  have k: "0 < k" "k \<le> unat n" using n(2) by (auto simp: k_def word_less_nat_alt split: list.split)
  show "\<exists>ys zs t. s_read world_sys fd n s = Inr ((of_nat (length ys), ys), t) \<and> xs = ys @ zs \<and> length ys \<le> unat n \<and>
      (ys = [] \<longrightarrow> xs = []) \<and> w_inp t = (w_inp s)(fd \<mapsto> zs) \<and> w_out t = w_out s \<and> w_files t = w_files s \<and>
      (\<lambda>_. True) = (\<lambda>_. True)"
    using n(1) k by (intro exI [of _ "take k xs"] exI [of _ "drop k xs"]) (auto simp: world_sys_def w_read_def k_def [symmetric])
qed (auto simp: world_sys_def w_write_def)

end
