(* ===== verification/Coreutils.thy ===== *)
theory Coreutils
  imports UserIO
begin

text \<open>
  The small programs of \<open>user/src/phase6\<close> that read and write streams: \<open>cat.c\<close>, \<open>wc.c\<close>, \<open>head.c\<close>, \<open>echo.c\<close>, \<open>rm.c\<close> and
  \<open>mkdir.c\<close>. A loop that reads until the end of a stream has fuel; with more fuel than bytes it returns.

  The static buffer of a program is passed through its calls: what an earlier \<open>read\<close> has left in it is still there.
\<close>

section \<open>The programs\<close>

definition line :: "string \<Rightarrow> string" where
  "line s = s @ [CHR 0x0A]"

text \<open>The loop over the arguments that \<open>cat\<close>, \<open>wc\<close>, \<open>head\<close> and \<open>grep\<close> share; \<open>complain\<close> reports a file that cannot be opened.\<close>

primrec each_file :: "(byte list \<Rightarrow> u32 \<Rightarrow> byte list \<Rightarrow> ('s, byte list) uprog) \<Rightarrow> (byte list \<Rightarrow> ('s, u32) uprog) \<Rightarrow> 's sys \<Rightarrow>
    byte list list \<Rightarrow> byte list \<Rightarrow> ('s, byte list) uprog" where
  "each_file body complain sys [] buf = retU buf"
| "each_file body complain sys (a # as) buf = bindS (s_open sys a 0) (\<lambda>fd.
     if fd <s 0 then bindU (complain a) (\<lambda>_. exitU 1)
     else bindU (body a fd buf) (\<lambda>buf. bindS (s_close sys fd) (\<lambda>_. each_file body complain sys as buf)))"

subsection \<open>cat\<close>

primrec cat :: "nat \<Rightarrow> 's sys \<Rightarrow> u32 \<Rightarrow> byte list \<Rightarrow> ('s, byte list) uprog" where
  "cat 0 sys fd buf = stopS Hang"
| "cat (Suc k) sys fd buf = bindS (s_read sys fd 4096) (\<lambda>(n, bs).
     let buf = put_at 0 bs buf in
     if 0 <s n then bindS (s_write sys 1 (take (unat n) buf)) (\<lambda>r.
       if r \<noteq> n then bindU (fprintf sys 2 (line ''cat: write error'') []) (\<lambda>_. exitU 1)
       else cat k sys fd buf)
     else if n <s 0 then bindU (fprintf sys 2 (line ''cat: read error'') []) (\<lambda>_. exitU 1)
     else retU buf)"

definition cat_main :: "nat \<Rightarrow> 's sys \<Rightarrow> byte list list \<Rightarrow> ('s, u32) uprog" where
  "cat_main fuel sys argv =
     (if length argv \<le> 1 then bindU (cat fuel sys 0 (replicate 4096 0)) (\<lambda>_. exitU 0)
      else bindU (each_file (\<lambda>_. cat fuel sys) (\<lambda>a. fprintf sys 2 (line ''cat: cannot open %s'') [VPtr (Some a)]) sys (tl argv)
        (replicate 4096 0)) (\<lambda>_. exitU 0))"

subsection \<open>wc\<close>

text \<open>\<open>strchr(" \r\t\n\v", c)\<close>: the NUL of the literal is found too.\<close>

definition wc_blank :: "byte \<Rightarrow> bool" where
  "wc_blank c = (case strchr [32, 13, 9, 10, 11, 0] c of Inr (Some _) \<Rightarrow> True | _ \<Rightarrow> False)"

fun wc_byte :: "byte \<Rightarrow> u32 \<times> u32 \<times> u32 \<times> bool \<Rightarrow> u32 \<times> u32 \<times> u32 \<times> bool" where
  "wc_byte ch (l, w, c, inword) =
     (let c = c + 1;
          l = (if ch = 10 then l + 1 else l) in
      if wc_blank ch then (l, w, c, False)
      else if \<not> inword then (l, w + 1, c, True)
      else (l, w, c, inword))"

primrec wc_loop :: "nat \<Rightarrow> 's sys \<Rightarrow> u32 \<Rightarrow> byte list \<Rightarrow> u32 \<times> u32 \<times> u32 \<times> bool \<Rightarrow>
    ('s, byte list \<times> u32 \<times> u32 \<times> u32) uprog" where
  "wc_loop 0 sys fd buf cnt = stopS Hang"
| "wc_loop (Suc k) sys fd buf cnt = bindS (s_read sys fd 4096) (\<lambda>(n, bs).
     let buf = put_at 0 bs buf in
     if 0 <s n then wc_loop k sys fd buf (fold wc_byte (take (unat n) buf) cnt)
     else if n <s 0 then bindU (printf sys (line ''wc: read error'') []) (\<lambda>_. exitU 1)
     else case cnt of (l, w, c, _) \<Rightarrow> retU (buf, l, w, c))"

definition wc :: "nat \<Rightarrow> 's sys \<Rightarrow> byte list \<Rightarrow> u32 \<Rightarrow> byte list \<Rightarrow> ('s, byte list) uprog" where
  "wc fuel sys name fd buf = bindU (wc_loop fuel sys fd buf (0, 0, 0, False)) (\<lambda>(buf, l, w, c).
     bindU (printf sys (line ''%d %d %d %s'') [VInt l, VInt w, VInt c, VPtr (Some name)]) (\<lambda>_. retU buf))"

definition wc_main :: "nat \<Rightarrow> 's sys \<Rightarrow> byte list list \<Rightarrow> ('s, u32) uprog" where
  "wc_main fuel sys argv =
     (if length argv \<le> 1 then bindU (wc fuel sys [0] 0 (replicate 4096 0)) (\<lambda>_. exitU 0)
      else bindU (each_file (wc fuel sys) (\<lambda>a. printf sys (line ''wc: cannot open %s'') [VPtr (Some a)]) sys (tl argv)
        (replicate 4096 0)) (\<lambda>_. exitU 0))"

subsection \<open>head\<close>

definition write_s :: "'s sys \<Rightarrow> u32 \<Rightarrow> byte list \<Rightarrow> ('s, unit) uprog" where
  "write_s sys fd bs = bindS (s_write sys fd bs) (\<lambda>r.
     if r \<noteq> of_nat (length bs) then bindU (fprintf sys 2 (line ''head: write error'') []) (\<lambda>_. exitU 1)
     else retU ())"

text \<open>The inner loop, with \<open>r = 10 - line\<close> lines to go and \<open>p\<close> an offset into the buffer; its value is the new \<open>r\<close>.\<close>

primrec head_lines :: "nat \<Rightarrow> 's sys \<Rightarrow> byte list \<Rightarrow> nat \<Rightarrow> ('s, nat) uprog" where
  "head_lines 0 sys buf p = retU 0"
| "head_lines (Suc r) sys buf p = bindS (liftS (strchr (drop p buf) 10)) (\<lambda>e. case e of
       Some k \<Rightarrow> bindU (write_s sys 1 (take (k + 1) (drop p buf))) (\<lambda>_. head_lines r sys buf (p + k + 1))
     | None \<Rightarrow> bindS (liftS (strlen (drop p buf))) (\<lambda>m.
         bindU (write_s sys 1 (take m (drop p buf))) (\<lambda>_. retU (Suc r))))"

primrec head_loop :: "nat \<Rightarrow> 's sys \<Rightarrow> u32 \<Rightarrow> nat \<Rightarrow> byte list \<Rightarrow> ('s, byte list) uprog" where
  "head_loop 0 sys fd r buf = stopS Hang"
| "head_loop (Suc k) sys fd r buf =
     (if r = 0 then retU buf
      else bindS (s_read sys fd 4096) (\<lambda>(n, bs).
        let buf = put_at 0 bs buf in
        if 0 <s n then bindU (head_lines r sys buf 0) (\<lambda>r. head_loop k sys fd r buf)
        else if n <s 0 then bindU (fprintf sys 2 (line ''head: read error'') []) (\<lambda>_. exitU 1)
        else retU buf))"

definition head :: "nat \<Rightarrow> 's sys \<Rightarrow> u32 \<Rightarrow> byte list \<Rightarrow> ('s, byte list) uprog" where
  "head fuel sys fd buf = head_loop fuel sys fd 10 buf"

definition head_main :: "nat \<Rightarrow> 's sys \<Rightarrow> byte list list \<Rightarrow> ('s, u32) uprog" where
  "head_main fuel sys argv =
     (if length argv \<le> 1 then bindU (head fuel sys 0 (replicate 4096 0)) (\<lambda>_. exitU 0)
      else bindU (each_file (\<lambda>_. head fuel sys) (\<lambda>a. fprintf sys 2 (line ''head: cannot open %s'') [VPtr (Some a)]) sys (tl argv)
        (replicate 4096 0)) (\<lambda>_. exitU 0))"

subsection \<open>echo, rm, mkdir\<close>

primrec echo_args :: "'s sys \<Rightarrow> byte list list \<Rightarrow> ('s, unit) uprog" where
  "echo_args sys [] = retU ()"
| "echo_args sys (a # as) = bindS (liftS (strlen a)) (\<lambda>n. bindS (s_write sys 1 (take n a)) (\<lambda>_.
     bindS (s_write sys 1 (if as \<noteq> [] then [32] else [10])) (\<lambda>_. echo_args sys as)))"

definition echo_main :: "'s sys \<Rightarrow> byte list list \<Rightarrow> ('s, u32) uprog" where
  "echo_main sys argv = bindU (echo_args sys (tl argv)) (\<lambda>_. exitU 0)"

primrec rm_files :: "'s sys \<Rightarrow> byte list list \<Rightarrow> ('s, unit) uprog" where
  "rm_files sys [] = retU ()"
| "rm_files sys (a # as) = bindS (s_unlink sys a) (\<lambda>r.
     if r <s 0 then bindU (fprintf sys 2 (line ''rm: %s failed to delete'') [VPtr (Some a)]) (\<lambda>_. retU ())
     else rm_files sys as)"

definition rm_main :: "'s sys \<Rightarrow> byte list list \<Rightarrow> ('s, u32) uprog" where
  "rm_main sys argv =
     (if length argv < 2 then bindU (fprintf sys 2 (line ''Usage: rm files...'') []) (\<lambda>_. exitU 1)
      else bindU (rm_files sys (tl argv)) (\<lambda>_. exitU 0))"

primrec mkdir_files :: "'s sys \<Rightarrow> byte list list \<Rightarrow> ('s, unit) uprog" where
  "mkdir_files sys [] = retU ()"
| "mkdir_files sys (a # as) = bindS (s_open sys a (0x200 OR 0x800)) (\<lambda>fd.
     if fd <s 0 then bindU (fprintf sys 2 (line ''mkdir: %s failed to create'') [VPtr (Some a)]) (\<lambda>_. retU ())
     else bindS (s_close sys fd) (\<lambda>_. mkdir_files sys as))"

definition mkdir_main :: "'s sys \<Rightarrow> byte list list \<Rightarrow> ('s, u32) uprog" where
  "mkdir_main sys argv =
     (if length argv < 2 then bindU (fprintf sys 2 (line ''Usage: mkdir files...'') []) (\<lambda>_. exitU 1)
      else bindU (mkdir_files sys (tl argv)) (\<lambda>_. exitU 0))"

section \<open>What they do\<close>

lemma small_word:
  assumes "m \<le> 4096"
  shows "(0 <s (of_nat m :: u32)) = (0 < m)" "\<not> (of_nat m :: u32) <s 0" "unat (of_nat m :: u32) = m"
proof -
  have s: "sint (of_nat m :: u32) = int m" using assms by (intro sint_of_nat_u32) simp
  then show "(0 <s (of_nat m :: u32)) = (0 < m)" "\<not> (of_nat m :: u32) <s 0" by (simp_all add: word_sless_alt)
  show "unat (of_nat m :: u32) = m" using assms by (simp add: unat_of_nat take_bit_nat_eq_self)
qed

lemma take_put_at: "n = length bs \<Longrightarrow> take n (put_at 0 bs buf) = bs"
  by (simp add: put_at_def)

context streams
begin

text \<open>One \<open>read\<close> of a buffer from an open stream.\<close>

lemma read_step:
  assumes "inp s fd = Some xs"
  obtains ys zs t where "s_read sys fd 4096 s = Inr ((of_nat (length ys), ys), t)" "xs = ys @ zs" "length ys \<le> 4096"
    "ys = [] \<Longrightarrow> xs = []" "inp t = (inp s)(fd \<mapsto> zs)" "out t = out s" "files t = files s" "con t = con s"
  using read_law [OF assms, of 4096] by auto

lemma cat_stream:
  "inp s fd = Some xs \<Longrightarrow> con s 1 \<Longrightarrow> length xs < fuel \<Longrightarrow> length buf = 4096 \<Longrightarrow>
   \<exists>t buf'. cat fuel sys fd buf s = Inr (Inr buf', t) \<and> length buf' = 4096 \<and> inp t = (inp s)(fd \<mapsto> []) \<and>
     out t = out s @ map (Pair 1) xs \<and> files t = files s \<and> con t = con s"
proof (induction fuel arbitrary: s xs buf)
  case (Suc k)
  obtain ys zs t where r: "s_read sys fd 4096 s = Inr ((of_nat (length ys), ys), t)" "xs = ys @ zs" "length ys \<le> 4096"
    "ys = [] \<Longrightarrow> xs = []" "inp t = (inp s)(fd \<mapsto> zs)" "out t = out s" "files t = files s" "con t = con s"
    using read_step [OF Suc.prems(1)] by metis
  show ?case
  proof (cases "ys = []")
    case True
    then have "xs = []" "zs = []" using r(2,4) by auto
    then show ?thesis using r True Suc.prems(4) small_word [of 0] by (intro exI [of _ t] exI [of _ buf]) simp
  next
    case False
    obtain u where u: "s_write sys 1 ys t = Inr (of_nat (length ys), u)" "inp u = inp t" "out u = out t @ map (Pair 1) ys"
      "files u = files t" "con u = con t" using write_law [of t 1 ys] r(3,8) Suc.prems(2) by auto
    have "0 < length ys" using False by simp
    then have "length zs < k" using r(2) Suc.prems(3) by (simp only: length_append)
    moreover have "inp u fd = Some zs" "con u 1" "length (put_at 0 ys buf) = 4096" using u(2,5) r(3,5,8) Suc.prems(2,4) by simp_all
    ultimately obtain v buf' where v: "cat k sys fd (put_at 0 ys buf) u = Inr (Inr buf', v)" "length buf' = 4096"
      "inp v = (inp u)(fd \<mapsto> [])" "out v = out u @ map (Pair 1) zs" "files v = files u" "con v = con u" using Suc.IH by blast
    have "cat (Suc k) sys fd buf s = Inr (Inr buf', v)"
      using r(1,3) u(1) v(1) small_word [OF r(3)] False by (simp add: take_put_at)
    moreover have "inp v = (inp s)(fd \<mapsto> [])" using v(3) u(2) r(5) by simp
    ultimately show ?thesis using v(2,4-6) u(3-5) r(2,6-8) by (intro exI [of _ v] exI [of _ buf']) simp
  qed
qed simp

end

text \<open>
  C23. \<open>cat\<close> copies: whatever pieces the reads deliver, if descriptor 1 takes output, it writes the bytes of the stream to it,
  in order and nothing else, and it returns.
\<close>

theorem cat_copies:
  assumes "streams sys files inp out con" "inp s fd = Some xs" "con s 1" "length xs < fuel" "length buf = 4096"
  shows "\<exists>t buf'. cat fuel sys fd buf s = Inr (Inr buf', t) \<and> inp t = (inp s)(fd \<mapsto> []) \<and> out t = out s @ map (Pair 1) xs"
  using streams.cat_stream [OF assms] by blast

text \<open>A file that arrives in pieces of at most 2, 1, 3 bytes.\<close>

definition small_world :: "byte list \<Rightarrow> world" where
  "small_world xs = \<lparr>w_files = [bytes_of ''f'' \<mapsto> xs], w_inp = [0 \<mapsto> xs], w_cuts = [2, 1, 3], w_out = []\<rparr>"

lemma small_world_simps [simp]: "w_inp (small_world xs) 0 = Some xs" "w_out (small_world xs) = []"
  by (simp_all add: small_world_def)

theorem cat_copies_witness:
  "\<exists>t. (\<exists>buf. cat 9 world_sys 0 (replicate 4096 0) (small_world (bytes_of ''some'')) = Inr (Inr buf, t)) \<and>
     w_out t = map (Pair 1) (bytes_of ''some'')"
  using cat_copies [where sys = world_sys and files = w_files and inp = w_inp and out = w_out and con = "\<lambda>_ _. True" and fd = 0 and fuel = 9 and
      buf = "replicate 4096 0" and s = "small_world (bytes_of ''some'')" and xs = "bytes_of ''some''", OF files.streams_axioms]
  by (auto simp: bytes_of_def)

context streams
begin

lemma wc_stream:
  "inp s fd = Some xs \<Longrightarrow> length xs < fuel \<Longrightarrow> length buf = 4096 \<Longrightarrow>
   \<exists>t buf'. wc_loop fuel sys fd buf cnt s = Inr (Inr (case fold wc_byte xs cnt of (l, w, c, _) \<Rightarrow> (buf', l, w, c)), t) \<and>
     length buf' = 4096 \<and> inp t = (inp s)(fd \<mapsto> []) \<and> out t = out s \<and> files t = files s \<and> con t = con s"
proof (induction fuel arbitrary: s xs buf cnt)
  case (Suc k)
  obtain ys zs t where r: "s_read sys fd 4096 s = Inr ((of_nat (length ys), ys), t)" "xs = ys @ zs" "length ys \<le> 4096"
    "ys = [] \<Longrightarrow> xs = []" "inp t = (inp s)(fd \<mapsto> zs)" "out t = out s" "files t = files s" "con t = con s"
    using read_step [OF Suc.prems(1)] by metis
  show ?case
  proof (cases "ys = []")
    case True
    then have "xs = []" "zs = []" using r(2,4) by auto
    then show ?thesis
      using r True Suc.prems(3) small_word [of 0] by (intro exI [of _ t] exI [of _ buf]) (simp split: prod.split)
  next
    case False
    then have "0 < length ys" by simp
    then have "length zs < k" using r(2) Suc.prems(2) by (simp only: length_append)
    moreover have "inp t fd = Some zs" "length (put_at 0 ys buf) = 4096" using r(3,5) Suc.prems(3) by simp_all
    ultimately obtain v buf' where v: "wc_loop k sys fd (put_at 0 ys buf) (fold wc_byte ys cnt) t =
        Inr (Inr (case fold wc_byte zs (fold wc_byte ys cnt) of (l, w, c, _) \<Rightarrow> (buf', l, w, c)), v)" "length buf' = 4096"
      "inp v = (inp t)(fd \<mapsto> [])" "out v = out t" "files v = files t" "con v = con t" using Suc.IH by blast
    have "wc_loop (Suc k) sys fd buf cnt s = Inr (Inr (case fold wc_byte xs cnt of (l, w, c, _) \<Rightarrow> (buf', l, w, c)), v)"
      using r(1,2,3) v(1) small_word [OF r(3)] False by (simp add: take_put_at)
    moreover have "inp v = (inp s)(fd \<mapsto> [])" using v(3) r(5) by simp
    ultimately show ?thesis using v(2,4-6) r(6-8) by (intro exI [of _ v] exI [of _ buf']) simp
  qed
qed simp

end

text \<open>Lines, words and characters of a text; a word starts where a byte is not blank and the one before it is.\<close>

definition blank :: "byte \<Rightarrow> bool" where
  "blank c \<longleftrightarrow> c \<in> {0, 9, 10, 11, 13, 32}"

definition word_count :: "byte list \<Rightarrow> nat" where
  "word_count xs = card {i. i < length xs \<and> \<not> blank (xs ! i) \<and> (i = 0 \<or> blank (xs ! (i - 1)))}"

lemma wc_blank_blank: "wc_blank c = blank c"
  by (simp add: wc_blank_def blank_def)

lemma word_count_filter:
  "word_count xs = length (filter (\<lambda>i. \<not> blank (xs ! i) \<and> (i = 0 \<or> blank (xs ! (i - 1)))) [0 ..< length xs])"
proof -
  have E: "{i. i < length xs \<and> \<not> blank (xs ! i) \<and> (i = 0 \<or> blank (xs ! (i - 1)))} =
      set (filter (\<lambda>i. \<not> blank (xs ! i) \<and> (i = 0 \<or> blank (xs ! (i - 1)))) [0 ..< length xs])" by auto
  show ?thesis unfolding word_count_def E by (rule distinct_card) simp
qed

lemma word_count_snoc: "word_count (xs @ [x]) =
  word_count xs + (if \<not> blank x \<and> (xs = [] \<or> blank (last xs)) then 1 else 0)"
proof -
  let ?S = "\<lambda>xs. {i. i < length xs \<and> \<not> blank (xs ! i) \<and> (i = 0 \<or> blank (xs ! (i - 1)))}"
  have l: "(xs @ [x]) ! (length xs - 1) = last xs" if "xs \<noteq> []" using that by (simp add: nth_append last_conv_nth)
  have old: "i < length xs \<Longrightarrow> i \<in> ?S (xs @ [x]) \<longleftrightarrow> i \<in> ?S xs" for i by (auto simp: nth_append)
  have new: "length xs \<in> ?S (xs @ [x]) \<longleftrightarrow> \<not> blank x \<and> (xs = [] \<or> blank (last xs))"
    using l by (cases "xs = []") auto
  have "?S (xs @ [x]) = (if \<not> blank x \<and> (xs = [] \<or> blank (last xs)) then insert (length xs) (?S xs) else ?S xs)"
  proof (rule set_eqI)
    fix i
    consider "i < length xs" | "i = length xs" | "length xs < i" by linarith
    then show "i \<in> ?S (xs @ [x]) \<longleftrightarrow>
        i \<in> (if \<not> blank x \<and> (xs = [] \<or> blank (last xs)) then insert (length xs) (?S xs) else ?S xs)"
    proof cases
      case 1 then show ?thesis using old [OF 1] by auto
    next
      case 2 then show ?thesis using new by auto
    qed auto
  qed
  then show ?thesis unfolding word_count_def by simp
qed

lemma wc_fold: "fold wc_byte xs (0, 0, 0, False) =
  (of_nat (count_list xs 10), of_nat (word_count xs), of_nat (length xs), xs \<noteq> [] \<and> \<not> blank (last xs))"
proof (induction xs rule: rev_induct)
  case Nil
  then show ?case by (simp add: word_count_def)
next
  case (snoc x xs)
  then show ?case by (auto simp: word_count_snoc wc_blank_blank Let_def)
qed

lemma small_count: "n < 2147483648 \<Longrightarrow> (of_nat n :: u32) \<noteq> 0x80000000"
proof
  assume n: "n < 2147483648" "(of_nat n :: u32) = 0x80000000"
  have "unat (of_nat n :: u32) = n" using n(1) by (intro unat_of_nat_u32) simp
  then show False using n by simp
qed

lemma word_count_le: "word_count xs \<le> length xs"
  unfolding word_count_filter by (rule order_trans [OF length_filter_le]) simp

text \<open>
  C34. \<open>wc\<close> counts: however the reads cut the stream, it prints one line with the number of newlines, of words and
  of bytes and the name to descriptor 1, and it returns. The stream is shorter than 2 GB: the counters are \<open>int\<close>s, and past that C leaves counting
  undefined.
\<close>

theorem wc_counts:
  fixes xs name :: "byte list"
  defines "str \<equiv> decimal (of_nat (count_list xs 10)) @ [32] @ decimal (of_nat (word_count xs)) @ [32] @
    decimal (of_nat (length xs)) @ [32] @ name @ [10]"
  assumes "streams sys files inp out con" "inp s fd = Some xs" "con s 1" "length xs < fuel" "length buf = 4096"
    "0 \<notin> set name" "length str < 512" "length xs < 2147483648"
  shows "\<exists>t buf'. wc fuel sys (name @ [0]) fd buf s = Inr (Inr buf', t) \<and> inp t = (inp s)(fd \<mapsto> []) \<and> out t = out s @ map (Pair 1) str"
proof -
  obtain t buf' where t: "wc_loop fuel sys fd buf (0, 0, 0, False) s =
      Inr (Inr (buf', of_nat (count_list xs 10), of_nat (word_count xs), of_nat (length xs)), t)"
    "inp t = (inp s)(fd \<mapsto> [])" "out t = out s" "con t = con s"
    using streams.wc_stream [OF assms(2,3,5,6), of "(0, 0, 0, False)"] unfolding wc_fold by auto
  have f: "vsprintf (lit (line ''%d %d %d %s'')) [VInt (of_nat (count_list xs 10)), VInt (of_nat (word_count xs)),
      VInt (of_nat (length xs)), VPtr (Some (name @ [0]))] = Inr str"
    using assms(7,8) small_count [OF assms(9)] small_count [OF le_less_trans [OF count_le_length assms(9)]]
      small_count [OF le_less_trans [OF word_count_le assms(9)]]
    by (simp add: lit_def line_def bytes_of_def fmt_simps str_def)
  have z: "0 \<notin> set str" using assms(7) decimal_no_nul by (simp add: str_def)
  obtain u r where u: "printf sys (line ''%d %d %d %s'') [VInt (of_nat (count_list xs 10)), VInt (of_nat (word_count xs)),
      VInt (of_nat (length xs)), VPtr (Some (name @ [0]))] t = Inr (Inr r, u)" "inp u = inp t" "out u = out t @ map (Pair 1) str"
    using streams.printf_writes [OF assms(2) f z assms(8), of t] t(4) assms(4) by auto
  show ?thesis using t u by (simp add: wc_def bindU_def)
qed

theorem wc_counts_witness:
  "\<exists>t. (\<exists>buf. wc 9 world_sys (lit ''x'') 0 (replicate 4096 0) (small_world (bytes_of (line ''a bc''))) = Inr (Inr buf, t)) \<and>
     w_out t = map (Pair 1) (bytes_of (line ''1 2 5 x''))"
proof -
  let ?xs = "bytes_of (line ''a bc'')"
  have w: "count_list ?xs 10 = 1" "word_count ?xs = 2" "length ?xs = 5" unfolding word_count_filter by code_simp+
  have d: "decimal 1 = [49]" "decimal 2 = [50]" "decimal 5 = [53]" by code_simp+
  show ?thesis
    using wc_counts [where sys = world_sys and files = w_files and inp = w_inp and out = w_out and con = "\<lambda>_ _. True" and fd = 0 and fuel = 9 and
      buf = "replicate 4096 0" and s = "small_world ?xs" and xs = ?xs and name = "[120]", OF files.streams_axioms]
    unfolding w by (simp add: bytes_of_def line_def d lit_def) blast
qed

section \<open>head\<close>

text \<open>The first \<open>n\<close> lines of a text, with their newlines; what follows the last newline is a line too.\<close>

primrec first_lines :: "nat \<Rightarrow> byte list \<Rightarrow> byte list" where
  "first_lines 0 xs = []"
| "first_lines (Suc n) xs = takeWhile (\<lambda>c. c \<noteq> 10) xs @
     (if 10 \<in> set xs then 10 # first_lines n (tl (dropWhile (\<lambda>c. c \<noteq> 10) xs)) else [])"

lemma strchr_newline:
  "0 \<notin> set xs \<Longrightarrow> strchr (xs @ 0 # r) 10 = Inr (if 10 \<in> set xs then Some (length (takeWhile (\<lambda>c. c \<noteq> 10) xs)) else None)"
  by (induction xs) auto

lemma split_newline: "10 \<in> set xs \<Longrightarrow> xs = takeWhile (\<lambda>c. c \<noteq> 10) xs @ 10 # tl (dropWhile (\<lambda>c. c \<noteq> (10 :: byte)) xs)"
  by (induction xs) auto

context streams
begin

lemma write_s_ok:
  assumes "length bs \<le> 4096" "con s fd"
  obtains t where "write_s sys fd bs s = Inr (Inr (), t)" "inp t = inp s" "out t = out s @ map (Pair fd) bs" "files t = files s"
    "con t = con s"
  using write_law [of s fd bs] assms by (auto simp: write_s_def bindS_def)

lemma head_lines_stream:
  "drop p buf = xs @ 0 # z \<Longrightarrow> 0 \<notin> set xs \<Longrightarrow> length xs \<le> 4095 \<Longrightarrow> con s 1 \<Longrightarrow>
   \<exists>t r'. head_lines r sys buf p s = Inr (Inr r', t) \<and> inp t = inp s \<and> out t = out s @ map (Pair 1) (first_lines r xs) \<and>
     files t = files s \<and> con t = con s \<and> r' = r - count_list xs 10"
proof (induction r arbitrary: p xs s)
  case (Suc r)
  let ?w = "takeWhile (\<lambda>c. c \<noteq> 10) xs" and ?d = "tl (dropWhile (\<lambda>c. c \<noteq> 10) xs)"
  show ?case
  proof (cases "10 \<in> set xs")
    case True
    have x: "xs = (?w @ [10]) @ ?d" using split_newline [OF True] by simp
    have len: "length (?w @ [10]) = length ?w + 1" by simp
    have tk: "take (length ?w + 1) (drop p buf) = ?w @ [10]"
      using Suc.prems(1) by (subst (asm) x) (metis append_assoc append_eq_conv_conj len)
    have dr: "drop (p + length ?w + 1) buf = ?d @ 0 # z"
    proof -
      have "drop (length ?w + 1) (drop p buf) = ?d @ 0 # z"
        using Suc.prems(1) by (subst (asm) x) (metis append_assoc append_eq_conv_conj len)
      then show ?thesis by (simp add: add.commute add.left_commute)
    qed
    have "length (?w @ [10]) \<le> length xs" by (subst x) (simp only: length_append le_add1)
    then have "length (?w @ [10]) \<le> 4096" using Suc.prems(3) by linarith
    then obtain t where t: "write_s sys 1 (?w @ [10]) s = Inr (Inr (), t)" "inp t = inp s" "out t = out s @ map (Pair 1) (?w @ [10])"
      "files t = files s" "con t = con s" using write_s_ok [OF _ Suc.prems(4)] by metis
    then have c: "con t 1" using Suc.prems(4) by simp
    have "set ?d \<subseteq> set ((?w @ [10]) @ ?d)" "length ?d \<le> length ((?w @ [10]) @ ?d)" by auto
    then have d: "0 \<notin> set ?d" "length ?d \<le> 4095" using Suc.prems(2,3) unfolding x [symmetric] by (blast, linarith)
    from Suc.IH [OF dr d c] obtain u where u: "head_lines r sys buf (p + length ?w + 1) t = Inr (Inr (r - count_list ?d 10), u)"
      "inp u = inp t" "out u = out t @ map (Pair 1) (first_lines r ?d)" "files u = files t" "con u = con t" by blast
    have "count_list xs 10 = Suc (count_list ?d 10)"
    proof -
      have "count_list xs 10 = count_list ((?w @ [10]) @ ?d) 10" by (rule arg_cong [where f = "\<lambda>z. count_list z 10", OF x])
      moreover have "10 \<notin> set ?w" by (auto dest: set_takeWhileD)
      then have "count_list ?w 10 = 0" by (simp add: count_list_0_iff)
      ultimately show ?thesis by simp
    qed
    moreover have "head_lines (Suc r) sys buf p s = Inr (Inr (r - count_list ?d 10), u)"
      using True t(1) u(1) tk Suc.prems(1,2) by (simp add: strchr_newline bindS_def bindU_def)
    ultimately show ?thesis using u t True by simp
  next
    case False
    obtain t where t: "write_s sys 1 xs s = Inr (Inr (), t)" "inp t = inp s" "out t = out s @ map (Pair 1) xs" "files t = files s"
      "con t = con s" using write_s_ok [of xs s 1] Suc.prems(3,4) by auto
    have tw: "takeWhile (\<lambda>c. c \<noteq> 10) xs = xs" using False by (simp add: takeWhile_eq_all_conv) metis
    have "count_list xs 10 = 0" using False by (simp add: count_list_0_iff)
    moreover have "head_lines (Suc r) sys buf p s = Inr (Inr (Suc r), t)"
      using False t(1) Suc.prems(1,2) strlen_cstr [OF Suc.prems(2), of z] by (simp add: strchr_newline bindS_def bindU_def)
    ultimately show ?thesis using t False by (simp add: tw)
  qed
qed simp

end

text \<open>
  \<open>head\<close> on a text that the first read delivers whole, shorter than the buffer and without a NUL, writes its
  first ten lines and nothing else, and returns.
\<close>

lemma head_ten_lines:
  assumes "streams sys files inp out con" "s_read sys fd 4096 s = Inr ((of_nat (length xs), xs), t)" "xs \<noteq> []"
    "inp t fd = Some []" "out t = out s" "length xs < 4096" "0 \<notin> set xs" "con t 1"
  shows "\<exists>u buf'. head (Suc (Suc k)) sys fd (replicate 4096 0) s = Inr (Inr buf', u) \<and>
    out u = out s @ map (Pair 1) (first_lines 10 xs)"
proof -
  let ?buf = "put_at 0 xs (replicate 4096 (0 :: byte))"
  have buf: "drop 0 ?buf = xs @ 0 # replicate (4095 - length xs) 0"
    using assms(6) by (simp add: put_at_def replicate_Suc [symmetric] Suc_diff_le [symmetric] del: replicate_Suc)
  obtain u r where u: "head_lines 10 sys ?buf 0 t = Inr (Inr r, u)" "inp u = inp t"
    "out u = out t @ map (Pair 1) (first_lines 10 xs)"
    using streams.head_lines_stream [OF assms(1) buf assms(7), of t 10] assms(6,8) by auto
  have "\<exists>v buf'. head_loop (Suc k) sys fd r ?buf u = Inr (Inr buf', v) \<and> out v = out u"
  proof (cases "r = 0")
    case False
    have "inp u fd = Some []" using u(2) assms(4) by simp
    then obtain v where v: "s_read sys fd 4096 u = Inr ((0, []), v)" "out v = out u"
      using streams.read_law [OF assms(1), of u fd "[]" 4096] by auto
    then show ?thesis using False small_word [of 0] by simp
  qed simp
  then obtain v buf' where "head_loop (Suc k) sys fd r ?buf u = Inr (Inr buf', v)" "out v = out u" by blast
  then have "head (Suc (Suc k)) sys fd (replicate 4096 0) s = Inr (Inr buf', v)"
    using assms(2,3,6) u(1) small_word [of "length xs"] unfolding head_def
    by (subst head_loop.simps(2)) (simp add: bindU_def Let_def del: head_loop.simps)
  then show ?thesis using \<open>out v = out u\<close> u(3) assms(5) by auto
qed

theorem head_ten_lines_witness:
  "\<exists>u buf. head 2 world_sys 0 (replicate 4096 0) ((small_world (bytes_of (line ''ab'')))\<lparr>w_cuts := []\<rparr>) = Inr (Inr buf, u) \<and>
     w_out u = map (Pair 1) (bytes_of (line ''ab''))"
proof -
  let ?s = "(small_world (bytes_of (line ''ab'')))\<lparr>w_cuts := []\<rparr>"
  have x: "bytes_of (line ''ab'') = [97, 98, 10]" by (simp add: bytes_of_def line_def)
  have r: "s_read world_sys 0 4096 ?s = Inr ((of_nat (length [97, 98, 10 :: byte]), [97, 98, 10]),
      ?s\<lparr>w_inp := (w_inp ?s)(0 \<mapsto> [])\<rparr>)"
    by (simp add: world_sys_def w_read_def small_world_def x)
  have f: "first_lines 10 [97, 98, 10] = [97, 98, 10]" by (simp add: numeral_eq_Suc)
  have z: "0 \<notin> set [97, 98, 10 :: byte]" by simp
  have n: "[97, 98, 10 :: byte] \<noteq> []" "length [97, 98, 10 :: byte] < 4096" by simp_all
  have two: "2 = Suc (Suc 0)" by simp
  show ?thesis
    using head_ten_lines [where sys = world_sys and files = w_files and inp = w_inp and out = w_out and con = "\<lambda>_ _. True" and k = 0,
      OF files.streams_axioms r n(1) _ _ n(2) z]
    unfolding two f x by (auto simp: small_world_def)
qed

lemma world_write: "write_s world_sys fd bs w = Inr (Inr (), w\<lparr>w_out := w_out w @ map (Pair fd) bs\<rparr>)"
  by (simp add: write_s_def world_sys_def w_write_def)

lemma head_numeral:
  "head_lines (numeral n) sys buf p = bindS (liftS (strchr (drop p buf) 10)) (\<lambda>e. case e of
       Some k \<Rightarrow> bindU (write_s sys 1 (take (k + 1) (drop p buf))) (\<lambda>_. head_lines (pred_numeral n) sys buf (p + k + 1))
     | None \<Rightarrow> bindS (liftS (strlen (drop p buf))) (\<lambda>m.
         bindU (write_s sys 1 (take m (drop p buf))) (\<lambda>_. retU (Suc (pred_numeral n)))))"
  by (simp only: numeral_eq_Suc head_lines.simps)

lemma head_step:
  assumes "r \<noteq> 0" "s_read sys fd 4096 w = Inr ((n, bs), t)" "0 <s n" "put_at 0 bs buf = buf'" "head_lines r sys buf' 0 t = Inr (Inr r', u)"
  shows "head_loop (Suc k) sys fd r buf w = head_loop k sys fd r' buf' u"
  using assms by (simp add: bindU_def Let_def del: head_lines.simps)

text \<open>
  When a second read delivers less than the first, the rest of the first is still in the buffer, and \<open>head\<close> prints it
  again: the stream of the lines \<open>abc\<close> and \<open>d\<close>, cut after the first, becomes \<open>abc\<close>, \<open>d\<close>, \<open>c\<close>.
\<close>

lemma head_repeats:
  "\<exists>u buf. head 5 world_sys 0 (replicate 4096 0) ((small_world (bytes_of (line ''abc'' @ line ''d'')))\<lparr>w_cuts := [4, 2]\<rparr>) = Inr (Inr buf, u) \<and>
     w_out u = map (Pair 1) (bytes_of (line ''abc'' @ line ''d'' @ line ''c''))"
proof -
  let ?s = "(small_world (bytes_of (line ''abc'' @ line ''d'')))\<lparr>w_cuts := [4, 2]\<rparr>"
  have x: "bytes_of (line ''abc'' @ line ''d'') = [97, 98, 99, 10, 100, 10]"
    "bytes_of (line ''abc'' @ line ''d'' @ line ''c'') = [97, 98, 99, 10, 100, 10, 99, 10]" by (simp_all add: bytes_of_def line_def)
  have b: "put_at 0 [97, 98, 99, 10] (replicate 4096 0) = 97 # 98 # 99 # 10 # 0 # replicate 4091 (0 :: byte)"
    "put_at 0 [100, 10] (97 # 98 # 99 # 10 # 0 # z) = 100 # 10 # 99 # 10 # 0 # (z :: byte list)" for z
    by (simp_all add: put_at_def numeral_eq_Suc)
  have r: "s_read world_sys 0 4096 w = w_read 0 4096 w" for w by (simp add: world_sys_def)
  have h1: "head_lines 10 world_sys (97 # 98 # 99 # 10 # 0 # z) 0 w =
      Inr (Inr 9, w\<lparr>w_out := w_out w @ map (Pair 1) [97, 98, 99, 10]\<rparr>)" for z w
    by (simp add: head_numeral bindU_def world_write)
  have h2: "head_lines 9 world_sys (100 # 10 # 99 # 10 # 0 # z) 0 w =
      Inr (Inr 7, w\<lparr>w_out := w_out w @ map (Pair 1) [100, 10, 99, 10]\<rparr>)" for z w
    by (simp add: head_numeral bindU_def world_write)
  have s: "0 <s (4 :: u32)" "0 <s (2 :: u32)" "(10 :: nat) \<noteq> 0" "(9 :: nat) \<noteq> 0" by code_simp+
  have five: "5 = Suc (Suc (Suc 2))" by simp
  let ?t = "?s\<lparr>w_inp := [0 \<mapsto> [100, 10]], w_cuts := [2], w_out := map (Pair 1) [97, 98, 99, 10]\<rparr>"
  let ?u = "?t\<lparr>w_inp := [0 \<mapsto> []], w_cuts := [], w_out := map (Pair 1) [97, 98, 99, 10, 100, 10, 99, 10]\<rparr>"
  have 1: "head_loop (Suc k) world_sys 0 10 (replicate 4096 0) ?s = head_loop k world_sys 0 9 (97 # 98 # 99 # 10 # 0 # replicate 4091 0) ?t" for k
    by (rule head_step [OF s(3) _ s(1)]) (simp add: r w_read_def small_world_def x b h1 del: head_lines.simps)+
  have 2: "head_loop (Suc k) world_sys 0 9 (97 # 98 # 99 # 10 # 0 # z) ?t = head_loop k world_sys 0 7 (100 # 10 # 99 # 10 # 0 # z) ?u" for k z
    by (rule head_step [OF s(4) _ s(2)]) (simp add: r w_read_def small_world_def x b h2 del: head_lines.simps)+
  have 3: "head_loop (Suc k) world_sys 0 7 (100 # 10 # 99 # 10 # 0 # z) ?u = Inr (Inr (100 # 10 # 99 # 10 # 0 # z), ?u\<lparr>w_inp := [0 \<mapsto> []]\<rparr>)" for k z
    by (simp add: r w_read_def small_world_def x put_at_def)
  show ?thesis unfolding head_def five 1 2 3 x(2) by simp
qed

end
