(* ===== verification/Grep.thy ===== *)
theory Grep
  imports Coreutils
begin

text \<open>
  \<open>user/src/phase6/grep.c\<close>: the matcher \<open>match\<close>, \<open>matchhere\<close> and \<open>matchstar\<close> on C strings, what it decides, whether
  a line contains a word of the language of the pattern, and the loop that reads a file and prints the lines that match. A pattern denotes a list of pieces, each a set
  of characters once or any number of times, with an anchor at either end.
\<close>

section \<open>The code\<close>

function matchhere :: "byte list \<Rightarrow> byte list \<Rightarrow> bool res"
  and matchstar :: "byte \<Rightarrow> byte list \<Rightarrow> byte list \<Rightarrow> bool res" where
  "matchhere re text = bindR (rdR re 0) (\<lambda>c.
     if c = 0 then Inr True
     else bindR (rdR re 1) (\<lambda>d.
       if d = 42 then matchstar c (drop 2 re) text
       else if c = 36 \<and> d = 0 then mapR (\<lambda>t. t = 0) (rdR text 0)
       else bindR (rdR text 0) (\<lambda>t.
         if t \<noteq> 0 \<and> (c = 46 \<or> c = t) then matchhere (drop 1 re) (drop 1 text)
         else Inr False)))"
| "matchstar c re text = bindR (matchhere re text) (\<lambda>m.
     if m then Inr True
     else bindR (rdR text 0) (\<lambda>t.
       if t \<noteq> 0 \<and> (t = c \<or> c = 46) then matchstar c re (drop 1 text)
       else Inr False))"
  by pat_completeness auto
termination
  by (relation "measures [case_sum (\<lambda>(re, text). length re) (\<lambda>(c, re, text). length re),
        case_sum (\<lambda>(re, text). length text) (\<lambda>(c, re, text). length text), case_sum (\<lambda>_. 0) (\<lambda>_. 1)]")
    (auto simp: rdR_eq_Inr)

declare matchhere.simps [simp del] matchstar.simps [simp del]

text \<open>The \<open>do\<close> loop of \<open>match\<close>: it looks at the end of the text as well.\<close>

function match_loop :: "byte list \<Rightarrow> byte list \<Rightarrow> bool res" where
  "match_loop re text = bindR (matchhere re text) (\<lambda>m.
     if m then Inr True
     else bindR (rdR text 0) (\<lambda>t. if t \<noteq> 0 then match_loop re (drop 1 text) else Inr False))"
  by pat_completeness auto
termination by (relation "measure (\<lambda>(re, text). length text)") (auto simp: rdR_eq_Inr)

declare match_loop.simps [simp del]

definition match :: "byte list \<Rightarrow> byte list \<Rightarrow> bool res" where
  "match re text = bindR (rdR re 0) (\<lambda>c. if c = 94 then matchhere (drop 1 re) text else match_loop re text)"

section \<open>What a pattern means\<close>

datatype piece = One byte | Star byte

definition sym :: "byte \<Rightarrow> byte set" where
  "sym c = (if c = 46 then UNIV else {c})"

primrec lang :: "piece \<Rightarrow> byte list set" where
  "lang (One c) = {[x] | x. x \<in> sym c}"
| "lang (Star c) = lists (sym c)"

primrec words_of :: "piece list \<Rightarrow> byte list set" where
  "words_of [] = {[]}"
| "words_of (p # ps) = {u @ v | u v. u \<in> lang p \<and> v \<in> words_of ps}"

text \<open>The pieces of a pattern, and whether it ends in the anchor \<open>$\<close>.\<close>

fun pieces :: "byte list \<Rightarrow> piece list \<times> bool" where
  "pieces [] = ([], False)"
| "pieces [c] = (if c = 36 then ([], True) else ([One c], False))"
| "pieces (c # d # r) =
     (if d = 42 then case pieces r of (ps, e) \<Rightarrow> (Star c # ps, e)
      else case pieces (d # r) of (ps, e) \<Rightarrow> (One c # ps, e))"

definition starts :: "piece list \<Rightarrow> bool \<Rightarrow> byte list \<Rightarrow> bool" where
  "starts ps e t \<longleftrightarrow> (\<exists>u v. t = u @ v \<and> u \<in> words_of ps \<and> (e \<longrightarrow> v = []))"

definition begins :: "byte list \<Rightarrow> byte list \<Rightarrow> bool" where
  "begins p t \<longleftrightarrow> starts (fst (pieces p)) (snd (pieces p)) t"

definition contains :: "byte list \<Rightarrow> byte list \<Rightarrow> bool" where
  "contains p t \<longleftrightarrow>
     (case p of c # q \<Rightarrow> if c = 94 then begins q t else (\<exists>s v. t = s @ v \<and> begins p v) | [] \<Rightarrow> True)"

section \<open>The matcher decides it\<close>

lemma starts_nil: "starts [] e t \<longleftrightarrow> (e \<longrightarrow> t = [])"
  by (simp add: starts_def)

lemma starts_Cons: "starts (p # ps) e t \<longleftrightarrow> (\<exists>u w. t = u @ w \<and> u \<in> lang p \<and> starts ps e w)"
proof
  assume "starts (p # ps) e t"
  then obtain x v where "t = x @ v" "x \<in> words_of (p # ps)" "e \<longrightarrow> v = []"
    unfolding starts_def by blast
  moreover from this obtain u w where "x = u @ w" "u \<in> lang p" "w \<in> words_of ps" by auto
  ultimately show "\<exists>u w. t = u @ w \<and> u \<in> lang p \<and> starts ps e w"
    unfolding starts_def by (intro exI [of _ u] exI [of _ "w @ v"]) auto
next
  assume "\<exists>u w. t = u @ w \<and> u \<in> lang p \<and> starts ps e w"
  then obtain u w v where "t = u @ w @ v" "u \<in> lang p" "w \<in> words_of ps" "e \<longrightarrow> v = []"
    unfolding starts_def by blast
  then show "starts (p # ps) e t"
    unfolding starts_def by (intro exI [of _ "u @ w"] exI [of _ v]) auto
qed

lemma starts_One: "starts (One c # ps) e t \<longleftrightarrow> (\<exists>x t'. t = x # t' \<and> x \<in> sym c \<and> starts ps e t')"
proof
  assume "starts (One c # ps) e t"
  then show "\<exists>x t'. t = x # t' \<and> x \<in> sym c \<and> starts ps e t'" unfolding starts_Cons by auto
next
  assume "\<exists>x t'. t = x # t' \<and> x \<in> sym c \<and> starts ps e t'"
  then obtain x t' where "t = [x] @ t'" "[x] \<in> lang (One c)" "starts ps e t'" by auto
  then show "starts (One c # ps) e t" unfolding starts_Cons by blast
qed

lemma begins_nil [simp]: "begins [] t"
  by (simp add: begins_def starts_nil)

lemma begins_end [simp]: "begins [36] t \<longleftrightarrow> t = []"
  by (simp add: begins_def starts_nil)

lemma begins_star: "begins (c # 42 # r) t \<longleftrightarrow> begins r t \<or> (\<exists>x t'. t = x # t' \<and> x \<in> sym c \<and> begins (c # 42 # r) t')"
proof -
  have b: "begins (c # 42 # r) t \<longleftrightarrow> (\<exists>u w. t = u @ w \<and> u \<in> lists (sym c) \<and> begins r w)" for t
    by (simp add: begins_def starts_Cons split: prod.split)
  show ?thesis
  proof
    assume "begins (c # 42 # r) t"
    then obtain u w where t: "t = u @ w" "u \<in> lists (sym c)" "begins r w" unfolding b by blast
    show "begins r t \<or> (\<exists>x t'. t = x # t' \<and> x \<in> sym c \<and> begins (c # 42 # r) t')"
    proof (cases u)
      case (Cons x u')
      then have "begins (c # 42 # r) (u' @ w)" using t unfolding b by auto
      then show ?thesis using Cons t by auto
    qed (use t in simp)
  next
    assume "begins r t \<or> (\<exists>x t'. t = x # t' \<and> x \<in> sym c \<and> begins (c # 42 # r) t')"
    then show "begins (c # 42 # r) t"
      unfolding b by (metis append_Cons append_Nil lists.Cons lists.Nil)
  qed
qed

lemma begins_one: "c \<noteq> 36 \<or> r \<noteq> [] \<Longrightarrow> (\<forall>r'. r \<noteq> 42 # r') \<Longrightarrow>
  begins (c # r) t \<longleftrightarrow> (\<exists>x t'. t = x # t' \<and> x \<in> sym c \<and> begins r t')"
  by (cases r) (auto simp: begins_def starts_One starts_nil split: prod.split)

lemma matchstar_begins:
  assumes "\<And>t. 0 \<notin> set t \<Longrightarrow> matchhere re (t @ 0 # r) = Inr (begins p t)" "0 \<notin> set t" "c \<noteq> 0"
  shows "matchstar c re (t @ 0 # r) = Inr (begins (c # 42 # p) t)"
  using assms(2)
proof (induction t)
  case Nil
  then show ?case using assms(1) [of "[]"] by (simp add: matchstar.simps [of c re "0 # r"] begins_star [of c p "[]"])
next
  case (Cons x t)
  then have "matchhere re (x # t @ 0 # r) = Inr (begins p (x # t))" using assms(1) [of "x # t"] by simp
  then show ?case
    using Cons assms(3) by (auto simp: matchstar.simps [of c re "x # t @ 0 # r"] begins_star [of c p "x # t"] sym_def)
qed

lemma matchhere_begins:
  "0 \<notin> set p \<Longrightarrow> 0 \<notin> set t \<Longrightarrow> matchhere (p @ 0 # q) (t @ 0 # r) = Inr (begins p t)"
proof (induction p arbitrary: t rule: length_induct)
  case (1 p)
  have IH: "matchhere (p' @ 0 # q) (t @ 0 # r) = Inr (begins p' t)" if "length p' < length p" "set p' \<subseteq> set p" "0 \<notin> set t" for p' t
    using 1 that by blast
  show ?case
  proof (cases p)
    case Nil
    then show ?thesis by (simp add: matchhere.simps)
  next
    case (Cons c p1)
    have c: "c \<noteq> 0" using Cons 1(2) by auto
    show ?thesis
    proof (cases p1)
      case Nil
      then show ?thesis
        using Cons c 1(3) by (cases t) (auto simp: matchhere.simps begins_one sym_def)
    next
      case p1: (Cons d p2)
      show ?thesis
      proof (cases "d = 42")
        case True
        have "matchstar c (p2 @ 0 # q) (t @ 0 # r) = Inr (begins (c # 42 # p2) t)"
          by (rule matchstar_begins) (use IH [of p2] Cons p1 1(3) c in auto)
        then show ?thesis using Cons p1 c True by (simp add: matchhere.simps [of "c # 42 # p2 @ 0 # q"])
      next
        case False
        have d: "d \<noteq> 0" using Cons p1 1(2) by auto
        have one: "begins p t \<longleftrightarrow> (\<exists>x t'. t = x # t' \<and> x \<in> sym c \<and> begins p1 t')"
          using begins_one [of c p1 t] False Cons p1 by simp
        show ?thesis
        proof (cases t)
          case Nil
          then show ?thesis unfolding one using Cons p1 c False d by (simp add: matchhere.simps)
        next
          case t: (Cons x t')
          have "matchhere (p1 @ 0 # q) (t' @ 0 # r) = Inr (begins p1 t')" using IH [of p1 t'] Cons 1(3) t by auto
          then show ?thesis
            unfolding one using Cons p1 c False d t 1(3) by (auto simp: matchhere.simps [of "c # d # p2 @ 0 # q"] sym_def)
        qed
      qed
    qed
  qed
qed

lemma match_loop_begins:
  "0 \<notin> set p \<Longrightarrow> 0 \<notin> set t \<Longrightarrow> match_loop (p @ 0 # q) (t @ 0 # r) = Inr (\<exists>s v. t = s @ v \<and> begins p v)"
proof (induction t)
  case Nil
  then show ?case using matchhere_begins [of p "[]" q r] by (simp add: match_loop.simps)
next
  case (Cons x t)
  have "(\<exists>s v. x # t = s @ v \<and> begins p v) \<longleftrightarrow> begins p (x # t) \<or> (\<exists>s v. t = s @ v \<and> begins p v)"
    by (metis Cons_eq_append_conv append_Cons append_Nil)
  then show ?case
    using Cons matchhere_begins [of p "x # t" q r] by (simp add: match_loop.simps [of "p @ 0 # q" "x # t @ 0 # r"])
qed

lemma match_contains:
  assumes "0 \<notin> set p" "0 \<notin> set t"
  shows "match (p @ 0 # q) (t @ 0 # r) = Inr (contains p t)"
proof (cases p)
  case Nil
  then show ?thesis
    using match_loop_begins [of "[]" t q r] assms(2) by (auto simp: match_def contains_def)
next
  case (Cons c p')
  then show ?thesis
    using match_loop_begins [OF assms, of q r] matchhere_begins [of p' t q r] assms by (simp add: match_def contains_def)
qed

text \<open>
  C26. The matcher of \<open>grep\<close> decides the regular language of its pattern: \<open>match\<close> on a pattern and a line finds out
  whether the line contains a word of the language, at the place that the anchors ask for; it always returns.
\<close>

theorem match_decides:
  assumes "0 \<notin> set p" "0 \<notin> set t"
  shows "match (p @ 0 # q) (t @ 0 # r) = Inr (contains p t)"
  by (rule match_contains [OF assms])

theorem match_decides_witness:
  "match (bytes_of ''^a.*c$'' @ [0]) (bytes_of ''abbc'' @ [0]) = Inr (contains (bytes_of ''^a.*c$'') (bytes_of ''abbc''))"
  by (rule match_decides) (simp_all add: bytes_of_def)


section \<open>Reading the files\<close>

text \<open>
  The inner loop of \<open>grep\<close>, on the buffer and the offset \<open>p\<close>: a line is cut_lines off with a NUL, which its newline
  replaces again when the line is printed. Each turn consumes a byte of the buffer, so its length is enough fuel.
\<close>

primrec grep_lines :: "nat \<Rightarrow> byte list \<Rightarrow> 's sys \<Rightarrow> byte list \<Rightarrow> nat \<Rightarrow> ('s, byte list \<times> nat) prog" where
  "grep_lines 0 pattern sys buf p = stopS Hang"
| "grep_lines (Suc k) pattern sys buf p = bindS (liftS (strchr (drop p buf) 10)) (\<lambda>q. case q of
       None \<Rightarrow> retS (buf, p)
     | Some i \<Rightarrow>
         let q = p + i; buf = buf[q := 0] in
         bindS (liftS (match pattern (drop p buf))) (\<lambda>m.
           if m then
             let buf = buf[q := 10] in
             bindS (s_write sys 1 (take (q + 1 - p) (drop p buf))) (\<lambda>_. grep_lines k pattern sys buf (q + 1))
           else grep_lines k pattern sys buf (q + 1)))"

primrec grep_loop :: "nat \<Rightarrow> byte list \<Rightarrow> 's sys \<Rightarrow> u32 \<Rightarrow> byte list \<Rightarrow> nat \<Rightarrow> ('s, byte list) prog" where
  "grep_loop 0 pattern sys fd buf m = stopS Hang"
| "grep_loop (Suc k) pattern sys fd buf m = bindS (s_read sys fd (of_nat (1024 - m - 1))) (\<lambda>(n, bs).
     let buf = put_at m bs buf in
     if 0 <s n then
       let m = m + unat n; buf = buf[m := 0] in
       bindS (grep_lines (length buf) pattern sys buf 0) (\<lambda>(buf, p).
         let m = m - p in
         bindS (liftS (memmove buf 0 p m)) (\<lambda>buf. grep_loop k pattern sys fd buf m))
     else retS buf)"

definition grep :: "nat \<Rightarrow> byte list \<Rightarrow> 's sys \<Rightarrow> u32 \<Rightarrow> byte list \<Rightarrow> ('s, byte list) uprog" where
  "grep fuel pattern sys fd buf = callU (grep_loop fuel pattern sys fd buf 0)"

definition grep_main :: "nat \<Rightarrow> 's sys \<Rightarrow> byte list list \<Rightarrow> ('s, u32) uprog" where
  "grep_main fuel sys argv =
     (if length argv \<le> 1 then bindU (fprintf sys 2 (line ''usage: grep pattern [file ...]'') []) (\<lambda>_. exitU 1)
      else let pattern = argv ! 1; buf = replicate 1024 0 in
        if length argv \<le> 2 then bindU (grep fuel pattern sys 0 buf) (\<lambda>_. exitU 0)
        else bindU (each_file (\<lambda>_. grep fuel pattern sys) (\<lambda>a. printf sys (line ''grep: cannot open %s'') [VPtr (Some a)]) sys
          (drop 2 argv) buf) (\<lambda>_. exitU 0))"

text \<open>The lines of a text, without their newlines, and what follows the last newline.\<close>

primrec cut_lines :: "byte list \<Rightarrow> byte list list \<times> byte list" where
  "cut_lines [] = ([], [])"
| "cut_lines (c # xs) = (case cut_lines xs of (ls, r) \<Rightarrow>
     if c = 10 then ([] # ls, r) else case ls of [] \<Rightarrow> ([], c # r) | l # ls \<Rightarrow> ((c # l) # ls, r))"

lemma cut_line: "10 \<notin> set w \<Longrightarrow> cut_lines (w @ 10 # xs) = (w # fst (cut_lines xs), snd (cut_lines xs))" "10 \<notin> set w \<Longrightarrow> cut_lines w = ([], w)"
  by (induction w) (auto split: prod.split)

lemma cut_append: "cut_lines (u @ v) = (fst (cut_lines u) @ fst (cut_lines (snd (cut_lines u) @ v)), snd (cut_lines (snd (cut_lines u) @ v)))"
proof (induction u)
  case (Cons c u)
  then show ?case by (cases "cut_lines u"; cases "fst (cut_lines u)") (auto split: prod.split list.split)
qed simp

lemma cut_rest: "10 \<notin> set (snd (cut_lines xs))" "concat (map (\<lambda>l. l @ [10]) (fst (cut_lines xs))) @ snd (cut_lines xs) = xs"
  by (induction xs) (auto split: prod.split list.split)

lemma memmove_front:
  "memmove (a @ b @ z) 0 (length a) (length b) = Inr (b @ drop (length b) (a @ b @ z))"
  using memmove_moves [of 0 "length b" "a @ b @ z" "length a"] by (simp add: put_at_def span_at_def)

lemma cut_buffer:
  assumes "length a = p" "10 \<notin> set w"
  shows "(a @ w @ 10 # d)[p + length w := 0] = a @ w @ 0 # d" "(a @ w @ 0 # d)[p + length w := 10] = a @ w @ 10 # d"
  using assms by (simp_all add: list_update_append)

context streams
begin

lemma grep_lines_stream:
  assumes "0 \<notin> set pat"
  shows "0 \<notin> set ys \<Longrightarrow> length ys < fuel \<Longrightarrow> length ys < 1024 \<Longrightarrow> con s 1 \<Longrightarrow>
   \<exists>t a'. grep_lines fuel (pat @ [0]) sys (a @ ys @ 0 # z) (length a) s = Inr ((a' @ snd (cut_lines ys) @ 0 # z, length a'), t) \<and>
     length a' + length (snd (cut_lines ys)) = length a + length ys \<and> inp t = inp s \<and> files t = files s \<and> con t = con s \<and>
     out t = out s @ map (Pair 1) (concat (map (\<lambda>l. l @ [10]) (filter (contains pat) (fst (cut_lines ys)))))"
proof (induction fuel arbitrary: s a ys)
  case (Suc k)
  show ?case
  proof (cases "10 \<in> set ys")
    case False
    then show ?thesis using Suc.prems(1) by (intro exI [of _ s] exI [of _ a]) (simp add: strchr_newline cut_line(2))
  next
    case True
    then obtain w d where y: "ys = w @ 10 # d" and w: "10 \<notin> set w" using split_list_first by metis
    have w0: "0 \<notin> set w" and d: "0 \<notin> set d" "length d < k" "length d < 1024" "length w < 1024" using Suc.prems y by auto
    have c: "cut_lines ys = (w # fst (cut_lines d), snd (cut_lines d))" unfolding y by (rule cut_line(1) [OF w])
    have e: "strchr (w @ 10 # d @ 0 # z) 10 = Inr (Some (length w))" using w w0 by (induction w) auto
    define hit where "hit = contains pat w"
    have m: "match (pat @ [0]) (w @ 0 # d @ 0 # z) = Inr hit" unfolding hit_def by (rule match_contains [OF assms w0])
    obtain v where v: "s_write sys 1 (w @ [10]) s = Inr (of_nat (length (w @ [10])), v)" "inp v = inp s"
      "out v = out s @ map (Pair 1) (w @ [10])" "files v = files s" "con v = con s"
      using write_law [of s 1 "w @ [10]"] d(4) Suc.prems(4) by auto
    define v' where "v' = (if hit then v else s)"
    have c': "con v' 1" using Suc.prems(4) v(5) by (simp add: v'_def)
    define a1 where "a1 = a @ w @ [if hit then 10 else 0]"
    obtain t a' where t: "grep_lines k (pat @ [0]) sys (a1 @ d @ 0 # z) (length a1) v' = Inr ((a' @ snd (cut_lines d) @ 0 # z, length a'), t)"
      "length a' + length (snd (cut_lines d)) = length a1 + length d" "inp t = inp v'" "files t = files v'"
      "out t = out v' @ map (Pair 1) (concat (map (\<lambda>l. l @ [10]) (filter (contains pat) (fst (cut_lines d)))))"
      "con t = con v'"
      using Suc.IH [OF d(1-3) c', of a1] by blast
    have l: "length a1 = length a + length w + 1" by (simp add: a1_def)
    have "grep_lines (Suc k) (pat @ [0]) sys (a @ w @ 10 # d @ 0 # z) (length a) s = Inr ((a' @ snd (cut_lines d) @ 0 # z, length a'), t)"
      using e m v(1) t(1) cut_buffer [OF refl w, of a "d @ 0 # z"] unfolding l by (cases hit) (simp_all add: a1_def v'_def Let_def)
    then show ?thesis
      using t v unfolding c by (cases hit) (auto simp: y v'_def a1_def hit_def intro!: exI [of _ t] exI [of _ a'])
  qed
qed simp

end

text \<open>What \<open>grep\<close> keeps of a text.\<close>

definition hits :: "byte list \<Rightarrow> byte list \<Rightarrow> byte list" where
  "hits pat xs = concat (map (\<lambda>l. l @ [10]) (filter (contains pat) (fst (cut_lines xs))))"

definition lines_of :: "byte list \<Rightarrow> byte list list" where
  "lines_of xs = fst (cut_lines xs) @ [snd (cut_lines xs)]"

lemma hits_append: "hits pat (u @ v) = hits pat u @ hits pat (snd (cut_lines u) @ v)"
  unfolding hits_def by (subst cut_append) simp

lemma lines_of_append: "set (lines_of (snd (cut_lines u) @ v)) \<subseteq> set (lines_of (u @ v))"
  unfolding lines_of_def by (subst (3 4) cut_append) auto

lemma lines_of_front: "10 \<notin> set c \<Longrightarrow> length c \<le> length (hd (lines_of (c @ xs)))"
  by (induction c) (auto simp: lines_of_def split: prod.split list.split)

context streams
begin

lemma grep_stream:
  assumes "0 \<notin> set pat"
  shows "inp s fd = Some xs \<Longrightarrow> 0 \<notin> set (c @ xs) \<Longrightarrow> 10 \<notin> set c \<Longrightarrow> \<forall>l \<in> set (lines_of (c @ xs)). length l < 1023 \<Longrightarrow>
   length xs < fuel \<Longrightarrow> length (c @ z) = 1024 \<Longrightarrow> con s 1 \<Longrightarrow>
   \<exists>t buf'. grep_loop fuel (pat @ [0]) sys fd (c @ z) (length c) s = Inr (buf', t) \<and> length buf' = 1024 \<and>
     inp t = (inp s)(fd \<mapsto> []) \<and> files t = files s \<and> con t = con s \<and> out t = out s @ map (Pair 1) (hits pat (c @ xs))"
proof (induction fuel arbitrary: s xs c z)
  case (Suc k)
  have "hd (lines_of (c @ xs)) \<in> set (lines_of (c @ xs))" by (rule hd_in_set) (simp add: lines_of_def)
  then have c: "length c < 1023" using Suc.prems(4) lines_of_front [OF Suc.prems(3), of xs] by fastforce
  have "1024 - length c - 1 \<le> 4096" "0 < 1024 - length c - 1" using c by simp_all
  then have n: "0 < (of_nat (1024 - length c - 1) :: u32)" "unat (of_nat (1024 - length c - 1) :: u32) = 1023 - length c"
    unfolding word_less_nat_alt using small_word(3) [of "1024 - length c - 1"] by (simp_all del: of_nat_diff)
  have n3: "unat (of_nat (1024 - length c - 1) :: u32) \<le> 4096" unfolding n(2) by linarith
  obtain ys zs t where r: "s_read sys fd (of_nat (1024 - length c - 1)) s = Inr ((of_nat (length ys), ys), t)" "xs = ys @ zs"
    "length ys \<le> 1023 - length c" "ys = [] \<Longrightarrow> xs = []" "inp t = (inp s)(fd \<mapsto> zs)" "out t = out s" "files t = files s"
    "con t = con s"
    using read_law [OF Suc.prems(1) n(1) n3] unfolding n(2) by metis
  show ?case
  proof (cases "ys = []")
    case True
    then have "xs = []" "zs = []" using r(2,4) by auto
    then show ?thesis
      using r True Suc.prems(3,6) by (intro exI [of _ t] exI [of _ "c @ z"]) (simp add: hits_def cut_line(2) put_at_def)
  next
    case False
    have y: "length ys \<le> 4096" using r(3) by simp
    have zl: "length ys < length z" using r(3) c Suc.prems(6) by simp
    define z' where "z' = drop (Suc (length ys)) z"
    have b: "(put_at (length c) ys (c @ z))[length c + length ys := 0] = [] @ (c @ ys) @ 0 # z'"
      using zl by (simp add: put_at_def z'_def list_update_append Cons_nth_drop_Suc [symmetric])
    have pl: "length (put_at (length c) ys (c @ z)) = 1024" using Suc.prems(6) zl by simp
    have "0 \<notin> set (c @ ys)" "length (c @ ys) < 1024"
      using Suc.prems(2,6) r(2,3) c zl by auto
    then obtain u a where u: "grep_lines 1024 (pat @ [0]) sys ([] @ (c @ ys) @ 0 # z') 0 t =
        Inr ((a @ snd (cut_lines (c @ ys)) @ 0 # z', length a), u)"
      "length a + length (snd (cut_lines (c @ ys))) = length (c @ ys)" "inp u = inp t" "files u = files t"
      "out u = out t @ map (Pair 1) (hits pat (c @ ys))" "con u = con t"
      using grep_lines_stream [OF assms, of "c @ ys" 1024 t "[]" z'] Suc.prems(7) r(8) unfolding hits_def by auto
    define d where "d = snd (cut_lines (c @ ys))"
    have m: "length c + length ys - length a = length d" using u(2) by (simp add: d_def)
    have mm: "memmove (a @ d @ 0 # z') 0 (length a) (length d) = Inr (d @ drop (length d) (a @ d @ 0 # z'))"
      by (rule memmove_front)
    have len: "length a + length d + 1 + length z' = 1024" using u(2) zl Suc.prems(6) by (simp add: d_def z'_def)
    have dc: "set d \<subseteq> set (c @ ys)" using cut_rest(2) [of "c @ ys"] unfolding d_def by (metis Un_upper2 set_append)
    have "\<exists>v buf'. grep_loop k (pat @ [0]) sys fd (d @ drop (length d) (a @ d @ 0 # z')) (length d) u = Inr (buf', v) \<and> length buf' = 1024 \<and>
       inp v = (inp u)(fd \<mapsto> []) \<and> files v = files u \<and> con v = con u \<and> out v = out u @ map (Pair 1) (hits pat (d @ zs))"
    proof (rule Suc.IH)
      show "inp u fd = Some zs" using u(3) r(5) by simp
      show "0 \<notin> set (d @ zs)" using dc Suc.prems(2) r(2) by auto
      show "10 \<notin> set d" unfolding d_def by (rule cut_rest)
      show "\<forall>l \<in> set (lines_of (d @ zs)). length l < 1023"
        using Suc.prems(4) lines_of_append [of "c @ ys" zs] unfolding d_def r(2) by auto
      have "0 < length ys" using False by simp
      then show "length zs < k" using Suc.prems(5) unfolding r(2) length_append by linarith
      show "length (d @ drop (length d) (a @ d @ 0 # z')) = 1024" using len by simp
      show "con u 1" using u(6) r(8) Suc.prems(7) by simp
    qed
    then obtain v buf' where v: "grep_loop k (pat @ [0]) sys fd (d @ drop (length d) (a @ d @ 0 # z')) (length d) u = Inr (buf', v)"
      "length buf' = 1024" "inp v = (inp u)(fd \<mapsto> [])" "files v = files u" "con v = con u" "out v = out u @ map (Pair 1) (hits pat (d @ zs))" by blast
    have "grep_loop (Suc k) (pat @ [0]) sys fd (c @ z) (length c) s = Inr (buf', v)"
      using r(1) small_word [OF y] False b u(1) m mm v(1) pl unfolding d_def [symmetric] by (simp add: Let_def)
    moreover have "inp v = (inp s)(fd \<mapsto> [])" using v(3) u(3) r(5) by simp
    moreover have "hits pat (c @ xs) = hits pat (c @ ys) @ hits pat (d @ zs)"
      using hits_append [of pat "c @ ys" zs] unfolding d_def r(2) by simp
    ultimately show ?thesis using v u(4-6) r(6-8) by (intro exI [of _ v] exI [of _ buf']) simp
  qed
qed simp

end

text \<open>
  C25. \<open>grep\<close> prints on descriptor 1, in order, the lines of its input that contain a word of the pattern's language, however the reads
  cut the input, and returns. The lines are those that end in a newline, all shorter than the buffer: what
  follows the last newline is never printed.
\<close>

theorem grep_filters:
  assumes "streams sys files inp out con" "inp s fd = Some xs" "con s 1" "0 \<notin> set pat" "0 \<notin> set xs"
    "\<forall>l \<in> set (lines_of xs). length l < 1023" "length xs < fuel" "length buf = 1024"
  shows "\<exists>t buf'. grep fuel (pat @ [0]) sys fd buf s = Inr (Inr buf', t) \<and> inp t = (inp s)(fd \<mapsto> []) \<and>
    out t = out s @ map (Pair 1) (concat (map (\<lambda>l. l @ [10]) (filter (contains pat) (fst (cut_lines xs)))))"
  using streams.grep_stream [OF assms(1,4,2), of "[]" fuel buf] assms(3,5-)
  by (auto simp: grep_def callU_def hits_def)

theorem grep_filters_witness:
  "\<exists>t. (\<exists>buf. grep 12 (lit ''a.*c'') world_sys 0 (replicate 1024 0) (small_world (bytes_of (line ''xabbc'' @ line ''cb''))) = Inr (Inr buf, t)) \<and>
     w_out t = map (Pair 1) (bytes_of (line ''xabbc''))"
proof -
  let ?xs = "bytes_of (line ''xabbc'' @ line ''cb'')"
  have c: "cut_lines ?xs = ([bytes_of ''xabbc'', bytes_of ''cb''], [])" by code_simp
  have "match (bytes_of ''a.*c'' @ 0 # []) (bytes_of ''xabbc'' @ 0 # []) = Inr True" "match (bytes_of ''a.*c'' @ 0 # []) (bytes_of ''cb'' @ 0 # []) = Inr False"
    by code_simp+
  moreover have z: "0 \<notin> set (bytes_of ''a.*c'')" "0 \<notin> set (bytes_of ''xabbc'')" "0 \<notin> set (bytes_of ''cb'')" "0 \<notin> set ?xs"
    by (simp_all add: bytes_of_def line_def)
  ultimately have h: "contains (bytes_of ''a.*c'') (bytes_of ''xabbc'')" "\<not> contains (bytes_of ''a.*c'') (bytes_of ''cb'')"
    using match_contains [OF z(1,2), of "[]" "[]"] match_contains [OF z(1,3), of "[]" "[]"] by simp_all
  show ?thesis
    using grep_filters [where sys = world_sys and files = w_files and inp = w_inp and out = w_out and con = "\<lambda>_ _. True" and fd = 0 and fuel = 12 and
      buf = "replicate 1024 0" and s = "small_world ?xs" and xs = ?xs and pat = "bytes_of ''a.*c''", OF files.streams_axioms _ _ z(1,4)]
    by (auto simp: lines_of_def c h lit_def) (auto simp: bytes_of_def line_def)
qed

end
