(* ===== verification/Scanf.thy ===== *)
theory Scanf
  imports Coreutils LibStdlib
begin

text \<open>
  \<open>user/ulib/scanf.c\<close>: characters from descriptor 0 through a buffer of 256 bytes, \<open>getline\<close> and \<open>scanf\<close>.

  The static variables are a record that every call takes and returns. \<open>gets\<close> returns the bytes that the source
  stores from its argument on, the NUL included; \<open>scanf\<close> returns what it stores through its pointers, in order. The
  loops that skip characters have fuel.
\<close>

section \<open>The code\<close>

record stdin =
  sin_buf :: "byte list"
  sin_head :: u32
  sin_tail :: u32

definition stdin0 :: stdin where
  "stdin0 = \<lparr>sin_buf = replicate 256 0, sin_head = 0, sin_tail = 0\<rparr>"

definition refill :: "'s sys \<Rightarrow> stdin \<Rightarrow> ('s, u32 \<times> stdin) prog" where
  "refill sys b = bindS (s_read sys 0 256) (\<lambda>(n, bs).
     retS (n, \<lparr>sin_buf = put_at 0 bs (sin_buf b), sin_head = 0, sin_tail = n\<rparr>))"

text \<open>\<open>head == tail && refill() == 0\<close>\<close>

definition at_end :: "'s sys \<Rightarrow> stdin \<Rightarrow> ('s, bool \<times> stdin) prog" where
  "at_end sys b = (if sin_head b = sin_tail b then bindS (refill sys b) (\<lambda>(n, b). retS (n = 0, b)) else retS (False, b))"

definition getchar :: "'s sys \<Rightarrow> stdin \<Rightarrow> ('s, byte \<times> stdin) prog" where
  "getchar sys b = bindS (at_end sys b) (\<lambda>(e, b).
     if e then retS (0, b)
     else bindS (liftS (rdR (sin_buf b) (unat (sin_head b)))) (\<lambda>c. retS (c, b\<lparr>sin_head := sin_head b + 1\<rparr>)))"

definition peekchar :: "'s sys \<Rightarrow> stdin \<Rightarrow> ('s, byte \<times> stdin) prog" where
  "peekchar sys b = bindS (at_end sys b) (\<lambda>(e, b).
     if e then retS (0, b) else bindS (liftS (rdR (sin_buf b) (unat (sin_head b)))) (\<lambda>c. retS (c, b)))"

primrec remove_space :: "nat \<Rightarrow> 's sys \<Rightarrow> stdin \<Rightarrow> ('s, stdin) prog" where
  "remove_space 0 sys b = stopS Hang"
| "remove_space (Suc k) sys b = bindS (peekchar sys b) (\<lambda>(ch, b).
     if ch \<noteq> 0 \<and> isspace ch then bindS (getchar sys b) (\<lambda>(_, b). remove_space k sys b) else retS b)"

text \<open>The \<open>for\<close> loop with \<open>n\<close> turns left: what it stores, and whether it has left by \<open>goto fin\<close>.\<close>

primrec gets_loop :: "nat \<Rightarrow> 's sys \<Rightarrow> byte list \<Rightarrow> bool \<Rightarrow> stdin \<Rightarrow> ('s, byte list \<times> bool \<times> stdin) prog" where
  "gets_loop 0 sys delim contain b = retS ([], False, b)"
| "gets_loop (Suc n) sys delim contain b = bindS (peekchar sys b) (\<lambda>(ch, b).
     if ch = 0 then retS ([], True, b)
     else bindS (liftS (strchr delim ch)) (\<lambda>d.
       if d \<noteq> None then
         if contain then bindS (getchar sys b) (\<lambda>(c, b). retS ([c], True, b)) else retS ([], True, b)
       else bindS (getchar sys b) (\<lambda>(c, b). bindS (gets_loop n sys delim contain b) (\<lambda>(cs, fin, b). retS (c # cs, fin, b)))))"

primrec throw_loop :: "nat \<Rightarrow> 's sys \<Rightarrow> byte list \<Rightarrow> stdin \<Rightarrow> ('s, stdin) prog" where
  "throw_loop 0 sys delim b = stopS Hang"
| "throw_loop (Suc k) sys delim b = bindS (peekchar sys b) (\<lambda>(ch, b).
     if ch = 0 then retS b
     else bindS (liftS (strchr delim ch)) (\<lambda>d.
       if d \<noteq> None then retS b else bindS (getchar sys b) (\<lambda>(_, b). throw_loop k sys delim b)))"

definition gets :: "nat \<Rightarrow> 's sys \<Rightarrow> u32 \<Rightarrow> byte list \<Rightarrow> bool \<Rightarrow> bool \<Rightarrow> stdin \<Rightarrow> ('s, byte list \<times> stdin) prog" where
  "gets fuel sys sz delim throw contain b =
     bindS (gets_loop (unat (sz - 1)) sys delim contain b) (\<lambda>(cs, fin, b).
       bindS (if throw \<and> \<not> fin then throw_loop fuel sys delim b else retS b) (\<lambda>b. retS (cs @ [0], b)))"

definition getline :: "'s sys \<Rightarrow> byte list \<Rightarrow> u32 \<Rightarrow> stdin \<Rightarrow> ('s, byte list \<times> stdin) prog" where
  "getline sys buf sz b = bindS (gets 0 sys sz [10, 0] False True b) (\<lambda>(cs, b).
     if length cs \<le> length buf then retS (put_at 0 cs buf, b) else stopS Undef)"

text \<open>What a directive stores: a \<open>char\<close>, a string or a \<open>long\<close>.\<close>

datatype sval = SChar byte | SStr "byte list" | SLong u32

text \<open>The number that \<open>%d\<close>, \<open>%u\<close> and \<open>%x\<close> store, as \<open>strtol\<close> or \<open>strtoul\<close> reads it from a buffer of 32 bytes.\<close>

definition scan_long :: "nat \<Rightarrow> 's sys \<Rightarrow> bool \<Rightarrow> int \<Rightarrow> stdin \<Rightarrow> ('s, u32 \<times> stdin) prog" where
  "scan_long fuel sys sign base b = bindS (remove_space fuel sys b) (\<lambda>b.
     bindS (gets fuel sys 32 [32, 9, 10, 0] True False b) (\<lambda>(cs, b).
     bindS (liftS (if sign then strtol cs base else strtoul cs base)) (\<lambda>(v, _). retS (v, b))))"

fun scanf_loop :: "nat \<Rightarrow> 's sys \<Rightarrow> byte list \<Rightarrow> u32 \<Rightarrow> stdin \<Rightarrow> ('s, u32 \<times> sval list \<times> stdin) prog" where
  "scanf_loop fuel sys [] res b = stopS Undef"
| "scanf_loop fuel sys (c # p) res b =
     (if c = 0 then retS (res, [], b)
      else if isspace c then bindS (remove_space fuel sys b) (scanf_loop fuel sys p res)
      else if c = 37 then
        (case p of
           [] \<Rightarrow> stopS Undef
         | d # q \<Rightarrow>
             let store = (\<lambda>m. bindS m (\<lambda>(v, b). bindS (scanf_loop fuel sys q (res + 1) b) (\<lambda>(r, vs, b). retS (r, v # vs, b)))) in
             if d = 99 then store (bindS (getchar sys b) (\<lambda>(c, b). retS (SChar c, b)))
             else if d = 115 then store (bindS (remove_space fuel sys b) (\<lambda>b.
               bindS (gets fuel sys (- 1) [32, 9, 10, 0] True False b) (\<lambda>(cs, b). retS (SStr cs, b))))
             else if d = 100 then store (bindS (scan_long fuel sys True 10 b) (\<lambda>(v, b). retS (SLong v, b)))
             else if d = 117 then store (bindS (scan_long fuel sys False 10 b) (\<lambda>(v, b). retS (SLong v, b)))
             else if d = 120 then store (bindS (scan_long fuel sys False 16 b) (\<lambda>(v, b). retS (SLong v, b)))
             else scanf_loop fuel sys (d # q) res b)
      else bindS (peekchar sys b) (\<lambda>(ch, b).
        if c = ch then bindS (getchar sys b) (\<lambda>(_, b). scanf_loop fuel sys p res b) else scanf_loop fuel sys p res b))"

definition scanf :: "nat \<Rightarrow> 's sys \<Rightarrow> byte list \<Rightarrow> stdin \<Rightarrow> ('s, u32 \<times> sval list \<times> stdin) prog" where
  "scanf fuel sys format b = scanf_loop fuel sys format 0 b"

section \<open>What they read\<close>

text \<open>\<open>ys\<close> is what is still to be read: the rest of the buffer and of the stream at descriptor 0.\<close>

definition ready :: "('s \<Rightarrow> u32 \<Rightarrow> byte list option) \<Rightarrow> stdin \<Rightarrow> 's \<Rightarrow> byte list \<Rightarrow> bool" where
  "ready inp b s ys \<longleftrightarrow> length (sin_buf b) = 256 \<and> sin_head b \<le> sin_tail b \<and> unat (sin_tail b) \<le> 256 \<and>
     (\<exists>xs. inp s 0 = Some xs \<and> ys = drop (unat (sin_head b)) (take (unat (sin_tail b)) (sin_buf b)) @ xs)"

definition same_but_stdin :: "('s \<Rightarrow> 'f) \<Rightarrow> ('s \<Rightarrow> u32 \<Rightarrow> byte list option) \<Rightarrow> ('s \<Rightarrow> (u32 \<times> byte) list) \<Rightarrow> 's \<Rightarrow> 's \<Rightarrow> bool" where
  "same_but_stdin files inp out s t \<longleftrightarrow> files t = files s \<and> (\<forall>fd. fd \<noteq> 0 \<longrightarrow> inp t fd = inp s fd) \<and> out t = out s"

lemma slot_in_set: "y \<in> set ds \<Longrightarrow> \<exists>i. find_slot (\<lambda>x. x = y) ds = Some i"
  using find_slot_None [of "\<lambda>x. x = y" ds] by auto

lemma ready_start: "ready inp stdin0 s ys \<longleftrightarrow> inp s 0 = Some ys"
  by (auto simp: ready_def stdin0_def)

lemma ready_front:
  assumes "ready inp b s ys" "sin_head b \<noteq> sin_tail b"
  obtains y zs where "ys = y # zs" "rdR (sin_buf b) (unat (sin_head b)) = Inr y" "ready inp (b\<lparr>sin_head := sin_head b + 1\<rparr>) s zs"
proof -
  obtain xs where r: "length (sin_buf b) = 256" "unat (sin_tail b) \<le> 256" "inp s 0 = Some xs"
    "ys = drop (unat (sin_head b)) (take (unat (sin_tail b)) (sin_buf b)) @ xs" and "sin_head b \<le> sin_tail b"
    using assms(1) by (auto simp: ready_def)
  then have h: "sin_head b < sin_tail b" using assms(2) by simp
  then have l: "unat (sin_head b) < unat (sin_tail b)" by (simp add: word_less_nat_alt)
  have u: "unat (sin_head b + 1) = unat (sin_head b) + 1" using unat_add_u32 [of "sin_head b" 1] l r(2) by simp
  let ?l = "take (unat (sin_tail b)) (sin_buf b)"
  have "drop (unat (sin_head b)) ?l = ?l ! unat (sin_head b) # drop (unat (sin_head b + 1)) ?l"
    unfolding u using l r(1,2) Cons_nth_drop_Suc [of "unat (sin_head b)" ?l] by simp
  moreover have "?l ! unat (sin_head b) = sin_buf b ! unat (sin_head b)" using l by simp
  ultimately show ?thesis
    using that [of "sin_buf b ! unat (sin_head b)" "drop (unat (sin_head b + 1)) ?l @ xs"] r l u
    by (simp add: rdR_def ready_def word_le_nat_alt)
qed

context streams
begin

abbreviation "same \<equiv> same_but_stdin files inp out"

lemma same_trans [trans]: "same s t \<Longrightarrow> same t u \<Longrightarrow> same s u"
  by (simp add: same_but_stdin_def)

lemma same_refl [simp, intro!]: "same s s"
  by (simp add: same_but_stdin_def)

lemma at_end_ready:
  assumes "ready inp b s ys"
  shows "\<exists>b' t. at_end sys b s = Inr ((ys = [], b'), t) \<and> ready inp b' t ys \<and> same s t \<and>
    (ys \<noteq> [] \<longrightarrow> sin_head b' \<noteq> sin_tail b')"
proof (cases "sin_head b = sin_tail b")
  case False
  then have "ys \<noteq> []" using ready_front [OF assms] by blast
  then show ?thesis using False assms by (simp add: at_end_def)
next
  case True
  then have i: "inp s 0 = Some ys" "length (sin_buf b) = 256" using assms by (auto simp: ready_def)
  obtain xs zs t where r: "s_read sys 0 256 s = Inr ((of_nat (length xs), xs), t)" "ys = xs @ zs" "length xs \<le> 256"
    "xs = [] \<Longrightarrow> ys = []" "inp t = (inp s)(0 \<mapsto> zs)" "out t = out s" "files t = files s"
    using read_law [OF i(1), of 256] by auto
  have l: "unat (of_nat (length xs) :: u32) = length xs" using small_word(3) r(3) by simp
  let ?b = "\<lparr>sin_buf = put_at 0 xs (sin_buf b), sin_head = 0, sin_tail = of_nat (length xs)\<rparr>"
  have x: "(xs = []) = (ys = [])" using r(2,4) by blast
  have e: "(of_nat (length xs) = (0 :: u32)) = (xs = [])" using l by (metis length_0_conv unat_eq_zero)
  have "at_end sys b s = Inr ((ys = [], ?b), t)" using True r(1) e x by (simp add: at_end_def refill_def)
  moreover have "ready inp ?b t ys" using r(2,3,5) i(2) l by (simp add: ready_def take_put_at)
  moreover have "same s t" using r(5-7) by (simp add: same_but_stdin_def)
  moreover have "ys \<noteq> [] \<longrightarrow> sin_head ?b \<noteq> sin_tail ?b" using e x by auto
  ultimately show ?thesis by blast
qed

lemma getchar_ready:
  assumes "ready inp b s (y # ys)"
  shows "\<exists>b' t. getchar sys b s = Inr ((y, b'), t) \<and> ready inp b' t ys \<and> same s t"
proof -
  obtain b1 t where t: "at_end sys b s = Inr ((False, b1), t)" "ready inp b1 t (y # ys)" "same s t" "sin_head b1 \<noteq> sin_tail b1"
    using at_end_ready [OF assms] by auto
  have "rdR (sin_buf b1) (unat (sin_head b1)) = Inr y \<and> ready inp (b1\<lparr>sin_head := sin_head b1 + 1\<rparr>) t ys"
    using ready_front [OF t(2,4)] by auto
  then show ?thesis using t by (simp add: getchar_def)
qed

lemma peekchar_ready:
  assumes "ready inp b s ys"
  shows "\<exists>b' t. peekchar sys b s = Inr ((case ys of [] \<Rightarrow> 0 | y # _ \<Rightarrow> y, b'), t) \<and> ready inp b' t ys \<and> same s t"
proof -
  obtain b1 t where t: "at_end sys b s = Inr ((ys = [], b1), t)" "ready inp b1 t ys" "same s t" "ys \<noteq> [] \<Longrightarrow> sin_head b1 \<noteq> sin_tail b1"
    using at_end_ready [OF assms] by blast
  show ?thesis
  proof (cases ys)
    case Nil
    then show ?thesis using t by (simp add: peekchar_def)
  next
    case (Cons y zs)
    then have "rdR (sin_buf b1) (unat (sin_head b1)) = Inr y" using ready_front [OF t(2)] t(4) by auto
    then show ?thesis using t Cons by (simp add: peekchar_def)
  qed
qed

text \<open>\<open>gets\<close> takes what comes before a delimiter.\<close>

lemma remove_space_ready:
  "ready inp b s (ws @ ys) \<Longrightarrow> list_all isspace ws \<Longrightarrow> ys = [] \<or> \<not> isspace (hd ys) \<Longrightarrow> length ws < k \<Longrightarrow>
   \<exists>b' t. remove_space k sys b s = Inr (b', t) \<and> ready inp b' t ys \<and> same s t"
proof (induction ws arbitrary: k b s)
  case Nil
  then obtain m where k: "k = Suc m" by (cases k) auto
  obtain b' t where t: "peekchar sys b s = Inr ((case ys of [] \<Rightarrow> 0 | y # _ \<Rightarrow> y, b'), t)" "ready inp b' t ys" "same s t"
    using peekchar_ready Nil(1) by fastforce
  then show ?case using Nil(3) by (cases ys) (simp_all add: k isspace_def)
next
  case (Cons w ws)
  then obtain m where k: "k = Suc m" by (cases k) auto
  obtain b1 t1 where t1: "peekchar sys b s = Inr ((w, b1), t1)" "ready inp b1 t1 (w # ws @ ys)" "same s t1"
    using peekchar_ready [OF Cons.prems(1)] by auto
  obtain b2 t2 where t2: "getchar sys b1 t1 = Inr ((w, b2), t2)" "ready inp b2 t2 (ws @ ys)" "same t1 t2"
    using getchar_ready [OF t1(2)] by auto
  obtain b' t where t: "remove_space m sys b2 t2 = Inr (b', t)" "ready inp b' t ys" "same t2 t"
    using Cons.IH [OF t2(2), of m] Cons.prems(2-4) k by auto
  have "w \<noteq> 0" "isspace w" using Cons.prems(2) by (auto simp: isspace_def)
  moreover have "same s t" by (rule same_trans [OF same_trans [OF t1(3) t2(3)] t(3)])
  ultimately show ?case using t1(1) t2(1) t(1,2) by (simp add: k)
qed

lemma gets_loop_ready:
  assumes "ready inp b s (cs @ ys)" "0 \<notin> set cs" "0 \<notin> set ds" "set cs \<inter> set ds = {}" "ys = [] \<or> hd ys \<in> set ds" "length cs < n"
  shows "\<exists>b' t. gets_loop n sys (ds @ [0]) contain b s =
      Inr ((cs @ (if contain \<and> ys \<noteq> [] then [hd ys] else []), True, b'), t) \<and>
    ready inp b' t (if contain then tl ys else ys) \<and> same s t"
  using assms(1,2,4,6)
proof (induction cs arbitrary: n b s)
  case Nil
  then obtain m where n: "n = Suc m" by (cases n) auto
  obtain b1 t1 where t1: "peekchar sys b s = Inr ((case ys of [] \<Rightarrow> 0 | y # _ \<Rightarrow> y, b1), t1)" "ready inp b1 t1 ys" "same s t1"
    using peekchar_ready Nil(1) by fastforce
  show ?case
  proof (cases ys)
    case Nil
    then show ?thesis using t1 by (simp add: n)
  next
    case (Cons y zs)
    then have y: "y \<noteq> 0" "y \<in> set ds" using assms(3,5) by auto
    then have d: "\<exists>i. strchr (ds @ [0]) y = Inr (Some i)" using strchr_cstr [OF assms(3), of "[]" y] slot_in_set [of y ds] by simp
    obtain b2 t2 where t2: "getchar sys b1 t1 = Inr ((y, b2), t2)" "ready inp b2 t2 zs" "same t1 t2"
      using getchar_ready t1(2) Cons by fastforce
    have "same s t2" by (rule same_trans [OF t1(3) t2(3)])
    then show ?thesis using t1 t2(1,2) d y Cons by (cases contain) (auto simp: n)
  qed
next
  case (Cons c cs)
  then obtain m where n: "n = Suc m" by (cases n) auto
  have c: "c \<noteq> 0" "c \<notin> set ds" using Cons.prems by auto
  then have d: "strchr (ds @ [0]) c = Inr None" using strchr_cstr [OF assms(3), of "[]" c] by (auto simp: find_slot_None)
  obtain b1 t1 where t1: "peekchar sys b s = Inr ((c, b1), t1)" "ready inp b1 t1 (c # cs @ ys)" "same s t1"
    using peekchar_ready [OF Cons.prems(1)] by auto
  obtain b2 t2 where t2: "getchar sys b1 t1 = Inr ((c, b2), t2)" "ready inp b2 t2 (cs @ ys)" "same t1 t2"
    using getchar_ready [OF t1(2)] by auto
  obtain b' t where t: "gets_loop m sys (ds @ [0]) contain b2 t2 = Inr ((cs @ (if contain \<and> ys \<noteq> [] then [hd ys] else []), True, b'), t)"
    "ready inp b' t (if contain then tl ys else ys)" "same t2 t"
    using Cons.IH [OF t2(2), of m] Cons.prems(2-4) n by auto
  have "same s t" by (rule same_trans [OF same_trans [OF t1(3) t2(3)] t(3)])
  then show ?case using t1(1) t2(1) t(1,2) c d by (simp add: n)
qed

lemma gets_ready:
  assumes "ready inp b s (cs @ ys)" "0 \<notin> set cs" "0 \<notin> set ds" "set cs \<inter> set ds = {}" "ys = [] \<or> hd ys \<in> set ds"
    "length cs < unat (n - 1)"
  shows "\<exists>b' t. gets fuel sys n (ds @ [0]) throw contain b s =
      Inr ((cs @ (if contain \<and> ys \<noteq> [] then [hd ys] else []) @ [0], b'), t) \<and>
    ready inp b' t (if contain then tl ys else ys) \<and> same s t"
  using gets_loop_ready [OF assms, of contain] by (auto simp: gets_def)

lemma getline_ready:
  assumes "ready inp b s (l @ 10 # ys)" "0 \<notin> set l" "10 \<notin> set l" "length l < unat (n - 1)" "length l + 2 \<le> length buf"
  shows "\<exists>b' t. getline sys buf n b s = Inr ((put_at 0 (l @ [10, 0]) buf, b'), t) \<and> ready inp b' t ys \<and> same s t"
  using gets_ready [OF assms(1,2), of "[10]" n 0 False True] assms(3-5) by (auto simp: getline_def)

lemma getline_end:
  assumes "ready inp b s []" "1 < n" "0 < length buf"
  shows "\<exists>b' t. getline sys buf n b s = Inr ((put_at 0 [0] buf, b'), t) \<and> ready inp b' t [] \<and> same s t"
proof -
  have "0 < unat (n - 1)" using assms(2) by (simp add: word_less_nat_alt unat_sub word_le_nat_alt unat_gt_0)
  then show ?thesis using gets_ready [of b s "[]" "[]" "[10]" n 0 False True] assms by (auto simp: getline_def Suc_le_eq)
qed

end

text \<open>A printed number: an optional sign and at most ten digits.\<close>

lemma utoa_digits_length: "unat v < 10 ^ Suc k \<Longrightarrow> length (utoa_digits v 10) \<le> Suc k"
proof (induction k arbitrary: v)
  case 0
  then have "unat (v div 10) = 0" by (simp add: unat_div)
  then have "v div 10 = 0" by (simp only: unat_eq_zero)
  then show ?case by (subst utoa_digits.simps) simp
next
  case (Suc k)
  then have "unat (v div 10) < 10 ^ Suc k" by (simp add: unat_div less_mult_imp_div_less)
  then show ?case using Suc.IH by (subst utoa_digits.simps) simp
qed

lemma decimal_digits:
  obtains neg ds where "decimal n = sign_bytes neg @ ds" "is_digits 10 ds" "ds \<noteq> []" "length ds \<le> 10"
proof -
  let ?v = "if sint n < 0 then - n else n"
  let ?ds = "rev (utoa_digits ?v 10)"
  have u: "utoa ?v 10 = (True, ?ds @ [0])" "is_digits 10 ?ds"
    using utoa_digits_ok [of 10 ?v] utoa_reverse_rev [OF utoa_digits_Nil, of ?v 10] by (simp_all add: utoa_def Let_def)
  have l: "length ?ds \<le> 10" using utoa_digits_length [of ?v 9] unat_u32 [of ?v] by simp
  have e: "?ds \<noteq> []" by (subst utoa_digits.simps) simp
  have "decimal n = sign_bytes (sint n < 0) @ ?ds"
    using u(1) by (cases "sint n < 0") (simp_all add: decimal_def sign_bytes_def)
  then show ?thesis using u(2) e l by (rule that)
qed

lemma digit_not_space: "is_digits 10 ds \<Longrightarrow> c \<in> set (sign_bytes neg @ ds) \<Longrightarrow> c \<noteq> 0 \<and> c \<notin> {32, 9, 10}"
proof -
  assume d: "is_digits 10 ds" and c: "c \<in> set (sign_bytes neg @ ds)"
  have n: "digit_val 0 = None" "digit_val 32 = None" "digit_val 9 = None" "digit_val 10 = None" by (simp_all add: digit_val_def)
  have "c = 45 \<or> digit_val c \<noteq> None" using c d by (cases neg) (auto simp: is_digits_def sign_bytes_def)
  then show ?thesis
  proof
    assume "digit_val c \<noteq> None"
    then show ?thesis using n by (metis empty_iff insert_iff)
  qed simp
qed

lemma decimal_text:
  "decimal n \<noteq> []" "length (decimal n) < 31" "set (decimal n) \<inter> {32, 9, 10} = {}" "\<not> isspace (hd (decimal n @ ys))"
proof -
  obtain neg ds where d: "decimal n = sign_bytes neg @ ds" "is_digits 10 ds" "ds \<noteq> []" "length ds \<le> 10" by (rule decimal_digits)
  show n: "decimal n \<noteq> []" using d by simp
  show "length (decimal n) < 31" using d by (simp add: sign_bytes_def)
  show i: "set (decimal n) \<inter> {32, 9, 10} = {}" using d(1) digit_not_space [OF d(2)] by auto
  have "hd (decimal n) \<in> set (decimal n)" using n by simp
  then have "hd (decimal n) \<notin> {32, 9, 10}" using i by blast
  then show "\<not> isspace (hd (decimal n @ ys))" using n by (simp add: isspace_def)
qed

text \<open>
  C22. \<open>scanf\<close> reads what \<open>printf\<close> prints: from the text that \<open>%d\<close> and a newline print for an \<open>int\<close>, after any white
  space, \<open>%d\<close> stores this \<open>int\<close>, whatever pieces the reads deliver, and leaves the newline and what follows it.
\<close>

theorem scanf_printf:
  assumes "streams sys files inp out con" "vsprintf (lit (line ''%d'')) [VInt n] = Inr str"
    "inp s 0 = Some (ws @ str @ rest)" "list_all isspace ws" "length ws < fuel"
  shows "\<exists>b t. scanf fuel sys (lit ''%d'') stdin0 s = Inr ((1, [SLong n], b), t) \<and> ready inp b t (10 # rest) \<and> out t = out s"
proof -
  have str: "str = decimal n @ [10]" using assms(2) by (simp add: lit_def line_def bytes_of_def fmt_simps split: if_splits)
  have r: "ready inp stdin0 s (ws @ decimal n @ 10 # rest)" using assms(3) by (simp add: ready_start str)
  obtain b1 t1 where t1: "remove_space fuel sys stdin0 s = Inr (b1, t1)" "ready inp b1 t1 (decimal n @ 10 # rest)"
    "same_but_stdin files inp out s t1"
    using streams.remove_space_ready [OF assms(1) r assms(4) _ assms(5)] decimal_text(4) [of n "10 # rest"] by blast
  have m: "unat (32 - 1 :: u32) = 31" by simp
  obtain b2 t2 where t2: "gets fuel sys 32 ([32, 9, 10] @ [0]) True False b1 t1 = Inr ((decimal n @ [] @ [0], b2), t2)"
    "ready inp b2 t2 (10 # rest)" "same_but_stdin files inp out t1 t2"
    using streams.gets_ready [OF assms(1) t1(2), of "[32, 9, 10]" 32 fuel True False] decimal_no_nul [of n] decimal_text(2,3) [of n]
    by (auto simp: m)
  have e: "strtol (decimal n @ [0]) 10 = Inr (n, Some (length (decimal n)))" by (rule strtol_reads)
  have "scan_long fuel sys True 10 stdin0 s = Inr ((n, b2), t2)" using t1(1) t2(1) e by (simp add: scan_long_def)
  then have "scanf fuel sys (lit ''%d'') stdin0 s = Inr ((1, [SLong n], b2), t2)"
    by (simp add: scanf_def lit_def bytes_of_def isspace_def)
  then show ?thesis using t2(2) t1(3) t2(3) by (auto simp: same_but_stdin_def)
qed

theorem scanf_printf_witness:
  "\<exists>b t. scanf 3 world_sys (lit ''%d'') stdin0 (small_world (bytes_of (line '' -17''))) = Inr ((1, [SLong (- 17)], b), t) \<and> w_out t = []"
proof -
  have d: "vsprintf (lit (line ''%d'')) [VInt (- 17)] = Inr [45, 49, 55, 10]" by code_simp
  show ?thesis
    using scanf_printf [where sys = world_sys and files = w_files and inp = w_inp and out = w_out and con = "\<lambda>_ _. True" and ws = "[32]" and rest = "[]" and
      fuel = 3 and s = "small_world (bytes_of (line '' -17''))", OF files.streams_axioms d]
    by (auto simp: bytes_of_def line_def isspace_def)
qed

end
