(* ===== verification/Shell.thy ===== *)
theory Shell
  imports Scanf
begin

text \<open>
  \<open>user/src/phase6/sh.c\<close>: the command tree, its parser, its execution and the loop of the shell.

  The parser works on positions in the line. Pointers into the line are positions; a pointer to a command is the
  command, and the argument that \<open>parseexec\<close> adds to a command inside redirections is added at the bottom of the
  tree. \<open>malloc\<close> is taken to succeed: the line has 100 bytes.

  The functions of the parser that call each other have fuel. \<open>panic\<close> in the parser is the value \<open>Inl\<close> with
  its message, which \<open>parsecmd\<close> prints.
\<close>

section \<open>Commands\<close>

text \<open>
  The structures of the source, by the type of the pointers into the line: a pair for an argument or a file and its end.
\<close>

datatype 'a cmd =
    EXEC "'a list" \<comment> \<open>\<open>argv\<close> and \<open>eargv\<close>\<close>
  | REDIR "'a cmd" 'a u32 u32 u32 \<comment> \<open>\<open>cmd\<close>, \<open>file\<close> and \<open>efile\<close>, \<open>mode\<close>, \<open>fd\<close>, \<open>whence\<close>\<close>
  | PIPE "'a cmd" "'a cmd"
  | LIST "'a cmd" "'a cmd"
  | BACK "'a cmd"

type_synonym tree = "(nat \<times> nat) cmd"

definition execcmd :: "'a cmd" where
  [simp]: "execcmd = EXEC []"

definition redircmd :: "'a cmd \<Rightarrow> 'a \<Rightarrow> u32 \<Rightarrow> u32 \<Rightarrow> u32 \<Rightarrow> 'a cmd" where
  [simp]: "redircmd subcmd file mode fd whence = REDIR subcmd file mode fd whence"

definition pipecmd :: "'a cmd \<Rightarrow> 'a cmd \<Rightarrow> 'a cmd" where
  [simp]: "pipecmd left right = PIPE left right"

definition listcmd :: "'a cmd \<Rightarrow> 'a cmd \<Rightarrow> 'a cmd" where
  [simp]: "listcmd left right = LIST left right"

definition backcmd :: "'a cmd \<Rightarrow> 'a cmd" where
  [simp]: "backcmd subcmd = BACK subcmd"

primrec add_arg :: "'a \<Rightarrow> 'a cmd \<Rightarrow> 'a cmd" where
  "add_arg a (EXEC args) = EXEC (args @ [a])"
| "add_arg a (REDIR c file mode fd whence) = REDIR (add_arg a c) file mode fd whence"
| "add_arg a (PIPE l r) = PIPE l r"
| "add_arg a (LIST l r) = LIST l r"
| "add_arg a (BACK c) = BACK c"

section \<open>Tokens\<close>

definition whitespace :: "byte list" where
  "whitespace = [32, 9, 13, 10, 11, 0]"

definition symbols :: "byte list" where
  "symbols = [60, 124, 62, 38, 59, 40, 41, 0]"

definition is_in :: "byte list \<Rightarrow> byte \<Rightarrow> bool" where
  "is_in s c = (case strchr s c of Inr (Some _) \<Rightarrow> True | _ \<Rightarrow> False)"

function skip_white :: "byte list \<Rightarrow> nat \<Rightarrow> nat \<Rightarrow> nat res" where
  "skip_white buf es s =
     (if s < es then bindR (rdR buf s) (\<lambda>c. if is_in whitespace c then skip_white buf es (s + 1) else Inr s) else Inr s)"
  by pat_completeness auto
termination by (relation "measure (\<lambda>(buf, es, s). es - s)") auto

declare skip_white.simps [simp del]

function word_end :: "byte list \<Rightarrow> nat \<Rightarrow> nat \<Rightarrow> nat res" where
  "word_end buf es s =
     (if s < es then bindR (rdR buf s) (\<lambda>c.
        if \<not> is_in whitespace c \<and> \<not> is_in symbols c then word_end buf es (s + 1) else Inr s)
      else Inr s)"
  by pat_completeness auto
termination by (relation "measure (\<lambda>(buf, es, s). es - s)") auto

declare word_end.simps [simp del]

text \<open>The token, \<open>*q\<close>, \<open>*eq\<close> and the new \<open>*ps\<close>.\<close>

definition gettoken :: "byte list \<Rightarrow> nat \<Rightarrow> nat \<Rightarrow> (byte \<times> nat \<times> nat \<times> nat) res" where
  "gettoken buf es ps = bindR (skip_white buf es ps) (\<lambda>s. bindR (rdR buf s) (\<lambda>c.
     bindR (if c = 0 then Inr (c, s)
            else if c = 124 \<or> c = 40 \<or> c = 41 \<or> c = 59 \<or> c = 38 \<or> c = 60 then Inr (c, s + 1)
            else if c = 62 then bindR (rdR buf (s + 1)) (\<lambda>d. if d = 62 then Inr (43, s + 2) else Inr (c, s + 1))
            else mapR (Pair 97) (word_end buf es s)) (\<lambda>(ret, eq).
     bindR (skip_white buf es eq) (\<lambda>ps. Inr (ret, s, eq, ps)))))"

definition peek :: "byte list \<Rightarrow> nat \<Rightarrow> nat \<Rightarrow> byte list \<Rightarrow> (bool \<times> nat) res" where
  "peek buf es ps toks = bindR (skip_white buf es ps) (\<lambda>s. bindR (rdR buf s) (\<lambda>c. Inr (c \<noteq> 0 \<and> is_in toks c, s)))"

section \<open>The parser\<close>

type_synonym 'a parse = "(string + 'a) res"

definition bindP :: "'a parse \<Rightarrow> ('a \<Rightarrow> 'b parse) \<Rightarrow> 'b parse" where
  "bindP m f = bindR m (\<lambda>r. case r of Inl msg \<Rightarrow> Inr (Inl msg) | Inr x \<Rightarrow> f x)"

abbreviation (input) retP :: "'a \<Rightarrow> 'a parse" where
  "retP x \<equiv> Inr (Inr x)"

abbreviation (input) panicP :: "string \<Rightarrow> 'a parse" where
  "panicP msg \<equiv> Inr (Inl msg)"

definition MAXARGS :: nat where
  "MAXARGS = 10"

definition redirect :: "'a cmd \<Rightarrow> byte \<Rightarrow> 'a \<Rightarrow> 'a cmd" where
  "redirect cmd tok file =
     (if tok = 60 then redircmd cmd file 0 0 0
      else if tok = 62 then redircmd cmd file (0x001 OR 0x200 OR 0x400) 1 0
      else if tok = 43 then redircmd cmd file (0x001 OR 0x200) 1 2
      else cmd)"

primrec parseredirs :: "nat \<Rightarrow> byte list \<Rightarrow> nat \<Rightarrow> tree \<Rightarrow> nat \<Rightarrow> (tree \<times> nat) parse" where
  "parseredirs 0 buf es cmd ps = Inl Hang"
| "parseredirs (Suc k) buf es cmd ps = bindR (peek buf es ps [60, 62, 0]) (\<lambda>(p, ps).
     if p then
       bindR (gettoken buf es ps) (\<lambda>(tok, _, _, ps).
       bindR (gettoken buf es ps) (\<lambda>(t, q, eq, ps).
         if t \<noteq> 97 then panicP ''missing file for redirection''
         else parseredirs k buf es (redirect cmd tok (q, eq)) ps))
     else retP (cmd, ps))"

text \<open>The loop of \<open>parseexec\<close> with \<open>r = MAXARGS - argc\<close>.\<close>

primrec parseargs :: "nat \<Rightarrow> byte list \<Rightarrow> nat \<Rightarrow> tree \<Rightarrow> nat \<Rightarrow> (tree \<times> nat) parse" where
  "parseargs 0 buf es ret ps = panicP ''too many args''"
| "parseargs (Suc r) buf es ret ps = bindR (peek buf es ps [124, 41, 38, 59, 0]) (\<lambda>(p, ps).
     if p then retP (ret, ps)
     else bindR (gettoken buf es ps) (\<lambda>(tok, q, eq, ps).
       if tok = 0 then retP (ret, ps)
       else if tok \<noteq> 97 then panicP ''syntax''
       else if r = 0 then panicP ''too many args''
       else bindP (parseredirs (length buf) buf es (add_arg (q, eq) ret) ps) (\<lambda>(ret, ps). parseargs r buf es ret ps)))"

primrec parsebacks :: "nat \<Rightarrow> byte list \<Rightarrow> nat \<Rightarrow> tree \<Rightarrow> nat \<Rightarrow> (tree \<times> nat) parse" where
  "parsebacks 0 buf es cmd ps = Inl Hang"
| "parsebacks (Suc k) buf es cmd ps = bindR (peek buf es ps [38, 0]) (\<lambda>(p, ps).
     if p then bindR (gettoken buf es ps) (\<lambda>(_, _, _, ps). parsebacks k buf es (backcmd cmd) ps)
     else retP (cmd, ps))"

function parseline :: "nat \<Rightarrow> byte list \<Rightarrow> nat \<Rightarrow> nat \<Rightarrow> (tree \<times> nat) parse"
  and parsepipe :: "nat \<Rightarrow> byte list \<Rightarrow> nat \<Rightarrow> nat \<Rightarrow> (tree \<times> nat) parse"
  and parseblock :: "nat \<Rightarrow> byte list \<Rightarrow> nat \<Rightarrow> nat \<Rightarrow> (tree \<times> nat) parse"
  and parseexec :: "nat \<Rightarrow> byte list \<Rightarrow> nat \<Rightarrow> nat \<Rightarrow> (tree \<times> nat) parse" where
  "parseline 0 buf es ps = Inl Hang"
| "parseline (Suc k) buf es ps =
     bindP (parsepipe k buf es ps) (\<lambda>(cmd, ps).
     bindP (parsebacks (length buf) buf es cmd ps) (\<lambda>(cmd, ps).
     bindR (peek buf es ps [59, 0]) (\<lambda>(p, ps).
       if p then bindR (gettoken buf es ps) (\<lambda>(_, _, _, ps).
         bindP (parseline k buf es ps) (\<lambda>(right, ps). retP (listcmd cmd right, ps)))
       else retP (cmd, ps))))"
| "parsepipe 0 buf es ps = Inl Hang"
| "parsepipe (Suc k) buf es ps =
     bindP (parseexec k buf es ps) (\<lambda>(cmd, ps).
     bindR (peek buf es ps [124, 0]) (\<lambda>(p, ps).
       if p then bindR (gettoken buf es ps) (\<lambda>(_, _, _, ps).
         bindP (parsepipe k buf es ps) (\<lambda>(right, ps). retP (pipecmd cmd right, ps)))
       else retP (cmd, ps)))"
| "parseblock 0 buf es ps = Inl Hang"
| "parseblock (Suc k) buf es ps =
     bindR (peek buf es ps [40, 0]) (\<lambda>(p, ps).
       if \<not> p then panicP ''parseblock''
       else bindR (gettoken buf es ps) (\<lambda>(_, _, _, ps).
         bindP (parseline k buf es ps) (\<lambda>(cmd, ps).
         bindR (peek buf es ps [41, 0]) (\<lambda>(p, ps).
           if \<not> p then panicP ''syntax - missing )''
           else bindR (gettoken buf es ps) (\<lambda>(_, _, _, ps). parseredirs (length buf) buf es cmd ps)))))"
| "parseexec 0 buf es ps = Inl Hang"
| "parseexec (Suc k) buf es ps =
     bindR (peek buf es ps [40, 0]) (\<lambda>(p, ps).
       if p then parseblock k buf es ps
       else bindP (parseredirs (length buf) buf es execcmd ps) (\<lambda>(ret, ps). parseargs MAXARGS buf es ret ps))"
  by pat_completeness auto
termination
  by (relation "measure (case_sum (case_sum (\<lambda>(k, _). k) (\<lambda>(k, _). k)) (case_sum (\<lambda>(k, _). k) (\<lambda>(k, _). k)))") simp_all

primrec nulterminate :: "tree \<Rightarrow> byte list \<Rightarrow> byte list res" where
  "nulterminate (EXEC args) buf = foldl (\<lambda>b (q, eq). bindR b (\<lambda>b. wrR b eq 0)) (Inr buf) args"
| "nulterminate (REDIR c file mode fd whence) buf = bindR (nulterminate c buf) (\<lambda>buf. wrR buf (snd file) 0)"
| "nulterminate (PIPE l r) buf = bindR (nulterminate l buf) (nulterminate r)"
| "nulterminate (LIST l r) buf = bindR (nulterminate l buf) (nulterminate r)"
| "nulterminate (BACK c) buf = nulterminate c buf"

section \<open>Execution\<close>

definition panic :: "'s sys \<Rightarrow> string \<Rightarrow> ('s, 'a) uprog" where
  "panic sys msg = bindU (fprintf sys 2 (line ''%s'') [VPtr (Some (lit msg))]) (\<lambda>_. exitU 1)"

text \<open>\<open>fork1\<close>, with what the child goes on with.\<close>

definition fork1 :: "'s sys \<Rightarrow> ('s, u32) uprog \<Rightarrow> ('s, u32) uprog" where
  "fork1 sys child = bindS (s_fork sys (start child)) (\<lambda>pid. if pid = - 1 then panic sys ''fork'' else retU pid)"

text \<open>The tree and the line as \<open>nulterminate\<close> leaves it.\<close>

definition parsecmd :: "nat \<Rightarrow> 's sys \<Rightarrow> byte list \<Rightarrow> ('s, tree \<times> byte list) uprog" where
  "parsecmd fuel sys buf =
     bindS (liftS (strlen buf)) (\<lambda>es.
     bindS (liftS (parseline fuel buf es 0)) (\<lambda>r. case r of
       Inl msg \<Rightarrow> panic sys msg
     | Inr (cmd, s) \<Rightarrow>
         bindS (liftS (peek buf es s [0])) (\<lambda>(_, s).
           if s \<noteq> es then bindU (fprintf sys 2 (line ''leftovers: %s'') [VPtr (Some (drop s buf))]) (\<lambda>_. panic sys ''syntax'')
           else bindS (liftS (nulterminate cmd buf)) (\<lambda>buf. retU (cmd, buf)))))"

primrec runcmd :: "'s sys \<Rightarrow> byte list \<Rightarrow> tree \<Rightarrow> ('s, u32) uprog" where
  "runcmd sys buf (EXEC args) =
     (case args of
        [] \<Rightarrow> exitU 1
      | (q, _) # _ \<Rightarrow> bindU (s_exec sys (drop q buf) (map (\<lambda>(q, _). drop q buf) args)) (\<lambda>_.
          bindU (fprintf sys 2 (line ''exec %s failed'') [VPtr (Some (drop q buf))]) (\<lambda>_. exitU 0)))"
| "runcmd sys buf (REDIR c file mode fd whence) =
     bindS (s_close sys fd) (\<lambda>_. bindS (s_open sys (drop (fst file) buf) mode) (\<lambda>r.
       if r <s 0 then bindU (fprintf sys 2 (line ''open %s failed'') [VPtr (Some (drop (fst file) buf))]) (\<lambda>_. exitU 1)
       else bindS (s_lseek sys fd 0 whence) (\<lambda>_. runcmd sys buf c)))"
| "runcmd sys buf (LIST l r) =
     bindU (fork1 sys (runcmd sys buf l)) (\<lambda>_. bindS (s_wait sys) (\<lambda>_. runcmd sys buf r))"
| "runcmd sys buf (PIPE l r) =
     bindS (s_pipe sys) (\<lambda>(e, p0, p1).
       if e <s 0 then panic sys ''pipe''
       else bindU (fork1 sys (bindS (s_close sys 1) (\<lambda>_. bindS (s_dup sys p1) (\<lambda>_.
              bindS (s_close sys p0) (\<lambda>_. bindS (s_close sys p1) (\<lambda>_. runcmd sys buf l)))))) (\<lambda>_.
            bindU (fork1 sys (bindS (s_close sys 0) (\<lambda>_. bindS (s_dup sys p0) (\<lambda>_.
              bindS (s_close sys p0) (\<lambda>_. bindS (s_close sys p1) (\<lambda>_. runcmd sys buf r)))))) (\<lambda>_.
            bindS (s_close sys p0) (\<lambda>_. bindS (s_close sys p1) (\<lambda>_.
            bindS (s_wait sys) (\<lambda>_. bindS (s_wait sys) (\<lambda>_. exitU 0)))))))"
| "runcmd sys buf (BACK c) = bindU (fork1 sys (runcmd sys buf c)) (\<lambda>_. exitU 0)"

definition getcmd :: "'s sys \<Rightarrow> byte list \<Rightarrow> stdin \<Rightarrow> ('s, bool \<times> byte list \<times> stdin) uprog" where
  "getcmd sys buf b = bindU (fprintf sys 1 ''$ '' []) (\<lambda>_.
     let buf = replicate (length buf) 0 in
     bindS (getline sys buf (of_nat (length buf)) b) (\<lambda>(buf, b).
     bindS (liftS (rdR buf 0)) (\<lambda>c. retU (c \<noteq> 0, buf, b))))"

primrec shell_loop :: "nat \<Rightarrow> 's sys \<Rightarrow> byte list \<Rightarrow> stdin \<Rightarrow> ('s, u32) uprog" where
  "shell_loop 0 sys buf b = stopS Hang"
| "shell_loop (Suc k) sys buf b = bindU (getcmd sys buf b) (\<lambda>(more, buf, b).
     if \<not> more then exitU 0
     else if take 3 buf = [99, 100, 32] then
       bindS (liftS (strlen buf)) (\<lambda>n.
       bindS (liftS (wrR buf (n - 1) 0)) (\<lambda>buf.
       bindS (s_chdir sys (drop 3 buf)) (\<lambda>r.
         if r <s 0 then bindU (fprintf sys 2 (line ''cannot cd %s'') [VPtr (Some (drop 3 buf))]) (\<lambda>_. shell_loop k sys buf b)
         else shell_loop k sys buf b)))
     else bindU (fork1 sys (bindU (parsecmd (4 * length buf) sys buf) (\<lambda>(cmd, buf). runcmd sys buf cmd))) (\<lambda>_.
       bindS (s_wait sys) (\<lambda>_. shell_loop k sys buf b)))"

definition shell_main :: "nat \<Rightarrow> 's sys \<Rightarrow> ('s, u32) uprog" where
  "shell_main fuel sys =
     bindS (s_open sys (lit ''/dev/serial'') 0x002) (\<lambda>fd.
       if fd \<noteq> 0 then abort_user sys ''user/src/phase6/sh.c'' 146 ''open(\"/dev/serial\", O_RDWR) == 0''
       else bindS (s_dup sys 0) (\<lambda>fd.
         if fd \<noteq> 1 then abort_user sys ''user/src/phase6/sh.c'' 147 ''dup(0) == 1''
         else bindS (s_dup sys 0) (\<lambda>fd.
           if fd \<noteq> 2 then abort_user sys ''user/src/phase6/sh.c'' 148 ''dup(0) == 2''
           else shell_loop fuel sys (replicate 100 0) stdin0)))"

end
