(* ===== verification/ShellParse.thy ===== *)
theory ShellParse
  imports Shell
begin

text \<open>
  The parser of the shell returns for every line and stays inside it.
\<close>

section \<open>The parser returns and stays in the line\<close>

lemma is_in_set: "0 \<notin> set cs \<Longrightarrow> is_in (cs @ [0]) c \<longleftrightarrow> c = 0 \<or> c \<in> set cs"
  using find_slot_None [of "\<lambda>x. x = c" cs] by (cases "find_slot (\<lambda>x. x = c) cs") (auto simp: is_in_def strchr_cstr)

lemma is_in_simps [simp]:
  "is_in whitespace c \<longleftrightarrow> c \<in> {0, 32, 9, 13, 10, 11}" "is_in symbols c \<longleftrightarrow> c \<in> {0, 60, 124, 62, 38, 59, 40, 41}"
  "is_in [60, 62, 0] c \<longleftrightarrow> c \<in> {0, 60, 62}" "is_in [124, 41, 38, 59, 0] c \<longleftrightarrow> c \<in> {0, 124, 41, 38, 59}"
  "is_in [38, 0] c \<longleftrightarrow> c \<in> {0, 38}" "is_in [59, 0] c \<longleftrightarrow> c \<in> {0, 59}" "is_in [124, 0] c \<longleftrightarrow> c \<in> {0, 124}"
  "is_in [40, 0] c \<longleftrightarrow> c \<in> {0, 40}" "is_in [41, 0] c \<longleftrightarrow> c \<in> {0, 41}" "is_in [0] c \<longleftrightarrow> c = 0"
  using is_in_set [of "[32, 9, 13, 10, 11]" c] is_in_set [of "[60, 124, 62, 38, 59, 40, 41]" c] is_in_set [of "[60, 62]" c]
    is_in_set [of "[124, 41, 38, 59]" c] is_in_set [of "[38]" c] is_in_set [of "[59]" c] is_in_set [of "[124]" c]
    is_in_set [of "[40]" c] is_in_set [of "[41]" c] is_in_set [of "[]" c]
  by (simp_all add: whitespace_def symbols_def)

text \<open>A line: \<open>es\<close> is the position of its NUL.\<close>

definition cline :: "byte list \<Rightarrow> nat \<Rightarrow> bool" where
  "cline buf es \<longleftrightarrow> es < length buf \<and> buf ! es = 0 \<and> (\<forall>i < es. buf ! i \<noteq> 0)"

lemma cline_rdR: "cline buf es \<Longrightarrow> p \<le> es \<Longrightarrow> rdR buf p = Inr (buf ! p) \<and> (buf ! p = 0 \<longleftrightarrow> p = es)"
  by (cases "p = es") (auto simp: cline_def rdR_def)

lemma skip_white_cline:
  "cline buf es \<Longrightarrow> p \<le> es \<Longrightarrow> \<exists>s. skip_white buf es p = Inr s \<and> p \<le> s \<and> s \<le> es \<and> buf ! s \<notin> {32, 9, 13, 10, 11}"
proof (induction buf es p rule: skip_white.induct)
  case (1 buf es p)
  show ?case
  proof (cases "p < es \<and> is_in whitespace (buf ! p)")
    case True
    then have r: "rdR buf p = Inr (buf ! p)" using cline_rdR 1(2,3) by blast
    obtain s where "skip_white buf es (p + 1) = Inr s" "p + 1 \<le> s" "s \<le> es" "buf ! s \<notin> {32, 9, 13, 10, 11}"
      using 1(1) [OF _ r] 1(2) True by auto
    then show ?thesis using True r by (subst skip_white.simps) (simp del: is_in_simps)
  next
    case False
    then show ?thesis using cline_rdR [OF 1(2,3)] 1(2,3) by (subst skip_white.simps) (auto simp: cline_def)
  qed
qed

lemma word_end_cline:
  "cline buf es \<Longrightarrow> p \<le> es \<Longrightarrow> \<exists>s. word_end buf es p = Inr s \<and> p \<le> s \<and> s \<le> es \<and>
     (p < es \<and> \<not> is_in whitespace (buf ! p) \<and> \<not> is_in symbols (buf ! p) \<longrightarrow> p < s)"
proof (induction buf es p rule: word_end.induct)
  case (1 buf es p)
  show ?case
  proof (cases "p < es \<and> \<not> is_in whitespace (buf ! p) \<and> \<not> is_in symbols (buf ! p)")
    case True
    then have r: "rdR buf p = Inr (buf ! p)" using cline_rdR 1(2,3) by blast
    obtain s where "word_end buf es (p + 1) = Inr s" "p + 1 \<le> s" "s \<le> es"
      using 1(1) [OF _ r] 1(2) True by fastforce
    then show ?thesis using True r by (subst word_end.simps) (simp del: is_in_simps)
  next
    case False
    then show ?thesis using cline_rdR [OF 1(2,3)] 1(2,3) by (subst word_end.simps) auto
  qed
qed

lemma gettoken_cline:
  assumes "cline buf es" "p \<le> es"
  shows "\<exists>tok q eq p'. gettoken buf es p = Inr (tok, q, eq, p') \<and> p \<le> q \<and> q \<le> eq \<and> eq \<le> p' \<and> p' \<le> es \<and> (tok = 0 \<or> q < eq) \<and>
    (p < es \<longrightarrow> p < p')"
proof -
  obtain s where s: "skip_white buf es p = Inr s" "p \<le> s" "s \<le> es" "buf ! s \<notin> {32, 9, 13, 10, 11}"
    using skip_white_cline [OF assms] by blast
  let ?c = "buf ! s"
  have r: "rdR buf s = Inr ?c" "?c = 0 \<longleftrightarrow> s = es" using cline_rdR [OF assms(1) s(3)] by auto
  let ?tok = "if ?c = 0 then Inr (?c, s)
    else if ?c = 124 \<or> ?c = 40 \<or> ?c = 41 \<or> ?c = 59 \<or> ?c = 38 \<or> ?c = 60 then Inr (?c, s + 1)
    else if ?c = 62 then bindR (rdR buf (s + 1)) (\<lambda>d. if d = 62 then Inr (43, s + 2) else Inr (?c, s + 1))
    else mapR (Pair 97) (word_end buf es s)"
  have "\<exists>tok eq. ?tok = Inr (tok, eq) \<and> s \<le> eq \<and> eq \<le> es \<and> (s < es \<longrightarrow> s < eq) \<and> (tok = 0 \<or> s < eq)"
  proof -
    consider "?c = 0" | "?c \<in> {124, 40, 41, 59, 38, 60}" | "?c = 62" | "?c \<notin> {0, 124, 40, 41, 59, 38, 60, 62}" by auto
    then show ?thesis
    proof cases
      case 3
      then have "s + 1 \<le> es" using r(2) s(3) by (cases "s = es") auto
      then show ?thesis using 3 cline_rdR [OF assms(1), of "s + 1"] by (cases "buf ! (s + 1) = 62") auto
    next
      case 4
      then have "s < es" "\<not> is_in whitespace ?c" "\<not> is_in symbols ?c" using r(2) s(3,4) by auto
      then show ?thesis using 4 word_end_cline [OF assms(1) s(3)] by auto
    next
      case 2
      then have "s < es" using r(2) s(3) by (cases "s = es") auto
      then show ?thesis using 2 by auto
    qed (use r(2) s(3) in simp)
  qed
  then obtain tok eq where t: "?tok = Inr (tok, eq)" "s \<le> eq" "eq \<le> es" "s < es \<longrightarrow> s < eq" "tok = 0 \<or> s < eq" by blast
  obtain p' where "skip_white buf es eq = Inr p'" "eq \<le> p'" "p' \<le> es" using skip_white_cline [OF assms(1) t(3)] by blast
  then show ?thesis using s(1,2,3) r(1) t unfolding gettoken_def by auto
qed

lemma peek_cline:
  assumes "cline buf es" "p \<le> es"
  shows "\<exists>h p'. peek buf es p toks = Inr (h, p') \<and> p \<le> p' \<and> p' \<le> es \<and> (h \<longrightarrow> p' < es) \<and> buf ! p' \<notin> {32, 9, 13, 10, 11} \<and>
    (h \<longleftrightarrow> buf ! p' \<noteq> 0 \<and> is_in toks (buf ! p'))"
proof -
  obtain s where s: "skip_white buf es p = Inr s" "p \<le> s" "s \<le> es" "buf ! s \<notin> {32, 9, 13, 10, 11}"
    using skip_white_cline [OF assms] by blast
  then show ?thesis using cline_rdR [OF assms(1) s(3)] by (auto simp: peek_def)
qed

text \<open>
  \<open>fits es p r\<close>: the parser has come to a panic, or to a command and a position in the line, not before \<open>p\<close>; all
  pointers of the command are in the line.
\<close>

definition inside :: "nat \<Rightarrow> tree \<Rightarrow> bool" where
  "inside es c \<longleftrightarrow> (\<forall>(q, eq) \<in> set_cmd c. q \<le> eq \<and> eq \<le> es)"

definition messages :: "string list" where
  "messages = [''missing file for redirection'', ''too many args'', ''syntax'', ''parseblock'', ''syntax - missing )'']"

definition fits :: "nat \<Rightarrow> nat \<Rightarrow> (tree \<times> nat) parse \<Rightarrow> bool" where
  "fits es p r \<longleftrightarrow> (case r of Inr (Inl msg) \<Rightarrow> msg \<in> set messages | Inr (Inr (c, p')) \<Rightarrow> p \<le> p' \<and> p' \<le> es \<and> inside es c | Inl e \<Rightarrow> False)"

lemma set_add_arg: "set_cmd (add_arg a c) \<subseteq> insert a (set_cmd c)"
  by (induction c) auto

lemma inside_simps [simp]:
  "inside es (EXEC [])" "inside es (PIPE l r) \<longleftrightarrow> inside es l \<and> inside es r" "inside es (LIST l r) \<longleftrightarrow> inside es l \<and> inside es r"
  "inside es (BACK c) \<longleftrightarrow> inside es c"
  by (auto simp: inside_def)

lemma inside_add_arg: "inside es c \<Longrightarrow> q \<le> eq \<Longrightarrow> eq \<le> es \<Longrightarrow> inside es (add_arg (q, eq) c)"
  using set_add_arg [of "(q, eq)" c] by (auto simp: inside_def)

lemma inside_redirect: "inside es c \<Longrightarrow> q \<le> eq \<Longrightarrow> eq \<le> es \<Longrightarrow> inside es (redirect c tok (q, eq))"
  by (auto simp: inside_def redirect_def)

lemma fits_simps [simp]:
  "fits es p (Inr (Inl msg)) \<longleftrightarrow> msg \<in> set messages" "fits es p (Inr (Inr (c, p'))) \<longleftrightarrow> p \<le> p' \<and> p' \<le> es \<and> inside es c" "\<not> fits es p (Inl e)"
  by (simp_all add: fits_def)

lemma set_messages [simp]:
  "''missing file for redirection'' \<in> set messages" "''too many args'' \<in> set messages" "''syntax'' \<in> set messages"
  "''parseblock'' \<in> set messages" "''syntax - missing )'' \<in> set messages"
  by (simp_all add: messages_def)

lemma fits_le: "fits es p' r \<Longrightarrow> p \<le> p' \<Longrightarrow> fits es p r"
  by (auto simp: fits_def split: sum.splits)

lemma fits_bindP:
  assumes "fits es p m" "\<And>c p'. p \<le> p' \<Longrightarrow> p' \<le> es \<Longrightarrow> inside es c \<Longrightarrow> fits es p (f (c, p'))"
  shows "fits es p (bindP m f)"
proof (cases m)
  case (Inr r)
  then show ?thesis using assms by (cases r) (auto simp: bindP_def)
qed (use assms(1) in simp)

lemma parseredirs_fits:
  assumes "cline buf es"
  shows "p \<le> es \<Longrightarrow> inside es c \<Longrightarrow> es - p < k \<Longrightarrow> fits es p (parseredirs k buf es c p)"
proof (induction k arbitrary: p c)
  case (Suc k)
  obtain h p1 where p1: "peek buf es p [60, 62, 0] = Inr (h, p1)" "p \<le> p1" "p1 \<le> es" "h \<Longrightarrow> buf ! p1 \<noteq> 0"
    using peek_cline [OF assms Suc.prems(1), of "[60, 62, 0]"] by blast
  obtain tok q eq p2 where p2: "gettoken buf es p1 = Inr (tok, q, eq, p2)" "p1 \<le> p2" "p2 \<le> es"
    using gettoken_cline [OF assms p1(3)] by fastforce
  obtain t q' eq' p3 where p3: "gettoken buf es p2 = Inr (t, q', eq', p3)" "p2 \<le> q'" "q' \<le> eq'" "eq' \<le> p3" "p3 \<le> es" "t = 0 \<or> q' < eq'"
    using gettoken_cline [OF assms p2(3)] by blast
  have "fits es p (parseredirs k buf es (redirect c tok (q', eq')) p3)" if "t = 97"
  proof (rule fits_le)
    have "t \<noteq> 0" using that by simp
    then have "p < p3" using p1 p2 p3 by auto
    then show "fits es p3 (parseredirs k buf es (redirect c tok (q', eq')) p3)"
      using Suc.prems p1 p2 p3 by (intro Suc.IH inside_redirect) auto
    show "p \<le> p3" using p1 p2 p3 by simp
  qed
  then show ?case using p1 p2 p3 Suc.prems(2) by (cases h) auto
qed simp

lemma cline_fuel: "cline buf es \<Longrightarrow> es - p < length buf"
  by (auto simp: cline_def)

lemma parseargs_fits:
  assumes "cline buf es"
  shows "p \<le> es \<Longrightarrow> inside es c \<Longrightarrow> fits es p (parseargs r buf es c p)"
proof (induction r arbitrary: p c)
  case (Suc r)
  obtain h p1 where p1: "peek buf es p [124, 41, 38, 59, 0] = Inr (h, p1)" "p \<le> p1" "p1 \<le> es"
    using peek_cline [OF assms Suc.prems(1), of "[124, 41, 38, 59, 0]"] by blast
  obtain tok q eq p2 where p2: "gettoken buf es p1 = Inr (tok, q, eq, p2)" "p1 \<le> q" "q \<le> eq" "eq \<le> p2" "p2 \<le> es"
    using gettoken_cline [OF assms p1(3)] by blast
  have "fits es p2 (bindP (parseredirs (length buf) buf es (add_arg (q, eq) c) p2) (\<lambda>(c, p). parseargs r buf es c p))"
  proof (rule fits_bindP)
    show "fits es p2 (parseredirs (length buf) buf es (add_arg (q, eq) c) p2)"
      using p2 Suc.prems(2) by (intro parseredirs_fits [OF assms] inside_add_arg cline_fuel [OF assms]) auto
    show "fits es p2 (case (c, p') of (c, p) \<Rightarrow> parseargs r buf es c p)" if "p2 \<le> p'" "p' \<le> es" "inside es c" for c p'
      using Suc.IH [OF that(2,3)] that(1) by (auto intro: fits_le)
  qed
  then have "fits es p (bindP (parseredirs (length buf) buf es (add_arg (q, eq) c) p2) (\<lambda>(c, p). parseargs r buf es c p))"
    by (rule fits_le) (use p1 p2 in simp)
  then show ?case using p1 p2 Suc.prems(2) by simp
qed simp

lemma parsebacks_fits:
  assumes "cline buf es"
  shows "p \<le> es \<Longrightarrow> inside es c \<Longrightarrow> es - p < k \<Longrightarrow> fits es p (parsebacks k buf es c p)"
proof (induction k arbitrary: p c)
  case (Suc k)
  obtain h p1 where p1: "peek buf es p [38, 0] = Inr (h, p1)" "p \<le> p1" "p1 \<le> es" "h \<longrightarrow> p1 < es"
    using peek_cline [OF assms Suc.prems(1), of "[38, 0]"] by blast
  obtain p2 tok q eq where p2: "gettoken buf es p1 = Inr (tok, q, eq, p2)" "p2 \<le> es" "p1 \<le> p2" "h \<longrightarrow> p1 < p2"
    using gettoken_cline [OF assms p1(3)] p1(4) by (metis le_trans)
  have "fits es p (parsebacks k buf es (BACK c) p2)" if h
  proof (rule fits_le)
    show "fits es p2 (parsebacks k buf es (BACK c) p2)" using Suc.prems p1 p2 that by (intro Suc.IH) auto
    show "p \<le> p2" using p1 p2 by simp
  qed
  then show ?case using p1 p2 Suc.prems(2) by (cases h) auto
qed simp

lemma eat:
  assumes "cline buf es" "p < es"
  obtains tok q eq p' where "gettoken buf es p = Inr (tok, q, eq, p')" "p < p'" "p' \<le> es"
  using gettoken_cline [OF assms(1), of p] assms(2) by (metis less_imp_le_nat)

lemma look:
  assumes "cline buf es" "p \<le> es"
  obtains h p' where "peek buf es p toks = Inr (h, p')" "p \<le> p'" "p' \<le> es" "h \<Longrightarrow> p' < es"
  using peek_cline [OF assms, of toks] by blast

lemma parse_fits:
  assumes B: "cline buf es"
  shows "(\<forall>p \<le> es. 4 * (es - p) + 4 \<le> k \<longrightarrow> fits es p (parseline k buf es p)) \<and>
    (\<forall>p \<le> es. 4 * (es - p) + 3 \<le> k \<longrightarrow> fits es p (parsepipe k buf es p)) \<and>
    (\<forall>p \<le> es. 4 * (es - p) + 1 \<le> k \<longrightarrow> fits es p (parseblock k buf es p)) \<and>
    (\<forall>p \<le> es. 4 * (es - p) + 2 \<le> k \<longrightarrow> fits es p (parseexec k buf es p))"
proof (induction k)
  case (Suc k)
  have line: "fits es p (parseline k buf es p)" if "p \<le> es" "4 * (es - p) + 4 \<le> k" for p using Suc that by blast
  have pipe: "fits es p (parsepipe k buf es p)" if "p \<le> es" "4 * (es - p) + 3 \<le> k" for p using Suc that by blast
  have block: "fits es p (parseblock k buf es p)" if "p \<le> es" "4 * (es - p) + 1 \<le> k" for p using Suc that by blast
  have exec: "fits es p (parseexec k buf es p)" if "p \<le> es" "4 * (es - p) + 2 \<le> k" for p using Suc that by blast
  note fuel = cline_fuel [OF B]
  have "fits es p (parseline (Suc k) buf es p)" if p: "p \<le> es" "4 * (es - p) + 4 \<le> Suc k" for p
    unfolding parseline.simps
  proof (rule fits_bindP, goal_cases)
    case 1
    show ?case using p by (intro pipe) auto
  next
    case (2 c p1)
    show ?case unfolding prod.case
    proof (rule fits_bindP, goal_cases)
      case 1
      show ?case using 2 by (intro fits_le [OF parsebacks_fits [OF B]] fuel)
    next
      case (2 c p2)
      obtain h p3 where p3: "peek buf es p2 [59, 0] = Inr (h, p3)" "p2 \<le> p3" "p3 \<le> es" "h \<Longrightarrow> p3 < es" using look [OF B 2(2)] by blast
      show ?case
      proof (cases h)
        case True
        obtain tok q eq p4 where p4: "gettoken buf es p3 = Inr (tok, q, eq, p4)" "p3 < p4" "p4 \<le> es" by (rule eat [OF B p3(4) [OF True]])
        have "fits es p4 (parseline k buf es p4)" using p4 p3 2 p by (intro line) auto
        then have "fits es p (parseline k buf es p4)" by (rule fits_le) (use 2 p3 p4 in simp)
        then have "fits es p (bindP (parseline k buf es p4) (\<lambda>(right, ps). retP (LIST c right, ps)))"
          by (rule fits_bindP) (use 2(3) in simp)
        then show ?thesis using p3(1) p4(1) True by simp
      qed (use p3 2 in simp)
    qed
  qed
  moreover have "fits es p (parsepipe (Suc k) buf es p)" if p: "p \<le> es" "4 * (es - p) + 3 \<le> Suc k" for p
    unfolding parsepipe.simps
  proof (rule fits_bindP, goal_cases)
    case 1
    show ?case using p by (intro exec) auto
  next
    case (2 c p1)
    obtain h p2 where p2: "peek buf es p1 [124, 0] = Inr (h, p2)" "p1 \<le> p2" "p2 \<le> es" "h \<Longrightarrow> p2 < es" using look [OF B 2(2)] by blast
    show ?case
    proof (cases h)
      case True
      obtain tok q eq p3 where p3: "gettoken buf es p2 = Inr (tok, q, eq, p3)" "p2 < p3" "p3 \<le> es" by (rule eat [OF B p2(4) [OF True]])
      have "fits es p3 (parsepipe k buf es p3)" using p3 p2 2 p by (intro pipe) auto
      then have "fits es p (parsepipe k buf es p3)" by (rule fits_le) (use 2 p2 p3 in simp)
      then have "fits es p (bindP (parsepipe k buf es p3) (\<lambda>(right, ps). retP (PIPE c right, ps)))"
        by (rule fits_bindP) (use 2(3) in simp)
      then show ?thesis using p2(1) p3(1) True by simp
    qed (use p2 2 in simp)
  qed
  moreover have "fits es p (parseblock (Suc k) buf es p)" if p: "p \<le> es" "4 * (es - p) + 1 \<le> Suc k" for p
  proof -
    obtain h p1 where p1: "peek buf es p [40, 0] = Inr (h, p1)" "p \<le> p1" "p1 \<le> es" "h \<Longrightarrow> p1 < es" using look [OF B p(1)] by blast
    show ?thesis
    proof (cases h)
      case True
      obtain tok q eq p2 where p2: "gettoken buf es p1 = Inr (tok, q, eq, p2)" "p1 < p2" "p2 \<le> es" by (rule eat [OF B p1(4) [OF True]])
      let ?rest = "\<lambda>(cmd, ps). bindR (peek buf es ps [41, 0]) (\<lambda>(p, ps).
           if \<not> p then panicP ''syntax - missing )''
           else bindR (gettoken buf es ps) (\<lambda>(_, _, _, ps). parseredirs (length buf) buf es cmd ps))"
      have "fits es p2 (bindP (parseline k buf es p2) ?rest)"
      proof (rule fits_bindP, goal_cases)
        case 1
        show ?case using p p1 p2 by (intro line) auto
      next
        case (2 c p3)
        obtain h' p4 where p4: "peek buf es p3 [41, 0] = Inr (h', p4)" "p3 \<le> p4" "p4 \<le> es" "h' \<Longrightarrow> p4 < es" using look [OF B 2(2)] by blast
        show ?case
        proof (cases h')
          case True
          obtain tok q eq p5 where p5: "gettoken buf es p4 = Inr (tok, q, eq, p5)" "p4 < p5" "p5 \<le> es" by (rule eat [OF B p4(4) [OF True]])
          have "fits es p5 (parseredirs (length buf) buf es c p5)" using p5 2 by (intro parseredirs_fits [OF B] fuel)
          then have "fits es p2 (parseredirs (length buf) buf es c p5)" by (rule fits_le) (use 2 p4 p5 in simp)
          then show ?thesis using p4(1) p5(1) True by simp
        qed (use p4 in simp)
      qed
      then have "fits es p (bindP (parseline k buf es p2) ?rest)" by (rule fits_le) (use p1 p2 in simp)
      then show ?thesis using p1(1) p2(1) True by simp
    qed (use p1 in simp)
  qed
  moreover have "fits es p (parseexec (Suc k) buf es p)" if p: "p \<le> es" "4 * (es - p) + 2 \<le> Suc k" for p
  proof -
    obtain h p1 where p1: "peek buf es p [40, 0] = Inr (h, p1)" "p \<le> p1" "p1 \<le> es" using look [OF B p(1)] by blast
    have "fits es p1 (parseblock k buf es p1)" using p p1 by (intro block) auto
    moreover have "fits es p1 (bindP (parseredirs (length buf) buf es (EXEC []) p1) (\<lambda>(ret, ps). parseargs MAXARGS buf es ret ps))"
      using p1 by (intro fits_bindP [OF parseredirs_fits [OF B _ _ fuel]]) (auto intro: fits_le [OF parseargs_fits [OF B]])
    ultimately have "fits es p1 (parseexec (Suc k) buf es p)" using p1(1) by simp
    then show ?thesis by (rule fits_le [OF _ p1(2)])
  qed
  ultimately show ?case by blast
qed simp

text \<open>After \<open>nulterminate\<close> the pointers of the tree are C strings.\<close>

lemma nulterminate_sets:
  "\<forall>a \<in> set_cmd c. snd a < length buf \<Longrightarrow> \<exists>buf'. nulterminate c buf = Inr buf' \<and> length buf' = length buf \<and>
     (\<forall>i < length buf. buf' ! i = (if i \<in> snd ` set_cmd c then 0 else buf ! i))"
proof (induction c arbitrary: buf)
  case (EXEC args)
  then show ?case
  proof (induction args arbitrary: buf)
    case (Cons a args)
    obtain q eq where a: "a = (q, eq)" "eq < length buf" using Cons.prems by (cases a) auto
    obtain b where "nulterminate (EXEC args) (buf[eq := 0]) = Inr b" "length b = length buf"
      "\<forall>i < length buf. b ! i = (if i \<in> snd ` set args then 0 else buf[eq := 0] ! i)"
      using Cons.IH [of "buf[eq := 0]"] Cons.prems by auto
    then show ?case using a by (intro exI [of _ b]) (auto simp: wrR_def)
  qed simp
next
  case (REDIR c f mode fd whence)
  then obtain b where b: "nulterminate c buf = Inr b" "length b = length buf"
    "\<forall>i < length buf. b ! i = (if i \<in> snd ` set_cmd c then 0 else buf ! i)" by fastforce
  then show ?case using REDIR.prems by (auto simp: wrR_def nth_list_update)
next
  case (PIPE l r)
  obtain b where b: "nulterminate l buf = Inr b" "length b = length buf"
    "\<forall>i < length buf. b ! i = (if i \<in> snd ` set_cmd l then 0 else buf ! i)" using PIPE.IH(1) [of buf] PIPE.prems by auto
  obtain b' where "nulterminate r b = Inr b'" "length b' = length b"
    "\<forall>i < length b. b' ! i = (if i \<in> snd ` set_cmd r then 0 else b ! i)" using PIPE.IH(2) [of b] PIPE.prems b(2) by auto
  then show ?case using b by (intro exI [of _ b']) (auto simp: image_Un)
next
  case (LIST l r)
  obtain b where b: "nulterminate l buf = Inr b" "length b = length buf"
    "\<forall>i < length buf. b ! i = (if i \<in> snd ` set_cmd l then 0 else buf ! i)" using LIST.IH(1) [of buf] LIST.prems by auto
  obtain b' where "nulterminate r b = Inr b'" "length b' = length b"
    "\<forall>i < length b. b' ! i = (if i \<in> snd ` set_cmd r then 0 else b ! i)" using LIST.IH(2) [of b] LIST.prems b(2) by auto
  then show ?case using b by (intro exI [of _ b']) (auto simp: image_Un)
next
  case (BACK c)
  then show ?case by simp
qed

lemma nulterminate_inside: "es < length buf \<Longrightarrow> inside es c \<Longrightarrow> \<exists>buf'. nulterminate c buf = Inr buf' \<and> length buf' = length buf"
  using nulterminate_sets [of c buf] by (fastforce simp: inside_def)

lemma cline_intro: "0 \<notin> set l \<Longrightarrow> cline (l @ 0 # z) (length l)"
  by (auto simp: cline_def nth_append in_set_conv_nth)

context streams
begin

lemma fprintf_string:
  assumes "0 \<notin> set str" "length pre + length str < 500" "0 \<notin> set pre" "37 \<notin> set pre" "bytes_of fmt = pre @ [37, 115, 10]" "con s fd"
  shows "\<exists>r t. fprintf sys fd fmt [VPtr (Some (str @ 0 # z))] s = Inr (Inr r, t) \<and> inp t = inp s \<and>
    out t = out s @ map (Pair fd) (pre @ str @ [10]) \<and> files t = files s \<and> con t = con s"
proof (rule fprintf_writes)
  have "vsprintf (pre @ 37 # 115 # 10 # [0]) [VPtr (Some (str @ 0 # z))] = Inr (pre @ str @ [10])"
    using assms(3,4)
  proof (induction pre)
    case Nil
    then show ?case using assms(1,2) by (simp add: fmt_simps)
  qed (simp add: fmt_simps)
  then show "vsprintf (lit fmt) [VPtr (Some (str @ 0 # z))] = Inr (pre @ str @ [10])" by (simp add: lit_def assms(5))
qed (use assms(2,6) in simp_all)

lemma panic_exits:
  assumes "0 \<notin> set (bytes_of msg)" "length msg < 400" "con s 2"
  shows "\<exists>t. panic sys msg s = Inr (Inl 1, t) \<and> inp t = inp s \<and> files t = files s \<and>
    out t = out s @ map (Pair 2) (bytes_of (line msg))"
proof -
  have f: "bytes_of (line ''%s'') = [] @ [37, 115, 10]" by (simp add: bytes_of_def line_def)
  have l: "length (bytes_of msg) = length msg" by (simp add: bytes_of_def)
  have "\<exists>r t. fprintf sys 2 (line ''%s'') [VPtr (Some (bytes_of msg @ 0 # []))] s = Inr (Inr r, t) \<and> inp t = inp s \<and>
    out t = out s @ map (Pair 2) ([] @ bytes_of msg @ [10]) \<and> files t = files s \<and> con t = con s"
    by (rule fprintf_string [OF _ _ _ _ f]) (use assms l in simp_all)
  then obtain r t where t: "fprintf sys 2 (line ''%s'') [VPtr (Some (lit msg))] s = Inr (Inr r, t)" "inp t = inp s"
    "out t = out s @ map (Pair 2) (bytes_of msg @ [10])" "files t = files s" unfolding lit_def by auto
  have "panic sys msg s = Inr (Inl 1, t)" using t(1) by (simp add: panic_def bindU_def exitU_def)
  then show ?thesis using t(2-) by (auto simp: bytes_of_def line_def)
qed

end

lemma messages_short: "msg \<in> set messages \<Longrightarrow> 0 \<notin> set (bytes_of msg) \<and> length msg < 400"
  by (auto simp: messages_def bytes_of_def)

text \<open>
  C21. The parser of the shell always returns and stays inside the line: for every line, however malformed, \<open>parsecmd\<close>
  comes back with a tree whose pointers all lie in the line, of which only bytes have been changed, or it reports
  an error on descriptor 2 (which must take output) and exits with status 1. Fuel of four times the length is enough.
\<close>

theorem parsecmd_returns:
  fixes sys :: "'s sys"
  assumes "streams sys files inp out con" "con s 2" "0 \<notin> set l" "length l < 400" "4 * length l + 4 \<le> fuel"
  shows "\<exists>r t. parsecmd fuel sys (l @ 0 # z) s = Inr (r, t) \<and> inp t = inp s \<and> files t = files s \<and>
    (case r of
       Inl n \<Rightarrow> n = 1 \<and> (\<exists>bs. bs \<noteq> [] \<and> out t = out s @ map (Pair 2) bs)
     | Inr (c, buf) \<Rightarrow> t = s \<and> length buf = length (l @ 0 # z) \<and> (\<forall>(q, eq) \<in> set_cmd c. q \<le> eq \<and> eq \<le> length l))"
proof -
  let ?buf = "l @ 0 # z"
  have B: "cline ?buf (length l)" by (rule cline_intro [OF assms(3)])
  have n: "strlen ?buf = Inr (length l)" by (rule strlen_cstr [OF assms(3)])
  have "fits (length l) 0 (parseline fuel ?buf (length l) 0)" using parse_fits [OF B, of fuel] assms(5) by simp
  then consider (panic) msg where "parseline fuel ?buf (length l) 0 = Inr (Inl msg)" "msg \<in> set messages"
    | (tree) c p where "parseline fuel ?buf (length l) 0 = Inr (Inr (c, p))" "p \<le> length l" "inside (length l) c"
    by (auto simp: fits_def split: sum.splits prod.splits)
  then show ?thesis
  proof cases
    case panic
    obtain t where t: "(panic sys msg :: ('s, tree \<times> byte list) uprog) s = Inr (Inl 1, t)" "inp t = inp s" "files t = files s" "out t = out s @ map (Pair 2) (bytes_of (line msg))"
      using streams.panic_exits [OF assms(1), of msg s] messages_short [OF panic(2)] assms(2) by blast
    have "parsecmd fuel sys ?buf s = Inr (Inl 1, t)" using n panic(1) t(1) by (simp add: parsecmd_def)
    moreover have "bytes_of (line msg) \<noteq> []" by (simp add: bytes_of_def line_def)
    ultimately show ?thesis using t(2-) by (intro exI [of _ "Inl 1"] exI [of _ t]) (auto simp only: sum.case)
  next
    case tree
    obtain h p1 where p1: "peek ?buf (length l) p [0] = Inr (h, p1)" "p1 \<le> length l" by (rule look [OF B tree(2)])
    show ?thesis
    proof (cases "p1 = length l")
      case True
      obtain b where "nulterminate c ?buf = Inr b" "length b = length ?buf" using nulterminate_inside [OF _ tree(3), of ?buf] by auto
      then show ?thesis using n tree(1,3) p1(1) True by (simp add: parsecmd_def inside_def)
    next
      case False
      have d: "drop p1 ?buf = drop p1 l @ 0 # z" using p1(2) by simp
      have f: "bytes_of (line ''leftovers: %s'') = bytes_of ''leftovers: '' @ [37, 115, 10]" by (simp add: bytes_of_def line_def)
      have z: "0 \<notin> set (drop p1 l)" using assms(3) by (meson in_set_dropD)
      have "\<exists>r t. fprintf sys 2 (line ''leftovers: %s'') [VPtr (Some (drop p1 l @ 0 # z))] s = Inr (Inr r, t) \<and> inp t = inp s \<and>
        out t = out s @ map (Pair 2) (bytes_of ''leftovers: '' @ drop p1 l @ [10]) \<and> files t = files s \<and> con t = con s"
        by (rule streams.fprintf_string [OF assms(1) z _ _ _ f]) (use assms(2,4) in \<open>simp_all add: bytes_of_def\<close>)
      then obtain r t where t: "fprintf sys 2 (line ''leftovers: %s'') [VPtr (Some (drop p1 ?buf))] s = Inr (Inr r, t)" "inp t = inp s"
        "out t = out s @ map (Pair 2) (bytes_of ''leftovers: '' @ drop p1 l @ [10])" "files t = files s" "con t = con s" unfolding d by blast
      obtain u where u: "(panic sys ''syntax'' :: ('s, tree \<times> byte list) uprog) t = Inr (Inl 1, u)" "inp u = inp t" "files u = files t"
        "out u = out t @ map (Pair 2) (bytes_of (line ''syntax''))"
        using streams.panic_exits [OF assms(1), of "''syntax''" t] t(5) assms(2) by (auto simp: bytes_of_def)
      have "parsecmd fuel sys ?buf s = Inr (Inl 1, u)"
        using n tree(1) p1(1) False t(1) u(1) by (simp add: parsecmd_def bindU_def)
      moreover define bs where "bs = bytes_of ''leftovers: '' @ drop p1 l @ [10] @ bytes_of (line ''syntax'')"
      have "out u = out s @ map (Pair 2) bs" "bs \<noteq> []" using t(3) u(4) by (simp_all add: bs_def)
      ultimately show ?thesis using t(2,4) u(2,3) by (intro exI [of _ "Inl 1"] exI [of _ u]) auto
    qed
  qed
qed

theorem parsecmd_returns_witness:
  "\<exists>r t. parsecmd 60 world_sys (bytes_of ''ls | (grep a;'' @ [0]) (small_world []) = Inr (r, t) \<and> w_inp t = w_inp (small_world [])"
  using parsecmd_returns [where sys = world_sys and files = w_files and inp = w_inp and out = w_out and con = "\<lambda>_ _. True" and l = "bytes_of ''ls | (grep a;''" and
    fuel = 60 and z = "[]" and s = "small_world []", OF files.streams_axioms]
  by (simp add: bytes_of_def) blast

end
