(* ===== verification/ShellGrammar.thy ===== *)
theory ShellGrammar
  imports ShellParse
begin

text \<open>
  The grammar of the shell, the text and the meaning of its commands, and the parser as the inverse of the text.
\<close>

section \<open>Commands and their text\<close>

text \<open>The grammar of the shell.\<close>

datatype redir = In "byte list" | Out "byte list" | App "byte list"

datatype sline = Line spipe nat | Seq spipe nat sline
  and spipe = One sexec | Bar sexec spipe
  and sexec = Simple "redir list" "(byte list \<times> redir list) list" | Paren sline "redir list"

text \<open>The tokens of a command, and its text: every token is followed by a space.\<close>

primrec redir_tokens :: "redir \<Rightarrow> byte list list" where
  "redir_tokens (In w) = [[60], w]"
| "redir_tokens (Out w) = [[62], w]"
| "redir_tokens (App w) = [[62, 62], w]"

definition redirs_tokens :: "redir list \<Rightarrow> byte list list" where
  "redirs_tokens rs = concat (map redir_tokens rs)"

definition args_tokens :: "(byte list \<times> redir list) list \<Rightarrow> byte list list" where
  "args_tokens args = concat (map (\<lambda>(w, rs). w # redirs_tokens rs) args)"

primrec line_tokens :: "sline \<Rightarrow> byte list list"
  and pipe_tokens :: "spipe \<Rightarrow> byte list list"
  and exec_tokens :: "sexec \<Rightarrow> byte list list" where
  "line_tokens (Line p n) = pipe_tokens p @ replicate n [38]"
| "line_tokens (Seq p n l) = pipe_tokens p @ replicate n [38] @ [59] # line_tokens l"
| "pipe_tokens (One e) = exec_tokens e"
| "pipe_tokens (Bar e p) = exec_tokens e @ [124] # pipe_tokens p"
| "exec_tokens (Simple rs args) = redirs_tokens rs @ args_tokens args"
| "exec_tokens (Paren l rs) = [40] # line_tokens l @ [41] # redirs_tokens rs"

definition render :: "byte list list \<Rightarrow> byte list" where
  "render ts = concat (map (\<lambda>t. t @ [32]) ts)"

text \<open>The tree that a command stands for, with words in place of pointers.\<close>

primrec den_redir :: "'a cmd \<Rightarrow> redir \<Rightarrow> (byte list \<Rightarrow> 'a) \<Rightarrow> 'a cmd" where
  "den_redir c (In w) f = REDIR c (f w) 0 0 0"
| "den_redir c (Out w) f = REDIR c (f w) 0x601 1 0"
| "den_redir c (App w) f = REDIR c (f w) 0x201 1 2"

definition den_redirs :: "byte list cmd \<Rightarrow> redir list \<Rightarrow> byte list cmd" where
  "den_redirs = foldl (\<lambda>c r. den_redir c r id)"

primrec den_line :: "sline \<Rightarrow> byte list cmd"
  and den_pipe :: "spipe \<Rightarrow> byte list cmd"
  and den_exec :: "sexec \<Rightarrow> byte list cmd" where
  "den_line (Line p n) = (BACK ^^ n) (den_pipe p)"
| "den_line (Seq p n l) = LIST ((BACK ^^ n) (den_pipe p)) (den_line l)"
| "den_pipe (One e) = den_exec e"
| "den_pipe (Bar e p) = PIPE (den_exec e) (den_pipe p)"
| "den_exec (Simple rs args) = den_redirs (EXEC (map fst args)) (rs @ concat (map snd args))"
| "den_exec (Paren l rs) = den_redirs (den_line l) rs"

text \<open>Words, and commands made of words with at most nine arguments.\<close>

definition is_word :: "byte list \<Rightarrow> bool" where
  "is_word w \<longleftrightarrow> w \<noteq> [] \<and> (\<forall>c \<in> set w. c \<notin> {0, 32, 9, 13, 10, 11, 60, 124, 62, 38, 59, 40, 41})"

primrec redir_ok :: "redir \<Rightarrow> bool" where
  "redir_ok (In w) = is_word w"
| "redir_ok (Out w) = is_word w"
| "redir_ok (App w) = is_word w"

primrec line_ok :: "sline \<Rightarrow> bool"
  and pipe_ok :: "spipe \<Rightarrow> bool"
  and exec_ok :: "sexec \<Rightarrow> bool" where
  "line_ok (Line p n) = pipe_ok p"
| "line_ok (Seq p n l) = (pipe_ok p \<and> line_ok l)"
| "pipe_ok (One e) = exec_ok e"
| "pipe_ok (Bar e p) = (exec_ok e \<and> pipe_ok p)"
| "exec_ok (Simple rs args) =
     (list_all redir_ok rs \<and> list_all (\<lambda>(w, rs). is_word w \<and> list_all redir_ok rs) args \<and> length args < MAXARGS)"
| "exec_ok (Paren l rs) = (line_ok l \<and> list_all redir_ok rs)"

section \<open>Reading tokens\<close>

definition is_token :: "byte list \<Rightarrow> bool" where
  "is_token t \<longleftrightarrow> is_word t \<or> t \<in> {[60], [124], [62], [62, 62], [38], [59], [40], [41]}"

definition token_code :: "byte list \<Rightarrow> byte" where
  "token_code t = (if is_word t then 97 else if t = [62, 62] then 43 else hd t)"

text \<open>The tokens \<open>ts\<close> are left at position \<open>p\<close>.\<close>

definition left_at :: "byte list \<Rightarrow> nat \<Rightarrow> nat \<Rightarrow> byte list list \<Rightarrow> bool" where
  "left_at buf es p ts \<longleftrightarrow> (\<forall>t \<in> set ts. is_token t) \<and> p + length (render ts) = es \<and> (\<exists>z. drop p buf = render ts @ 0 # z)"

lemma render_simps [simp]: "render [] = []" "render (t # ts) = t @ 32 # render ts"
  by (simp_all add: render_def)

lemma is_token_head: "is_token t \<Longrightarrow> t \<noteq> [] \<and> hd t \<notin> {0, 32, 9, 13, 10, 11}"
  by (cases t) (auto simp: is_token_def is_word_def)

lemma left_at_rdR: "drop p buf = x # xs \<Longrightarrow> rdR buf p = Inr x"
  by (metis drop_eq_Nil2 hd_drop_conv_nth leI list.distinct(1) list.sel(1) rdR_def)

lemma drop_next: "drop p buf = x # xs \<Longrightarrow> drop (p + 1) buf = xs"
  by (simp add: drop_Suc drop_tl)

lemma skip_white_end: "left_at buf es p ts \<Longrightarrow> skip_white buf es p = Inr p"
proof (cases ts)
  case (Cons t ts')
  assume l: "left_at buf es p ts"
  then obtain c t' where t: "t = c # t'" "c \<notin> {0, 32, 9, 13, 10, 11}"
    using is_token_head [of t] Cons by (cases t) (auto simp: left_at_def)
  then obtain z where "drop p buf = c # z" using l Cons by (auto simp: left_at_def)
  then have "rdR buf p = Inr c" by (rule left_at_rdR)
  then show ?thesis using t(2) by (subst skip_white.simps) auto
qed (simp add: left_at_def skip_white.simps)

lemma skip_white_space:
  assumes "drop p buf = 32 # drop (p + 1) buf" "left_at buf es (p + 1) ts"
  shows "skip_white buf es p = Inr (p + 1)"
proof -
  have "p < es" using assms(2) by (auto simp: left_at_def)
  then show ?thesis using left_at_rdR [OF assms(1)] skip_white_end [OF assms(2)] by (subst skip_white.simps) auto
qed

lemma peek_left:
  assumes "left_at buf es p ts" "\<And>c. c \<noteq> 0 \<Longrightarrow> is_in toks c \<longleftrightarrow> c \<in> C"
  shows "peek buf es p toks = Inr (ts \<noteq> [] \<and> hd (hd ts) \<in> C, p)"
proof (cases ts)
  case Nil
  then have "rdR buf p = Inr 0" using assms(1) left_at_rdR by (auto simp: left_at_def)
  then show ?thesis using skip_white_end [OF assms(1)] Nil by (simp add: peek_def)
next
  case (Cons t ts')
  then obtain c t' where t: "t = c # t'" "c \<noteq> 0"
    using is_token_head [of t] assms(1) by (cases t) (auto simp: left_at_def)
  then have "rdR buf p = Inr c" using assms(1) Cons left_at_rdR by (auto simp: left_at_def)
  then show ?thesis using skip_white_end [OF assms(1)] Cons t assms(2) by (simp add: peek_def)
qed

lemma word_end_word:
  assumes "\<forall>c \<in> set w. c \<notin> {0, 32, 9, 13, 10, 11, 60, 124, 62, 38, 59, 40, 41}" "drop p buf = w @ 32 # r" "p + length w < es"
  shows "word_end buf es p = Inr (p + length w)"
  using assms
proof (induction w arbitrary: p)
  case Nil
  then have "rdR buf p = Inr 32" using left_at_rdR by simp
  then show ?case using Nil by (subst word_end.simps) simp
next
  case (Cons c w)
  then have r: "rdR buf p = Inr c" using left_at_rdR by simp
  have "drop (p + 1) buf = w @ 32 # r" using drop_next [of p buf c] Cons.prems(2) by simp
  then have "word_end buf es (p + 1) = Inr (p + 1 + length w)" using Cons by auto
  then show ?case using r Cons.prems by (subst word_end.simps) auto
qed

definition good :: "byte list \<Rightarrow> nat \<times> nat \<Rightarrow> bool" where
  "good buf = (\<lambda>(q, eq). q \<le> eq \<and> eq < length buf \<and> buf ! eq = 32 \<and> (\<forall>i. q \<le> i \<and> i < eq \<longrightarrow> buf ! i \<notin> {0, 32}))"

definition word_of :: "byte list \<Rightarrow> nat \<times> nat \<Rightarrow> byte list" where
  "word_of buf = (\<lambda>(q, eq). take (eq - q) (drop q buf))"

lemma gettoken_left:
  assumes "left_at buf es p (t # ts)"
  shows "gettoken buf es p = Inr (token_code t, p, p + length t, p + length t + 1)"
    and "left_at buf es (p + length t + 1) ts"
    and "is_word t \<Longrightarrow> good buf (p, p + length t) \<and> word_of buf (p, p + length t) = t"
proof -
  obtain z where d: "drop p buf = t @ 32 # render ts @ 0 # z" and tok: "is_token t" "\<forall>t \<in> set ts. is_token t"
    and es: "p + length t + 1 + length (render ts) = es" using assms by (auto simp: left_at_def)
  have d1: "drop (p + length t) buf = 32 # render ts @ 0 # z" using d by (metis add.commute append_eq_conv_conj drop_drop)
  then have d2: "drop (p + length t + 1) buf = render ts @ 0 # z" by (rule drop_next)
  show l: "left_at buf es (p + length t + 1) ts" using d2 tok es by (auto simp: left_at_def)
  have sw: "skip_white buf es (p + length t) = Inr (p + length t + 1)" using d1 d2 l by (intro skip_white_space) simp_all
  obtain c t' where t: "t = c # t'" "c \<notin> {0, 32, 9, 13, 10, 11}" using is_token_head [OF tok(1)] by (cases t) auto
  have r: "rdR buf p = Inr c" using d t left_at_rdR by simp
  have r1: "rdR buf (p + 1) = Inr (hd (t' @ [32]))"
  proof (rule left_at_rdR)
    have "drop p buf = c # t' @ 32 # render ts @ 0 # z" using d t(1) by simp
    then have "drop (p + 1) buf = t' @ 32 # render ts @ 0 # z" by (rule drop_next)
    then show "drop (p + 1) buf = hd (t' @ [32]) # tl (t' @ 32 # render ts @ 0 # z)" by (cases t') simp_all
  qed
  show "gettoken buf es p = Inr (token_code t, p, p + length t, p + length t + 1)"
  proof (cases "is_word t")
    case True
    then have w: "word_end buf es p = Inr (p + length t)" using d es by (intro word_end_word) (auto simp: is_word_def)
    have "c \<notin> {124, 40, 41, 59, 38, 60, 62}" using True t by (auto simp: is_word_def)
    then show ?thesis using skip_white_end [OF assms] r t True w sw by (simp add: gettoken_def token_code_def)
  next
    case False
    then consider "t = [c]" "c \<in> {60, 124, 38, 59, 40, 41}" | "t = [62]" | "t = [62, 62]" using tok(1) t(1) by (auto simp: is_token_def)
    then show ?thesis
    proof cases
      case 1
      then show ?thesis using skip_white_end [OF assms] r sw False by (auto simp: gettoken_def token_code_def)
    next
      case 2
      then show ?thesis using skip_white_end [OF assms] r r1 sw False t(1) by (simp add: gettoken_def token_code_def)
    next
      case 3
      then show ?thesis using skip_white_end [OF assms] r r1 sw False t(1) by (simp add: gettoken_def token_code_def)
    qed
  qed
  have "length buf - p = length (t @ 32 # render ts @ 0 # z)" using d by (metis length_drop)
  then have len: "p + length t < length buf" by simp
  have n: "buf ! (p + i) = (t @ 32 # render ts @ 0 # z) ! i" for i
    using nth_drop [of p buf i] len d by simp
  show "good buf (p, p + length t) \<and> word_of buf (p, p + length t) = t" if w: "is_word t"
  proof
    have "buf ! i \<notin> {0, 32}" if "p \<le> i" "i < p + length t" for i
    proof -
      have i: "i - p < length t" "p + (i - p) = i" using that by linarith+
      then have "buf ! i = t ! (i - p)" using n [of "i - p"] by (simp add: nth_append)
      moreover have "t ! (i - p) \<in> set t" using i(1) by simp
      ultimately show ?thesis using w by (auto simp: is_word_def)
    qed
    then show "good buf (p, p + length t)" using n [of "length t"] len by (auto simp: good_def)
    show "word_of buf (p, p + length t) = t" using d by (simp add: word_of_def)
  qed
qed

section \<open>Reading commands\<close>

text \<open>The parser has read the command \<open>d\<close>, and the tokens \<open>ts\<close> are left.\<close>

definition tells :: "byte list \<Rightarrow> tree \<Rightarrow> byte list cmd \<Rightarrow> bool" where
  "tells buf c d \<longleftrightarrow> map_cmd (word_of buf) c = d \<and> (\<forall>a \<in> set_cmd c. good buf a)"

definition gives :: "byte list \<Rightarrow> nat \<Rightarrow> byte list list \<Rightarrow> byte list cmd \<Rightarrow> (tree \<times> nat) parse \<Rightarrow> bool" where
  "gives buf es ts d r \<longleftrightarrow> (\<exists>c p. r = Inr (Inr (c, p)) \<and> left_at buf es p ts \<and> tells buf c d)"

lemma gives_ret: "left_at buf es p ts \<Longrightarrow> tells buf c d \<Longrightarrow> gives buf es ts d (Inr (Inr (c, p)))"
  by (simp add: gives_def)

lemma gives_bindP:
  "gives buf es ts d m \<Longrightarrow> (\<And>c p. left_at buf es p ts \<Longrightarrow> tells buf c d \<Longrightarrow> gives buf es ts' d' (f (c, p))) \<Longrightarrow>
   gives buf es ts' d' (bindP m f)"
  by (auto simp: gives_def bindP_def)

lemma tells_simps [simp]:
  "tells buf (EXEC []) (EXEC [])" "tells buf c d \<Longrightarrow> tells buf (BACK c) (BACK d)"
  "tells buf c d \<Longrightarrow> tells buf c' d' \<Longrightarrow> tells buf (PIPE c c') (PIPE d d')"
  "tells buf c d \<Longrightarrow> tells buf c' d' \<Longrightarrow> tells buf (LIST c c') (LIST d d')"
  "tells buf c d \<Longrightarrow> good buf a \<Longrightarrow> tells buf (REDIR c a m f w) (REDIR d (word_of buf a) m f w)"
  by (auto simp: tells_def)

lemma tells_add_arg: "tells buf c d \<Longrightarrow> good buf a \<Longrightarrow> tells buf (add_arg a c) (add_arg (word_of buf a) d)"
proof -
  have "map_cmd (word_of buf) (add_arg a c) = add_arg (word_of buf a) (map_cmd (word_of buf) c)" by (induction c) simp_all
  then show "tells buf c d \<Longrightarrow> good buf a \<Longrightarrow> tells buf (add_arg a c) (add_arg (word_of buf a) d)"
    using set_add_arg [of a c] by (auto simp: tells_def)
qed

text \<open>What may follow.\<close>

definition follow :: "byte set \<Rightarrow> byte list list \<Rightarrow> bool" where
  "follow S ts \<longleftrightarrow> ts = [] \<or> hd (hd ts) \<in> S"

lemma follow_simps [simp]: "follow S []" "follow S ((c # t) # ts) \<longleftrightarrow> c \<in> S"
  by (simp_all add: follow_def)

lemma follow_mono: "follow S ts \<Longrightarrow> S \<subseteq> S' \<Longrightarrow> follow S' ts"
  by (auto simp: follow_def)

lemma peek_set:
  assumes "left_at buf es p ts"
  shows "peek buf es p [60, 62, 0] = Inr (ts \<noteq> [] \<and> hd (hd ts) \<in> {60, 62}, p)"
    and "peek buf es p [124, 41, 38, 59, 0] = Inr (ts \<noteq> [] \<and> hd (hd ts) \<in> {124, 41, 38, 59}, p)"
    and "peek buf es p [38, 0] = Inr (ts \<noteq> [] \<and> hd (hd ts) = 38, p)" "peek buf es p [59, 0] = Inr (ts \<noteq> [] \<and> hd (hd ts) = 59, p)"
    and "peek buf es p [124, 0] = Inr (ts \<noteq> [] \<and> hd (hd ts) = 124, p)" "peek buf es p [40, 0] = Inr (ts \<noteq> [] \<and> hd (hd ts) = 40, p)"
    and "peek buf es p [41, 0] = Inr (ts \<noteq> [] \<and> hd (hd ts) = 41, p)" "peek buf es p [0] = Inr (False, p)"
  using peek_left [OF assms, of "[60, 62, 0]" "{60, 62}"] peek_left [OF assms, of "[124, 41, 38, 59, 0]" "{124, 41, 38, 59}"]
    peek_left [OF assms, of "[38, 0]" "{38}"] peek_left [OF assms, of "[59, 0]" "{59}"] peek_left [OF assms, of "[124, 0]" "{124}"]
    peek_left [OF assms, of "[40, 0]" "{40}"] peek_left [OF assms, of "[41, 0]" "{41}"] peek_left [OF assms, of "[0]" "{}"]
  by simp_all

lemma gettoken_end:
  assumes "left_at buf es p []"
  shows "gettoken buf es p = Inr (0, p, p, p)"
proof -
  have "rdR buf p = Inr 0" using assms left_at_rdR by (auto simp: left_at_def)
  then show ?thesis using skip_white_end [OF assms] by (simp add: gettoken_def)
qed

lemma symbol_code [simp]:
  "token_code [60] = 60" "token_code [62] = 62" "token_code [62, 62] = 43" "token_code [38] = 38" "token_code [59] = 59"
  "token_code [124] = 124" "token_code [40] = 40" "token_code [41] = 41" "is_word w \<Longrightarrow> token_code w = 97"
  by (simp_all add: token_code_def is_word_def)

lemma parseredirs_gives:
  "left_at buf es p (redirs_tokens rs @ ts) \<Longrightarrow> follow (- {60, 62}) ts \<Longrightarrow> tells buf c d \<Longrightarrow> list_all redir_ok rs \<Longrightarrow>
   length rs < k \<Longrightarrow> gives buf es ts (den_redirs d rs) (parseredirs k buf es c p)"
proof (induction rs arbitrary: k p c d)
  case Nil
  then obtain m where k: "k = Suc m" by (cases k) auto
  have l: "left_at buf es p ts" using Nil(1) by (simp add: redirs_tokens_def)
  have "\<not> (ts \<noteq> [] \<and> hd (hd ts) \<in> {60, 62})" using Nil(2) by (auto simp: follow_def)
  then show ?case using gives_ret [OF l Nil(3)] peek_set(1) [OF l] by (auto simp: k den_redirs_def)
next
  case (Cons r rs)
  then obtain m where k: "k = Suc m" "length rs < m" by (cases k) auto
  obtain x w where r: "redir_tokens r = [x, w]" "is_word w" "x \<in> {[60], [62], [62, 62]}"
    and dr: "\<And>c a. tells buf c d \<Longrightarrow> good buf a \<Longrightarrow> word_of buf a = w \<Longrightarrow>
      tells buf (redirect c (token_code x) a) (den_redir d r id)"
  proof (cases r)
    case (In w)
    then show ?thesis using that [of "[60]" w] Cons.prems(4) by (fastforce simp: redirect_def)
  next
    case (Out w)
    then show ?thesis using that [of "[62]" w] Cons.prems(4) by (fastforce simp: redirect_def)
  next
    case (App w)
    then show ?thesis using that [of "[62, 62]" w] Cons.prems(4) by (fastforce simp: redirect_def)
  qed
  have l: "left_at buf es p (x # w # redirs_tokens rs @ ts)" using Cons.prems(1) r(1) by (simp add: redirs_tokens_def)
  have h: "hd x \<in> {60, 62}" using r(3) by auto
  note x = gettoken_left [OF l]
  note w = gettoken_left [OF x(2)]
  let ?q = "p + length x + 1"
  have "gives buf es ts (den_redirs (den_redir d r id) rs)
      (parseredirs m buf es (redirect c (token_code x) (?q, ?q + length w)) (?q + length w + 1))"
    using Cons.IH [OF w(2) Cons.prems(2) dr [OF Cons.prems(3)] _ k(2)] Cons.prems(4) w(3) r(2) by simp
  then show ?case using peek_set(1) [OF l] h x(1) w(1) r(2) by (simp add: k(1) den_redirs_def)
qed

lemma add_arg_redirs: "add_arg w (den_redirs c rs) = den_redirs (add_arg w c) rs"
proof (induction rs arbitrary: c)
  case (Cons r rs)
  have "add_arg w (den_redir c r id) = den_redir (add_arg w c) r id" by (cases r) simp_all
  then show ?case using Cons by (simp add: den_redirs_def)
qed (simp add: den_redirs_def)

lemma tokens_fuel:
  assumes "left_at buf es p ts"
  shows "length ts < length buf"
proof -
  have "length ts \<le> length (render ts)" by (induction ts) simp_all
  moreover obtain z where "drop p buf = render ts @ 0 # z" using assms by (auto simp: left_at_def)
  then have "length (render ts @ 0 # z) \<le> length buf" by (metis diff_le_self length_drop)
  ultimately show ?thesis by simp
qed

lemma redirs_tokens_length: "length rs \<le> length (redirs_tokens rs)"
proof (induction rs)
  case (Cons r rs)
  then show ?case by (cases r) (simp_all add: redirs_tokens_def)
qed simp

lemma redirs_first: "follow S ts \<Longrightarrow> {60, 62} \<subseteq> S \<Longrightarrow> follow S (redirs_tokens rs @ ts)"
proof (cases rs)
  case (Cons r rs')
  then show "{60, 62} \<subseteq> S \<Longrightarrow> ?thesis" by (cases r) (simp_all add: redirs_tokens_def)
qed (simp add: redirs_tokens_def)

lemma parseredirs_all:
  assumes "left_at buf es p (redirs_tokens rs @ ts)" "follow (- {60, 62}) ts" "tells buf c d" "list_all redir_ok rs"
  shows "gives buf es ts (den_redirs d rs) (parseredirs (length buf) buf es c p)"
  using parseredirs_gives [OF assms] tokens_fuel [OF assms(1)] redirs_tokens_length [of rs] by simp

lemma word_first: "is_word w \<Longrightarrow> hd w \<notin> {0, 32, 9, 13, 10, 11, 60, 124, 62, 38, 59, 40, 41}"
  by (cases w) (auto simp: is_word_def)

lemma parseargs_gives:
  "left_at buf es p (args_tokens args @ ts) \<Longrightarrow> follow {41, 38, 59, 124} ts \<Longrightarrow> tells buf c (den_redirs (EXEC ws) rs) \<Longrightarrow>
   list_all (\<lambda>(w, rs). is_word w \<and> list_all redir_ok rs) args \<Longrightarrow> length args < r \<Longrightarrow>
   gives buf es ts (den_redirs (EXEC (ws @ map fst args)) (rs @ concat (map snd args))) (parseargs r buf es c p)"
proof (induction args arbitrary: r p c ws rs)
  case Nil
  then obtain m where r: "r = Suc m" by (cases r) auto
  have l: "left_at buf es p ts" using Nil(1) by (simp add: args_tokens_def)
  show ?case
  proof (cases ts)
    case Nil
    then show ?thesis using gives_ret [OF l] \<open>tells _ _ _\<close> peek_set(2) [OF l] gettoken_end l by (simp add: r)
  next
    case (Cons t ts')
    then have "hd (hd ts) \<in> {124, 41, 38, 59}" using \<open>follow _ ts\<close> by (auto simp: follow_def)
    then show ?thesis using gives_ret [OF l] \<open>tells _ _ _\<close> peek_set(2) [OF l] Cons by (simp add: r)
  qed
next
  case (Cons a args)
  obtain w rs' where a: "a = (w, rs')" by (cases a)
  then have w: "is_word w" "list_all redir_ok rs'" using Cons.prems(4) by auto
  obtain m where r: "r = Suc m" "m \<noteq> 0" "length args < m" using Cons.prems(5) by (cases r) auto
  have l: "left_at buf es p (w # redirs_tokens rs' @ args_tokens args @ ts)" using Cons.prems(1) a by (simp add: args_tokens_def)
  note g = gettoken_left [OF l]
  let ?a = "(p, p + length w)"
  have f: "follow (- {60, 62}) (args_tokens args @ ts)"
  proof (cases args)
    case Nil
    then show ?thesis using Cons.prems(2) by (auto simp: args_tokens_def follow_def)
  next
    case (Cons b args')
    then show ?thesis using Cons.prems(4) word_first [of "fst b"] by (cases b) (auto simp: args_tokens_def follow_def)
  qed
  have t: "tells buf (add_arg ?a c) (den_redirs (EXEC (ws @ [w])) rs)"
    using tells_add_arg [OF Cons.prems(3), of ?a] g(3) w(1) by (simp add: add_arg_redirs)
  have app: "den_redirs (den_redirs d xs) ys = den_redirs d (xs @ ys)" for d xs ys by (simp add: den_redirs_def)
  have "gives buf es ts (den_redirs (EXEC ((ws @ [w]) @ map fst args)) ((rs @ rs') @ concat (map snd args)))
      (bindP (parseredirs (length buf) buf es (add_arg ?a c) (p + length w + 1)) (\<lambda>(ret, ps). parseargs m buf es ret ps))"
  proof (rule gives_bindP)
    show "gives buf es (args_tokens args @ ts) (den_redirs (EXEC (ws @ [w])) (rs @ rs'))
        (parseredirs (length buf) buf es (add_arg ?a c) (p + length w + 1))"
      using parseredirs_all [OF g(2) f t w(2)] by (simp add: app)
    show "gives buf es ts (den_redirs (EXEC ((ws @ [w]) @ map fst args)) ((rs @ rs') @ concat (map snd args)))
        (case (c', p') of (ret, ps) \<Rightarrow> parseargs m buf es ret ps)"
      if "left_at buf es p' (args_tokens args @ ts)" "tells buf c' (den_redirs (EXEC (ws @ [w])) (rs @ rs'))" for c' p'
      using Cons.IH [OF that(1) Cons.prems(2) that(2) _ r(3)] Cons.prems(4) by simp
  qed
  moreover have "hd w \<notin> {124, 41, 38, 59}" using word_first [OF w(1)] by simp
  ultimately show ?case using peek_set(2) [OF l] g(1) w(1) r(1,2) a by simp
qed

lemma parsebacks_gives:
  "left_at buf es p (replicate n [38] @ ts) \<Longrightarrow> follow (- {38}) ts \<Longrightarrow> tells buf c d \<Longrightarrow> n < k \<Longrightarrow>
   gives buf es ts ((BACK ^^ n) d) (parsebacks k buf es c p)"
proof (induction n arbitrary: k p c d)
  case 0
  then obtain m where k: "k = Suc m" by (cases k) auto
  have "\<not> (ts \<noteq> [] \<and> hd (hd ts) = 38)" using 0(2) by (auto simp: follow_def)
  then show ?case using gives_ret [of buf es p ts c d] 0(1,3) peek_set(3) [of buf es p ts] by (auto simp: k)
next
  case (Suc n)
  then obtain m where k: "k = Suc m" "n < m" by (cases k) auto
  have l: "left_at buf es p ([38] # replicate n [38] @ ts)" using Suc.prems(1) by simp
  note g = gettoken_left [OF l]
  have "gives buf es ts ((BACK ^^ n) (BACK d)) (parsebacks m buf es (BACK c) (p + length [38 :: byte] + 1))"
    using Suc.IH [OF g(2) Suc.prems(2) _ k(2)] Suc.prems(3) by simp
  then show ?case using peek_set(3) [OF l] g(1) by (simp add: k(1) funpow_swap1)
qed

lemma parse_gives:
  shows "\<And>k p ts. left_at buf es p (line_tokens l @ ts) \<Longrightarrow> line_ok l \<Longrightarrow> follow {41} ts \<Longrightarrow> 4 * length (line_tokens l) + 4 \<le> k \<Longrightarrow>
      gives buf es ts (den_line l) (parseline k buf es p)"
    and "\<And>k p ts. left_at buf es p (pipe_tokens q @ ts) \<Longrightarrow> pipe_ok q \<Longrightarrow> follow {41, 38, 59} ts \<Longrightarrow> 4 * length (pipe_tokens q) + 3 \<le> k \<Longrightarrow>
      gives buf es ts (den_pipe q) (parsepipe k buf es p)"
    and "\<And>k p ts. left_at buf es p (exec_tokens e @ ts) \<Longrightarrow> exec_ok e \<Longrightarrow> follow {41, 38, 59, 124} ts \<Longrightarrow> 4 * length (exec_tokens e) + 2 \<le> k \<Longrightarrow>
      gives buf es ts (den_exec e) (parseexec k buf es p)"
proof (induction l and q and e)
  case (Line q n)
  then obtain m where k: "k = Suc m" "4 * length (pipe_tokens q) + 3 \<le> m" by (cases k) auto
  have l: "left_at buf es p (pipe_tokens q @ replicate n [38] @ ts)" using Line.prems(1) by simp
  have f: "follow {41, 38, 59} (replicate n [38] @ ts)" using Line.prems(3) by (cases n) (auto simp: follow_def)
  have g: "gives buf es (replicate n [38] @ ts) (den_pipe q) (parsepipe m buf es p)" using Line.IH [OF l _ f k(2)] Line.prems(2) by simp
  let ?F = "\<lambda>(cmd, ps). bindR (peek buf es ps [59, 0]) (\<lambda>(h, ps).
        if h then bindR (gettoken buf es ps) (\<lambda>(_, _, _, ps). bindP (parseline m buf es ps) (\<lambda>(right, ps). retP (LIST cmd right, ps)))
        else retP (cmd, ps))"
  show ?case
    unfolding k(1) parseline.simps listcmd_def
  proof (rule gives_bindP [OF g], unfold prod.case)
    fix c p1 assume c: "left_at buf es p1 (replicate n [38] @ ts)" "tells buf c (den_pipe q)"
    show "gives buf es ts (den_line (Line q n)) (bindP (parsebacks (length buf) buf es c p1) ?F)"
    proof (rule gives_bindP)
      show "gives buf es ts (den_line (Line q n)) (parsebacks (length buf) buf es c p1)"
        using parsebacks_gives [OF c(1) _ c(2), of "length buf"] Line.prems(3) tokens_fuel [OF c(1)] by (auto simp: follow_def)
      fix c p2 assume c: "left_at buf es p2 ts" "tells buf c (den_line (Line q n))"
      have "\<not> (ts \<noteq> [] \<and> hd (hd ts) = 59)" using Line.prems(3) by (auto simp: follow_def)
      then show "gives buf es ts (den_line (Line q n)) (?F (c, p2))"
        using gives_ret [OF c] peek_set(4) [OF c(1)] by (auto simp del: den_line.simps)
    qed
  qed
next
  case (Seq q n l)
  then obtain m where k: "k = Suc m" "4 * length (pipe_tokens q) + 3 \<le> m" "4 * length (line_tokens l) + 4 \<le> m" by (cases k) auto
  let ?r = "[59] # line_tokens l @ ts"
  have l: "left_at buf es p (pipe_tokens q @ replicate n [38] @ ?r)" using Seq.prems(1) by simp
  have f: "follow {41, 38, 59} (replicate n [38] @ ?r)" by (cases n) simp_all
  have ok: "pipe_ok q" "line_ok l" using Seq.prems(2) by simp_all
  let ?F = "\<lambda>(cmd, ps). bindR (peek buf es ps [59, 0]) (\<lambda>(h, ps).
        if h then bindR (gettoken buf es ps) (\<lambda>(_, _, _, ps). bindP (parseline m buf es ps) (\<lambda>(right, ps). retP (LIST cmd right, ps)))
        else retP (cmd, ps))"
  show ?case
    unfolding k(1) parseline.simps listcmd_def
  proof (rule gives_bindP [OF Seq.IH(1) [OF l ok(1) f k(2)]], unfold prod.case)
    fix c p1 assume c: "left_at buf es p1 (replicate n [38] @ ?r)" "tells buf c (den_pipe q)"
    show "gives buf es ts (den_line (Seq q n l)) (bindP (parsebacks (length buf) buf es c p1) ?F)"
    proof (rule gives_bindP)
      show "gives buf es ?r ((BACK ^^ n) (den_pipe q)) (parsebacks (length buf) buf es c p1)"
        using parsebacks_gives [OF c(1) _ c(2), of "length buf"] tokens_fuel [OF c(1)] by simp
      fix c p2 assume c: "left_at buf es p2 ?r" "tells buf c ((BACK ^^ n) (den_pipe q))"
      note g = gettoken_left [OF c(1)]
      have "gives buf es ts (LIST ((BACK ^^ n) (den_pipe q)) (den_line l))
          (bindP (parseline m buf es (p2 + length [59 :: byte] + 1)) (\<lambda>(right, ps). retP (LIST c right, ps)))"
        by (rule gives_bindP [OF Seq.IH(2) [OF g(2) ok(2) Seq.prems(3) k(3)]]) (use c(2) in \<open>simp add: gives_ret\<close>)
      then show "gives buf es ts (den_line (Seq q n l)) (?F (c, p2))" using peek_set(4) [OF c(1)] g(1) by simp
    qed
  qed
next
  case (One e)
  then obtain m where k: "k = Suc m" "4 * length (exec_tokens e) + 2 \<le> m" by (cases k) auto
  have l: "left_at buf es p (exec_tokens e @ ts)" "exec_ok e" "follow {41, 38, 59, 124} ts" using One.prems by (auto simp: follow_def)
  show ?case
    unfolding k(1) parsepipe.simps pipecmd_def
  proof (rule gives_bindP [OF One.IH [OF l k(2)]], unfold prod.case)
    fix c p1 assume c: "left_at buf es p1 ts" "tells buf c (den_exec e)"
    have "\<not> (ts \<noteq> [] \<and> hd (hd ts) = 124)" using One.prems(3) by (auto simp: follow_def)
    then show "gives buf es ts (den_pipe (One e)) (bindR (peek buf es p1 [124, 0]) (\<lambda>(h, ps).
        if h then bindR (gettoken buf es ps) (\<lambda>(_, _, _, ps). bindP (parsepipe m buf es ps) (\<lambda>(right, ps). retP (PIPE c right, ps)))
        else retP (c, ps)))"
      using gives_ret [OF c] peek_set(5) [OF c(1)] by auto
  qed
next
  case (Bar e q)
  then obtain m where k: "k = Suc m" "4 * length (exec_tokens e) + 2 \<le> m" "4 * length (pipe_tokens q) + 3 \<le> m" by (cases k) auto
  let ?r = "[124] # pipe_tokens q @ ts"
  have l: "left_at buf es p (exec_tokens e @ ?r)" "exec_ok e" "follow {41, 38, 59, 124} ?r" "pipe_ok q" using Bar.prems by simp_all
  show ?case
    unfolding k(1) parsepipe.simps pipecmd_def
  proof (rule gives_bindP [OF Bar.IH(1) [OF l(1-3) k(2)]], unfold prod.case)
    fix c p1 assume c: "left_at buf es p1 ?r" "tells buf c (den_exec e)"
    note g = gettoken_left [OF c(1)]
    have "gives buf es ts (PIPE (den_exec e) (den_pipe q))
        (bindP (parsepipe m buf es (p1 + length [124 :: byte] + 1)) (\<lambda>(right, ps). retP (PIPE c right, ps)))"
      by (rule gives_bindP [OF Bar.IH(2) [OF g(2) l(4) Bar.prems(3) k(3)]]) (use c(2) in \<open>simp add: gives_ret\<close>)
    then show "gives buf es ts (den_pipe (Bar e q)) (bindR (peek buf es p1 [124, 0]) (\<lambda>(h, ps).
        if h then bindR (gettoken buf es ps) (\<lambda>(_, _, _, ps). bindP (parsepipe m buf es ps) (\<lambda>(right, ps). retP (PIPE c right, ps)))
        else retP (c, ps)))"
      using peek_set(5) [OF c(1)] g(1) by simp
  qed
next
  case (Simple rs args)
  then obtain m where k: "k = Suc m" by (cases k) auto
  have l: "left_at buf es p (redirs_tokens rs @ args_tokens args @ ts)" using Simple.prems(1) by simp
  have ok: "list_all redir_ok rs" "list_all (\<lambda>(w, rs). is_word w \<and> list_all redir_ok rs) args" "length args < MAXARGS"
    using Simple.prems(2) by simp_all
  have fa: "follow (- {60, 62, 40}) (args_tokens args @ ts)"
  proof (cases args)
    case Nil
    then show ?thesis using Simple.prems(3) by (auto simp: args_tokens_def follow_def)
  next
    case (Cons b args')
    then show ?thesis using ok(2) word_first [of "fst b"] by (cases b) (auto simp: args_tokens_def follow_def)
  qed
  then have f: "follow (- {60, 62}) (args_tokens args @ ts)" "follow (- {40}) (redirs_tokens rs @ args_tokens args @ ts)"
    by (auto intro!: redirs_first elim: follow_mono)
  then have "\<not> (redirs_tokens rs @ args_tokens args @ ts \<noteq> [] \<and> hd (hd (redirs_tokens rs @ args_tokens args @ ts)) = 40)"
    by (auto simp: follow_def)
  then have "peek buf es p [40, 0] = Inr (False, p)" using peek_set(6) [OF l] by simp
  moreover have "gives buf es ts (den_exec (Simple rs args))
      (bindP (parseredirs (length buf) buf es (EXEC []) p) (\<lambda>(ret, ps). parseargs MAXARGS buf es ret ps))"
  proof (rule gives_bindP [OF parseredirs_all [OF l f(1) _ ok(1), of "EXEC []" "EXEC []"]], simp, unfold prod.case)
    fix c p1 assume "left_at buf es p1 (args_tokens args @ ts)" "tells buf c (den_redirs (EXEC []) rs)"
    from parseargs_gives [OF this(1) Simple.prems(3) this(2) ok(2,3)]
    show "gives buf es ts (den_exec (Simple rs args)) (parseargs MAXARGS buf es c p1)" by simp
  qed
  ultimately show ?case by (simp add: k)
next
  case (Paren l rs)
  then obtain m where k: "k = Suc (Suc m)" "4 * length (line_tokens l) + 4 \<le> m" by (cases k; cases "k - 1") auto
  let ?r = "[41] # redirs_tokens rs @ ts"
  have l: "left_at buf es p ([40] # line_tokens l @ ?r)" using Paren.prems(1) by simp
  have ok: "line_ok l" "list_all redir_ok rs" using Paren.prems(2) by simp_all
  note g = gettoken_left [OF l]
  have "gives buf es ts (den_exec (Paren l rs)) (bindP (parseline m buf es (p + length [40 :: byte] + 1)) (\<lambda>(cmd, ps).
      bindR (peek buf es ps [41, 0]) (\<lambda>(h, ps). if \<not> h then panicP ''syntax - missing )''
        else bindR (gettoken buf es ps) (\<lambda>(_, _, _, ps). parseredirs (length buf) buf es cmd ps))))"
  proof (rule gives_bindP [OF Paren.IH [OF g(2) ok(1) _ k(2)]], simp, unfold prod.case)
    fix c p1 assume c: "left_at buf es p1 ?r" "tells buf c (den_line l)"
    note h = gettoken_left [OF c(1)]
    have "gives buf es ts (den_redirs (den_line l) rs) (parseredirs (length buf) buf es c (p1 + length [41 :: byte] + 1))"
      using Paren.prems(3) by (intro parseredirs_all [OF h(2) _ c(2) ok(2)]) (auto simp: follow_def)
    then show "gives buf es ts (den_exec (Paren l rs)) (bindR (peek buf es p1 [41, 0]) (\<lambda>(h, ps). if \<not> h then panicP ''syntax - missing )''
        else bindR (gettoken buf es ps) (\<lambda>(_, _, _, ps). parseredirs (length buf) buf es c ps)))"
      using peek_set(7) [OF c(1)] h(1) by simp
  qed
  then show ?case using peek_set(6) [OF l] g(1) by (simp add: k(1))
qed

lemma takeWhile_nul: "\<forall>x \<in> set xs. x \<noteq> 0 \<Longrightarrow> takeWhile (\<lambda>x. x \<noteq> 0) (xs @ 0 # r) = (xs :: byte list)"
  by (induction xs) auto

lemma good_string:
  assumes "good buf a" "a \<in> A" "\<forall>a \<in> A. good buf a" "length buf' = length buf"
    "\<forall>i < length buf. buf' ! i = (if i \<in> snd ` A then 0 else buf ! i)"
  shows "takeWhile (\<lambda>x. x \<noteq> 0) (drop (fst a) buf') = word_of buf a"
proof -
  obtain q eq where a: "a = (q, eq)" by (cases a)
  have g: "q \<le> eq" "eq < length buf" "\<And>i. q \<le> i \<Longrightarrow> i < eq \<Longrightarrow> buf ! i \<notin> {0, 32}" using assms(1) by (auto simp: good_def a)
  have e: "buf ! i = 32" if "i \<in> snd ` A" for i using assms(3) that by (fastforce simp: good_def)
  have same: "buf' ! i = buf ! i" if "q \<le> i" "i < eq" for i using assms(5) g(2) g(3) [OF that] e [of i] that(2) by auto
  have w: "take (eq - q) (drop q buf') = take (eq - q) (drop q buf)"
    using g(1,2) assms(4) same by (intro nth_equalityI) auto
  have "\<forall>x \<in> set (take (eq - q) (drop q buf)). x \<noteq> 0"
    using g by (auto simp: set_conv_nth)
  moreover have "drop q buf' = take (eq - q) (drop q buf') @ 0 # drop (eq + 1) buf'"
  proof -
    have "buf' ! eq = 0" using assms(2,5) g(2) a by force
    then have "drop eq buf' = 0 # drop (eq + 1) buf'" using g(2) assms(4) by (metis Cons_nth_drop_Suc Suc_eq_plus1)
    moreover have "drop q buf' = take (eq - q) (drop q buf') @ drop eq buf'"
      using append_take_drop_id [of "eq - q" "drop q buf'"] g(1) by (simp add: drop_drop)
    ultimately show ?thesis by simp
  qed
  ultimately have "takeWhile (\<lambda>x. x \<noteq> 0) (drop q buf') = take (eq - q) (drop q buf)"
    unfolding w by (simp only: takeWhile_nul)
  then show ?thesis by (simp add: a word_of_def)
qed

lemma tokens_ok:
  shows "line_ok l \<Longrightarrow> \<forall>t \<in> set (line_tokens l). is_token t" "pipe_ok q \<Longrightarrow> \<forall>t \<in> set (pipe_tokens q). is_token t"
    "exec_ok e \<Longrightarrow> \<forall>t \<in> set (exec_tokens e). is_token t"
proof (induction l and q and e)
  have r: "\<forall>t \<in> set (redirs_tokens rs). is_token t" if "list_all redir_ok rs" for rs
    using that
  proof (induction rs)
    case (Cons r rs)
    then show ?case by (cases r) (auto simp: redirs_tokens_def is_token_def)
  qed (simp add: redirs_tokens_def)
  {
    case (Simple rs args)
    have "\<forall>t \<in> set (args_tokens args). is_token t" if "list_all (\<lambda>(w, rs). is_word w \<and> list_all redir_ok rs) args"
      using that r by (fastforce simp: args_tokens_def is_token_def list_all_iff)
    then show ?case using Simple r by auto
  next
    case (Paren l rs)
    then show ?case using r by (auto simp: is_token_def)
  }
qed (auto simp: is_token_def)

lemma token_no_nul: "is_token t \<Longrightarrow> 0 \<notin> set t"
proof -
  have "0 \<notin> set t" if "is_word t" using that unfolding is_word_def by blast
  moreover assume "is_token t"
  ultimately show ?thesis unfolding is_token_def by fastforce
qed

lemma render_no_nul: "\<forall>t \<in> set ts. is_token t \<Longrightarrow> 0 \<notin> set (render ts)"
  by (induction ts) (simp_all add: token_no_nul)

text \<open>
  C20. What is written is what is run: from the text of any command of the shell's grammar, pipes, lists, background
  commands, parentheses and redirections, with at most nine words in a simple command, \<open>parsecmd\<close> reads back the tree
  of this command, and the pointers in the tree are C strings with its words.
\<close>

theorem parsecmd_reads:
  assumes "line_ok l" "4 * length (render (line_tokens l)) + 4 \<le> fuel"
  shows "\<exists>c buf. parsecmd fuel sys (render (line_tokens l) @ 0 # z) s = Inr (Inr (c, buf), s) \<and>
    map_cmd (\<lambda>(q, eq). takeWhile (\<lambda>x. x \<noteq> 0) (drop q buf)) c = den_line l"
proof -
  let ?t = "render (line_tokens l)"
  let ?buf = "?t @ 0 # z"
  have tok: "\<forall>t \<in> set (line_tokens l). is_token t" by (rule tokens_ok(1) [OF assms(1)])
  have n: "strlen ?buf = Inr (length ?t)" by (rule strlen_cstr [OF render_no_nul [OF tok]])
  have l: "left_at ?buf (length ?t) 0 (line_tokens l @ [])" using tok by (simp add: left_at_def)
  have "length (line_tokens l) \<le> length ?t"
  proof -
    have "length ts \<le> length (render ts)" for ts by (induction ts) simp_all
    then show ?thesis .
  qed
  then have "gives ?buf (length ?t) [] (den_line l) (parseline fuel ?buf (length ?t) 0)"
    using parse_gives(1) [OF l assms(1)] assms(2) by simp
  then obtain c p where c: "parseline fuel ?buf (length ?t) 0 = Inr (Inr (c, p))" "left_at ?buf (length ?t) p []" "tells ?buf c (den_line l)"
    by (auto simp: gives_def)
  have p: "p = length ?t" "peek ?buf (length ?t) p [0] = Inr (False, p)" using c(2) peek_set(8) [OF c(2)] by (simp_all add: left_at_def)
  have good: "\<forall>a \<in> set_cmd c. good ?buf a" using c(3) by (simp add: tells_def)
  then have "\<forall>a \<in> set_cmd c. snd a < length ?buf" by (auto simp: good_def)
  from nulterminate_sets [OF this] obtain buf where b: "nulterminate c ?buf = Inr buf" "length buf = length ?buf"
    "\<forall>i < length ?buf. buf ! i = (if i \<in> snd ` set_cmd c then 0 else ?buf ! i)" by blast
  have "map_cmd (\<lambda>(q, eq). takeWhile (\<lambda>x. x \<noteq> 0) (drop q buf)) c = map_cmd (word_of ?buf) c"
  proof (rule cmd.map_cong0)
    fix a assume "a \<in> set_cmd c"
    then have "takeWhile (\<lambda>x. x \<noteq> 0) (drop (fst a) buf) = word_of ?buf a" using good_string [OF _ _ good b(2,3)] good by blast
    then show "(case a of (q, eq) \<Rightarrow> takeWhile (\<lambda>x. x \<noteq> 0) (drop q buf)) = word_of ?buf a" by (cases a) simp
  qed
  also have "\<dots> = den_line l" using c(3) by (simp add: tells_def)
  finally show ?thesis using n c(1) p b(1) by (simp add: parsecmd_def)
qed

theorem parsecmd_reads_witness:
  "\<exists>c buf. parsecmd 400 world_sys (bytes_of ''cat < f | ( wc ; ls ) > g & '' @ 0 # []) (small_world []) = Inr (Inr (c, buf), small_world []) \<and>
    map_cmd (\<lambda>(q, eq). takeWhile (\<lambda>x. x \<noteq> 0) (drop q buf)) c =
      BACK (PIPE (REDIR (EXEC [bytes_of ''cat'']) (bytes_of ''f'') 0 0 0)
        (REDIR (LIST (EXEC [bytes_of ''wc'']) (EXEC [bytes_of ''ls''])) (bytes_of ''g'') 0x601 1 0))"
proof -
  let ?l = "Line (Bar (Simple [] [(bytes_of ''cat'', [In (bytes_of ''f'')])])
    (One (Paren (Seq (One (Simple [] [(bytes_of ''wc'', [])])) 0 (Line (One (Simple [] [(bytes_of ''ls'', [])])) 0)) [Out (bytes_of ''g'')]))) 1"
  have ok: "line_ok ?l" by code_simp
  have r: "render (line_tokens ?l) = bytes_of ''cat < f | ( wc ; ls ) > g & ''"
    by (simp add: render_def redirs_tokens_def args_tokens_def bytes_of_def)
  have d: "den_line ?l = BACK (PIPE (REDIR (EXEC [bytes_of ''cat'']) (bytes_of ''f'') 0 0 0)
        (REDIR (LIST (EXEC [bytes_of ''wc'']) (EXEC [bytes_of ''ls''])) (bytes_of ''g'') 0x601 1 0))"
    by (simp add: den_redirs_def)
  have n: "length (bytes_of ''cat < f | ( wc ; ls ) > g & '') = 28" by (simp add: bytes_of_def)
  show ?thesis using parsecmd_reads [OF ok, of 400 world_sys "[]" "small_world []"] unfolding r d n by simp
qed

end
