(* ===== verification/UserFiles.thy ===== *)
theory UserFiles
  imports Coreutils Syscall FsFile VmeSpace
begin

unbundle bit_operations_syntax

text \<open>
  The programs on the kernel: \<open>read\<close> and \<open>write\<close> are \<open>sys_read\<close> and \<open>sys_write\<close> of \<open>syscall.c\<close>, with \<open>fread\<close>, \<open>fwrite\<close>,
  \<open>iread\<close> and \<open>serial_write\<close> below them, and what they pass goes through a buffer in the memory of the process, as its
  page tables map it. With its last block allocated a file is a stream of its bytes, and descriptor 1 on
  the serial line takes output; so what is proved of the programs on streams holds on the kernel.

  This is the run of one process between two interrupts: the handlers are called as the stubs reach them
  (\<open>UserCalls\<close>), and a call that gives the processor away has no value here.
\<close>

section \<open>Memory of the process\<close>

lemma same_page:
  assumes "pgno v = pgno w" "ADDR2OFF v = ADDR2OFF w"
  shows "v = w"
proof -
  have "unat v mod 4096 = unat w mod 4096" "unat v div 4096 = unat w div 4096"
    using page_down_up(5) [of v] page_down_up(5) [of w] assms by (simp_all add: pgno_def)
  then show ?thesis by (metis div_mult_mod_eq unsigned_word_eqI)
qed

text \<open>A mapped address of the process lies in a page of its address space; two addresses lie in different places.\<close>

lemma mmu_user:
  assumes "space (mem v) pd" "PAGE_DOWN (cr3 v) = pd" "mmu v a = Some x" "PHY_MEM \<le> a"
  obtains f where "frame (mem v) pd (dirno a) (tblno a) = Some f" "f \<in> frames (mem v) pd" "4096 dvd unat f"
    "x = f + ADDR2OFF a" "pgno x = pgno f"
proof -
  obtain f where f: "frame (mem v) pd (dirno a) (tblno a) = Some f" "x = f + ADDR2OFF a"
    using assms(3) mmu_frame [OF assms(2), of a] by auto
  have "f \<in> frames (mem v) pd" using owned_frame [OF user_dirno [OF assms(4)] dirno_less(2) f(1)] by blast
  then show ?thesis using that [OF f(1)] f(2) frames_space [OF assms(1)] off_page by blast
qed

lemma mmu_inj:
  assumes "space (mem v) pd" "PAGE_DOWN (cr3 v) = pd" "mmu v a = Some x" "mmu v b = Some x" "PHY_MEM \<le> a" "PHY_MEM \<le> b"
  shows "a = b"
proof -
  obtain f where f: "frame (mem v) pd (dirno a) (tblno a) = Some f" "4096 dvd unat f" "x = f + ADDR2OFF a" "pgno x = pgno f"
    by (rule mmu_user [OF assms(1,2,3,5)])
  obtain g where g: "frame (mem v) pd (dirno b) (tblno b) = Some g" "4096 dvd unat g" "x = g + ADDR2OFF b" "pgno x = pgno g"
    by (rule mmu_user [OF assms(1,2,4,6)])
  have e: "f = g" using aligned_pgno [OF f(2) g(2)] f(4) g(4) by simp
  have "dirno a = dirno b \<and> tblno a = tblno b"
    using assms(1) f(1) g(1) user_dirno [OF assms(5)] user_dirno [OF assms(6)] dirno_less(2)
    unfolding space_def e by blast
  then have "pgno a = pgno b" using page_index by blast
  moreover have "ADDR2OFF a = ADDR2OFF b" using f(3) g(3) e by simp
  ultimately show ?thesis by (rule same_page)
qed

text \<open>Writing there changes neither the tables nor the translation.\<close>

lemma mmu_store:
  fixes y :: byte
  assumes "space (mem v) pd" "PAGE_DOWN (cr3 v) = pd" "mmu v a = Some x" "PHY_MEM \<le> a"
  shows "space ((mem v)(x := y)) pd" "PHY_MEM \<le> b \<Longrightarrow> mmu (v\<lparr>mem := (mem v)(x := y)\<rparr>) b = mmu v b"
proof -
  obtain f where f: "f \<in> frames (mem v) pd" "4096 dvd unat f" "pgno x = pgno f" by (rule mmu_user [OF assms])
  have "\<forall>z. pgno z \<in> pgno ` insert pd (tabs (mem v) pd) \<longrightarrow> ((mem v)(x := y)) z = mem v z"
  proof (intro allI impI)
    fix z assume "pgno z \<in> pgno ` insert pd (tabs (mem v) pd)"
    then obtain q where q: "q \<in> insert pd (tabs (mem v) pd)" "pgno z = pgno q" by blast
    then have "4096 dvd unat q" "q \<noteq> f" using spaceD(1,3) [OF assms(1)] frames_space [OF assms(1) f(1)] by auto
    then have "pgno q \<noteq> pgno f" using aligned_pgno [OF _ f(2)] by blast
    then have "z \<noteq> x" using q(2) f(3) by auto
    then show "((mem v)(x := y)) z = mem v z" by simp
  qed
  note c = space_cong [OF assms(1) this]
  show "space ((mem v)(x := y)) pd" by (rule c(6))
  show "mmu (v\<lparr>mem := (mem v)(x := y)\<rparr>) b = mmu v b" if "PHY_MEM \<le> b"
  proof -
    have "frame ((mem v)(x := y)) pd (dirno b) (tblno b) = frame (mem v) pd (dirno b) (tblno b)"
      by (rule c(2) [OF user_dirno [OF that] dirno_less(2)])
    then show ?thesis using assms(2) by (simp add: mmu_frame)
  qed
qed

text \<open>The 4096 bytes from \<open>ubuf\<close> on are mapped, in an address space that owns its pages alone; what they hold.\<close>

definition buffer_at :: "kern \<Rightarrow> u32 \<Rightarrow> bool" where
  "buffer_at s ubuf \<longleftrightarrow> space (mem (vmem s)) (PAGE_DOWN (cr3 (vmem s))) \<and>
     (\<forall>i < 4096. PHY_MEM \<le> ubuf + of_nat i \<and> mmu (vmem s) (ubuf + of_nat i) \<noteq> None)"

definition held_at :: "kern \<Rightarrow> u32 \<Rightarrow> nat \<Rightarrow> byte" where
  "held_at s ubuf i = mem (vmem s) (the (mmu (vmem s) (ubuf + of_nat i)))"

abbreviation with_mem :: "memory \<Rightarrow> kern \<Rightarrow> kern" where
  "with_mem m s \<equiv> s\<lparr>vmem := (vmem s)\<lparr>mem := m\<rparr>\<rparr>"

lemma buffer_byte:
  assumes "buffer_at s ubuf" "i < 4096"
  obtains x where "mmu (vmem s) (ubuf + of_nat i) = Some x" "user_at (ubuf + of_nat i) s = Inr x" "PHY_MEM \<le> ubuf + of_nat i"
  using assms by (fastforce simp: buffer_at_def user_at_def not_less)

lemma buffer_load: "buffer_at s ubuf \<Longrightarrow> i < 4096 \<Longrightarrow> user_load (ubuf + of_nat i) s = Inr (held_at s ubuf i, s)"
  by (erule (1) buffer_byte) (simp add: user_load_def bindR_def held_at_def)

lemma of_nat_u32_inj: "i < 4096 \<Longrightarrow> j < 4096 \<Longrightarrow> (of_nat i :: u32) = of_nat j \<Longrightarrow> i = j"
  by (metis small_word(3) less_imp_le)

lemma buffer_store:
  assumes "buffer_at s ubuf" "i < 4096"
  shows "\<exists>m. user_store (ubuf + of_nat i) y s = Inr ((), with_mem m s) \<and> buffer_at (with_mem m s) ubuf \<and>
    (\<forall>j < 4096. held_at (with_mem m s) ubuf j = (if j = i then y else held_at s ubuf j))"
proof -
  obtain x where x: "mmu (vmem s) (ubuf + of_nat i) = Some x" "user_at (ubuf + of_nat i) s = Inr x" "PHY_MEM \<le> ubuf + of_nat i"
    by (rule buffer_byte [OF assms])
  let ?m = "(mem (vmem s))(x := y)"
  have sp: "space (mem (vmem s)) (PAGE_DOWN (cr3 (vmem s)))" and b: "\<And>j. j < 4096 \<Longrightarrow> PHY_MEM \<le> ubuf + of_nat j"
    using assms(1) by (auto simp: buffer_at_def)
  note st = mmu_store [OF sp refl x(1,3), where y = y]
  have "held_at (with_mem ?m s) ubuf j = (if j = i then y else held_at s ubuf j)" if j: "j < 4096" for j
  proof -
    obtain z where z: "mmu (vmem s) (ubuf + of_nat j) = Some z" using buffer_byte [OF assms(1) j] by metis
    have "z = x \<longleftrightarrow> j = i"
      using mmu_inj [OF sp refl x(1) _ x(3) b [OF j]] z x(1) of_nat_u32_inj [OF j assms(2)] by fastforce
    then show ?thesis using z st(2) [OF b [OF j]] by (simp add: held_at_def)
  qed
  moreover have "buffer_at (with_mem ?m s) ubuf" using assms(1) st by (simp add: buffer_at_def)
  ultimately show ?thesis using x(2) by (intro exI [of _ ?m]) (simp add: user_store_def bindR_def)
qed

text \<open>Reading and writing a buffer.\<close>

lemma buffer_loads: "buffer_at s ubuf \<Longrightarrow> n \<le> 4096 \<Longrightarrow> user_loads ubuf n s = Inr (map (held_at s ubuf) [0 ..< n], s)"
proof -
  assume b: "buffer_at s ubuf" and n: "n \<le> 4096"
  have "\<forall>i \<in> set is. i < 4096 \<Longrightarrow>
      foldr (\<lambda>i m. bindS (user_load (ubuf + of_nat i)) (\<lambda>b. bindS m (\<lambda>bs. retS (b # bs)))) is (retS []) s =
      Inr (map (held_at s ubuf) is, s)" for "is"
    by (induction "is") (simp_all add: buffer_load [OF b])
  then show ?thesis using n by (simp add: user_loads_def)
qed

lemma buffer_stores:
  assumes "buffer_at s ubuf" "length bs \<le> 4096"
  shows "\<exists>m. user_stores ubuf bs s = Inr ((), with_mem m s) \<and> buffer_at (with_mem m s) ubuf \<and>
    map (held_at (with_mem m s) ubuf) [0 ..< length bs] = bs"
proof -
  have *: "buffer_at s ubuf \<Longrightarrow> distinct is \<Longrightarrow> \<forall>i \<in> set is. i < 4096 \<Longrightarrow>
      \<exists>m. forS (\<lambda>i. user_store (ubuf + of_nat i) (bs ! i)) is s = Inr ((), with_mem m s) \<and> buffer_at (with_mem m s) ubuf \<and>
        (\<forall>j < 4096. held_at (with_mem m s) ubuf j = (if j \<in> set is then bs ! j else held_at s ubuf j))" for "is" s
  proof (induction "is" arbitrary: s)
    case Nil
    then show ?case by (intro exI [of _ "mem (vmem s)"]) simp
  next
    case (Cons i "is")
    obtain m where m: "user_store (ubuf + of_nat i) (bs ! i) s = Inr ((), with_mem m s)" "buffer_at (with_mem m s) ubuf"
      "\<forall>j < 4096. held_at (with_mem m s) ubuf j = (if j = i then bs ! i else held_at s ubuf j)"
      using buffer_store [OF Cons.prems(1), of i "bs ! i"] Cons.prems(3) by auto
    obtain m' where m': "forS (\<lambda>i. user_store (ubuf + of_nat i) (bs ! i)) is (with_mem m s) = Inr ((), with_mem m' s)"
      "buffer_at (with_mem m' s) ubuf"
      "\<forall>j < 4096. held_at (with_mem m' s) ubuf j = (if j \<in> set is then bs ! j else held_at (with_mem m s) ubuf j)"
      using Cons.IH [OF m(2)] Cons.prems(2,3) by auto
    show ?case using m m' Cons.prems(2) by (intro exI [of _ m']) auto
  qed
  obtain m where m: "user_stores ubuf bs s = Inr ((), with_mem m s)" "buffer_at (with_mem m s) ubuf"
    "\<forall>j < 4096. held_at (with_mem m s) ubuf j = (if j \<in> set [0 ..< length bs] then bs ! j else held_at s ubuf j)"
    using * [OF assms(1), of "[0 ..< length bs]"] assms(2) unfolding user_stores_def by auto
  have "map (held_at (with_mem m s) ubuf) [0 ..< length bs] = map ((!) bs) [0 ..< length bs]" using m(3) assms(2) by simp
  then show ?thesis using m(1,2) by (auto simp: map_nth)
qed

section \<open>The calls\<close>

text \<open>
  A call from a process whose buffer is at \<open>ubuf\<close>: what it passes is put there and what the kernel delivers is found
  there. \<open>returned\<close>: the value of a call that comes straight back. The calls after which another process runs
  have no value here.
\<close>

definition returned :: "call \<Rightarrow> u32 kprog" where
  "returned c = (case c of Value (Some r) \<Rightarrow> retS r | _ \<Rightarrow> stopS Abort)"

definition k_read :: "u32 \<Rightarrow> u32 \<Rightarrow> u32 \<Rightarrow> (kern, u32 \<times> byte list) prog" where
  "k_read ubuf fd n = bindS (bindS (sys_read fd ubuf n) returned) (\<lambda>r.
     bindS (if r = - 1 then retS [] else user_loads ubuf (unat r)) (\<lambda>bs. retS (r, bs)))"

definition k_write :: "u32 \<Rightarrow> u32 \<Rightarrow> byte list \<Rightarrow> u32 kprog" where
  "k_write ubuf fd bs = thenS (user_stores ubuf bs) (bindS (sys_write fd ubuf (of_nat (length bs))) returned)"

definition k_path :: "u32 \<Rightarrow> byte list \<Rightarrow> (u32 \<Rightarrow> call kprog) \<Rightarrow> u32 kprog" where
  "k_path ubuf path m = thenS (user_stores ubuf path) (bindS (m ubuf) returned)"

definition k_fstat :: "u32 \<Rightarrow> u32 \<Rightarrow> (kern, u32 \<times> u32 \<times> u32 \<times> u32) prog" where
  "k_fstat ubuf fd = bindS (bindS (sys_fstat fd ubuf) returned) (\<lambda>r. bindS (user_load32 ubuf) (\<lambda>ty.
     bindS (user_load32 (ubuf + 4)) (\<lambda>sz. bindS (user_load32 (ubuf + 8)) (\<lambda>node. retS (r, ty, sz, node)))))"

definition kernel_sys :: "u32 \<Rightarrow> kern sys" where
  "kernel_sys ubuf = \<lparr>s_read = k_read ubuf, s_write = k_write ubuf,
     s_open = \<lambda>path mode. k_path ubuf path (\<lambda>p. sys_open p mode), s_close = \<lambda>fd. bindS (sys_close fd) returned,
     s_dup = \<lambda>fd. bindS (sys_dup fd) returned, s_lseek = \<lambda>fd off whence. bindS (sys_lseek fd off whence) returned,
     s_fstat = k_fstat ubuf, s_chdir = \<lambda>path. k_path ubuf path sys_chdir, s_unlink = \<lambda>path. k_path ubuf path sys_unlink,
     s_fork = \<lambda>_. stopS Abort, s_exec = \<lambda>_ _. stopS Abort, s_wait = stopS Abort, s_pipe = stopS Abort\<rparr>"

section \<open>Files as streams\<close>

text \<open>What can be read without an allocation, and the bytes that a descriptor of its own has yet to deliver.\<close>

definition readable_file :: "fs \<Rightarrow> nat \<Rightarrow> bool" where
  "readable_file s k \<longleftrightarrow> fs_ok s \<and> good_inode s k \<and> covered s k \<and> full s k"

definition open_file :: "kern \<Rightarrow> u32 \<Rightarrow> nat \<Rightarrow> bool" where
  "open_file s fd i \<longleftrightarrow> i < length (file_tab s) \<and> proc_getfile (curr s) fd s = Some i"

definition file_on :: "kern \<Rightarrow> u32 \<Rightarrow> nat \<Rightarrow> nat \<Rightarrow> bool" where
  "file_on s fd i k \<longleftrightarrow> open_file s fd i \<and> (\<forall>fd'. proc_getfile (curr s) fd' s = Some i \<longrightarrow> fd' = fd) \<and>
     readable (file_tab s ! i) \<and> f_type (file_tab s ! i) = TYPE_FILE \<and> f_inode (file_tab s ! i) = Some k"

definition k_inp :: "u32 \<Rightarrow> kern \<Rightarrow> u32 \<Rightarrow> byte list option" where
  "k_inp ubuf s fd = (case proc_getfile (curr s) fd s of
       None \<Rightarrow> None
     | Some i \<Rightarrow> (case f_inode (file_tab s ! i) of
           None \<Rightarrow> None
         | Some k \<Rightarrow>
             let off = unat (f_offset (file_tab s ! i)) in
             if buffer_at s ubuf \<and> file_on s fd i k \<and> readable_file (fsys s) k \<and> off \<le> fsize (fsys s) k
             then Some (drop off (file_bytes (fsys s) k)) else None))"

text \<open>Descriptor 1 on the serial line.\<close>

definition k_con :: "u32 \<Rightarrow> kern \<Rightarrow> u32 \<Rightarrow> bool" where
  "k_con ubuf s fd \<longleftrightarrow> fd = 1 \<and> buffer_at s ubuf \<and> (\<exists>i. open_file s fd i \<and> writable (file_tab s ! i) \<and>
     f_type (file_tab s ! i) = TYPE_DEV \<and> dev_op (file_tab s ! i) = Some 0)"

definition k_out :: "kern \<Rightarrow> (u32 \<times> byte) list" where
  "k_out s = map (Pair 1) (screen s)"

definition k_files :: "kern \<Rightarrow> sb_t \<times> inode_t list \<times> (u32 \<Rightarrow> byte list)" where
  "k_files s = (sb (fsys s), inodes (fsys s), blocks (fsys s))"

lemma dev_step_sym: "fs_ok s \<Longrightarrow> dev_step s (blocks s) t \<Longrightarrow> dev_step t (blocks t) s"
proof -
  assume s: "fs_ok s" and t: "dev_step s (blocks s) t"
  then have "t = s\<lparr>dev := dev t\<rparr>" by (simp add: dev_step_def)
  then have "s = t\<lparr>dev := dev s\<rparr>" by (metis fs.fold_congs(1) fs.surjective fs.update_convs(1))
  then show ?thesis using s t by (simp add: dev_step_def fs_ok_def)
qed

lemma dev_step_readable:
  assumes "fs_ok s" "dev_step s (blocks s) t"
  shows "readable_file t k = readable_file s k" "file_bytes t k = file_bytes s k" "fsize t k = fsize s k"
proof -
  note f = dev_step_frame [OF assms(2)]
  show "fsize t k = fsize s k" "file_bytes t k = file_bytes s k" using f by (simp_all add: fsize_def isize_def file_bytes_def byte_at_def)
  have *: "readable_file u k \<Longrightarrow> dev_step u (blocks u) v \<Longrightarrow> readable_file v k" for u v
    using dev_step_evolves [of u k "blocks u" v] dev_step_frame [of u "blocks u" v]
    by (simp add: readable_file_def evolves_def covered_def full_def fsize_def isize_def)
  show "readable_file t k = readable_file s k" using * [OF _ assms(2)] * [OF _ dev_step_sym [OF assms]] by blast
qed

text \<open>What \<open>serial_write\<close> sends from the buffer.\<close>

lemma buffer_putstrn:
  assumes "buffer_at s ubuf" "unat count \<le> 4096"
  shows "putstrn ubuf count s = Inr ((), s\<lparr>screen := screen s @ map (held_at s ubuf) [0 ..< unat count]\<rparr>)"
proof -
  have "\<forall>i \<in> set is. i < 4096 \<Longrightarrow>
      forS (\<lambda>i. bindS (user_load (ubuf + of_nat i)) putchar) is (s\<lparr>screen := z\<rparr>) = Inr ((), s\<lparr>screen := z @ map (held_at s ubuf) is\<rparr>)" for "is" z
  proof (induction "is" arbitrary: z)
    case (Cons i "is")
    have b: "buffer_at (s\<lparr>screen := z\<rparr>) ubuf" "held_at (s\<lparr>screen := z\<rparr>) ubuf = held_at s ubuf"
      using assms(1) by (simp_all add: buffer_at_def held_at_def fun_eq_iff)
    show ?case using Cons buffer_load [OF b(1), of i] b(2) by (simp add: putchar_def)
  qed simp
  from this [of "[0 ..< unat count]" "screen s"] show ?thesis using assms(2) by (simp add: putstrn_def)
qed

text \<open>Reading a file, as the process sees it.\<close>

lemma k_read_file:
  assumes "buffer_at s ubuf" "file_on s fd i k" "readable_file (fsys s) k" "unat (f_offset (file_tab s ! i)) \<le> fsize (fsys s) k"
    "unat n \<le> 4096"
  defines "ys \<equiv> take (unat n) (drop (unat (f_offset (file_tab s ! i))) (file_bytes (fsys s) k))"
  shows "\<exists>m u. dev_step (fsys s) (blocks (fsys s)) u \<and> buffer_at (with_mem m s) ubuf \<and>
    k_read ubuf fd n s = Inr ((of_nat (length ys), ys), s\<lparr>fsys := u, vmem := (vmem s)\<lparr>mem := m\<rparr>,
      file_tab := (file_tab s)[i := (file_tab s ! i)\<lparr>f_offset := f_offset (file_tab s ! i) + of_nat (length ys)\<rparr>]\<rparr>)"
proof -
  let ?f = "file_tab s ! i"
  have fo: "i < length (file_tab s)" "proc_getfile (curr s) fd s = Some i" "readable ?f" "f_type ?f = TYPE_FILE" "f_inode ?f = Some k"
    using assms(2) by (simp_all add: file_on_def open_file_def)
  have r: "fs_ok (fsys s)" "good_inode (fsys s) k" "covered (fsys s) k" "full (fsys s) k" using assms(3) by (simp_all add: readable_file_def)
  have "runs {} (iread k (f_offset ?f) n) (\<lambda>xs t. xs = ys \<and> dev_step (fsys s) (blocks (fsys s)) t) (fsys s)"
    by (rule runs_mono [OF iread_in [OF r(1-3), of "{}"]]) (use full_room [OF r(4)] r(4) assms(4) ys_def in auto)
  then obtain u where u: "iread k (f_offset ?f) n (fsys s) = Inr (ys, u)" "dev_step (fsys s) (blocks (fsys s)) u"
    by (auto simp: runs_total)
  have l: "length ys \<le> 4096" using assms(5) by (simp add: ys_def)
  let ?s = "s\<lparr>fsys := u\<rparr>"
  have b: "buffer_at ?s ubuf" using assms(1) by (simp add: buffer_at_def)
  obtain m where m: "user_stores ubuf ys ?s = Inr ((), with_mem m ?s)" "buffer_at (with_mem m ?s) ubuf"
    "map (held_at (with_mem m ?s) ubuf) [0 ..< length ys] = ys" using buffer_stores [OF b l] by blast
  let ?u = "s\<lparr>fsys := u, vmem := (vmem s)\<lparr>mem := m\<rparr>\<rparr>"
  let ?t = "?u\<lparr>file_tab := (file_tab s)[i := ?f\<lparr>f_offset := f_offset ?f + of_nat (length ys)\<rparr>]\<rparr>"
  have w: "unat (of_nat (length ys) :: u32) = length ys" by (rule small_word(3) [OF l])
  have nm: "(of_nat (length ys) :: u32) \<noteq> - 1"
  proof
    assume "(of_nat (length ys) :: u32) = - 1"
    then have "unat (- 1 :: u32) = length ys" using w by simp
    then show False using l by (simp add: unat_u32_minus)
  qed
  have t: "buffer_at ?t ubuf" "held_at ?t ubuf = held_at (with_mem m ?s) ubuf"
    using m(2) by (simp_all add: buffer_at_def held_at_def fun_eq_iff)
  have "on_fs (iread k (f_offset ?f) n) s = Inr (ys, ?s)" using u(1) by (simp add: on_fs_def)
  moreover have "user_stores ubuf ys ?s = Inr ((), ?u)" using m(1) by simp
  moreover have "set_file i (\<lambda>f. f\<lparr>f_offset := f_offset f + of_nat (length ys)\<rparr>) ?u = Inr ((), ?t)" by (simp add: set_file_def)
  ultimately have "fread i ubuf n s = Inr (Value (Some (of_nat (length ys))), ?t)"
    using fo(3-5) nm by (simp add: fread_def Let_def)
  then have "sys_read fd ubuf n s = Inr (Value (Some (of_nat (length ys))), ?t)"
    using fo(2) by (simp add: sys_read_def with_file_def proc_curr_def)
  then have "k_read ubuf fd n s = Inr ((of_nat (length ys), ys), ?t)"
    using buffer_loads [OF t(1) l] w nm m(3) unfolding t(2) by (simp add: k_read_def returned_def)
  moreover have "buffer_at (with_mem m s) ubuf" using m(2) by (simp add: buffer_at_def)
  ultimately show ?thesis using u(2) by blast
qed

lemma k_write_console:
  assumes "k_con ubuf s fd" "length bs \<le> 4096"
  shows "\<exists>m. buffer_at (with_mem m s) ubuf \<and>
    k_write ubuf fd bs s = Inr (of_nat (length bs), (with_mem m s)\<lparr>screen := screen s @ bs\<rparr>)"
proof -
  obtain i where i: "buffer_at s ubuf" "i < length (file_tab s)" "proc_getfile (curr s) fd s = Some i" "writable (file_tab s ! i)"
    "f_type (file_tab s ! i) = TYPE_DEV" "dev_op (file_tab s ! i) = Some 0"
    using assms(1) by (auto simp: k_con_def open_file_def)
  obtain m where m: "user_stores ubuf bs s = Inr ((), with_mem m s)" "buffer_at (with_mem m s) ubuf"
    "map (held_at (with_mem m s) ubuf) [0 ..< length bs] = bs" using buffer_stores [OF i(1) assms(2)] by blast
  have n: "unat (of_nat (length bs) :: u32) = length bs" by (rule small_word(3) [OF assms(2)])
  have "proc_getfile (curr s) fd (with_mem m s) = Some i" using i(3) by (simp add: proc_getfile_def split: if_splits)
  then have "sys_write fd ubuf (of_nat (length bs)) (with_mem m s) =
      Inr (Value (Some (of_nat (length bs))), (with_mem m s)\<lparr>screen := screen s @ bs\<rparr>)"
    using i buffer_putstrn [OF m(2), of "of_nat (length bs)"] assms(2) n m(3)
    by (simp add: sys_write_def with_file_def proc_curr_def fwrite_def dev_table_def rdR_def serial_write_def)
  then show ?thesis using m(1,2) by (intro exI [of _ m]) (simp add: k_write_def returned_def)
qed

text \<open>How the descriptors of a process look after a step that leaves its table and everything but memory and offsets as it was.\<close>

lemma k_same:
  assumes "pcb t = pcb s" "curr t = curr s" "file_tab t = file_tab s" "fsys t = fsys s" "buffer_at t ubuf = buffer_at s ubuf"
  shows "k_inp ubuf t = k_inp ubuf s" "k_con ubuf t = k_con ubuf s" "k_files t = k_files s"
proof -
  have g: "proc_getfile p fd t = proc_getfile p fd s" for p fd using assms(1) by (simp add: proc_getfile_def)
  have f: "file_on t = file_on s" "open_file t = open_file s"
    using assms(2,3) g by (simp_all add: file_on_def open_file_def fun_eq_iff)
  show "k_inp ubuf t = k_inp ubuf s" "k_con ubuf t = k_con ubuf s"
    unfolding k_inp_def k_con_def fun_eq_iff f g assms(2-) by simp_all
  show "k_files t = k_files s" by (simp add: k_files_def assms(4))
qed

lemma k_inp_Some:
  "k_inp ubuf s fd = Some xs \<longleftrightarrow> (\<exists>i k. buffer_at s ubuf \<and> file_on s fd i k \<and> readable_file (fsys s) k \<and>
     unat (f_offset (file_tab s ! i)) \<le> fsize (fsys s) k \<and> xs = drop (unat (f_offset (file_tab s ! i))) (file_bytes (fsys s) k))"
  by (auto simp: k_inp_def file_on_def open_file_def Let_def split: option.splits if_splits)

interpretation kernel: streams "kernel_sys ubuf" k_files "k_inp ubuf" k_out "k_con ubuf" for ubuf
proof unfold_locales
  fix s :: kern and fd n :: u32 and xs
  assume inp: "k_inp ubuf s fd = Some xs" and n: "0 < n" "unat n \<le> 4096"
  obtain i k where b: "buffer_at s ubuf" and f: "file_on s fd i k" and r: "readable_file (fsys s) k"
    and o: "unat (f_offset (file_tab s ! i)) \<le> fsize (fsys s) k"
    and x: "xs = drop (unat (f_offset (file_tab s ! i))) (file_bytes (fsys s) k)"
    using inp unfolding k_inp_Some by blast
  let ?f = "file_tab s ! i"
  define ys where "ys = take (unat n) xs"
  obtain m u where u: "dev_step (fsys s) (blocks (fsys s)) u" "buffer_at (with_mem m s) ubuf"
    "k_read ubuf fd n s = Inr ((of_nat (length ys), ys), s\<lparr>fsys := u, vmem := (vmem s)\<lparr>mem := m\<rparr>,
      file_tab := (file_tab s)[i := ?f\<lparr>f_offset := f_offset ?f + of_nat (length ys)\<rparr>]\<rparr>)"
    using k_read_file [OF b f r o n(2)] unfolding x [symmetric] ys_def [symmetric] by blast
  define t where "t = s\<lparr>fsys := u, vmem := (vmem s)\<lparr>mem := m\<rparr>,
    file_tab := (file_tab s)[i := ?f\<lparr>f_offset := f_offset ?f + of_nat (length ys)\<rparr>]\<rparr>"
  then have ft: "file_tab t = (file_tab s)[i := ?f\<lparr>f_offset := f_offset ?f + of_nat (length ys)\<rparr>]" "fsys t = u" "screen t = screen s" by simp_all
  have il: "i < length (file_tab s)" using f by (simp add: file_on_def open_file_def)
  note d = dev_step_readable [OF _ u(1)]
  have ok: "fs_ok (fsys s)" using r by (simp add: readable_file_def)
  have ly: "length ys \<le> 4096" using n(2) by (simp add: ys_def)
  have lx: "length ys + unat (f_offset ?f) \<le> fsize (fsys s) k" using o by (simp add: ys_def x)
  have fz: "fsize (fsys s) k < 4294967296" using r by (simp add: readable_file_def full_def)
  have off: "unat (f_offset ?f + of_nat (length ys)) = unat (f_offset ?f) + length ys"
    using lx fz small_word(3) [OF ly] unat_add_u32 [of "f_offset ?f" "of_nat (length ys)"] by simp
  have g: "proc_getfile (curr t) fd' t = proc_getfile (curr s) fd' s" for fd' by (simp add: proc_getfile_def t_def)
  have bt: "buffer_at t ubuf" using u(2) by (simp add: buffer_at_def t_def)
  have new: "k_inp ubuf t fd = Some (drop (length ys) xs)"
    unfolding k_inp_Some
    using bt f il d [OF ok] r off lx
    by (intro exI [where P = "\<lambda>i. \<exists>k. P i k" for P, of _ i] exI [where P = "\<lambda>k. _ \<and> file_on t fd i k \<and> _ k", of _ k])
      (simp add: file_on_def open_file_def ft g x add.commute)
  have other: "k_inp ubuf t fd' = k_inp ubuf s fd'" if "fd' \<noteq> fd" for fd'
  proof (cases "proc_getfile (curr s) fd' s")
    case None
    then show ?thesis by (simp add: k_inp_def g)
  next
    case (Some j)
    then have "j \<noteq> i" using f that by (auto simp: file_on_def)
    then have "file_tab t ! j = file_tab s ! j" "length (file_tab t) = length (file_tab s)" by (simp_all add: ft)
    then have "file_on t fd' j k = file_on s fd' j k" "file_tab t ! j = file_tab s ! j" for k
      by (simp_all add: file_on_def open_file_def g)
    then show ?thesis unfolding k_inp_def g Some option.case ft(2) d [OF ok] using b bt by (simp split: option.split)
  qed
  have con: "k_con ubuf t fd' = k_con ubuf s fd'" for fd'
  proof -
    have "f_type ?f \<noteq> TYPE_DEV" using f by (simp add: file_on_def)
    then have "(j < length (file_tab s) \<and> writable (file_tab t ! j) \<and> f_type (file_tab t ! j) = TYPE_DEV \<and> dev_op (file_tab t ! j) = Some 0) =
        (j < length (file_tab s) \<and> writable (file_tab s ! j) \<and> f_type (file_tab s ! j) = TYPE_DEV \<and> dev_op (file_tab s ! j) = Some 0)" for j
      using il by (cases "j = i") (simp_all add: ft)
    then show ?thesis using b bt by (simp add: k_con_def open_file_def g ft(1)) metis
  qed
  have "k_inp ubuf t = (k_inp ubuf s)(fd \<mapsto> drop (length ys) xs)" using new other by (auto simp: fun_eq_iff)
  moreover have "xs = ys @ drop (length ys) xs" by (simp add: ys_def min_def)
  moreover have "ys = [] \<longrightarrow> xs = []" using n(1) by (auto simp: ys_def word_less_nat_alt)
  moreover have "k_files t = k_files s" using dev_step_frame [OF u(1)] by (simp add: k_files_def ft)
  moreover have "length ys \<le> unat n" by (simp add: ys_def)
  ultimately show "\<exists>ys zs t. s_read (kernel_sys ubuf) fd n s = Inr ((of_nat (length ys), ys), t) \<and> xs = ys @ zs \<and> length ys \<le> unat n \<and>
      (ys = [] \<longrightarrow> xs = []) \<and> k_inp ubuf t = (k_inp ubuf s)(fd \<mapsto> zs) \<and> k_out t = k_out s \<and> k_files t = k_files s \<and> k_con ubuf t = k_con ubuf s"
    using u(3) [folded t_def] con by (intro exI [of _ ys] exI [of _ "drop (length ys) xs"] exI [of _ t]) (simp add: kernel_sys_def k_out_def fun_eq_iff ft)
next
  fix s :: kern and fd and bs :: "byte list"
  assume c: "k_con ubuf s fd" and l: "length bs \<le> 4096"
  obtain m where m: "buffer_at (with_mem m s) ubuf" "k_write ubuf fd bs s = Inr (of_nat (length bs), (with_mem m s)\<lparr>screen := screen s @ bs\<rparr>)"
    using k_write_console [OF c l] by blast
  let ?t = "(with_mem m s)\<lparr>screen := screen s @ bs\<rparr>"
  have "buffer_at ?t ubuf = buffer_at s ubuf" using m(1) c by (simp add: buffer_at_def k_con_def)
  then have "k_inp ubuf ?t = k_inp ubuf s" "k_con ubuf ?t = k_con ubuf s" "k_files ?t = k_files s" by (intro k_same; simp)+
  then show "\<exists>t. s_write (kernel_sys ubuf) fd bs s = Inr (of_nat (length bs), t) \<and> k_inp ubuf t = k_inp ubuf s \<and>
      k_out t = k_out s @ map (Pair fd) bs \<and> k_files t = k_files s \<and> k_con ubuf t = k_con ubuf s"
    using m(2) c by (intro exI [of _ ?t]) (simp add: kernel_sys_def k_out_def k_con_def)
qed

text \<open>
  C24. \<open>cat\<close> on the kernel, through \<open>sys_read\<close> and \<open>sys_write\<close>: with a descriptor of its own at the start of a regular file,
  descriptor 1 on the serial line and a buffer mapped in its memory, \<open>cat\<close> sends the bytes of the file to the screen, in
  order and nothing else, returns, and leaves every inode and block of the file system as it was.
\<close>

theorem cat_prints_file:
  assumes "buffer_at s ubuf" "file_on s fd i k" "readable_file (fsys s) k" "f_offset (file_tab s ! i) = 0"
    "k_con ubuf s 1" "fsize (fsys s) k < fuel" "length buf = 4096"
  shows "\<exists>t buf'. cat fuel (kernel_sys ubuf) fd buf s = Inr (Inr buf', t) \<and>
    screen t = screen s @ file_bytes (fsys s) k \<and> inodes (fsys t) = inodes (fsys s) \<and> blocks (fsys t) = blocks (fsys s)"
proof -
  have "k_inp ubuf s fd = Some (file_bytes (fsys s) k)" using assms(1-4) by (subst k_inp_Some) fastforce
  from kernel.cat_stream [OF this assms(5) _ assms(7), of fuel] obtain t buf' where
    "cat fuel (kernel_sys ubuf) fd buf s = Inr (Inr buf', t)" "k_out t = k_out s @ map (Pair 1) (file_bytes (fsys s) k)" "k_files t = k_files s"
    using assms(6) by auto
  moreover from this(2) have "map snd (k_out t) = map snd (k_out s @ map (Pair 1) (file_bytes (fsys s) k))" by simp
  then have "screen t = screen s @ file_bytes (fsys s) k" by (simp add: k_out_def comp_def)
  ultimately show ?thesis by (auto simp: k_files_def)
qed

text \<open>
  A process with descriptor 1 on the serial line and descriptor 3 on a file of five bytes; its buffer is the page that
  \<open>vm_map\<close> maps at \<open>PHY_MEM\<close>.
\<close>

definition small_file :: fs where
  "small_file = small_fs\<lparr>inodes := (inodes small_fs)[0 := (inodes small_fs ! 0)\<lparr>dinode :=
     \<lparr>di_type = 1, di_device = 0, di_size = 5, di_addrs = 96 # replicate 12 0\<rparr>\<rparr>]\<rparr>"

lemma small_file_readable: "readable_file small_file 0"
proof -
  have f: "sb small_file = sb small_fs" "dev small_file = dev small_fs" "garbage small_file = garbage small_fs"
    "length (inodes small_file) = 128" by (simp_all add: small_file_def) (simp add: small_fs_def)
  have b: "blocks small_file = blocks small_fs" "used small_file = used small_fs" "meta small_file = meta small_fs"
    using f by (simp_all add: blocks_def used_def meta_def fun_eq_iff)
  have ok: "fs_ok small_file" using small_fs_ok f b by (simp add: fs_ok_def)
  have ad: "addrs small_file 0 = 96 # replicate 12 0" "di_size (dinode (inodes small_file ! 0)) = 5" "i_no (inodes small_file ! 0) = 0"
    by (simp_all add: small_file_def small_fs_def)
  have ba: "baddr B (96 # replicate 12 0) j = (if j = 0 then 96 else 0)" for B j
    by (auto simp: baddr_def nth_Cons' less_Suc_eq numeral_eq_Suc)
  have own: "owns B (96 # replicate 12 0) = {96}" for B by (auto simp: owns_def ba)
  have "data_block small_file 96" using small_used [of 96] by (simp add: data_block_def b meta_def small_sb)
  then have "file_ok small_file (96 # replicate 12 0)" by (auto simp: file_ok_def own ba)
  moreover have "fsize small_file 0 = 5" by (simp add: fsize_def isize_def ad)
  ultimately show ?thesis using ok ad by (auto simp: readable_file_def good_inode_def covered_def full_def ba f(1) small_sb)
qed

definition small_page :: vm where
  "small_page = (case vm_map 0x300000 0x8000000 PGSIZE 7 small_vm of Inr (_, v) \<Rightarrow> v | Inl _ \<Rightarrow> small_vm)"

lemma small_page_mapped:
  "space (mem small_page) 0x300000" "PAGE_DOWN (cr3 small_page) = 0x300000"
  "0x8000000 \<le> v \<Longrightarrow> v < 0x8001000 \<Longrightarrow> mmu small_page v \<noteq> None"
proof -
  let ?ps = "[0x200000, 0x201000, 0x202000, 0x203000] :: u32 list"
  have r: "PAGE_DOWN 0x8000000 = 0x8000000" "PAGE_UP (0x8000000 + PGSIZE) = 0x8001000" "pages 0x8000000 0x8001000 = [0x8000000]"
    by (simp_all add: PAGE_DOWN_def PAGE_UP_def memory_consts pages_def)
  obtain t where t: "vm_map 0x300000 0x8000000 PGSIZE 7 small_vm = Inr ((), t)" "\<exists>qs. grown 0x300000 ?ps small_vm qs t"
    "\<forall>v \<ge> PHY_MEM. case mmu (small_vm\<lparr>cr3 := 0x300000\<rparr>) v of
         Some a \<Rightarrow> mmu (t\<lparr>cr3 := 0x300000\<rparr>) v = Some a \<and> mem t a = mem small_vm a
       | None \<Rightarrow> if 0x8000000 \<le> v \<and> v < 0x8001000
                 then \<exists>a. mmu (t\<lparr>cr3 := 0x300000\<rparr>) v = Some a \<and> mem t a = 0
                 else mmu (t\<lparr>cr3 := 0x300000\<rparr>) v = None"
    using vm_map_maps [OF small_heap small_space(1) small_apart, of 7 "0x8000000" PGSIZE, unfolded r]
    by (auto simp: runs_total PTE_P_def PHY_MEM_def)
  have s: "small_page = t" using t(1) by (simp add: small_page_def)
  have c: "cr3 t = 0x300000"
    using t(2) unfolding grown_def small_vm_def by (metis vm.select_convs(2) vm.surjective vm.update_convs(1,4))
  then have "t\<lparr>cr3 := 0x300000\<rparr> = t" by simp
  then show "0x8000000 \<le> v \<Longrightarrow> v < 0x8001000 \<Longrightarrow> mmu small_page v \<noteq> None"
    using t(3) unfolding s by (fastforce simp: PHY_MEM_def split: option.splits if_splits)
  show "space (mem small_page) 0x300000" using t(2) grown_space unfolding s by blast
  then show "PAGE_DOWN (cr3 small_page) = 0x300000" using page_down_up(4) spaceD(1) unfolding s c by blast
qed

definition small_cat :: kern where
  "small_cat = (let p = \<lparr>pid = 1, status = RUNNING, pgdir = 0x300000, brk = 0, kstack = 0, frame_of = context_of (replicate 60 0),
        kont = KUser, parent = None, child_num = 0, exit_code = 0, usems = replicate 32 None,
        fds = [None, Some 0, None, Some 1] @ replicate 28 None, cwd = None\<rparr>
     in \<lparr>vmem = small_page, fsys = small_file,
       klists = \<lparr>l_ptr = \<lambda>_. 0, l_prev = \<lambda>_. Free, l_next = \<lambda>_. Free, l_inited = False\<rparr>,
       sem_value = \<lambda>_. 0, usem_ref = replicate 128 0,
       file_tab =
         [\<lparr>f_type = TYPE_DEV, f_ref = 1, readable = False, writable = True, f_inode = None, f_offset = 0, dev_op = Some 0\<rparr>,
          \<lparr>f_type = TYPE_FILE, f_ref = 1, readable = True, writable = False, f_inode = Some 0, f_offset = 0, dev_op = None\<rparr>],
       pcb = replicate 64 p, curr = 1, next_pid = 2, tick = 0, buffer = replicate 256 0, buf_head = 0, buf_tail = 0,
       clapboard = 0, screen = [], unset = replicate 256 0\<rparr>)"

theorem cat_prints_file_witness:
  "\<exists>t buf. cat 6 (kernel_sys 0x8000000) 3 (replicate 4096 0) small_cat = Inr (Inr buf, t) \<and> screen t = file_bytes small_file 0 \<and>
     length (screen t) = 5"
proof -
  have g: "proc_getfile (curr small_cat) fd small_cat = (if fd = 1 then Some 0 else if fd = 3 then Some 1 else None)" for fd
  proof (cases "sint fd < 0 \<or> 32 \<le> sint fd")
    case True
    then have "fd \<noteq> 1 \<and> fd \<noteq> 3" by auto
    then show ?thesis using True by (simp add: proc_getfile_def)
  next
    case False
    then have "uint fd < 32" using sint_u32 [of fd] uint_u32 [of fd] by (simp split: if_splits)
    then have i: "unat fd < 32" using unat_eq_nat_uint [of fd] by linarith
    have "unat fd = 1 \<longleftrightarrow> fd = 1" "unat fd = 3 \<longleftrightarrow> fd = 3"
      using unsigned_word_eqI [where 'a = nat, of fd 1] unsigned_word_eqI [where 'a = nat, of fd 3] by auto
    moreover have "([None, Some 0, None, Some 1] @ replicate 28 None) ! n =
        (if n = 1 then Some 0 else if n = 3 then Some 1 else (None :: nat option))" if "n < 32" for n
      using that by (auto simp: nth_append nth_Cons')
    moreover have "fds (pcb small_cat ! curr small_cat) = [None, Some 0, None, Some 1] @ replicate 28 None"
      by (simp add: small_cat_def Let_def)
    ultimately show ?thesis using False i(1) by (simp add: proc_getfile_def)
  qed
  have b: "buffer_at small_cat 0x8000000"
  proof -
    have "0x8000000 \<le> (0x8000000 + of_nat i :: u32) \<and> (0x8000000 + of_nat i :: u32) < 0x8001000" if "i < 4096" for i
    proof -
      have u: "unat (0x8000000 + of_nat i :: u32) = 134217728 + i"
        using that small_word(3) [of i] unat_add_u32 [of "0x8000000" "of_nat i"] by simp
      show ?thesis unfolding word_le_nat_alt word_less_nat_alt u using that by simp
    qed
    then show ?thesis
      using small_page_mapped by (simp add: buffer_at_def small_cat_def Let_def PHY_MEM_def)
  qed
  have f: "file_on small_cat 3 1 0" "k_con 0x8000000 small_cat 1"
    using g b by (auto simp: file_on_def open_file_def k_con_def small_cat_def Let_def split: if_splits)
  have r: "readable_file (fsys small_cat) 0" "f_offset (file_tab small_cat ! 1) = 0" "screen small_cat = []" "fsys small_cat = small_file"
    using small_file_readable by (simp_all add: small_cat_def Let_def)
  have n: "fsize small_file 0 = 5" by (simp add: fsize_def isize_def small_file_def small_fs_def)
  show ?thesis
    using cat_prints_file [OF b f(1) r(1,2) f(2), of 6 "replicate 4096 0"] r(3,4) n by auto
qed

end
