(* ===== verification/MkFs.thy ===== *)
theory MkFs
  imports FsFile
begin

text \<open>
  \<open>utils/mkfs.c\<close>: the program that makes the disk image, with its super block, bitmap, inodes and files.

  The mapped image is a map from block numbers to blocks; \<open>next_blk\<close> and \<open>next_inode\<close> are the static variables of
  \<open>balloc\<close> and \<open>ialloc\<close>. A failed \<open>assert\<close> and \<open>panic\<close> are \<open>Abort\<close>. The files to add are given with their contents.
\<close>

unbundle bit_operations_syntax

section \<open>The image\<close>

record img =
  iblk :: "u32 \<Rightarrow> byte list"
  next_blk :: u32
  next_inode :: u32

type_synonym 'a mk = "(img, 'a) prog"

text \<open>What \<open>ftruncate\<close> makes of an empty file.\<close>

definition blank_img :: img where
  "blank_img = \<lparr>iblk = (\<lambda>_. replicate 4096 0), next_blk = 64, next_inode = 1\<rparr>"

text \<open>A pointer to a block is its number; one to a \<open>uint32_t\<close> is a block and an index there.\<close>

definition bget :: "u32 \<Rightarrow> u32 mk" where
  "bget no = thenS (assertS (32 \<le> no)) (if no < 32768 then retS no else stopS Undef)"

definition mk_iget :: "u32 \<Rightarrow> (u32 \<times> nat) mk" where
  "mk_iget no = bindS (bget (no div 64 + 34)) (\<lambda>b. retS (b, 16 * unat (no mod 64)))"

definition rd :: "u32 \<times> nat \<Rightarrow> u32 mk" where
  "rd p = getS (\<lambda>s. word_at (iblk s (fst p)) (snd p))"

definition wr :: "u32 \<times> nat \<Rightarrow> u32 \<Rightarrow> unit mk" where
  "wr p v = modS (\<lambda>s. s\<lparr>iblk := (iblk s)(fst p := put_at (4 * snd p) (le32 v) (iblk s (fst p)))\<rparr>)"

definition set_bit8 :: "u32 \<Rightarrow> byte list \<Rightarrow> byte list" where
  "set_bit8 n B = B[unat (n div 8) := (B ! unat (n div 8)) OR push_bit (unat (n mod 8)) 1]"

definition mk_balloc :: "u32 mk" where
  "mk_balloc = bindS (getS next_blk) (\<lambda>n.
     if 32768 \<le> n then stopS Abort
     else thenS (modS (\<lambda>s. s\<lparr>iblk := (iblk s)(33 := set_bit8 n (iblk s 33)), next_blk := n + 1\<rparr>)) (retS n))"

definition mk_ialloc :: "u32 \<Rightarrow> u32 mk" where
  "mk_ialloc type = bindS (getS next_inode) (\<lambda>n.
     if 1920 \<le> n then stopS Abort
     else bindS (mk_iget n) (\<lambda>p. thenS (wr p type)
       (thenS (modS (\<lambda>s. s\<lparr>next_inode := n + 1\<rparr>)) (retS n))))"

text \<open>\<open>if (*p == 0) *p = balloc(); return bget(*p);\<close>\<close>

definition slot :: "u32 \<times> nat \<Rightarrow> u32 mk" where
  "slot p = thenS (bindS (rd p) (\<lambda>a. if a = 0 then bindS mk_balloc (wr p) else retS ())) (bindS (rd p) bget)"

definition mk_iwalk :: "u32 \<times> nat \<Rightarrow> u32 \<Rightarrow> u32 mk" where
  "mk_iwalk fl blk_no =
     (if blk_no < 12 then slot (fst fl, snd fl + 3 + unat blk_no)
      else let blk_no = blk_no - 12 in
      if blk_no < 1024 then bindS (slot (fst fl, snd fl + 15)) (\<lambda>indirect. slot (indirect, unat blk_no))
      else stopS Abort)"

text \<open>The loop of \<open>iappend\<close>; \<open>size\<close> is the number of bytes left in \<open>buf\<close>.\<close>

function iappend_loop :: "u32 \<times> nat \<Rightarrow> u32 \<Rightarrow> byte list \<Rightarrow> u32 mk" where
  "iappend_loop fl pos buf =
     (if buf \<noteq> [] then
        let offset = unat (pos mod 4096) in
        bindS (mk_iwalk fl (pos div 4096)) (\<lambda>block.
        let bytes = min (4096 - offset) (length buf) in
        thenS (modS (\<lambda>s. s\<lparr>iblk := (iblk s)(block := put_at offset (take bytes buf) (iblk s block))\<rparr>))
          (iappend_loop fl (pos + of_nat bytes) (drop bytes buf)))
      else retS pos)"
  by pat_completeness auto
termination
proof (relation "measure (\<lambda>(fl, pos, buf). length buf)")
  fix fl and pos :: u32 and buf :: "byte list" and offset block bytes
  assume "buf \<noteq> []" "offset = unat (pos mod 4096)" "bytes = min (4096 - offset) (length buf)"
  moreover have "unat (pos mod 4096) < 4096" by (simp add: unat_mod)
  ultimately show "((fl, pos + of_nat bytes, drop bytes buf), fl, pos, buf) \<in> measure (\<lambda>(fl, pos, buf). length buf)"
    by (cases buf) (auto simp: min_def)
qed simp

declare iappend_loop.simps [simp del]

definition mk_iappend :: "u32 \<times> nat \<Rightarrow> byte list \<Rightarrow> unit mk" where
  "mk_iappend fl buf = bindS (rd (fst fl, snd fl + 2)) (\<lambda>pos.
     bindS (iappend_loop fl pos buf) (\<lambda>pos. wr (fst fl, snd fl + 2) pos))"

text \<open>The value is the pointer \<open>root\<close>; \<open>dirent\<close> is the uninitialised local variable.\<close>

definition init_disk :: "byte list \<Rightarrow> (u32 \<times> nat) mk" where
  "init_disk dirent =
     bindS (bget 32) (\<lambda>sb.
     thenS (wr (sb, 0) 33) (thenS (wr (sb, 1) 34) (thenS (wr (sb, 2) 1920)
     (bindS (bget 33) (\<lambda>bitmap.
     thenS (wr (bitmap, 1) 0xffffffff) (thenS (wr (bitmap, 0) 0xffffffff)
     (bindS (mk_ialloc 2) (\<lambda>no. thenS (wr (sb, 3) no)
     (bindS (mk_iget no) (\<lambda>root.
     bindS (liftS (set_dirent no (bytes_of ''.'' @ [0]) dirent)) (\<lambda>dirent.
     thenS (mk_iappend root dirent)
     (bindS (liftS (set_dirent no (bytes_of ''..'' @ [0]) dirent)) (\<lambda>dirent.
     thenS (mk_iappend root dirent) (retS root))))))))))))))"

text \<open>\<open>fread\<close> fills the buffer until the end of the file.\<close>

fun append_data :: "u32 \<times> nat \<Rightarrow> byte list \<Rightarrow> unit mk" where
  "append_data inode data =
     (if data \<noteq> [] then thenS (mk_iappend inode (take 4096 data)) (append_data inode (drop 4096 data)) else retS ())"

declare append_data.simps [simp del]

text \<open>A file to add: its \<open>basename\<close>, a C string; what \<open>dirent\<close> holds before; its contents, if it can be opened.\<close>

definition add_file :: "u32 \<times> nat \<Rightarrow> byte list \<times> byte list \<times> byte list option \<Rightarrow> unit mk" where
  "add_file rt f = (case f of (name, dirent, data) \<Rightarrow> case data of
     None \<Rightarrow> stopS Abort
   | Some data \<Rightarrow>
       bindS (mk_ialloc 1) (\<lambda>no. bindS (mk_iget no) (\<lambda>inode.
       bindS (liftS (set_dirent no name dirent)) (\<lambda>dirent.
       thenS (mk_iappend rt dirent) (append_data inode data)))))"

definition mkfs :: "byte list \<Rightarrow> (byte list \<times> byte list \<times> byte list option) list \<Rightarrow> unit mk" where
  "mkfs dirent files = thenS (assertS (files \<noteq> [])) (bindS (init_disk dirent) (\<lambda>root. forS (add_file root) files))"

section \<open>Bits of the bitmap\<close>

lemma of_le32_bit: "bit (of_le32 xs) (8 * q + r) = bit (xs ! q) r" if "q < 4" "r < 8"
proof -
  have big: "\<not> bit (x :: byte) n" if "8 \<le> n" for x n using that by (auto dest: bit_imp_le_length)
  have "q = 0 \<or> q = 1 \<or> q = 2 \<or> q = 3" using that(1) by auto
  then show ?thesis using that(2) by (elim disjE) (simp_all add: of_le32_def bit_simps big)
qed

lemma word_bit: "bit (word_at B (b div 32)) (b mod 32) = bit (B ! (b div 8)) (b mod 8)" if "length B = 4096" "b < 32768"
proof -
  have b: "b mod 32 = 8 * (b mod 32 div 8) + b mod 8" "b mod 32 div 8 < 4" "b div 8 = 4 * (b div 32) + b mod 32 div 8"
  proof -
    show "b mod 32 = 8 * (b mod 32 div 8) + b mod 8" using mult_div_mod_eq [of 8 "b mod 32"] by (simp add: mod_mod_cancel)
    have "(b mod 32 + 4 * (b div 32) * 8) div 8 = 4 * (b div 32) + b mod 32 div 8" by (rule div_mult_self1) simp
    moreover have "b mod 32 + 4 * (b div 32) * 8 = b" using mult_div_mod_eq [of 32 b] by linarith
    ultimately show "b div 8 = 4 * (b div 32) + b mod 32 div 8" by simp
  qed (simp add: less_mult_imp_div_less)
  have w: "4 * (b div 32) + 4 \<le> length B" using that by simp
  have "bit (word_at B (b div 32)) (b mod 32) = bit (span_at (4 * (b div 32)) 4 B ! (b mod 32 div 8)) (b mod 8)"
    unfolding word_at_def by (subst b(1)) (simp only: of_le32_bit [OF b(2)] mod_less_divisor zero_less_numeral)
  also have "span_at (4 * (b div 32)) 4 B ! (b mod 32 div 8) = B ! (b div 8)"
    using b(2,3) w by simp
  finally show ?thesis .
qed

lemma set_bit8_word:
  assumes "length B = 4096" "b < 32768" "n < 32768"
  shows "bit (word_at (set_bit8 n B) (b div 32)) (b mod 32) \<longleftrightarrow> b = unat n \<or> bit (word_at B (b div 32)) (b mod 32)"
proof -
  have n: "unat n < 32768" "unat (n div 8) = unat n div 8" "unat (n mod 8) = unat n mod 8"
    using assms(3) by (simp_all add: word_less_nat_alt unat_div unat_mod)
  have "b = unat n \<longleftrightarrow> b div 8 = unat n div 8 \<and> b mod 8 = unat n mod 8" by (metis mult_div_mod_eq)
  moreover have "bit (push_bit (unat n mod 8) 1 :: byte) (b mod 8) \<longleftrightarrow> b mod 8 = unat n mod 8"
    by (auto simp: bit_simps)
  ultimately show ?thesis
    using assms(1,2) n by (auto simp: word_bit set_bit8_def nth_list_update bit_or_iff)
qed

lemma length_set_bit8 [simp]: "length (set_bit8 n B) = length B"
  by (simp add: set_bit8_def)

section \<open>Inodes and files of the image\<close>

definition ip :: "nat \<Rightarrow> u32 \<times> nat" where
  "ip i = (of_nat (34 + i div 64), 16 * (i mod 64))"

definition iw :: "img \<Rightarrow> nat \<Rightarrow> nat \<Rightarrow> u32" where
  "iw s i k = word_at (iblk s (fst (ip i))) (snd (ip i) + k)"

definition iad :: "img \<Rightarrow> nat \<Rightarrow> u32 list" where
  "iad s i = map (\<lambda>k. iw s i (3 + k)) [0 ..< 13]"

definition isz :: "img \<Rightarrow> nat \<Rightarrow> nat" where
  "isz s i = unat (iw s i 2)"

definition ib :: "img \<Rightarrow> nat \<Rightarrow> nat \<Rightarrow> u32" where
  "ib s i j = baddr (iblk s) (iad s i) j"

definition iown :: "img \<Rightarrow> nat \<Rightarrow> u32 set" where
  "iown s i = owns (iblk s) (iad s i)"

definition ibyte :: "img \<Rightarrow> nat \<Rightarrow> nat \<Rightarrow> byte" where
  "ibyte s i p = iblk s (ib s i (p div 4096)) ! (p mod 4096)"

definition icont :: "img \<Rightarrow> nat \<Rightarrow> byte list" where
  "icont s i = map (ibyte s i) [0 ..< isz s i]"

text \<open>One inode: its blocks are allocated, each has one place, and they cover the file.\<close>

definition ifile_ok :: "img \<Rightarrow> nat \<Rightarrow> bool" where
  "ifile_ok s i \<longleftrightarrow> (\<forall>b \<in> iown s i. 64 \<le> b \<and> b < next_blk s) \<and>
     (\<forall>j < 1036. \<forall>j' < 1036. ib s i j = ib s i j' \<and> ib s i j \<noteq> 0 \<longrightarrow> j = j') \<and>
     (\<forall>j < 1036. ib s i j = iad s i ! 12 \<longrightarrow> iad s i ! 12 = 0) \<and>
     isz s i \<le> 4243456 \<and> (\<forall>j. 4096 * j < isz s i \<longrightarrow> ib s i j \<noteq> 0)"

definition img_ok :: "img \<Rightarrow> bool" where
  "img_ok s \<longleftrightarrow> (\<forall>b. length (iblk s b) = 4096) \<and> 64 \<le> next_blk s \<and> next_blk s \<le> 32768 \<and>
     1 \<le> next_inode s \<and> next_inode s \<le> 1920 \<and>
     (\<forall>b < 32768. bit (word_at (iblk s 33) (b div 32)) (b mod 32) \<longleftrightarrow> b < unat (next_blk s)) \<and>
     (\<forall>b. next_blk s \<le> b \<longrightarrow> iblk s b = replicate 4096 0) \<and>
     (\<forall>i < 1920. unat (next_inode s) \<le> i \<longrightarrow> (\<forall>k < 16. iw s i k = 0)) \<and>
     (\<forall>i < 1920. ifile_ok s i) \<and> (\<forall>i < 1920. \<forall>j < 1920. i \<noteq> j \<longrightarrow> iown s i \<inter> iown s j = {})"

lemma ip_block: "i < 1920 \<Longrightarrow> 34 \<le> fst (ip i) \<and> fst (ip i) < 64" "i < 1920 \<Longrightarrow> unat (fst (ip i)) = 34 + i div 64"
proof -
  assume i: "i < 1920"
  then have u: "unat (of_nat (34 + i div 64) :: u32) = 34 + i div 64" by (intro unat_of_nat_u32) auto
  then show "unat (fst (ip i)) = 34 + i div 64" by (simp add: ip_def)
  have "i div 64 < 30" using i by auto
  then show "34 \<le> fst (ip i) \<and> fst (ip i) < 64" using u by (simp add: ip_def word_le_nat_alt word_less_nat_alt)
qed

lemma sixteen: "16 * a + k = 16 * b + l \<Longrightarrow> k < 16 \<Longrightarrow> l < 16 \<Longrightarrow> a = b \<and> k = (l :: nat)"
  by presburger

lemma ip_inj: "i < 1920 \<Longrightarrow> j < 1920 \<Longrightarrow> fst (ip i) = fst (ip j) \<Longrightarrow> snd (ip i) + k = snd (ip j) + l \<Longrightarrow> k < 16 \<Longrightarrow> l < 16 \<Longrightarrow> i = j \<and> k = l"
proof -
  assume a: "i < 1920" "j < 1920" "fst (ip i) = fst (ip j)" "snd (ip i) + k = snd (ip j) + l" "k < 16" "l < 16"
  then have "i div 64 = j div 64" using ip_block(2) by (metis add_left_cancel)
  moreover have "i mod 64 = j mod 64 \<and> k = l" using sixteen [of "i mod 64" k "j mod 64" l] a(4-6) by (simp add: ip_def)
  ultimately show "i = j \<and> k = l" by (metis div_mult_mod_eq)
qed

lemma iad_nth: "n < 13 \<Longrightarrow> iad s i ! n = iw s i (3 + n)" "length (iad s i) = 13"
  by (simp_all add: iad_def del: upt_Suc)

lemma ib_cases: "ib s i j = (if j < 12 then iad s i ! j else if iad s i ! 12 = 0 then 0 else word_at (iblk s (iad s i ! 12)) (j - 12))"
  by (simp add: ib_def baddr_def)

lemma iown_iff: "b \<in> iown s i \<longleftrightarrow> b \<noteq> 0 \<and> (b = iad s i ! 12 \<or> (\<exists>j < 1036. b = ib s i j))"
  by (simp add: iown_def owns_def ib_def)

lemma iad_same: "(\<And>k. k < 16 \<Longrightarrow> iw t i k = iw s i k) \<Longrightarrow> iad t i = iad s i"
  by (simp add: iad_def)

lemma view_frame:
  assumes "\<forall>k < 16. 3 \<le> k \<longrightarrow> iw t i k = iw s i k" "iad s i ! 12 \<noteq> 0 \<longrightarrow> iblk t (iad s i ! 12) = iblk s (iad s i ! 12)"
  shows "iad t i = iad s i" "ib t i j = ib s i j" "iown t i = iown s i"
proof -
  show a: "iad t i = iad s i" using assms(1) by (simp add: iad_def)
  show b: "ib t i j = ib s i j" for j using assms(2) by (simp add: ib_cases a)
  show "iown t i = iown s i" by (auto simp: iown_iff a b)
qed

lemma cont_frame:
  assumes "ifile_ok s i" "\<forall>k < 16. iw t i k = iw s i k" "\<forall>b \<in> iown s i. iblk t b = iblk s b"
  shows "icont t i = icont s i" "ib t i j = ib s i j" "iad t i = iad s i" "iown t i = iown s i" "isz t i = isz s i"
proof -
  have a: "iad s i ! 12 \<noteq> 0 \<longrightarrow> iblk t (iad s i ! 12) = iblk s (iad s i ! 12)" using assms(3) by (simp add: iown_iff)
  have w: "\<forall>k < 16. 3 \<le> k \<longrightarrow> iw t i k = iw s i k" using assms(2) by simp
  note v = view_frame [OF w a]
  show z: "isz t i = isz s i" using assms(2) by (simp add: isz_def)
  show "ib t i j = ib s i j" "iad t i = iad s i" "iown t i = iown s i" using v by simp_all
  have "ibyte t i p = ibyte s i p" if p: "p < isz s i" for p
  proof -
    have "isz s i \<le> 4243456" "\<forall>j. 4096 * j < isz s i \<longrightarrow> ib s i j \<noteq> 0" using assms(1) by (simp_all add: ifile_ok_def)
    then have "p div 4096 < 1036" "ib s i (p div 4096) \<noteq> 0" using p by auto
    then have "ib s i (p div 4096) \<in> iown s i" by (auto simp: iown_iff)
    then show ?thesis using assms(3) v by (simp add: ibyte_def)
  qed
  then show "icont t i = icont s i" by (simp add: icont_def z)
qed

lemma file_frame:
  assumes "ifile_ok s i" "\<forall>k < 16. iw t i k = iw s i k" "\<forall>b \<in> iown s i. iblk t b = iblk s b" "next_blk s \<le> next_blk t"
  shows "ifile_ok t i"
  using assms(1,4) unfolding ifile_ok_def cont_frame [OF assms(1-3)] by (meson order_less_le_trans)

text \<open>From \<open>s\<close> to \<open>t\<close> the file \<open>i\<close> gets more blocks, and the blocks it has may change; other files stay.\<close>

definition grows :: "nat \<Rightarrow> img \<Rightarrow> img \<Rightarrow> bool" where
  "grows i s t \<longleftrightarrow> img_ok t \<and> next_inode t = next_inode s \<and> next_blk s \<le> next_blk t \<and> iblk t 32 = iblk s 32 \<and>
     (\<forall>i' < 1920. \<forall>k < 16. i' \<noteq> i \<or> k < 3 \<longrightarrow> iw t i' k = iw s i' k) \<and>
     (\<forall>b. 64 \<le> b \<and> b < next_blk s \<and> b \<notin> iown s i \<longrightarrow> iblk t b = iblk s b) \<and>
     (\<forall>b \<in> iown t i. b \<in> iown s i \<or> next_blk s \<le> b) \<and>
     (\<forall>j < 1036. ib s i j \<noteq> 0 \<longrightarrow> ib t i j = ib s i j)"

lemma grows_refl: "img_ok s \<Longrightarrow> grows i s s"
  by (simp add: grows_def)

lemma grows_trans:
  assumes "grows i s t" "grows i t u"
  shows "grows i s u"
proof -
  have "iblk u b = iblk s b" if b: "64 \<le> b" "b < next_blk s" "b \<notin> iown s i" for b
  proof -
    have "b \<notin> iown t i" "b < next_blk t" using assms(1) b unfolding grows_def by (auto simp: not_le [symmetric])
    then show ?thesis using assms b unfolding grows_def by simp
  qed
  moreover have "\<forall>b \<in> iown u i. b \<in> iown s i \<or> next_blk s \<le> b"
    using assms unfolding grows_def by (meson order_trans)
  moreover have "\<forall>j < 1036. ib s i j \<noteq> 0 \<longrightarrow> ib u i j = ib s i j" using assms unfolding grows_def by metis
  moreover have "next_blk s \<le> next_blk u" using assms unfolding grows_def by (meson order_trans)
  moreover have "\<forall>i' < 1920. \<forall>k < 16. i' \<noteq> i \<or> k < 3 \<longrightarrow> iw u i' k = iw s i' k" using assms unfolding grows_def by metis
  moreover have "img_ok u" "next_inode u = next_inode s" "iblk u 32 = iblk s 32" using assms unfolding grows_def by metis+
  ultimately show ?thesis unfolding grows_def by blast
qed

lemma grows_other:
  assumes "img_ok s" "i < 1920" "i' < 1920" "i' \<noteq> i" "grows i s t"
  shows "icont t i' = icont s i'" "\<And>k. k < 16 \<Longrightarrow> iw t i' k = iw s i' k"
proof -
  have f: "ifile_ok s i'" "iown s i' \<inter> iown s i = {}" using assms by (auto simp: img_ok_def)
  have w: "\<forall>k < 16. iw t i' k = iw s i' k" using assms by (simp add: grows_def)
  then show "\<And>k. k < 16 \<Longrightarrow> iw t i' k = iw s i' k" by blast
  have "\<forall>b \<in> iown s i'. iblk t b = iblk s b"
  proof
    fix b assume b: "b \<in> iown s i'"
    then have "64 \<le> b" "b < next_blk s" "b \<notin> iown s i" using f unfolding ifile_ok_def by blast+
    then show "iblk t b = iblk s b" using assms(5) unfolding grows_def by simp
  qed
  from cont_frame(1) [OF f(1) w this] show "icont t i' = icont s i'" .
qed

section \<open>Allocation\<close>

definition put_word :: "u32 \<times> nat \<Rightarrow> u32 \<Rightarrow> img \<Rightarrow> img" where
  "put_word p v s = s\<lparr>iblk := (iblk s)(fst p := put_at (4 * snd p) (le32 v) (iblk s (fst p)))\<rparr>"

definition bump :: "img \<Rightarrow> img" where
  "bump s = s\<lparr>iblk := (iblk s)(33 := set_bit8 (next_blk s) (iblk s 33)), next_blk := next_blk s + 1\<rparr>"

lemma mk_simps [simp]:
  "runs A (wr p v) Q = (\<lambda>s. Q () (put_word p v s))" "runs A (rd p) R = (\<lambda>s. R (word_at (iblk s (fst p)) (snd p)) s)"
  "runs A mk_balloc T = (\<lambda>s. if 32768 \<le> next_blk s then Abort \<in> A else T (next_blk s) (bump s))"
  "runs A (bget no) T = (\<lambda>s. if 32 \<le> no then if no < 32768 then T no s else Undef \<in> A else Abort \<in> A)"
  by (auto simp: fun_eq_iff wr_def rd_def put_word_def mk_balloc_def bump_def bget_def)

lemma put_word_parts [simp]: "next_blk (put_word p v s) = next_blk s" "next_inode (put_word p v s) = next_inode s"
  "b \<noteq> fst p \<Longrightarrow> iblk (put_word p v s) b = iblk s b"
  by (simp_all add: put_word_def)

lemma bump_parts [simp]: "next_blk (bump s) = next_blk s + 1" "next_inode (bump s) = next_inode s"
  "b \<noteq> 33 \<Longrightarrow> iblk (bump s) b = iblk s b" "iblk (bump s) 33 = set_bit8 (next_blk s) (iblk s 33)"
  by (simp_all add: bump_def)

lemma length_put_word: "\<forall>b. length (iblk s b) = 4096 \<Longrightarrow> snd p < 1024 \<Longrightarrow> length (iblk (put_word p v s) b) = 4096"
  by (simp add: put_word_def)

lemma length_bump: "\<forall>b. length (iblk s b) = 4096 \<Longrightarrow> length (iblk (bump s) b) = 4096"
  by (simp add: bump_def)

lemma ip_room: "k < 16 \<Longrightarrow> snd (ip i) + k < 1024"
  by (simp add: ip_def)

lemma iw_put:
  assumes "\<forall>b. length (iblk s b) = 4096" "i < 1920" "i' < 1920" "k < 16" "k' < 16"
  shows "iw (put_word (fst (ip i), snd (ip i) + k) v s) i' k' = (if i' = i \<and> k' = k then v else iw s i' k')"
proof (cases "fst (ip i') = fst (ip i)")
  case True
  then have "i' = i \<and> k' = k \<longleftrightarrow> snd (ip i') + k' = snd (ip i) + k" using ip_inj [OF assms(3,2) True _ assms(5,4)] by auto
  then show ?thesis
    using True assms(1) word_at_put [of "iblk s (fst (ip i))" "snd (ip i) + k" "snd (ip i') + k'" v]
      ip_room [OF assms(4), of i] ip_room [OF assms(5), of i'] by (simp add: iw_def put_word_def)
next
  case False
  then show ?thesis by (auto simp: iw_def)
qed

lemma iw_other: "fst p < 34 \<or> 64 \<le> fst p \<Longrightarrow> i < 1920 \<Longrightarrow> iw (put_word p v s) i k = iw s i k"
proof -
  assume "fst p < 34 \<or> 64 \<le> fst p" "i < 1920"
  then have "fst (ip i) \<noteq> fst p" using ip_block(1) [of i] by auto
  then show ?thesis by (simp add: iw_def)
qed

lemma iw_bump: "i < 1920 \<Longrightarrow> iw (bump s) i k = iw s i k"
proof -
  assume "i < 1920"
  then have "fst (ip i) \<noteq> 33" using ip_block(1) [of i] by auto
  then show ?thesis by (simp add: iw_def)
qed

lemma next_blk_room:
  "img_ok s \<Longrightarrow> next_blk s < 32768 \<Longrightarrow> unat (next_blk s + 1) = unat (next_blk s) + 1"
  "img_ok s \<Longrightarrow> next_blk s < 32768 \<Longrightarrow> next_blk s < next_blk s + 1" "img_ok s \<Longrightarrow> next_blk s < 32768 \<Longrightarrow> b < next_blk s + 1 \<longleftrightarrow> b \<le> next_blk s"
proof -
  assume "next_blk s < 32768"
  then have "unat (next_blk s) < 32768" by (simp add: word_less_nat_alt)
  then show u: "unat (next_blk s + 1) = unat (next_blk s) + 1" by (subst unat_add_u32) simp_all
  show "next_blk s < next_blk s + 1" "b < next_blk s + 1 \<longleftrightarrow> b \<le> next_blk s" using u by (auto simp: word_less_nat_alt word_le_nat_alt)
qed

text \<open>A new block for the file \<open>i\<close>: for the addresses or for place \<open>j\<close> of the data.\<close>

lemma attach_grows:
  assumes s: "img_ok s" "i < unat (next_inode s)" "next_blk s < 32768"
    and t: "next_blk t = next_blk s + 1" "next_inode t = next_inode s" "\<forall>b. length (iblk t b) = 4096"
      "iblk t 33 = set_bit8 (next_blk s) (iblk s 33)" "iblk t 32 = iblk s 32" "\<forall>b. next_blk s < b \<longrightarrow> iblk t b = replicate 4096 0"
      "\<forall>i' < 1920. \<forall>k < 16. i' \<noteq> i \<or> k < 3 \<longrightarrow> iw t i' k = iw s i' k"
      "\<forall>b. 64 \<le> b \<and> b < next_blk s \<and> b \<notin> iown s i \<longrightarrow> iblk t b = iblk s b"
    and new: "iad t i ! 12 = next_blk s \<and> iad s i ! 12 = 0 \<and> (\<forall>j < 1036. ib t i j = ib s i j) \<or>
      iad t i ! 12 = iad s i ! 12 \<and> j < 1036 \<and> ib s i j = 0 \<and> (\<forall>j' < 1036. ib t i j' = (if j' = j then next_blk s else ib s i j'))"
  shows "grows i s t \<and> next_blk s \<in> iown t i"
proof -
  note nb = next_blk_room [OF s(1,3)]
  have i: "i < 1920" using s(1,2) by (simp add: img_ok_def word_le_nat_alt)
  have n0: "next_blk s \<noteq> 0" "64 \<le> next_blk s" using s(1) by (auto simp: img_ok_def)
  have fi: "ifile_ok s i" using s(1) i by (simp add: img_ok_def)
  have old: "64 \<le> b \<and> b < next_blk s" if "b \<in> iown s i" for b using fi that by (simp add: ifile_ok_def)
  have own: "iown t i = insert (next_blk s) (iown s i)"
    using new n0(1) by (auto simp: iown_iff split: if_splits) (metis+)
  have nin: "next_blk s \<notin> iown s i" using old by auto
  have keep: "ib t i j' = ib s i j'" if "j' < 1036" "ib s i j' \<noteq> 0" for j' using new that by (auto split: if_splits)
  have "isz t i = isz s i" using t(7) i by (simp add: isz_def)
  moreover have "ib t i j1 = ib t i j2 \<Longrightarrow> ib t i j1 \<noteq> 0 \<Longrightarrow> j1 = j2" if "j1 < 1036" "j2 < 1036" for j1 j2
  proof -
    have q: "ib s i j1 = ib s i j2 \<Longrightarrow> ib s i j1 \<noteq> 0 \<Longrightarrow> j1 = j2" using fi that by (simp add: ifile_ok_def)
    have "ib s i j' \<noteq> next_blk s" if "j' < 1036" for j' using that nin n0(1) by (auto simp: iown_iff)
    from this [of j1] this [of j2] show "ib t i j1 = ib t i j2 \<Longrightarrow> ib t i j1 \<noteq> 0 \<Longrightarrow> j1 = j2"
      using new q that by (cases "j1 = j"; cases "j2 = j") auto
  qed
  moreover have "ib t i j' = iad t i ! 12 \<Longrightarrow> iad t i ! 12 = 0" if "j' < 1036" for j'
  proof -
    have q: "ib s i j' = iad s i ! 12 \<Longrightarrow> iad s i ! 12 = 0" using fi that by (simp add: ifile_ok_def)
    have "ib s i j' \<noteq> next_blk s" "iad s i ! 12 \<noteq> next_blk s" using that nin n0(1) by (auto simp: iown_iff)
    then show "ib t i j' = iad t i ! 12 \<Longrightarrow> iad t i ! 12 = 0" using new q that by (auto split: if_splits)
  qed
  moreover have "ib t i j' \<noteq> 0" if "4096 * j' < isz s i" for j'
  proof -
    have "isz s i \<le> 4243456" "ib s i j' \<noteq> 0" using fi that by (simp_all add: ifile_ok_def)
    then show ?thesis using keep [of j'] that by simp
  qed
  moreover have "64 \<le> b \<and> b < next_blk t" if "b \<in> iown t i" for b
    using that old [of b] n0(2) nb(3) t(1) unfolding own by (auto intro: order_less_imp_le)
  ultimately have fit: "ifile_ok t i" using fi unfolding ifile_ok_def by auto
  have other: "ifile_ok t i'" "iown t i' = iown s i'" if "i' < 1920" "i' \<noteq> i" for i'
  proof -
    have f: "ifile_ok s i'" "iown s i' \<inter> iown s i = {}" using s(1) i that by (auto simp: img_ok_def)
    have w: "\<forall>k < 16. iw t i' k = iw s i' k" using t(7) that by simp
    have b: "\<forall>b \<in> iown s i'. iblk t b = iblk s b"
    proof
      fix b assume b: "b \<in> iown s i'"
      then have "64 \<le> b" "b < next_blk s" "b \<notin> iown s i" using f unfolding ifile_ok_def by blast+
      then show "iblk t b = iblk s b" using t(8) by simp
    qed
    show "ifile_ok t i'" by (rule file_frame [OF f(1) w b]) (use nb(2) t(1) in simp)
    show "iown t i' = iown s i'" by (rule cont_frame(4) [OF f(1) w b])
  qed
  have apart: "iown t i' \<inter> iown t j' = {}" if "i' < 1920" "j' < 1920" "i' \<noteq> j'" for i' j'
  proof -
    have d: "iown s i' \<inter> iown s j' = {}" using s(1) that by (auto simp: img_ok_def)
    have "next_blk s \<notin> iown s i''" if "i'' < 1920" for i'' using s(1) that unfolding img_ok_def ifile_ok_def by (metis less_irrefl)
    then show ?thesis using d other(2) own that by (cases "i' = i"; cases "j' = i") auto
  qed
  have bits: "bit (word_at (iblk t 33) (b div 32)) (b mod 32) \<longleftrightarrow> b < unat (next_blk t)" if "b < 32768" for b
    using s(1) that set_bit8_word [of "iblk s 33" b "next_blk s"] s(3) unfolding t(1,4) nb(1) by (auto simp: img_ok_def)
  have "ifile_ok t i'" if "i' < 1920" for i' using fit other(1) that by (cases "i' = i") auto
  moreover have "iw t i' k = 0" if "i' < 1920" "unat (next_inode t) \<le> i'" "k < 16" for i' k
    using s(1,2) t(2,7) that by (auto simp: img_ok_def)
  moreover have "iblk t b = replicate 4096 0" if "next_blk t \<le> b" for b
    using that t(1,6) nb(2) by (auto intro: order_less_le_trans)
  moreover have "64 \<le> next_blk t" "next_blk t \<le> 32768" "1 \<le> next_inode t" "next_inode t \<le> 1920"
    using s(1,3) n0(2) nb t(1,2) by (auto simp: img_ok_def word_le_nat_alt word_less_nat_alt)
  ultimately have "img_ok t" using t(3) bits apart unfolding img_ok_def by auto
  then show "grows i s t \<and> next_blk s \<in> iown t i"
    using t nb(2) own keep by (auto simp: grows_def)
qed

text \<open>The blocks of data that the file has keep their contents.\<close>

definition same_data :: "nat \<Rightarrow> img \<Rightarrow> img \<Rightarrow> bool" where
  "same_data i s t \<longleftrightarrow> (\<forall>j < 1036. ib s i j \<noteq> 0 \<longrightarrow> iblk t (ib s i j) = iblk s (ib s i j))"

lemma iown_range:
  assumes "img_ok t" "i < 1920" "b \<in> iown t i"
  shows "64 \<le> b" "b < next_blk t" "32 \<le> b" "b < 32768"
proof -
  show b: "64 \<le> b" "b < next_blk t" using assms by (auto simp: img_ok_def ifile_ok_def)
  show "32 \<le> b" using b(1) by (rule order_trans [rotated]) simp
  show "b < 32768" using b(2) assms(1) by (auto simp: img_ok_def intro: order_less_le_trans)
qed

lemma slot_inode:
  assumes "img_ok s" "i < unat (next_inode s)" "n < 13" "next_blk s < 32768"
  shows "runs {} (slot (fst (ip i), snd (ip i) + 3 + n)) (\<lambda>b t. grows i s t \<and> same_data i s t \<and> b = iad t i ! n \<and> b \<in> iown t i \<and>
    unat (next_blk t) \<le> unat (next_blk s) + 1) s"
proof -
  have i: "i < 1920" using assms(1,2) by (simp add: img_ok_def word_le_nat_alt)
  have w: "word_at (iblk t (fst (ip i))) (snd (ip i) + 3 + n) = iad t i ! n" for t
    using assms(3) by (simp add: iad_nth iw_def add.assoc)
  have ok: "32 \<le> b \<and> b < 32768" if "b \<in> iown t i" "img_ok t" for b t
    using iown_range(3,4) [OF that(2) i that(1)] by simp
  show ?thesis
  proof (cases "iad s i ! n = 0")
    case False
    then have "iad s i ! n \<in> iown s i" using assms(3) by (cases "n = 12") (auto simp: iown_iff ib_cases intro!: exI [of _ n])
    then show ?thesis using False ok assms(1) w grows_refl by (simp add: slot_def same_data_def)
  next
    case True
    let ?t = "put_word (fst (ip i), snd (ip i) + (3 + n)) (next_blk s) (bump s)"
    have len: "\<forall>b. length (iblk s b) = 4096" using assms(1) by (simp add: img_ok_def)
    have iw: "iw ?t i' k = (if i' = i \<and> k = 3 + n then next_blk s else iw s i' k)" if "i' < 1920" "k < 16" for i' k
      using iw_put [of "bump s" i i' "3 + n" k] length_bump [OF len] i that assms(3) by (simp add: iw_bump)
    have ib: "iblk ?t b = iblk s b" if "b \<noteq> 33" "b \<noteq> fst (ip i)" for b using that by simp
    have ad: "iad ?t i ! m = (if m = n then next_blk s else iad s i ! m)" if "m < 13" for m using that iw i by (simp add: iad_nth)
    have bi: "34 \<le> fst (ip i)" "fst (ip i) < 64" using ip_block(1) [OF i] by auto
    then have ne: "33 \<noteq> fst (ip i)" "32 \<noteq> fst (ip i)" "64 \<le> b \<Longrightarrow> b \<noteq> 33 \<and> b \<noteq> fst (ip i)" for b by auto
    have nb: "64 \<le> next_blk s" "next_blk s \<le> b \<Longrightarrow> iblk s b = replicate 4096 0" for b using assms(1) by (auto simp: img_ok_def)
    have new: "iad ?t i ! 12 = next_blk s \<and> iad s i ! 12 = 0 \<and> (\<forall>j < 1036. ib ?t i j = ib s i j) \<or>
      iad ?t i ! 12 = iad s i ! 12 \<and> n < 1036 \<and> ib s i n = 0 \<and> (\<forall>j < 1036. ib ?t i j = (if j = n then next_blk s else ib s i j))"
    proof (cases "n = 12")
      case n: True
      have "iblk ?t (next_blk s) = replicate 4096 0" using ib ne(3) [OF nb(1)] nb(2) by simp
      then have "ib ?t i j = ib s i j" if "j < 1036" for j
        using that True n ad by (simp add: ib_cases word_at_zero del: put_word_parts)
      then show ?thesis using True n ad by simp
    next
      case False
      have "iblk ?t (iad s i ! 12) = iblk s (iad s i ! 12)" if "iad s i ! 12 \<noteq> 0"
      proof (rule ib)
        have "iad s i ! 12 \<in> iown s i" using that by (simp add: iown_iff)
        then have "64 \<le> iad s i ! 12" using assms(1) i by (auto simp: img_ok_def ifile_ok_def)
        from ne(3) [OF this] show "iad s i ! 12 \<noteq> 33" "iad s i ! 12 \<noteq> fst (ip i)" by auto
      qed
      then have "ib ?t i j = (if j = n then next_blk s else ib s i j)" for j
        using False assms(3) ad by (auto simp: ib_cases simp del: put_word_parts)
      then show ?thesis using True False assms(3) ad by (simp add: ib_cases)
    qed
    have "grows i s ?t \<and> next_blk s \<in> iown ?t i"
    proof (rule attach_grows [OF assms(1,2,4) _ _ _ _ _ _ _ _ new])
      show "\<forall>b. length (iblk ?t b) = 4096" using length_put_word [OF allI [OF length_bump [OF len]]] assms(3) ip_room [of "3 + n" i] by simp
      show "\<forall>b. next_blk s < b \<longrightarrow> iblk ?t b = replicate 4096 0"
      proof (intro allI impI)
        fix b assume b: "next_blk s < b"
        have "64 \<le> b" by (rule order_trans [OF nb(1) order_less_imp_le [OF b]])
        from ne(3) [OF this] show "iblk ?t b = replicate 4096 0" using ib [of b] nb(2) [OF order_less_imp_le [OF b]] by simp
      qed
      show "\<forall>b. 64 \<le> b \<and> b < next_blk s \<and> b \<notin> iown s i \<longrightarrow> iblk ?t b = iblk s b" using ib ne(3) by blast
    qed (use iw ne in auto)
    then have g: "grows i s ?t" "next_blk s \<in> iown ?t i" by auto
    have "same_data i s ?t"
      unfolding same_data_def
    proof (intro allI impI)
      fix j assume "j < 1036" "ib s i j \<noteq> 0"
      then have "64 \<le> ib s i j" by (intro iown_range(1) [OF assms(1) i]) (auto simp: iown_iff)
      from ne(3) [OF this] show "iblk ?t (ib s i j) = iblk s (ib s i j)" using ib by simp
    qed
    then show ?thesis
      using g True w ad [OF assms(3)] ok [OF g(2)] assms(4) next_blk_room(1) [OF assms(1,4)]
      by (auto simp: slot_def grows_def not_le add.assoc)
  qed
qed

lemma slot_indirect:
  assumes "img_ok s" "i < unat (next_inode s)" "n < 1024" "next_blk s < 32768" "a = iad s i ! 12" "a \<noteq> 0"
  shows "runs {} (slot (a, n)) (\<lambda>b t. grows i s t \<and> same_data i s t \<and> b = ib t i (12 + n) \<and> b \<in> iown t i \<and>
    unat (next_blk t) \<le> unat (next_blk s) + 1) s"
proof -
  have i: "i < 1920" using assms(1,2) by (simp add: img_ok_def word_le_nat_alt)
  have ai: "a \<in> iown s i" using assms(5,6) by (simp add: iown_iff)
  note ar = iown_range [OF assms(1) i ai]
  have w: "word_at (iblk s a) n = ib s i (12 + n)" using assms(5,6) by (simp add: ib_cases)
  have own: "ib t i (12 + n) \<noteq> 0 \<Longrightarrow> ib t i (12 + n) \<in> iown t i" for t using assms(3) by (auto simp: iown_iff intro!: exI [of _ "12 + n"])
  show ?thesis
  proof (cases "ib s i (12 + n) = 0")
    case False
    then show ?thesis
      using own [OF False] iown_range [OF assms(1) i own [OF False]] assms(1) w grows_refl by (simp add: slot_def same_data_def)
  next
    case True
    let ?t = "put_word (a, n) (next_blk s) (bump s)"
    have len: "\<forall>b. length (iblk s b) = 4096" using assms(1) by (simp add: img_ok_def)
    have ne: "a \<noteq> 33" "a \<noteq> 32" "a \<noteq> next_blk s" using ar by auto
    have iw: "iw ?t i' k = iw s i' k" if "i' < 1920" for i' k using iw_other [of "(a, n)" i'] ar(1) that by (simp add: iw_bump)
    have ib: "iblk ?t b = iblk s b" if "b \<noteq> 33" "b \<noteq> a" for b using that by simp
    have ad: "iad ?t i = iad s i" using iw i by (simp add: iad_def)
    have wt: "word_at (iblk ?t a) m = (if m = n then next_blk s else word_at (iblk s a) m)" if "m < 1024" for m
      using word_at_put [of "iblk s a" n m "next_blk s"] len assms(3) that ne by (simp add: put_word_def)
    have new: "ib ?t i j = (if j = 12 + n then next_blk s else ib s i j)" if "j < 1036" for j
      using that assms(6) wt [of "j - 12"] by (auto simp: ib_cases ad assms(5) [symmetric] simp del: put_word_parts)
    have "grows i s ?t \<and> next_blk s \<in> iown ?t i"
    proof (rule attach_grows [OF assms(1,2,4), of ?t "12 + n"])
      show "\<forall>b. length (iblk ?t b) = 4096" using length_put_word [OF allI [OF length_bump [OF len]]] assms(3) by simp
      have nb: "64 \<le> next_blk s" "\<And>b. next_blk s \<le> b \<Longrightarrow> iblk s b = replicate 4096 0" using assms(1) by (auto simp: img_ok_def)
      have "b \<noteq> 33 \<and> b \<noteq> a" if "next_blk s < b" for b
        using order_le_less_trans [OF nb(1) that] that ar(2) by auto
      then show "\<forall>b. next_blk s < b \<longrightarrow> iblk ?t b = replicate 4096 0" using ib nb by (metis order_less_imp_le)
      show "\<forall>b. 64 \<le> b \<and> b < next_blk s \<and> b \<notin> iown s i \<longrightarrow> iblk ?t b = iblk s b"
      proof (intro allI impI ib)
        fix b assume b: "64 \<le> b \<and> b < next_blk s \<and> b \<notin> iown s i"
        then show "b \<noteq> 33" "b \<noteq> a" using ai by auto
      qed
      show "iad ?t i ! 12 = next_blk s \<and> iad s i ! 12 = 0 \<and> (\<forall>j<1036. ib ?t i j = ib s i j) \<or>
        iad ?t i ! 12 = iad s i ! 12 \<and> 12 + n < 1036 \<and> ib s i (12 + n) = 0 \<and> (\<forall>j'<1036. ib ?t i j' = (if j' = 12 + n then next_blk s else ib s i j'))"
        using new ad True assms(3) by simp
    qed (use iw ne in auto)
    then have g: "grows i s ?t" "next_blk s \<in> iown ?t i" by auto
    have b: "word_at (iblk ?t a) n = ib ?t i (12 + n)" "ib ?t i (12 + n) = next_blk s" using wt [of n] new assms(3) by simp_all
    have "img_ok ?t" using g(1) by (simp add: grows_def)
    note r = iown_range [OF this i g(2)]
    have "same_data i s ?t"
      unfolding same_data_def
    proof (intro allI impI ib)
      fix j assume j: "j < 1036" "ib s i j \<noteq> 0"
      then have "64 \<le> ib s i j" by (intro iown_range(1) [OF assms(1) i]) (auto simp: iown_iff)
      then show "ib s i j \<noteq> 33" by auto
      show "ib s i j \<noteq> a" using assms(1,5,6) i j by (auto simp: img_ok_def ifile_ok_def)
    qed
    then show ?thesis
      using True w g b r assms(4) next_blk_room(1) [OF assms(1,4)] by (simp add: slot_def not_le del: put_word_parts(3))
  qed
qed

lemma grows_parts:
  assumes "grows i s t"
  shows "img_ok t" "next_inode t = next_inode s" "next_blk s \<le> next_blk t" "iblk t 32 = iblk s 32"
    "j < 1036 \<Longrightarrow> ib s i j \<noteq> 0 \<Longrightarrow> ib t i j = ib s i j" "i < 1920 \<Longrightarrow> k < 3 \<Longrightarrow> iw t i k = iw s i k"
  using assms by (auto simp: grows_def)

lemma same_data_trans: "grows i s t \<Longrightarrow> same_data i s t \<Longrightarrow> same_data i t u \<Longrightarrow> same_data i s u"
  unfolding same_data_def using grows_parts(5) [of i s t] by metis

lemma iwalk_grows:
  assumes "img_ok s" "i < unat (next_inode s)" "unat no < 1036" "unat (next_blk s) + 2 \<le> 32768"
  shows "runs {} (mk_iwalk (ip i) no) (\<lambda>b t. grows i s t \<and> same_data i s t \<and> b = ib t i (unat no) \<and> b \<noteq> 0 \<and>
    unat (next_blk t) \<le> unat (next_blk s) + 2) s"
proof (cases "no < 12")
  case True
  have lt: "next_blk s < 32768" using assms(4) by (simp add: word_less_nat_alt)
  have n: "unat no < 12" using True by (simp add: word_less_nat_alt)
  show ?thesis
    using True unfolding mk_iwalk_def
    by (simp del: runs_bind) (rule runs_mono [OF slot_inode [OF assms(1,2) _ lt]], use n in \<open>auto simp: ib_cases iown_iff\<close>)
next
  case False
  have lt: "next_blk s < 32768" using assms(4) by (simp add: word_less_nat_alt)
  have n: "unat (no - 12) = unat no - 12" "12 \<le> unat no" using False by (auto simp: unat_sub word_le_nat_alt not_less)
  then have c: "no - 12 < 1024" "unat (no - 12) < 1024" "12 + unat (no - 12) = unat no" using assms(3) by (auto simp: word_less_nat_alt)
  have snd: "runs {} (slot (a, unat (no - 12))) (\<lambda>b t. grows i s t \<and> same_data i s t \<and> b = ib t i (unat no) \<and> b \<noteq> 0 \<and>
      unat (next_blk t) \<le> unat (next_blk s) + 2) u"
    if u: "grows i s u" "same_data i s u" "a = iad u i ! 12" "a \<in> iown u i" "unat (next_blk u) \<le> unat (next_blk s) + 1" for a u
  proof -
    have l: "next_blk u < 32768" using u(5) assms(4) by (simp add: word_less_nat_alt)
    have ni: "i < unat (next_inode u)" using grows_parts(2) [OF u(1)] assms(2) by simp
    have a: "a \<noteq> 0" using u(4) by (simp add: iown_iff)
    show ?thesis
      by (rule runs_mono [OF slot_indirect [OF grows_parts(1) [OF u(1)] ni c(2) l u(3) a]])
        (use u(5) grows_trans [OF u(1)] same_data_trans [OF u(1,2)] in \<open>auto simp: c(3) iown_iff\<close>)
  qed
  have e: "mk_iwalk (ip i) no = bindS (slot (fst (ip i), snd (ip i) + 3 + 12)) (\<lambda>ind. slot (ind, unat (no - 12)))"
    using False c(1) by (simp add: mk_iwalk_def Let_def add.commute)
  show ?thesis
    unfolding e runs_bind by (rule runs_mono [OF slot_inode [OF assms(1,2) _ lt]]) (use snd in auto)
qed

section \<open>Appending\<close>

definition put_data :: "u32 \<Rightarrow> nat \<Rightarrow> byte list \<Rightarrow> img \<Rightarrow> img" where
  "put_data b off xs s = s\<lparr>iblk := (iblk s)(b := put_at off xs (iblk s b))\<rparr>"

lemma put_data_grows:
  assumes "img_ok s" "i < 1920" "j < 1036" "b = ib s i j" "b \<noteq> 0" "off + length xs \<le> 4096"
  shows "grows i s (put_data b off xs s)" "ib (put_data b off xs s) i j' = ib s i j'" "next_blk (put_data b off xs s) = next_blk s"
proof -
  let ?t = "put_data b off xs s"
  have bo: "b \<in> iown s i" using assms(3-5) by (auto simp: iown_iff)
  note r = iown_range [OF assms(1,2) bo]
  have ib: "iblk ?t c = iblk s c" if "c \<noteq> b" for c using that by (simp add: put_data_def)
  have len: "length (iblk ?t c) = 4096" for c using assms(1,6) by (simp add: put_data_def img_ok_def)
  have np: "next_blk ?t = next_blk s" "next_inode ?t = next_inode s" by (simp_all add: put_data_def)
  show "next_blk ?t = next_blk s" by (rule np)
  have ne: "33 \<noteq> b" "32 \<noteq> b" using r(1) by auto
  have iw: "iw ?t i' k = iw s i' k" if "i' < 1920" for i' k
  proof -
    have "fst (ip i') \<noteq> b" using ip_block(1) [OF that] r(1) by auto
    then show ?thesis using ib by (simp add: iw_def)
  qed
  have a: "iad s i ! 12 \<noteq> 0 \<longrightarrow> iblk ?t (iad s i ! 12) = iblk s (iad s i ! 12)"
  proof
    have "ifile_ok s i" using assms(1,2) by (simp add: img_ok_def)
    then have "ib s i j = iad s i ! 12 \<longrightarrow> iad s i ! 12 = 0" using assms(3) by (simp add: ifile_ok_def)
    moreover assume "iad s i ! 12 \<noteq> 0"
    ultimately show "iblk ?t (iad s i ! 12) = iblk s (iad s i ! 12)" using assms(4) by (intro ib) auto
  qed
  have w: "\<forall>k < 16. 3 \<le> k \<longrightarrow> iw ?t i k = iw s i k" using iw assms(2) by simp
  note v = view_frame [OF w a]
  show "ib ?t i j' = ib s i j'" by (rule v(2))
  have z: "isz ?t i = isz s i" using iw assms(2) by (simp add: isz_def)
  have own: "iown ?t i' = iown s i'" "ifile_ok ?t i'" if "i' < 1920" for i'
  proof -
    have f: "ifile_ok s i'" using assms(1) that by (simp add: img_ok_def)
    have "iown ?t i' = iown s i' \<and> ifile_ok ?t i'"
    proof (cases "i' = i")
      case True
      have "ifile_ok ?t i" using f unfolding True ifile_ok_def v z np by blast
      then show ?thesis using v(3) True by simp
    next
      case False
      then have "iown s i \<inter> iown s i' = {}" using assms(1,2) that by (simp add: img_ok_def)
      then have "b \<notin> iown s i'" using bo by blast
      then have c: "\<forall>c \<in> iown s i'. iblk ?t c = iblk s c" using ib by metis
      have k: "\<forall>k < 16. iw ?t i' k = iw s i' k" using iw that by simp
      show ?thesis using cont_frame(4) [OF f k c] file_frame [OF f k c] np by simp
    qed
    then show "iown ?t i' = iown s i'" "ifile_ok ?t i'" by auto
  qed
  have "iblk ?t c = replicate 4096 0" if "next_blk s \<le> c" for c
  proof -
    have "c \<noteq> b" using that r(2) by auto
    then show ?thesis using ib assms(1) that by (simp add: img_ok_def)
  qed
  then have "img_ok ?t"
    using assms(1) own iw np len ib [OF ne(1)] unfolding img_ok_def by simp
  moreover have "iblk ?t c = iblk s c" if "c \<notin> iown s i" for c using that bo by (intro ib) auto
  ultimately show "grows i s ?t"
    using own(1) [OF assms(2)] iw np ib [OF ne(2)] v(2) by (auto simp: grows_def)
qed

definition blocks_for :: "nat \<Rightarrow> nat \<Rightarrow> nat" where
  "blocks_for P n = (P + n + 4095) div 4096 - P div 4096"

lemma blocks_for_step:
  assumes "0 < n" "m = min (4096 - P mod 4096) n"
  shows "0 < m" "m \<le> n" "P mod 4096 + m \<le> 4096" "Suc (blocks_for (P + m) (n - m)) = blocks_for P n \<or> n - m = 0 \<and> blocks_for P n = 1"
    "p < P + m \<Longrightarrow> P \<le> p \<Longrightarrow> p div 4096 = P div 4096 \<and> p mod 4096 = P mod 4096 + (p - P)"
proof -
  have l: "P mod 4096 < 4096" by simp
  show m: "0 < m" "m \<le> n" "P mod 4096 + m \<le> 4096" using assms l by (auto simp: min_def)
  have P: "P = 4096 * (P div 4096) + P mod 4096" by simp
  show "p div 4096 = P div 4096 \<and> p mod 4096 = P mod 4096 + (p - P)" if "p < P + m" "P \<le> p"
  proof -
    have p: "p = 4096 * (P div 4096) + (P mod 4096 + (p - P))" using that(2) P by linarith
    have "P mod 4096 + (p - P) < 4096" using that m(3) by linarith
    then show ?thesis using p by (metis div_mult_self4 div_less mod_less mod_mult_self4 add.right_neutral zero_neq_numeral)
  qed
  show "Suc (blocks_for (P + m) (n - m)) = blocks_for P n \<or> n - m = 0 \<and> blocks_for P n = 1"
  proof (cases "n \<le> 4096 - P mod 4096")
    case True
    then have e: "m = n" "P mod 4096 + n \<le> 4096" using assms l by auto
    have q: "P + n + 4095 = 4096 * (P div 4096) + (P mod 4096 + n + 4095)" using P by linarith
    have "(P + n + 4095) div 4096 = P div 4096 + (P mod 4096 + n + 4095) div 4096" by (subst q) (rule div_mult_self4, simp)
    moreover have "(P mod 4096 + n + 4095) div 4096 = 1" using e assms(1) by (intro div_nat_eqI) auto
    ultimately have "(P + n + 4095) div 4096 = P div 4096 + 1" by simp
    then show ?thesis using e by (simp add: blocks_for_def)
  next
    case False
    then have e: "m = 4096 - P mod 4096" using assms l by auto
    then have "m + P mod 4096 = 4096" using l by simp
    have "P + m = 4096 * (P div 4096) + (m + P mod 4096)" by simp
    then have "P + m = 4096 * (P div 4096 + 1)" using \<open>m + P mod 4096 = 4096\<close> by simp
    then have "(P + m) div 4096 = P div 4096 + 1" by simp
    moreover have "P + m + (n - m) + 4095 = P + n + 4095" using m by simp
    moreover have "P div 4096 + 1 \<le> (P + n + 4095) div 4096"
      proof -
      have "(P + m) div 4096 \<le> (P + n + 4095) div 4096" using m(2) by (intro div_le_mono) simp
      then show ?thesis using calculation(1) by simp
    qed
    ultimately show ?thesis by (simp add: blocks_for_def Suc_diff_Suc Suc_le_eq)
  qed
qed

text \<open>The bytes \<open>buf\<close> from \<open>P\<close> on, after the \<open>P\<close> bytes that were there.\<close>

definition extends :: "nat \<Rightarrow> nat \<Rightarrow> byte list \<Rightarrow> img \<Rightarrow> img \<Rightarrow> bool" where
  "extends i P buf s t \<longleftrightarrow> grows i s t \<and> (\<forall>j. 4096 * j < P + length buf \<longrightarrow> ib t i j \<noteq> 0) \<and>
     (\<forall>p < P + length buf. ibyte t i p = (if p < P then ibyte s i p else buf ! (p - P)))"

lemma extends_trans:
  assumes "extends i P xs s t" "extends i (P + length xs) ys t u"
  shows "extends i P (xs @ ys) s u"
  using assms grows_trans [of i s t u] by (auto simp: extends_def nth_append)

lemma data_at:
  assumes "img_ok s" "i < 1920" "j < 1036" "ib s i j \<noteq> 0" "off + length xs \<le> 4096" "\<forall>k. 4096 * k < P \<longrightarrow> ib s i k \<noteq> 0"
    "P = 4096 * j + off" "P + length xs \<le> 4243456" "xs \<noteq> []"
  shows "extends i P xs s (put_data (ib s i j) off xs s)"
proof -
  let ?t = "put_data (ib s i j) off xs s"
  note g = put_data_grows [OF assms(1-3) refl assms(4,5)]
  have f: "ifile_ok s i" using assms(1,2) by (simp add: img_ok_def)
  have len: "length (iblk s (ib s i j)) = 4096" using assms(1) by (simp add: img_ok_def)
  have bt: "iblk ?t c = (if c = ib s i j then put_at off xs (iblk s c) else iblk s c)" for c by (simp add: put_data_def)
  have "length xs > 0" using assms(9) by simp
  have k: "ib s i k \<noteq> 0" if "4096 * k < P + length xs" for k
  proof (cases "4096 * k < P")
    case False
    then have "j \<le> k" "k < j + 1" using that assms(5,7) by linarith+
    then have "k = j" by simp
    then show ?thesis using assms(4) by simp
  qed (use assms(6) in blast)
  have "ibyte ?t i p = (if p < P then ibyte s i p else xs ! (p - P))" if p: "p < P + length xs" for p
  proof -
    have q: "p div 4096 < 1036" using p assms(8) by auto
    have nz: "ib s i (p div 4096) \<noteq> 0" by (rule k) (use p in \<open>metis div_mult_self_is_m mult_div_mod_eq le_add1 le_less_trans zero_less_numeral\<close>)
    show ?thesis
    proof (cases "p div 4096 = j")
      case True
      have "p mod 4096 < 4096" "p = 4096 * j + p mod 4096" using True mult_div_mod_eq [of 4096 p] by auto
      then have "ibyte ?t i p = (if off \<le> p mod 4096 \<and> p mod 4096 < off + length xs then xs ! (p mod 4096 - off) else ibyte s i p)"
        using len assms(5) by (simp add: ibyte_def g(2) True bt put_at_nth)
      moreover have "p < P \<longleftrightarrow> \<not> off \<le> p mod 4096" "p - P = p mod 4096 - off" "p mod 4096 < off + length xs"
        using \<open>p = _\<close> assms(7) p by linarith+
      ultimately show ?thesis by simp
    next
      case False
      then have "ib s i (p div 4096) \<noteq> ib s i j" using f q nz assms(3) by (auto simp: ifile_ok_def)
      moreover have "p < P"
      proof (rule ccontr)
        assume "\<not> p < P"
        then have "4096 * j \<le> p" "p < 4096 * j + 4096" using assms(5,7) p by auto
        then have "p div 4096 = j" by (intro div_nat_eqI) auto
        then show False using False by simp
      qed
      ultimately show ?thesis by (simp add: ibyte_def g(2) bt)
    qed
  qed
  then show ?thesis using g k by (simp add: extends_def)
qed

lemma grown_extends:
  assumes "img_ok s" "i < 1920" "grows i s t" "same_data i s t" "\<forall>j. 4096 * j < P \<longrightarrow> ib s i j \<noteq> 0" "P \<le> 4243456"
  shows "extends i P [] s t"
proof -
  have b: "ib t i j = ib s i j \<and> iblk t (ib s i j) = iblk s (ib s i j) \<and> ib s i j \<noteq> 0" if "4096 * j < P" for j
  proof -
    have "j < 1036" "ib s i j \<noteq> 0" using that assms(5,6) by auto
    then show ?thesis using grows_parts(5) [OF assms(3)] assms(4) by (simp add: same_data_def)
  qed
  have "4096 * (p div 4096) < P" if "p < P" for p using that by (metis div_times_less_eq_dividend le_less_trans mult.commute)
  then show ?thesis using b assms(3) by (auto simp: extends_def ibyte_def)
qed

lemma iappend_loop_extends:
  assumes "img_ok s" "i < unat (next_inode s)" "\<forall>j. 4096 * j < unat pos \<longrightarrow> ib s i j \<noteq> 0" "unat pos + length buf \<le> 4243456"
    "unat (next_blk s) + 2 * blocks_for (unat pos) (length buf) \<le> 32768"
  shows "runs {} (iappend_loop (ip i) pos buf) (\<lambda>p t. unat p = unat pos + length buf \<and> extends i (unat pos) buf s t \<and>
    unat (next_blk t) \<le> unat (next_blk s) + 2 * blocks_for (unat pos) (length buf)) s"
  using assms
proof (induction "length buf" arbitrary: s pos buf rule: less_induct)
  case less
  let ?P = "unat pos"
  have i: "i < 1920" using less.prems(1,2) by (simp add: img_ok_def word_le_nat_alt)
  show ?case
  proof (cases "buf = []")
    case True
    have "extends i ?P [] s s"
      by (rule grown_extends [OF less.prems(1) i grows_refl [OF less.prems(1)] _ less.prems(3)]) (use less.prems(4) in \<open>auto simp: same_data_def\<close>)
    then show ?thesis using True by (subst iappend_loop.simps) simp
  next
    case False
    define m where "m = min (4096 - ?P mod 4096) (length buf)"
    have n: "0 < length buf" using False by simp
    note st = blocks_for_step [OF n m_def]
    have u: "unat (pos div 4096) = ?P div 4096" "unat (pos mod 4096) = ?P mod 4096" by (simp_all add: unat_div unat_mod)
    have "?P < 4243456" using less.prems(4) n by linarith
    then have no: "unat (pos div 4096) < 1036" using u by (simp add: less_mult_imp_div_less)
    have pm: "unat (pos + of_nat m) = ?P + m"
      using st(2) less.prems(4) by (subst unat_add_u32) (simp_all add: unat_of_nat_u32)
    have bf: "1 \<le> blocks_for ?P (length buf)" using st(4) by auto
    have room: "unat (next_blk s) + 2 \<le> 32768" using bf less.prems(5) by simp
    have step: "runs {} (\<lambda>s. iappend_loop (ip i) (pos + of_nat m) (drop m buf) (put_data b (?P mod 4096) (take m buf) s))
        (\<lambda>p t. unat p = ?P + length buf \<and> extends i ?P buf s t \<and> unat (next_blk t) \<le> unat (next_blk s) + 2 * blocks_for ?P (length buf)) v"
      if v: "grows i s v" "same_data i s v" "b = ib v i (?P div 4096)" "b \<noteq> 0" "unat (next_blk v) \<le> unat (next_blk s) + 2" for b v
    proof -
      let ?w = "put_data b (?P mod 4096) (take m buf) v"
      have e0: "extends i ?P [] s v"
        by (rule grown_extends [OF less.prems(1) i v(1,2) less.prems(3)]) (use less.prems(4) in simp)
      have e1: "extends i ?P (take m buf) v ?w"
        unfolding v(3) using st(1-3) n less.prems(4) e0 i v(1,3,4) no u
        by (intro data_at) (auto simp: grows_def extends_def min_def)
      have e: "extends i ?P (take m buf) s ?w" using extends_trans [OF e0] e1 by simp
      have wg: "grows i s ?w" using e by (simp add: extends_def)
      have nb: "next_blk ?w = next_blk v" by (simp add: put_data_def)
      have left: "length (drop m buf) < length buf" "?P + m + length (drop m buf) = ?P + length buf" "length (take m buf) = m" using st(1,2) by auto
      show ?thesis
      proof (cases "drop m buf = []")
        case True
        then have "take m buf = buf" by simp
        then show ?thesis using True e nb v(5) bf pm left by (subst iappend_loop.simps) (simp add: runs_def)
      next
        case False
        then have bl: "2 + 2 * blocks_for (?P + m) (length (drop m buf)) = 2 * blocks_for ?P (length buf)" using st(4) by auto
        have w: "img_ok ?w" "next_inode ?w = next_inode s" using wg by (simp_all add: grows_def)
        have c: "\<forall>j. 4096 * j < ?P + m \<longrightarrow> ib ?w i j \<noteq> 0" using e left(3) by (simp add: extends_def)
        have "runs {} (iappend_loop (ip i) (pos + of_nat m) (drop m buf)) (\<lambda>p t. unat p = ?P + length buf \<and> extends i ?P buf s t \<and>
            unat (next_blk t) \<le> unat (next_blk s) + 2 * blocks_for ?P (length buf)) ?w"
          by (rule runs_mono [OF less.hyps [OF left(1) w(1), of "pos + of_nat m"]])
            (use less.prems(2,4,5) w(2) c pm left bl nb v(5) extends_trans [OF e, of "drop m buf"] in \<open>auto simp del: length_drop\<close>)
        then show ?thesis by (simp add: runs_def)
      qed
    qed
    have eq: "iappend_loop (ip i) pos buf = bindS (mk_iwalk (ip i) (pos div 4096)) (\<lambda>b s. iappend_loop (ip i) (pos + of_nat m) (drop m buf) (put_data b (?P mod 4096) (take m buf) s))"
      using False by (subst iappend_loop.simps) (simp add: Let_def u m_def put_data_def fun_eq_iff bindS_def split: sum.split)
    show ?thesis
      unfolding eq runs_bind by (rule runs_mono [OF iwalk_grows [OF less.prems(1,2) no room]]) (use step u in auto)
  qed
qed

text \<open>What a call of \<open>iappend\<close> on inode \<open>i\<close> does: the file gets longer, the other files and the super block stay.\<close>

definition appended :: "nat \<Rightarrow> byte list \<Rightarrow> img \<Rightarrow> img \<Rightarrow> bool" where
  "appended i buf s t \<longleftrightarrow> img_ok t \<and> next_inode t = next_inode s \<and> iblk t 32 = iblk s 32 \<and> icont t i = icont s i @ buf \<and>
     (\<forall>i' < 1920. iw t i' 0 = iw s i' 0 \<and> (i' \<noteq> i \<longrightarrow> icont t i' = icont s i'))"

lemma appended_trans: "appended i xs s t \<Longrightarrow> appended i ys t u \<Longrightarrow> appended i (xs @ ys) s u"
  by (simp add: appended_def)

lemma isz_icont: "length (icont s i) = isz s i"
  by (simp add: icont_def)

text \<open>A word of an allocated inode other than an address: the type, the device or the size.\<close>

lemma set_word_ok:
  assumes "img_ok s" "i < unat (next_inode s)" "k < 3" "t = put_word (fst (ip i), snd (ip i) + k) v s"
    "k = 2 \<longrightarrow> unat v \<le> 4243456 \<and> (\<forall>j. 4096 * j < unat v \<longrightarrow> ib s i j \<noteq> 0)"
  shows "img_ok t" "\<And>i' k'. i' < 1920 \<Longrightarrow> k' < 16 \<Longrightarrow> iw t i' k' = (if i' = i \<and> k' = k then v else iw s i' k')"
    "\<And>i'. i' < 1920 \<Longrightarrow> ib t i' j = ib s i' j" "\<And>i' p. i' < 1920 \<Longrightarrow> ifile_ok s i' \<Longrightarrow> p div 4096 < 1036 \<Longrightarrow> ib s i' (p div 4096) \<noteq> 0 \<Longrightarrow> ibyte t i' p = ibyte s i' p"
    "iblk t 32 = iblk s 32"
proof -
  have i: "i < 1920" using assms(1,2) by (simp add: img_ok_def word_le_nat_alt)
  have len: "\<forall>b. length (iblk s b) = 4096" using assms(1) by (simp add: img_ok_def)
  have bi: "34 \<le> fst (ip i)" "fst (ip i) < 64" using ip_block(1) [OF i] by auto
  have k: "k < 16" using assms(3) by simp
  show iw: "iw t i' k' = (if i' = i \<and> k' = k then v else iw s i' k')" if "i' < 1920" "k' < 16" for i' k'
    unfolding assms(4) using iw_put [OF len i that(1) k that(2)] by simp
  have data: "iblk t b = iblk s b" if "b < 34 \<or> 64 \<le> b" for b
    unfolding assms(4) using that bi by (intro put_word_parts(3)) auto
  show "iblk t 32 = iblk s 32" by (rule data) simp
  have fr: "iad t i' = iad s i'" "ib t i' j' = ib s i' j'" "iown t i' = iown s i'" if "i' < 1920" for i' j'
  proof -
    have w: "\<forall>k' < 16. 3 \<le> k' \<longrightarrow> iw t i' k' = iw s i' k'" using iw that assms(3) by auto
    have "64 \<le> b" if "b \<in> iown s i'" for b using iown_range(1) [OF assms(1) \<open>i' < 1920\<close> that] .
    then have a: "iad s i' ! 12 \<noteq> 0 \<longrightarrow> iblk t (iad s i' ! 12) = iblk s (iad s i' ! 12)" by (intro impI data) (simp add: iown_iff)
    from view_frame [OF w a] show "iad t i' = iad s i'" "ib t i' j' = ib s i' j'" "iown t i' = iown s i'" by auto
  qed
  show "\<And>i'. i' < 1920 \<Longrightarrow> ib t i' j = ib s i' j" by (rule fr(2))
  show "ibyte t i' p = ibyte s i' p" if "i' < 1920" "ifile_ok s i'" "p div 4096 < 1036" "ib s i' (p div 4096) \<noteq> 0" for i' p
  proof -
    have "64 \<le> ib s i' (p div 4096)" using that by (intro iown_range(1) [OF assms(1) that(1)]) (auto simp: iown_iff)
    then show ?thesis using data fr(2) [OF that(1)] by (simp add: ibyte_def)
  qed
  have np: "next_blk t = next_blk s" "next_inode t = next_inode s" unfolding assms(4) by simp_all
  have fok: "ifile_ok t i'" if i': "i' < 1920" for i'
  proof -
    have f: "ifile_ok s i'" using assms(1) i' by (simp add: img_ok_def)
    have "isz t i' \<le> 4243456 \<and> (\<forall>j. 4096 * j < isz t i' \<longrightarrow> ib s i' j \<noteq> 0)"
      using f assms(5) iw [OF i', of 2] by (auto simp: isz_def ifile_ok_def)
    then show ?thesis using f unfolding ifile_ok_def fr [OF i'] np by blast
  qed
  have "length (iblk t b) = 4096" for b unfolding assms(4) using length_put_word [OF len] ip_room [OF k, of i] by simp
  moreover have "iblk t b = replicate 4096 0" if "next_blk s \<le> b" for b
  proof -
    have "64 \<le> b" using assms(1) that by (auto simp: img_ok_def)
    then show ?thesis using data assms(1) that by (simp add: img_ok_def)
  qed
  moreover have "iblk t 33 = iblk s 33" by (rule data) simp
  moreover have "iw t i' k' = 0" if "i' < 1920" "unat (next_inode s) \<le> i'" "k' < 16" for i' k'
    using iw [OF that(1,3)] that assms(1,2) by (auto simp: img_ok_def)
  ultimately show "img_ok t"
    using assms(1) fok fr(3) np unfolding img_ok_def by simp
qed

lemma iappend_appended:
  assumes "img_ok s" "i < unat (next_inode s)" "isz s i + length buf \<le> 4243456"
    "unat (next_blk s) + 2 * blocks_for (isz s i) (length buf) \<le> 32768"
  shows "runs {} (mk_iappend (ip i) buf) (\<lambda>_ t. appended i buf s t \<and>
    unat (next_blk t) \<le> unat (next_blk s) + 2 * blocks_for (isz s i) (length buf)) s"
proof -
  have i: "i < 1920" using assms(1,2) by (simp add: img_ok_def word_le_nat_alt)
  have f: "ifile_ok s i" using assms(1) i by (simp add: img_ok_def)
  let ?pos = "word_at (iblk s (fst (ip i))) (snd (ip i) + 2)"
  have p: "unat ?pos = isz s i" by (simp add: isz_def iw_def)
  have c: "\<forall>j. 4096 * j < unat ?pos \<longrightarrow> ib s i j \<noteq> 0" using f p by (simp add: ifile_ok_def)
  have fin: "appended i buf s (put_word (fst (ip i), snd (ip i) + 2) q u) \<and> next_blk (put_word (fst (ip i), snd (ip i) + 2) q u) = next_blk u"
    if u: "unat q = unat ?pos + length buf" "extends i (unat ?pos) buf s u" for q u
  proof -
    define t where "t = put_word (fst (ip i), snd (ip i) + 2) q u"
    have g: "grows i s u" using u(2) by (simp add: extends_def)
    have ok: "img_ok u" and ni: "i < unat (next_inode u)" "next_inode u = next_inode s" using g assms(2) by (auto simp: grows_def)
    have e: "\<forall>j. 4096 * j < unat q \<longrightarrow> ib u i j \<noteq> 0" using u by (simp add: extends_def)
    have w: "2 = (2 :: nat) \<longrightarrow> unat q \<le> 4243456 \<and> (\<forall>j. 4096 * j < unat q \<longrightarrow> ib u i j \<noteq> 0)" using e u(1) p assms(3) by simp
    note S = set_word_ok [OF ok ni(1) _ t_def w, simplified]
    have z: "isz t i = isz s i + length buf" using S(2) [OF i, of 2] u(1) p by (simp add: isz_def)
    have "ibyte t i p' = (icont s i @ buf) ! p'" if p': "p' < isz s i + length buf" for p'
    proof -
      have "4096 * (p' div 4096) < unat q" using p' u(1) p by (metis div_times_less_eq_dividend le_less_trans mult.commute)
      then have "p' div 4096 < 1036" "ib u i (p' div 4096) \<noteq> 0" using e w by auto
      then have "ibyte t i p' = ibyte u i p'" using S(4) [OF i] ok i by (simp add: img_ok_def)
      also have "\<dots> = (if p' < isz s i then ibyte s i p' else buf ! (p' - isz s i))" using u(2) p' p by (simp add: extends_def)
      finally show ?thesis by (simp add: nth_append isz_icont) (simp add: icont_def)
    qed
    then have "icont t i = icont s i @ buf" using z by (intro nth_equalityI) (auto simp: isz_icont icont_def [of t])
    moreover have "icont t i' = icont s i'" if i': "i' < 1920" "i' \<noteq> i" for i'
    proof -
      have fu: "ifile_ok u i'" using ok i' by (simp add: img_ok_def)
      have "isz t i' = isz u i'" using S(2) [OF i'(1), of 2] i' by (simp add: isz_def)
      moreover have "ibyte t i' p' = ibyte u i' p'" if "p' < isz u i'" for p'
      proof -
        have "4096 * (p' div 4096) < isz u i'" using that by (metis div_times_less_eq_dividend le_less_trans mult.commute)
        then have "p' div 4096 < 1036" "ib u i' (p' div 4096) \<noteq> 0" using fu by (auto simp: ifile_ok_def)
        then show ?thesis using S(4) [OF i'(1) fu] by simp
      qed
      ultimately have "icont t i' = icont u i'" by (simp add: icont_def)
      then show ?thesis using grows_other(1) [OF assms(1) i i' g] by simp
    qed
    moreover have "iw t i' 0 = iw s i' 0" if "i' < 1920" for i' using S(2) [OF that, of 0] g that by (simp add: grows_def)
    moreover have "next_blk t = next_blk u" "next_inode t = next_inode u" by (simp_all add: t_def)
    ultimately show ?thesis unfolding t_def [symmetric] using S(1,5) ni g by (simp add: appended_def grows_def)
  qed
  show ?thesis
    unfolding mk_iappend_def runs_bind mk_simps fst_conv snd_conv
    by (rule runs_mono [OF iappend_loop_extends [OF assms(1,2) c]]) (use fin assms(3,4) p in auto)
qed

section \<open>Files\<close>

lemma mk_iget_ip: "i < 1920 \<Longrightarrow> runs A (mk_iget (of_nat i)) Q s = Q (ip i) s"
proof -
  assume i: "i < 1920"
  then have u: "unat (of_nat i :: u32) = i" by (intro unat_of_nat_u32) simp
  have d: "unat ((of_nat i :: u32) div 64 + 34) = 34 + i div 64" using i u by (subst unat_add_u32) (simp_all add: unat_div)
  then have b: "(of_nat i :: u32) div 64 + 34 = fst (ip i)" using ip_block(2) [OF i] by (metis word_unat_eq_iff)
  have "32 \<le> fst (ip i)" "fst (ip i) < 32768" using i ip_block(2) [OF i] by (simp_all add: word_le_nat_alt word_less_nat_alt)
  moreover have "16 * unat ((of_nat i :: u32) mod 64) = snd (ip i)" using u by (simp add: unat_mod ip_def)
  ultimately show ?thesis by (simp add: mk_iget_def b)
qed

text \<open>\<open>ialloc\<close> takes the next inode; its file is empty.\<close>

lemma ialloc_runs:
  assumes "img_ok s" "unat (next_inode s) < 1920"
  shows "runs {} (mk_ialloc type) (\<lambda>no t. no = next_inode s \<and> img_ok t \<and> next_inode t = next_inode s + 1 \<and> next_blk t = next_blk s \<and>
    iblk t 32 = iblk s 32 \<and> isz s (unat no) = 0 \<and> (\<forall>i < 1920. icont t i = icont s i \<and> isz t i = isz s i \<and>
      iw t i 0 = (if i = unat no then type else iw s i 0))) s"
proof -
  let ?n = "next_inode s" let ?i = "unat ?n"
  let ?s = "s\<lparr>next_inode := ?n + 1\<rparr>"
  have u: "unat (?n + 1) = ?i + 1" using assms(2) by (subst unat_add_u32) simp_all
  have same: "iw ?s i k = iw s i k" "iad ?s i = iad s i" "ib ?s i j = ib s i j" "iown ?s i = iown s i" "isz ?s i = isz s i" "ifile_ok ?s i = ifile_ok s i"
      "icont ?s i = icont s i" for i j k
    by (simp_all add: iw_def iad_def ib_def iown_def isz_def ifile_ok_def icont_def ibyte_def)
  have n1: "1 \<le> ?n + 1" "?n + 1 \<le> 1920" using u assms(2) by (simp_all add: word_le_nat_alt)
  have ok: "img_ok ?s" using assms(1) n1 u unfolding img_ok_def same by simp
  have lt: "?i < unat (next_inode ?s)" using u by simp
  let ?t = "put_word (fst (ip ?i), snd (ip ?i) + 0) type ?s"
  note S = set_word_ok [OF ok lt _ refl, of 0 type, simplified]
  have z: "isz s ?i = 0" using assms by (simp add: img_ok_def isz_def)
  have c: "icont ?t i = icont s i \<and> isz ?t i = isz s i" if i: "i < 1920" for i
  proof -
    have f: "ifile_ok ?s i" using ok i by (simp add: img_ok_def)
    have z: "isz ?t i = isz s i" using S(2) [OF i, of 2] same by (simp add: isz_def)
    have "ibyte ?t i p = ibyte ?s i p" if "p < isz ?s i" for p
    proof -
      have "4096 * (p div 4096) < isz ?s i" using that by (metis div_times_less_eq_dividend le_less_trans mult.commute)
      then have "p div 4096 < 1036" "ib ?s i (p div 4096) \<noteq> 0" using f by (auto simp: ifile_ok_def)
      then show ?thesis using S(4) [OF i f] by simp
    qed
    then have "icont ?t i = icont ?s i" using z same by (simp add: icont_def)
    then show ?thesis using z same by simp
  qed
  have e: "(put_word (ip ?i) type s)\<lparr>next_inode := ?n + 1\<rparr> = ?t" "iblk (put_word (ip ?i) type s) 32 = iblk ?t 32" by (simp_all add: put_word_def)
  have g: "runs A (mk_iget ?n) Q s = Q (ip ?i) s" for A Q s using mk_iget_ip [OF assms(2)] by simp
  have "\<not> 1920 \<le> ?n" using assms(2) by (simp add: word_le_nat_alt)
  then show ?thesis
    unfolding mk_ialloc_def runs_bind runs_simps
    using S(1,2,5) c z same by (simp add: g e)
qed

lemma blocks_for_small: "n \<le> 4096 \<Longrightarrow> blocks_for P n \<le> 2"
proof -
  assume "n \<le> 4096"
  then have "(P + n + 4095) div 4096 \<le> (P + 2 * 4096) div 4096" by (intro div_le_mono) simp
  also have "\<dots> = P div 4096 + 2" by simp
  finally show ?thesis by (simp add: blocks_for_def)
qed

lemma blocks_for_block: "n \<le> 4096 \<Longrightarrow> P mod 4096 = 0 \<Longrightarrow> blocks_for P n \<le> 1"
proof -
  assume n: "n \<le> 4096" and "P mod 4096 = 0"
  then obtain q where q: "P = 4096 * q" by (metis mult_div_mod_eq add.right_neutral)
  have "(P + n + 4095) div 4096 = q + (n + 4095) div 4096" by (simp add: q add.assoc)
  moreover have "(n + 4095) div 4096 < 2" using n by (intro less_mult_imp_div_less) simp
  ultimately show ?thesis by (simp add: blocks_for_def q)
qed

definition chunks :: "nat \<Rightarrow> nat" where
  "chunks n = (n + 4095) div 4096"

lemma append_data_runs:
  assumes "img_ok s" "i < unat (next_inode s)" "isz s i + length xs \<le> 4243456" "isz s i mod 4096 = 0" "unat (next_blk s) + 2 * chunks (length xs) \<le> 32768"
  shows "runs {} (append_data (ip i) xs) (\<lambda>_ t. appended i xs s t \<and> unat (next_blk t) \<le> unat (next_blk s) + 2 * chunks (length xs)) s"
  using assms
proof (induction "length xs" arbitrary: s xs rule: less_induct)
  case less
  have i: "i < 1920" using less.prems(1,2) by (simp add: img_ok_def word_le_nat_alt)
  show ?case
  proof (cases "xs = []")
    case True
    then show ?thesis using less.prems(1) by (subst append_data.simps) (simp add: appended_def)
  next
    case False
    let ?a = "take 4096 xs" let ?b = "drop 4096 xs"
    have l: "length ?a \<le> 4096" "length ?b < length xs" using False by auto
    have cs: "chunks (length xs) = Suc (chunks (length ?b))"
    proof (cases "length xs \<le> 4096")
      case True
      have "1 \<le> length xs" using \<open>xs \<noteq> []\<close> by (cases xs) auto
      then have "(length xs + 4095) div 4096 = 1" using True by (intro div_nat_eqI) auto
      then show ?thesis using True by (simp add: chunks_def)
    next
      case False
      then have "length xs + 4095 = (length ?b + 4095) + 4096" by simp
      then show ?thesis by (simp only: chunks_def div_add_self2)
    qed
    have bf: "blocks_for (isz s i) (length ?a) \<le> 1" by (rule blocks_for_block [OF l(1) less.prems(4)])
    have room: "unat (next_blk s) + 2 * blocks_for (isz s i) (length ?a) \<le> 32768" using bf cs less.prems(5) by simp
    have fit: "isz s i + length ?a \<le> 4243456" using less.prems(3) by simp
    show ?thesis
    proof (subst append_data.simps, use False in \<open>simp del: length_take length_drop\<close>, rule runs_mono [OF iappend_appended [OF less.prems(1,2) fit room]])
      fix x t assume t: "appended i ?a s t \<and> unat (next_blk t) \<le> unat (next_blk s) + 2 * blocks_for (isz s i) (length ?a)"
      then have ok: "img_ok t" "i < unat (next_inode t)" using less.prems(2) by (simp_all add: appended_def)
      have z: "isz t i = isz s i + length ?a" using t isz_icont [of t i] isz_icont [of s i] by (simp add: appended_def)
      have nb: "unat (next_blk t) + 2 * chunks (length ?b) \<le> unat (next_blk s) + 2 * chunks (length xs)" using t bf cs by simp
      show "runs {} (append_data (ip i) ?b) (\<lambda>_ u. appended i xs s u \<and> unat (next_blk u) \<le> unat (next_blk s) + 2 * chunks (length xs)) t"
      proof (cases "?b = []")
        case True
        then have "?a = xs" by simp
        then show ?thesis using True t bf cs by (subst append_data.simps) simp
      next
        case False
        then have m: "length ?a = 4096" by simp
        have zm: "isz t i mod 4096 = 0" using z m less.prems(4) by simp
        have zl: "isz t i + length ?b \<le> 4243456" using z less.prems(3) m by simp
        show ?thesis
          by (rule runs_mono [OF less.hyps [OF l(2) ok zl zm]]) (use nb less.prems(5) t appended_trans [of i ?a s t ?b] in auto)
      qed
    qed simp
  qed
qed

section \<open>The image that is made\<close>

text \<open>A directory entry as \<open>mkfs\<close> writes it: after the NUL of the name is what \<open>dirent\<close> held before.\<close>

definition entry :: "nat \<Rightarrow> byte list \<Rightarrow> byte list \<Rightarrow> byte list" where
  "entry i name dirent = le32 (of_nat i) @ name @ 0 # drop (Suc (length name)) (dirent_name dirent)"

fun entries :: "nat \<Rightarrow> (byte list \<times> byte list \<times> byte list) list \<Rightarrow> byte list" where
  "entries i [] = []"
| "entries i ((name, dirent, data) # fs) = entry i name dirent @ entries (Suc i) fs"

fun file_arg :: "byte list \<times> byte list \<times> byte list \<Rightarrow> byte list \<times> byte list \<times> byte list option" where
  "file_arg (name, dirent, data) = (name @ [0], dirent, Some data)"

definition good_file :: "byte list \<times> byte list \<times> byte list \<Rightarrow> bool" where
  "good_file f = (case f of (name, dirent, data) \<Rightarrow> 0 \<notin> set name \<and> length name \<le> 27 \<and> length dirent = 32 \<and> length data \<le> 4243456)"

definition file_blocks :: "byte list \<times> byte list \<times> byte list \<Rightarrow> nat" where
  "file_blocks f = (case f of (name, dirent, data) \<Rightarrow> 4 + 2 * chunks (length data))"

text \<open>The image after the files \<open>fs\<close>, with \<open>dot\<close> for the two entries \<open>.\<close> and \<open>..\<close>.\<close>

definition holds_files :: "byte list \<Rightarrow> (byte list \<times> byte list \<times> byte list) list \<Rightarrow> img \<Rightarrow> bool" where
  "holds_files dot fs s \<longleftrightarrow> img_ok s \<and> unat (next_inode s) = 2 + length fs \<and> sb_of (iblk s 32) = \<lparr>bitmap = 33, istart = 34, inum = 1920, root = 1\<rparr> \<and>
     iw s 1 0 = 2 \<and> icont s 1 = dot @ entries 2 fs \<and>
     (\<forall>k < length fs. iw s (k + 2) 0 = 1 \<and> icont s (k + 2) = snd (snd (fs ! k)))"

lemma length_entry [simp]: "length dirent = 32 \<Longrightarrow> length name \<le> 27 \<Longrightarrow> length (entry i name dirent) = 32"
  by (simp add: entry_def dirent_name_def)

lemma length_entries: "\<forall>f \<in> set fs. good_file f \<Longrightarrow> length (entries i fs) = 32 * length fs"
  by (induction i fs rule: entries.induct) (simp_all add: good_file_def)

lemma entries_snoc: "entries i (fs @ [(name, dirent, data)]) = entries i fs @ entry (i + length fs) name dirent"
  by (induction i fs rule: entries.induct) simp_all

lemma set_dirent_entry: "0 \<notin> set name \<Longrightarrow> length name \<le> 27 \<Longrightarrow> length dirent = 32 \<Longrightarrow>
    set_dirent (of_nat i) (name @ [0]) dirent = Inr (entry i name dirent)"
  using strcpy_cstr [of name "dirent_name dirent" "[]"] by (simp add: set_dirent_def entry_def dirent_name_def)

lemma runs_liftS [simp]: "runs A (liftS (Inr x)) Q = Q x"
  by (simp add: runs_def fun_eq_iff)

lemma add_file_holds:
  assumes "holds_files dot fs s" "good_file (name, dirent, data)" "length fs < 1918" "length dot = 64" "\<forall>f \<in> set fs. good_file f"
    "unat (next_blk s) + file_blocks (name, dirent, data) \<le> 32768"
  shows "runs {} (add_file (ip 1) (file_arg (name, dirent, data))) (\<lambda>_ t. holds_files dot (fs @ [(name, dirent, data)]) t \<and>
    unat (next_blk t) \<le> unat (next_blk s) + file_blocks (name, dirent, data)) s"
proof -
  let ?n = "2 + length fs"
  have h: "img_ok s" "unat (next_inode s) = ?n" "sb_of (iblk s 32) = \<lparr>bitmap = 33, istart = 34, inum = 1920, root = 1\<rparr>" "iw s 1 0 = 2"
    "icont s 1 = dot @ entries 2 fs" "\<And>k. k < length fs \<Longrightarrow> iw s (k + 2) 0 = 1 \<and> icont s (k + 2) = snd (snd (fs ! k))"
    using assms(1) by (auto simp: holds_files_def)
  have g: "0 \<notin> set name" "length name \<le> 27" "length dirent = 32" "length data \<le> 4243456" using assms(2) by (auto simp: good_file_def)
  have n: "?n < 1920" "unat (next_inode s) < 1920" using assms(3) h(2) by auto
  have no: "next_inode s = of_nat ?n" using h(2) 
  proof -
    have "of_nat (unat (next_inode s)) = next_inode s" by simp
    then show ?thesis unfolding h(2) by (rule sym)
  qed
  have dir: "isz s 1 = 64 + 32 * length fs" using h(5) length_entries [OF assms(5), of 2] assms(4) isz_icont [of s 1] by simp
  let ?e = "entry ?n name dirent"
  have e: "length ?e = 32" using g by simp
  have first: "runs {} (mk_iappend (ip 1) ?e) (\<lambda>_. runs {} (append_data (ip ?n) data) (\<lambda>_ t. holds_files dot (fs @ [(name, dirent, data)]) t \<and>
      unat (next_blk t) \<le> unat (next_blk s) + file_blocks (name, dirent, data))) t"
    if t: "img_ok t" "unat (next_inode t) = Suc ?n" "next_blk t = next_blk s" "iblk t 32 = iblk s 32" "isz s ?n = 0"
      "\<And>i. i < 1920 \<Longrightarrow> icont t i = icont s i \<and> isz t i = isz s i \<and> iw t i 0 = (if i = ?n then 1 else iw s i 0)" for t
  proof -
    have bf: "blocks_for (isz t 1) (length ?e) \<le> 2" using e by (intro blocks_for_small) simp
    have lt: "1 < unat (next_inode t)" using t(2) by simp
    have fit: "isz t 1 + length ?e \<le> 4243456" using t(6) [of 1] dir e assms(3) by simp
    have room: "unat (next_blk t) + 2 * blocks_for (isz t 1) (length ?e) \<le> 32768"
      using bf assms(6) t(3) by (simp add: file_blocks_def)
    show ?thesis
    proof (rule runs_mono [OF iappend_appended [OF t(1) lt fit room]])
      fix x u assume "appended 1 ?e t u \<and> unat (next_blk u) \<le> unat (next_blk t) + 2 * blocks_for (isz t 1) (length ?e)"
      then have u: "appended 1 ?e t u" "unat (next_blk u) \<le> unat (next_blk s) + 4" using bf t(3) by auto
      have c: "icont u ?n = icont t ?n" "icont u 1 = icont t 1 @ ?e" "img_ok u" "unat (next_inode u) = Suc ?n" "iblk u 32 = iblk s 32"
        "\<And>i. i < 1920 \<Longrightarrow> iw u i 0 = iw t i 0 \<and> (i \<noteq> 1 \<longrightarrow> icont u i = icont t i)"
        using u(1) n(1) t(2,4) by (auto simp: appended_def)
      have z: "isz u ?n = 0" using c(1) t(5) t(6) [of ?n] n(1) isz_icont [of u ?n] isz_icont [of s ?n] by simp
      have lt: "?n < unat (next_inode u)" using c(4) by simp
      have fit: "isz u ?n + length data \<le> 4243456" using z g(4) by simp
      have room: "unat (next_blk u) + 2 * chunks (length data) \<le> 32768" using u(2) assms(6) by (simp add: file_blocks_def)
      have z0: "isz u ?n mod 4096 = 0" using z by simp
      show "runs {} (append_data (ip ?n) data) (\<lambda>_ t. holds_files dot (fs @ [(name, dirent, data)]) t \<and>
          unat (next_blk t) \<le> unat (next_blk s) + file_blocks (name, dirent, data)) u"
      proof (rule runs_mono [OF append_data_runs [OF c(3) lt fit z0 room]])
        fix y v assume "appended ?n data u v \<and> unat (next_blk v) \<le> unat (next_blk u) + 2 * chunks (length data)"
        then have v: "img_ok v" "next_inode v = next_inode u" "iblk v 32 = iblk u 32" "icont v ?n = icont u ?n @ data"
          "\<And>i. i < 1920 \<Longrightarrow> iw v i 0 = iw u i 0 \<and> (i \<noteq> ?n \<longrightarrow> icont v i = icont u i)"
          "unat (next_blk v) \<le> unat (next_blk s) + file_blocks (name, dirent, data)"
          using u(2) by (auto simp: appended_def file_blocks_def)
        have vn: "icont v ?n = data" using v(4) isz_icont [of u ?n] z by simp
        have "iw v (k + 2) 0 = 1 \<and> icont v (k + 2) = snd (snd ((fs @ [(name, dirent, data)]) ! k))" if k: "k < Suc (length fs)" for k
        proof (cases "k = length fs")
          case True
          then show ?thesis using vn v(5) [of ?n] c(6) [of ?n] t(6) [of ?n] n(1) by (simp add: add.commute)
        next
          case False
          then have "k < length fs" "k + 2 < 1920" "k + 2 \<noteq> ?n" "k + 2 \<noteq> 1" using k assms(3) by auto
          then show ?thesis using v(5) [of "k + 2"] c(6) [of "k + 2"] t(6) [of "k + 2"] h(6) [of k] by (simp add: nth_append)
        qed
        moreover have "icont v 1 = dot @ entries 2 (fs @ [(name, dirent, data)])" "iw v 1 0 = 2"
          using v(5) [of 1] c(2) c(6) [of 1] t(6) [of 1] h(4,5) by (simp_all add: entries_snoc)
        ultimately show "holds_files dot (fs @ [(name, dirent, data)]) v \<and> unat (next_blk v) \<le> unat (next_blk s) + file_blocks (name, dirent, data)"
          using v(1-3,6) c(4,5) h(3) by (simp add: holds_files_def)
      qed simp
    qed simp
  qed
  show ?thesis
    unfolding add_file_def file_arg.simps prod.case option.case runs_bind runs_simps
  proof (rule runs_mono [OF ialloc_runs [OF h(1) n(2)]])
    fix no' t assume t: "no' = next_inode s \<and> img_ok t \<and> next_inode t = next_inode s + 1 \<and> next_blk t = next_blk s \<and>
      iblk t 32 = iblk s 32 \<and> isz s (unat no') = 0 \<and> (\<forall>i < 1920. icont t i = icont s i \<and> isz t i = isz s i \<and>
      iw t i 0 = (if i = unat no' then 1 else iw s i 0))"
    then have no': "no' = of_nat ?n" "unat no' = ?n" using no h(2) by auto
    have "unat (next_inode s + 1) = Suc ?n" using h(2) n(1) by (subst unat_add_u32) simp_all
    then have "runs {} (mk_iappend (ip 1) ?e) (\<lambda>_. runs {} (append_data (ip ?n) data) (\<lambda>_ t. holds_files dot (fs @ [(name, dirent, data)]) t \<and>
      unat (next_blk t) \<le> unat (next_blk s) + file_blocks (name, dirent, data))) t" using t no'(2) by (intro first) auto
    then show "runs {} (mk_iget no') (\<lambda>inode. runs {} (liftS (set_dirent no' (name @ [0]) dirent)) (\<lambda>dirent'.
      runs {} (mk_iappend (ip 1) dirent') (\<lambda>_. runs {} (append_data inode data) (\<lambda>_ t. holds_files dot (fs @ [(name, dirent, data)]) t \<and>
      unat (next_blk t) \<le> unat (next_blk s) + file_blocks (name, dirent, data))))) t"
      unfolding no'(1) mk_iget_ip [OF n(1)] set_dirent_entry [OF g(1-3)] runs_liftS .
  qed simp
qed

lemma add_files_hold:
  assumes "holds_files dot fs s" "\<forall>f \<in> set (fs @ gs). good_file f" "length (fs @ gs) \<le> 1918" "length dot = 64"
    "unat (next_blk s) + sum_list (map file_blocks gs) \<le> 32768"
  shows "runs {} (forS (add_file (ip 1)) (map file_arg gs)) (\<lambda>_ t. holds_files dot (fs @ gs) t) s"
  using assms
proof (induction gs arbitrary: fs s)
  case (Cons f gs)
  obtain name dirent data where f: "f = (name, dirent, data)" by (cases f)
  have g: "good_file (name, dirent, data)" "\<forall>f \<in> set fs. good_file f" "length fs < 1918"
    "unat (next_blk s) + file_blocks (name, dirent, data) \<le> 32768" using Cons.prems f by auto
  show ?case
    unfolding list.map forS.simps runs_simps f
    by (rule runs_mono [OF add_file_holds [OF Cons.prems(1) g(1,3) Cons.prems(4) g(2,4)]])
      (use Cons.IH [of "fs @ [f]"] Cons.prems f in auto)
qed simp

text \<open>The super block is apart from everything else.\<close>

lemma put_super:
  assumes "img_ok s" "k < 1024" "t = put_word (32, k) v s"
  shows "img_ok t" "next_blk t = next_blk s" "next_inode t = next_inode s" "i < 1920 \<Longrightarrow> icont t i = icont s i" "i < 1920 \<Longrightarrow> iw t i j = iw s i j"
    "m < 1024 \<Longrightarrow> word_at (iblk t 32) m = (if m = k then v else word_at (iblk s 32) m)"
proof -
  have len: "\<forall>b. length (iblk s b) = 4096" using assms(1) by (simp add: img_ok_def)
  have ib: "iblk t b = iblk s b" if "b \<noteq> 32" for b using that by (simp add: assms(3))
  show np: "next_blk t = next_blk s" "next_inode t = next_inode s" by (simp_all add: assms(3))
  show iw: "i < 1920 \<Longrightarrow> iw t i j = iw s i j" for i j using iw_other [of "(32, k)" i] by (simp add: assms(3))
  show "word_at (iblk t 32) m = (if m = k then v else word_at (iblk s 32) m)" if "m < 1024"
    using word_at_put [of "iblk s 32" k m v] len assms(2) that by (simp add: assms(3) put_word_def)
  have fr: "icont t i = icont s i" "iown t i = iown s i" "ifile_ok t i" if i: "i < 1920" for i
  proof -
    have f: "ifile_ok s i" using assms(1) i by (simp add: img_ok_def)
    have c: "\<forall>b \<in> iown s i. iblk t b = iblk s b"
    proof
      fix b assume "b \<in> iown s i"
      then have "64 \<le> b" by (rule iown_range(1) [OF assms(1) i])
      then show "iblk t b = iblk s b" by (intro ib) auto
    qed
    have w: "\<forall>k < 16. iw t i k = iw s i k" using iw [OF i] by simp
    show "icont t i = icont s i" "iown t i = iown s i" "ifile_ok t i"
      using cont_frame [OF f w c] file_frame [OF f w c] np by auto
  qed
  then show "i < 1920 \<Longrightarrow> icont t i = icont s i" by simp
  have "iblk t b = replicate 4096 0" if "next_blk s \<le> b" for b
  proof -
    have "64 \<le> b" using assms(1) that by (auto simp: img_ok_def)
    then have "b \<noteq> 32" by auto
    then show ?thesis using ib assms(1) that by (simp add: img_ok_def)
  qed
  moreover have "length (iblk t b) = 4096" for b unfolding assms(3) using length_put_word [OF len] assms(2) by simp
  moreover have "iblk t 33 = iblk s 33" by (rule ib) simp
  ultimately show "img_ok t" using assms(1) fr(2,3) np iw unfolding img_ok_def by simp
qed

definition marked_img :: img where
  "marked_img = put_word (33, 0) 0xffffffff (put_word (33, 1) 0xffffffff blank_img)"

lemma all_ones: "bit (0xffffffff :: u32) j \<longleftrightarrow> j < 32"
proof -
  have "(0xffffffff :: u32) = mask 32" by (simp add: mask_eq_exp_minus_1)
  then show ?thesis by (simp only: bit_mask_iff) (auto dest: possible_bit_less_imp)
qed

lemma marked_ok: "img_ok marked_img" "i < 1920 \<Longrightarrow> icont marked_img i = []"
proof -
  have ib: "iblk marked_img b = replicate 4096 0" if "b \<noteq> 33" for b using that by (simp add: marked_img_def blank_img_def)
  have len: "\<forall>b. length (iblk blank_img b) = 4096" "\<forall>b. length (iblk (put_word (33, 1) 0xffffffff blank_img) b) = 4096"
    using length_put_word [of blank_img "(33, 1)"] by (simp_all add: blank_img_def)
  have np: "next_blk marked_img = 64" "next_inode marked_img = 1" by (simp_all add: marked_img_def blank_img_def)
  have iw: "iw marked_img i k = 0" if "i < 1920" "k < 16" for i k
  proof -
    have "fst (ip i) \<noteq> 33" using ip_block(1) [OF that(1)] by auto
    then show ?thesis using ib ip_room [OF that(2), of i] by (simp add: iw_def word_at_zero)
  qed
  have ad: "iad marked_img i ! n = 0" if "i < 1920" "n < 13" for i n using that iw by (simp add: iad_nth)
  have bz: "ib marked_img i j = 0" if "i < 1920" for i j using ad [OF that] by (simp add: ib_cases)
  have own: "iown marked_img i = {}" if "i < 1920" for i using ad [OF that, of 12] bz [OF that] by (auto simp: iown_iff)
  have z: "isz marked_img i = 0" if "i < 1920" for i using iw [OF that] by (simp add: isz_def)
  then show "i < 1920 \<Longrightarrow> icont marked_img i = []" by (simp add: icont_def)
  have "ifile_ok marked_img i" if "i < 1920" for i using own bz z ad that by (simp add: ifile_ok_def)
  moreover have "bit (word_at (iblk marked_img 33) (b div 32)) (b mod 32) \<longleftrightarrow> b < 64" if "b < 32768" for b
  proof -
    have w: "word_at (iblk marked_img 33) m = (if m = 0 \<or> m = 1 then 0xffffffff else 0)" if "m < 1024" for m
      unfolding marked_img_def
      using word_at_put [of "iblk (put_word (33, 1) 0xffffffff blank_img) 33" 0 m "0xffffffff"]
        word_at_put [of "iblk blank_img 33" 1 m "0xffffffff"] len that
      by (cases "m = 1") (auto simp: put_word_def blank_img_def word_at_zero)
    have "b div 32 < 1024" using that by (simp add: less_mult_imp_div_less)
    have o: "bit (0xffffffff :: u32) (b mod 32)" unfolding all_ones by simp
    have "b div 32 = 0 \<or> b div 32 = 1 \<longleftrightarrow> b < 64" by auto
    then show ?thesis using o unfolding w [OF \<open>b div 32 < 1024\<close>] by (cases "b < 64") auto
  qed
  moreover have "length (iblk marked_img b) = 4096" for b
    unfolding marked_img_def using length_put_word [OF len(2), of "(33, 0)"] by simp
  moreover have "iblk marked_img b = replicate 4096 0" if "64 \<le> b" for b using that by (intro ib) auto
  ultimately show "img_ok marked_img" using iw own np unfolding img_ok_def by simp
qed

section \<open>The whole run\<close>

lemma put_word_commute: "fst p \<noteq> fst q \<Longrightarrow> put_word p v (put_word q w s) = put_word q w (put_word p v s)"
  by (simp add: put_word_def fun_upd_twist)

text \<open>The entries \<open>.\<close> and \<open>..\<close>: the second is written over the first in the same variable.\<close>

definition dots :: "byte list \<Rightarrow> byte list" where
  "dots d = entry 1 (bytes_of ''.'') d @ entry 1 (bytes_of ''..'') (entry 1 (bytes_of ''.'') d)"

definition super_img :: img where
  "super_img = put_word (32, 2) 1920 (put_word (32, 1) 34 (put_word (32, 0) 33 marked_img))"

lemma super_img_start: "super_img = put_word (33, 0) 0xffffffff (put_word (33, 1) 0xffffffff (put_word (32, 2) 1920 (put_word (32, 1) 34 (put_word (32, 0) 33 blank_img))))"
  unfolding super_img_def marked_img_def by (simp add: put_word_commute [of "(32, _)" "(33, _)"])

lemma super_img_ok:
  "img_ok super_img" "next_blk super_img = 64" "next_inode super_img = 1" "i < 1920 \<Longrightarrow> icont super_img i = []"
  "word_at (iblk super_img 32) 0 = 33" "word_at (iblk super_img 32) 1 = 34" "word_at (iblk super_img 32) 2 = 1920"
proof -
  note a = put_super [OF marked_ok(1), of 0 _ 33, OF _ refl, simplified]
  note b = put_super [OF a(1), of 1 _ 34, OF _ refl, simplified]
  note c = put_super [OF b(1), of 2 _ 1920, OF _ refl, simplified]
  show "img_ok super_img" using c(1) by (simp add: super_img_def)
  show "next_blk super_img = 64" "next_inode super_img = 1" by (simp_all add: super_img_def marked_img_def blank_img_def)
  show "i < 1920 \<Longrightarrow> icont super_img i = []" using a(4) b(4) c(4) marked_ok(2) by (simp add: super_img_def)
  show "word_at (iblk super_img 32) 0 = 33" "word_at (iblk super_img 32) 1 = 34" "word_at (iblk super_img 32) 2 = 1920"
    unfolding super_img_def using a(6) b(6) c(6) by simp_all
qed

lemma dot_entries:
  assumes "length d = 32"
  shows "set_dirent 1 (bytes_of ''.'' @ [0]) d = Inr (entry 1 (bytes_of ''.'') d)"
    "set_dirent 1 (bytes_of ''..'' @ [0]) (entry 1 (bytes_of ''.'') d) = Inr (entry 1 (bytes_of ''..'') (entry 1 (bytes_of ''.'') d))"
    "length (entry 1 (bytes_of ''.'') d) = 32" "length (dots d) = 64"
  using set_dirent_entry [of "bytes_of ''.''" d 1] set_dirent_entry [of "bytes_of ''..''" "entry 1 (bytes_of ''.'') d" 1] assms
  by (simp_all add: dots_def bytes_of_def)

lemma sb_of_words: "length B = 4096 \<Longrightarrow> sb_of B = \<lparr>bitmap = word_at B 0, istart = word_at B 1, inum = word_at B 2, root = word_at B 3\<rparr>"
  by (simp add: sb_of_def words_def word_at_def Let_def)

lemma init_disk_holds:
  assumes "length d = 32"
  shows "runs {} (init_disk d) (\<lambda>rt t. rt = ip 1 \<and> holds_files (dots d) [] t \<and> unat (next_blk t) \<le> 72) blank_img"
proof -
  note S = super_img_ok
  let ?e = "entry 1 (bytes_of ''.'') d" let ?e' = "entry 1 (bytes_of ''..'') ?e"
  note D = dot_entries [OF assms]
  have e': "length ?e' = 32" using D(3,4) by (simp add: dots_def)
  have last: "runs {} (mk_iappend (ip 1) ?e) (\<lambda>_. runs {} (mk_iappend (ip 1) ?e')
      (\<lambda>_ t. holds_files (dots d) [] t \<and> unat (next_blk t) \<le> 72)) t"
    if t: "img_ok t" "unat (next_inode t) = 2" "unat (next_blk t) = 64" "icont t 1 = []" "iw t 1 0 = 2"
      "sb_of (iblk t 32) = \<lparr>bitmap = 33, istart = 34, inum = 1920, root = 1\<rparr>" for t
  proof -
    have z: "isz t 1 = 0" using t(4) isz_icont [of t 1] by simp
    have bf: "blocks_for (isz t 1) (length ?e) \<le> 2" using D(3) by (intro blocks_for_small) simp
    have lt: "1 < unat (next_inode t)" using t(2) by simp
    have fit: "isz t 1 + length ?e \<le> 4243456" "unat (next_blk t) + 2 * blocks_for (isz t 1) (length ?e) \<le> 32768"
      using bf t(3) z D(3) by simp_all
    show ?thesis
    proof (rule runs_mono [OF iappend_appended [OF t(1) lt fit]])
      fix x u assume "appended 1 ?e t u \<and> unat (next_blk u) \<le> unat (next_blk t) + 2 * blocks_for (isz t 1) (length ?e)"
      then have u: "appended 1 ?e t u" "unat (next_blk u) \<le> 68" using bf t(3) by auto
      have c: "img_ok u" "next_inode u = next_inode t" using u(1) by (auto simp: appended_def)
      have z: "isz u 1 = 32" using u(1) t(4) D(3) isz_icont [of u 1] by (simp add: appended_def)
      have bf: "blocks_for (isz u 1) (length ?e') \<le> 2" using e' by (intro blocks_for_small) simp
      have lt: "1 < unat (next_inode u)" using t(2) c(2) by simp
      have fit: "isz u 1 + length ?e' \<le> 4243456" "unat (next_blk u) + 2 * blocks_for (isz u 1) (length ?e') \<le> 32768"
        using bf u(2) z e' by simp_all
      show "runs {} (mk_iappend (ip 1) ?e') (\<lambda>_ t. holds_files (dots d) [] t \<and> unat (next_blk t) \<le> 72) u"
      proof (rule runs_mono [OF iappend_appended [OF c(1) lt fit]])
        fix y v assume v: "appended 1 ?e' u v \<and> unat (next_blk v) \<le> unat (next_blk u) + 2 * blocks_for (isz u 1) (length ?e')"
        then have "appended 1 (?e @ ?e') t v" using u(1) appended_trans by blast
        then show "holds_files (dots d) [] v \<and> unat (next_blk v) \<le> 72"
          using v u(2) bf t by (auto simp: appended_def holds_files_def dots_def)
      qed simp
    qed simp
  qed
  have n: "unat (next_inode super_img) < 1920" using S(3) by simp
  have c: "(32 :: u32) \<le> 32" "(32 :: u32) < 32768" "(32 :: u32) \<le> 33" "(33 :: u32) < 32768" by simp_all
  have get: "\<And>A Q s. runs A (mk_iget 1) Q s = Q (ip 1) s" using mk_iget_ip [of 1] by simp
  show ?thesis
    unfolding init_disk_def runs_bind runs_simps mk_simps
  proof (simp only: c if_True super_img_start [symmetric], rule runs_mono [OF ialloc_runs [OF S(1) n]])
    fix no t assume a: "no = next_inode super_img \<and> img_ok t \<and> next_inode t = next_inode super_img + 1 \<and> next_blk t = next_blk super_img \<and>
      iblk t 32 = iblk super_img 32 \<and> isz super_img (unat no) = 0 \<and> (\<forall>i < 1920. icont t i = icont super_img i \<and> isz t i = isz super_img i \<and>
      iw t i 0 = (if i = unat no then 2 else iw super_img i 0))"
    then have no: "no = 1" "img_ok t" using S(3) by auto
    let ?t = "put_word (32, 3) no t"
    have k: "(3 :: nat) < 1024" by simp
    note P = put_super [OF no(2) k, of ?t no, OF refl]
    have w: "word_at (iblk ?t 32) 0 = 33" "word_at (iblk ?t 32) 1 = 34" "word_at (iblk ?t 32) 2 = 1920" "word_at (iblk ?t 32) 3 = 1"
      using P(6) [of 0] P(6) [of 1] P(6) [of 2] P(6) [of 3] a S(5-7) no(1) by simp_all
    have "length (iblk ?t 32) = 4096" using P(1) by (simp add: img_ok_def)
    then have "sb_of (iblk ?t 32) = \<lparr>bitmap = 33, istart = 34, inum = 1920, root = 1\<rparr>" using w by (simp add: sb_of_words)
    then have l: "runs {} (mk_iappend (ip 1) ?e) (\<lambda>_. runs {} (mk_iappend (ip 1) ?e')
      (\<lambda>_ t. holds_files (dots d) [] t \<and> unat (next_blk t) \<le> 72)) ?t"
      using P(1) P(2) P(3) P(4) [of 1] P(5) [of 1 0] a S no(1) by (intro last) simp_all
    show "runs {} (mk_iget no) (\<lambda>rt. runs {} (liftS (set_dirent no (bytes_of ''.'' @ [0]) d)) (\<lambda>d'. runs {} (mk_iappend rt d') (\<lambda>_.
      runs {} (liftS (set_dirent no (bytes_of ''..'' @ [0]) d')) (\<lambda>d''. runs {} (mk_iappend rt d'') (\<lambda>_ t. rt = ip 1 \<and> holds_files (dots d) [] t \<and> unat (next_blk t) \<le> 72))))) ?t"
      using l get unfolding no(1) by (simp only: D(1,2) runs_liftS simp_thms)
  qed simp
qed

lemma mkfs_holds:
  assumes "fs \<noteq> []" "length fs \<le> 1918" "\<forall>f \<in> set fs. good_file f" "length dirent = 32" "72 + sum_list (map file_blocks fs) \<le> 32768"
  shows "runs {} (mkfs dirent (map file_arg fs)) (\<lambda>_ t. holds_files (dots dirent) fs t) blank_img"
proof -
  have "runs {} (forS (add_file (ip 1)) (map file_arg fs)) (\<lambda>_ t. holds_files (dots dirent) fs t) s"
    if "holds_files (dots dirent) [] s" "unat (next_blk s) \<le> 72" for s
    using add_files_hold [OF that(1), of fs] assms that(2) dot_entries(4) [OF assms(4)] by simp
  moreover have "map file_arg fs \<noteq> []" using assms(1) by simp
  ultimately show ?thesis
    unfolding mkfs_def runs_simps runs_bind
    by (simp add: assertS_def) (rule runs_mono [OF init_disk_holds [OF assms(4)]], auto)
qed

section \<open>The property\<close>

text \<open>
  C14. What \<open>mkfs\<close> makes: given at least one and at most 1918 files, with names and contents that fit and room for all of them on
  the disk, it returns; the super block describes the layout; the bitmap marks the blocks below the next one to allocate, and every block of a
  file is among them, belongs to no other file and is not part of the layout; inode 1 is a directory that holds \<open>.\<close> and \<open>..\<close> and
  then one entry per file in order; and the files have the inodes from 2 on and the bytes they were made from.
\<close>
theorem mkfs_builds:
  assumes "fs \<noteq> []" "length fs \<le> 1918" "\<forall>f \<in> set fs. good_file f" "length dirent = 32" "72 + sum_list (map file_blocks fs) \<le> 32768"
  shows "runs {} (mkfs dirent (map file_arg fs)) (\<lambda>_ t. holds_files (dots dirent) fs t) blank_img"
  by (rule mkfs_holds [OF assms])

theorem mkfs_builds_witness:
  "runs {} (mkfs (replicate 32 7) (map file_arg [(bytes_of ''sh'', replicate 32 9, [1, 2, 3])]))
    (\<lambda>_ t. holds_files (dots (replicate 32 7)) [(bytes_of ''sh'', replicate 32 9, [1, 2, 3])] t) blank_img"
  by (rule mkfs_builds) (simp_all add: good_file_def file_blocks_def chunks_def bytes_of_def)

end
