(* ===== verification/FsDir.thy ===== *)
theory FsDir
  imports FsFile
begin

text \<open>
  Directories and paths: \<open>ilookup\<close>, \<open>iget\<close> and \<open>iopen\<close> of \<open>fs.c\<close> against the specification that a directory is a list of entries and
  a lookup finds the first entry in use with the name.
\<close>

section \<open>Directories as lists of entries\<close>

text \<open>
  A directory is a file of 32-byte entries; \<open>cname\<close> is the name in an entry up to its NUL. An entry in use has a name with a NUL;
  an entry with inode number 0 is free.
\<close>

definition cname :: "byte list \<Rightarrow> byte list" where
  "cname e = takeWhile (\<lambda>c. c \<noteq> 0) (dirent_name e)"

definition dir_ok :: "byte list list \<Rightarrow> bool" where
  "dir_ok es \<longleftrightarrow> (\<forall>e \<in> set es. length e = 32 \<and> (dirent_inode e \<noteq> 0 \<longrightarrow> 0 \<in> set (dirent_name e)))"

definition entry_for :: "byte list \<Rightarrow> byte list \<Rightarrow> bool" where
  "entry_for name e \<longleftrightarrow> dirent_inode e \<noteq> 0 \<and> cname e = name"

lemma span_concat: "\<forall>e \<in> set es. length e = c \<Longrightarrow> m < length es \<Longrightarrow> take c (drop (c * m) (concat es)) = es ! m"
proof (induction es arbitrary: m)
  case (Cons e es)
  then show ?case by (cases m) simp_all
qed simp

lemma length_concat_const: "\<forall>e \<in> set es. length e = c \<Longrightarrow> length (concat es) = c * length es"
  by (induction es) auto

lemma strcmp_cname:
  assumes "0 \<in> set (dirent_name e)" "0 \<notin> set name"
  shows "\<exists>c. strcmp (dirent_name e) (name @ [0]) = Inr c \<and> (c = 0 \<longleftrightarrow> cname e = name)"
proof -
  have "dirent_name e = cname e @ dropWhile (\<lambda>c. c \<noteq> 0) (dirent_name e)" by (simp add: cname_def)
  moreover obtain q where "dropWhile (\<lambda>c. c \<noteq> 0) (dirent_name e) = 0 # q"
    using assms(1) by (cases "dropWhile (\<lambda>c. c \<noteq> 0) (dirent_name e)") (auto simp: dropWhile_eq_Nil_conv dropWhile_eq_Cons_conv)
  moreover have "0 \<notin> set (cname e)" by (auto simp: cname_def dest: set_takeWhileD)
  ultimately show ?thesis using strcmp_same [of "cname e" name] assms(2) by metis
qed

text \<open>When the file has the block after its last byte as well, reading it changes nothing but the cache.\<close>

lemma dev_step_view:
  assumes "fs_ok s" "good_inode s k" "dev_step s (blocks s) t"
  shows "fs_ok t" "good_inode t k" "file_bytes t k = file_bytes s k" "covered t k = covered s k" "full t k = full s k" "isize k t = isize k s"
    "garbage t = garbage s"
proof -
  have ev: "evolves k s t" by (rule dev_step_evolves [OF assms refl])
  then show "fs_ok t" "good_inode t k" by (auto simp: evolves_def)
  show "file_bytes t k = file_bytes s k" "covered t k = covered s k" "full t k = full s k" "isize k t = isize k s" "garbage t = garbage s"
    using dev_step_frame [OF assms(3)] by (simp_all add: file_bytes_def byte_at_def covered_def full_def fsize_def isize_def)
qed

lemma iread_entry:
  assumes "fs_ok s" "good_inode s p" "covered s p" "full s p" "file_bytes s p = concat es" "dir_ok es" "m < length es"
  shows "\<exists>t. iread p (of_nat (32 * m)) 32 s = Inr (es ! m, t) \<and> dev_step s (blocks s) t"
proof -
  have c: "\<forall>e \<in> set es. length e = 32" using assms(6) by (simp add: dir_ok_def)
  have z: "fsize s p = 32 * length es" using length_concat_const [OF c] assms(5) length_file_bytes [of s p] by simp
  then have "32 * length es < 4243456" using assms(4) by (simp add: full_def)
  then have u: "unat (of_nat (32 * m) :: u32) = 32 * m" using assms(7) by (intro unat_of_nat_u32) simp
  have le: "unat (of_nat (32 * m) :: u32) \<le> fsize s p" unfolding u using z assms(7) by simp
  have "runs {} (iread p (of_nat (32 * m)) 32) (\<lambda>xs t. xs = es ! m \<and> dev_step s (blocks s) t) s"
    by (rule runs_mono [OF iread_in [OF assms(1-3) disjI2 [OF full_room [OF assms(4)]] disjI1 [OF le]]])
      (use span_concat [OF c assms(7)] u le assms(4,5) in auto)
  then show ?thesis by (auto simp: runs_total)
qed

lemma ilookup_loop_runs:
  assumes "fs_ok s" "good_inode s p" "covered s p" "full s p" "file_bytes s p = concat (bs @ ds)" "dir_ok (bs @ ds)" "0 \<notin> set name" "length de = 32"
  shows "\<exists>t f de'. ilookup_loop p name (isize p s) (of_nat (32 * length bs)) free de s = Inr ((case find_slot (entry_for name) ds of
      None \<Rightarrow> None | Some m \<Rightarrow> Some (of_nat (32 * (length bs + m)), dirent_inode (ds ! m)), f, de'), t) \<and> dev_step s (blocks s) t"
  using assms
proof (induction ds arbitrary: bs s free de)
  case Nil
  have c: "\<forall>e \<in> set bs. length e = 32" using Nil.prems(6) by (simp add: dir_ok_def)
  have "unat (isize p s) = 32 * length bs" using length_concat_const [OF c] Nil.prems(5) length_file_bytes [of s p] by (simp add: fsize_def)
  then have "isize p s = of_nat (32 * length bs)" by (metis of_nat_unat ucast_id)
  then have "\<not> of_nat (32 * length bs) < isize p s" by simp
  then show ?case using dev_step_refl [OF Nil.prems(1)] by (subst ilookup_loop.simps) simp
next
  case (Cons e ds)
  have c: "\<forall>e \<in> set (bs @ e # ds). length e = 32" using Cons.prems(6) by (simp add: dir_ok_def)
  have z: "unat (isize p s) = 32 * length (bs @ e # ds)"
    using length_concat_const [OF c] Cons.prems(5) length_file_bytes [of s p] by (simp add: fsize_def)
  then have "32 * length (bs @ e # ds) < 4243456" using Cons.prems(4) by (simp add: full_def fsize_def)
  then have u: "unat (of_nat (32 * length bs) :: u32) = 32 * length bs" by (intro unat_of_nat_u32) simp
  then have lt: "of_nat (32 * length bs) < isize p s" using z by (simp add: word_less_nat_alt)
  obtain t where t: "iread p (of_nat (32 * length bs)) 32 s = Inr (e, t)" "dev_step s (blocks s) t"
    using iread_entry [OF Cons.prems(1-6), of "length bs"] by auto
  note v = dev_step_view [OF Cons.prems(1,2) t(2)]
  have le: "length e = 32" using c by simp
  have more: "\<exists>u f' de'. ilookup_loop p name (isize p s) (of_nat (32 * length bs) + 32) f e t = Inr ((case find_slot (entry_for name) ds of
      None \<Rightarrow> None | Some m \<Rightarrow> Some (of_nat (32 * (length (bs @ [e]) + m)), dirent_inode (ds ! m)), f', de'), u) \<and> dev_step s (blocks s) u" for f
    using Cons.IH [of t "bs @ [e]" e f] v Cons.prems le dev_step_same [OF t(2)] by (auto simp: algebra_simps)
  show ?case
  proof (cases "dirent_inode e = 0")
    case True
    then have "\<not> entry_for name e" by (simp add: entry_for_def)
    then show ?thesis
      using more [of "if free = isize p s then of_nat (32 * length bs) else free"] True lt t(1) le Cons.prems(8)
      by (subst ilookup_loop.simps) (auto split: option.splits)
  next
    case False
    then have "0 \<in> set (dirent_name e)" using Cons.prems(6) by (simp add: dir_ok_def)
    from strcmp_cname [OF this Cons.prems(7)] obtain c where
      c: "strcmp (dirent_name e) (name @ [0]) = Inr c" "c = 0 \<longleftrightarrow> entry_for name e" using False by (auto simp: entry_for_def)
    then show ?thesis
      using more [of free] False lt t le Cons.prems(8)
      by (subst ilookup_loop.simps) (auto simp: liftS_def split: option.splits)
  qed
qed

text \<open>\<open>ilookup\<close> without creation: the first entry in use with the name, or nothing.\<close>

lemma ilookup_runs:
  assumes "fs_ok s" "good_inode s p" "covered s p" "full s p" "itype p s = 2" "file_bytes s p = concat es" "dir_ok es" "0 \<notin> set name"
  shows "\<exists>t. dev_step s (blocks s) t \<and> ilookup p name 0 s = (case find_slot (entry_for name) es of
      None \<Rightarrow> Inr (None, t) | Some m \<Rightarrow> bindS (iget (dirent_inode (es ! m))) (\<lambda>k. retS (Some (k, of_nat (32 * m)))) t)"
proof -
  have g: "length (garbage s) = 32" using assms(1) by (simp add: fs_ok_def)
  have n: "file_bytes s p = concat ([] @ es)" "dir_ok ([] @ es)" using assms(6,7) by simp_all
  from ilookup_loop_runs [OF assms(1-4) n assms(8) g, of "isize p s", unfolded list.size mult_0_right semiring_1_class.of_nat_0 add_0]
  obtain t f de where "ilookup_loop p name (isize p s) 0 (isize p s) (garbage s) s = Inr ((case find_slot (entry_for name) es of
      None \<Rightarrow> None | Some m \<Rightarrow> Some (of_nat (32 * m), dirent_inode (es ! m)), f, de), t)" "dev_step s (blocks s) t"
    unfolding of_nat_0 by (elim exE conjE) (rule that)
  then show ?thesis
    using assms(5) by (intro exI [of _ t]) (auto simp: ilookup_def assertS_def split: option.split)
qed

section \<open>Opening an inode and a path\<close>

lemma iget_opens:
  assumes "fs_ok s" "unat no < unat (inum (sb s))" "\<forall>j < 128. \<not> (live (inodes s ! j) \<and> i_no (inodes s ! j) = no)" "j < 128" "i_ref (inodes s ! j) = 0"
  shows "\<exists>k t. iget no s = Inr (k, t) \<and> k < 128 \<and> i_ref (inodes s ! k) = 0 \<and> fs_ok t \<and> sb t = sb s \<and> blocks t = blocks s \<and> garbage t = garbage s \<and>
    inodes t = (inodes s)[k := \<lparr>i_no = no, i_ref = 1, i_del = 0, dinode = dino s no\<rparr>]"
proof -
  have len: "length (inodes s) = 128" using assms(1) by (simp add: fs_ok_def)
  have none: "find_slot (\<lambda>ip. 1 \<le> sint (i_ref ip) \<and> i_no ip = no) (inodes s) = None"
    using assms(3) len by (auto simp: find_slot_None live_def all_set_conv_all_nth)
  obtain k where slot: "find_slot (\<lambda>ip. i_ref ip = 0) (inodes s) = Some k"
    using assms(4,5) len by (cases "find_slot (\<lambda>ip. i_ref ip = 0) (inodes s)") (auto simp: find_slot_None)
  then have k: "k < 128" "i_ref (inodes s ! k) = 0" using len by (auto simp: find_slot_Some)
  let ?u = "s\<lparr>inodes := (inodes s)[k := (inodes s ! k)\<lparr>i_ref := 1, i_no := no, i_del := 0\<rparr>]\<rparr>"
  have u: "fs_ok ?u" "unat no < unat (inum (sb ?u))" "dino ?u = dino s"
    using assms(1,2) by (auto simp: fs_ok_def used_def meta_def blocks_def dino_def fun_eq_iff)
  obtain t where t: "diread no ?u = Inr (dino s no, t)" "dev_step ?u (blocks ?u) t"
    using diread_runs [OF u(1,2)] u(3) by (auto simp: runs_total)
  let ?t = "t\<lparr>inodes := (inodes t)[k := (inodes t ! k)\<lparr>dinode := dino s no\<rparr>]\<rparr>"
  have new: "ip\<lparr>i_ref := 1, i_no := no, i_del := 0, dinode := dino s no\<rparr> = \<lparr>i_no = no, i_ref = 1, i_del = 0, dinode = dino s no\<rparr>" for ip :: inode_t
    by (cases ip) simp
  have "iget no s = Inr (k, ?t)" using none slot t(1) k(2) by (simp add: iget_def set_inode_def)
  moreover have "fs_ok ?t" using dev_step_ok [OF u(1) t(2)] by (simp add: fs_ok_def used_def meta_def blocks_def)
  moreover have "blocks ?t = blocks s" using dev_step_frame [OF t(2)] by (simp add: blocks_def)
  ultimately show ?thesis using dev_step_frame [OF t(2)] k len by (simp add: new)
qed

text \<open>The path \<open>/name\<close> has one element.\<close>

definition file_name :: "byte list \<Rightarrow> bool" where
  "file_name name \<longleftrightarrow> name \<noteq> [] \<and> length name \<le> 27 \<and> 0 \<notin> set name \<and> 47 \<notin> set name"

lemma elem_len_name: "0 \<notin> set name \<Longrightarrow> 47 \<notin> set name \<Longrightarrow> elem_len (name @ [0]) = Inr (length name)"
  by (induction name) (auto simp: res_simps)

lemma skipelem_name: "file_name name \<Longrightarrow> skipelem (47 # name @ [0]) = Inr (Some (name, [0]))"
proof -
  assume n: "file_name name"
  then obtain c cs where c: "name = c # cs" "c \<noteq> 47" "c \<noteq> 0" by (cases name) (auto simp: file_name_def)
  have "elem_len (name @ [0]) = Inr (length name)" using n by (intro elem_len_name) (auto simp: file_name_def)
  moreover have "skip_slash (47 # name @ [0]) = Inr (name @ [0])" using c by simp
  moreover have "(if 27 \<le> length name then take 27 (name @ [0]) else take (length name) (name @ [0])) = name" using n by (auto simp: file_name_def)
  moreover have "hd (name @ [0]) \<noteq> 0" "skip_slash (drop (length name) (name @ [0])) = Inr [0]" using c by simp_all
  ultimately show ?thesis unfolding skipelem_def by (simp only: res_simps Let_def if_False)
qed

lemma iopen_name:
  assumes "file_name name" "iget (root (sb s)) s = Inr (p, t)" "itype p t = 2" "ilookup p name 0 t = Inr (Some (k, off), u)"
    "p < length (inodes u)" "i_ref (inodes u ! p) = 1" "i_del (inodes u ! p) = 0"
  shows "iopen wd (47 # name @ [0]) 0 s = Inr (Some k, u\<lparr>inodes := (inodes u)[p := (inodes u ! p)\<lparr>i_ref := 0\<rparr>]\<rparr>)"
proof -
  have loop: "iopen_parent_loop p (47 # name @ [0]) t = Inr (Some (p, name), t)"
    using skipelem_name [OF assms(1)] assms(3) by (subst iopen_parent_loop.simps) (simp add: liftS_def)
  have "iopen_parent wd (47 # name @ [0]) s = Inr (Some (p, name), t)"
    using assms(2) loop by (simp add: iopen_parent_def liftS_def rdR_def)
  then show ?thesis
    using skipelem_name [OF assms(1)] assms(4-7) by (simp add: iopen_def liftS_def iclose_def set_inode_def)
qed

end
