(* ===== verification/FsBoot.thy ===== *)
theory FsBoot
  imports MkFs FsDir
begin

text \<open>
  The disk image and the kernel together: the layout that \<open>utils/mkfs.c\<close> writes is the one \<open>kernel/src/fs.c\<close> reads, and a file that
  was put into the image can be opened by its path and read in the running system.
\<close>

section \<open>The kernel on the image\<close>

text \<open>The state before \<open>init_fs\<close>: no inode is open, and the blocks from 32 on are those of the image \<open>t\<close>.\<close>

definition booted :: "img \<Rightarrow> fs \<Rightarrow> bool" where
  "booted t s \<longleftrightarrow> disk_ok (dev s) \<and> length (inodes s) = 128 \<and> (\<forall>j < 128. i_ref (inodes s ! j) = 0) \<and> length (garbage s) = 32 \<and>
     (\<forall>b. 32 \<le> b \<and> b < 32768 \<longrightarrow> blocks s b = iblk t b)"

definition on_img :: "img \<Rightarrow> fs \<Rightarrow> bool" where
  "on_img t s \<longleftrightarrow> img_ok t \<and> fs_ok s \<and> sb s = \<lparr>bitmap = 33, istart = 34, inum = 1920, root = 1\<rparr> \<and>
     (\<forall>b. 32 \<le> b \<and> b < 32768 \<longrightarrow> blocks s b = iblk t b)"

lemma sb_of_first: "length B = 4096 \<Longrightarrow> sb_of (span_at 0 16 B) = sb_of B"
  by (simp add: sb_of_def words_def span_at_def Let_def drop_take)

lemma img_used:
  assumes "img_ok t" "blocks s 33 = iblk t 33" "bitmap (sb s) = 33" "b < 32768"
  shows "used s b \<longleftrightarrow> b < unat (next_blk t)"
  using assms by (simp add: used_def img_ok_def)

lemma init_fs_runs:
  assumes "booted t s" "img_ok t" "sb_of (iblk t 32) = \<lparr>bitmap = 33, istart = 34, inum = 1920, root = 1\<rparr>"
  shows "\<exists>u. init_fs s = Inr ((), u) \<and> on_img t u \<and> inodes u = inodes s"
proof -
  have d: "disk_ok (dev s)" using assms(1) by (simp add: booted_def)
  have b: "\<And>b. 32 \<le> b \<Longrightarrow> b < 32768 \<Longrightarrow> blk (dev s) b = iblk t b" using assms(1) by (simp add: booted_def blocks_def)
  obtain e where e: "bread 16 32 0 (dev s) = Inr (span_at 0 16 (iblk t 32), e)" "disk_ok e" "blk e = blk (dev s)"
    using bread_runs [OF d, of 32 0 16] b [of 32] by (auto simp: runs_total)
  let ?u = "s\<lparr>dev := e, sb := \<lparr>bitmap = 33, istart = 34, inum = 1920, root = 1\<rparr>\<rparr>"
  have "length (iblk t 32) = 4096" using assms(2) by (simp add: img_ok_def)
  then have "init_fs s = Inr ((), ?u)"
    using e(1) assms(3) sb_of_first [of "iblk t 32"] by (simp add: init_fs_def on_dev_def)
  moreover have bl: "blocks ?u b = iblk t b" if "32 \<le> b" "b < 32768" for b using b [OF that] e(3) by (simp add: blocks_def)
  moreover have n: "64 \<le> unat (next_blk t)" using assms(2) by (simp add: img_ok_def word_le_nat_alt)
  moreover have "used ?u b \<longleftrightarrow> b < unat (next_blk t)" if "b < 32768" for b
    using bl [of 33] that by (intro img_used [OF assms(2)]) simp_all
  moreover have "meta ?u b \<Longrightarrow> b < 64" for b by (auto simp: meta_def)
  ultimately show ?thesis
    using assms(1,2) e(2) by (intro exI [of _ ?u]) (force simp: on_img_def fs_ok_def booted_def)
qed

lemma image_dino:
  assumes "on_img t s" "i < 1920"
  shows "di_type (dino s (of_nat i)) = iw t i 0" "di_size (dino s (of_nat i)) = iw t i 2" "di_addrs (dino s (of_nat i)) = iad t i"
proof -
  have s: "fs_ok s" "sb s = \<lparr>bitmap = 33, istart = 34, inum = 1920, root = 1\<rparr>" "img_ok t" using assms(1) by (auto simp: on_img_def)
  have u: "unat (of_nat i :: u32) = i" using assms(2) by (intro unat_of_nat_u32) simp
  then have "unat (of_nat i :: u32) < unat (inum (sb s))" using assms(2) s(2) by simp
  note pl = inode_place [OF s(1) this]
  have "I2BLKNO (of_nat i) (sb s) = fst (ip i)" using pl(1) u s(2) ip_block(2) [OF assms(2)] by (simp add: word_unat_eq_iff)
  moreover have "unat (I2BLKOFF (of_nat i)) = 4 * snd (ip i)" using pl(2) u by (simp add: ip_def)
  moreover have "blocks s (fst (ip i)) = iblk t (fst (ip i))"
  proof -
    have "32 \<le> fst (ip i)" "fst (ip i) < 32768" using ip_block(2) [OF assms(2)] assms(2) by (simp_all add: word_le_nat_alt word_less_nat_alt)
    then show ?thesis using assms(1) by (simp add: on_img_def)
  qed
  ultimately have d: "dino s (of_nat i) = dinode_of (span_at (4 * snd (ip i)) 64 (iblk t (fst (ip i))))" by (simp add: dino_def)
  have w: "words 16 (span_at (4 * snd (ip i)) 64 (iblk t (fst (ip i)))) = map (iw t i) [0 ..< 16]"
    by (simp add: words_def iw_def word_at_def span_at_def take_drop min_def add.commute algebra_simps del: upt_Suc)
  show "di_type (dino s (of_nat i)) = iw t i 0" "di_size (dino s (of_nat i)) = iw t i 2" "di_addrs (dino s (of_nat i)) = iad t i"
    unfolding d dinode_of_def w Let_def by (auto simp: iad_def numeral_2_eq_2 simp del: upt_Suc intro!: nth_equalityI)
qed

text \<open>An inode of the image in the table of open inodes: its file is the one of the image.\<close>

lemma image_file:
  assumes "on_img t s" "i < 1920" "k < 128" "inodes s ! k = \<lparr>i_no = of_nat i, i_ref = 1, i_del = 0, dinode = dino s (of_nat i)\<rparr>"
  shows "good_inode s k" "covered s k" "file_bytes s k = icont t i" "fsize s k = isz t i" "itype k s = iw t i 0"
    "isz t i mod 4096 \<noteq> 0 \<Longrightarrow> full s k"
proof -
  have s: "fs_ok s" "sb s = \<lparr>bitmap = 33, istart = 34, inum = 1920, root = 1\<rparr>" "img_ok t"
    "\<And>b. 32 \<le> b \<Longrightarrow> b < 32768 \<Longrightarrow> blocks s b = iblk t b" using assms(1) by (auto simp: on_img_def)
  note d = image_dino [OF assms(1,2)]
  have f: "ifile_ok t i" using s(3) assms(2) by (simp add: img_ok_def)
  have ad: "addrs s k = iad t i" using d(3) assms(4) by simp
  have nb: "unat (next_blk t) \<le> 32768" "64 \<le> unat (next_blk t)" using s(3) by (simp_all add: img_ok_def word_le_nat_alt)
  have own: "64 \<le> b \<and> unat b < unat (next_blk t) \<and> b < 32768" if "b \<in> iown t i" for b
  proof -
    have "64 \<le> b" "unat b < unat (next_blk t)" using f that by (auto simp: ifile_ok_def word_less_nat_alt)
    then show ?thesis using nb(1) by (simp add: word_less_nat_alt)
  qed
  have bl: "blocks s b = iblk t b" if "b \<in> iown t i" for b
  proof -
    have "32 \<le> b" "b < 32768" using own [OF that] by (auto simp: word_le_nat_alt)
    then show ?thesis by (rule s(4))
  qed
  have ib: "baddr (blocks s) (addrs s k) j = ib t i j" for j
    using bl [of "iad t i ! 12"] by (auto simp: ad baddr_def ib_cases iown_iff)
  have ow: "owns (blocks s) (addrs s k) = iown t i" using ib by (auto simp: owns_def iown_iff ad)
  have "data_block s b" if "b \<in> iown t i" for b
  proof -
    have "unat b < 32768" "64 \<le> unat b" using own [OF that] nb(1) by (auto simp: word_le_nat_alt)
    moreover have "used s (unat b)" using own [OF that] img_used [OF s(3) s(4)] s(2) calculation(1) by simp
    ultimately show ?thesis using s(2) by (auto simp: data_block_def meta_def)
  qed
  then have db: "\<forall>b \<in> iown t i. data_block s b" by blast
  have l: "length (addrs s k) = 13" "addrs s k ! 12 = iad t i ! 12" by (simp_all add: ad iad_nth(2))
  have "file_ok s (addrs s k)" unfolding file_ok_def ib ow l using f db unfolding ifile_ok_def by blast
  then show "good_inode s k" using assms(2-4) s(2) by (simp add: good_inode_def unat_of_nat_u32)
  show z: "fsize s k = isz t i" using d(2) assms(4) by (simp add: fsize_def isize_def isz_def)
  show "itype k s = iw t i 0" using d(1) assms(4) by (simp add: itype_def)
  show c: "covered s k" using f z ib by (simp add: covered_def ifile_ok_def)
  have "byte_at s k p = ibyte t i p" if "p < isz t i" for p
  proof -
    have "p div 4096 < 1036" "ib t i (p div 4096) \<noteq> 0" using covered_block [OF c, of p] that z ib by auto
    then have "ib t i (p div 4096) \<in> iown t i" by (auto simp: iown_iff)
    then show ?thesis using bl ib by (simp add: byte_at_def ibyte_def)
  qed
  then show "file_bytes s k = icont t i" using z by (simp add: file_bytes_def icont_def)
  show "full s k" if m: "isz t i mod 4096 \<noteq> 0"
  proof -
    have "isz t i \<noteq> 4243456" using m by auto
    moreover have "ib t i j \<noteq> 0" if "4096 * j \<le> isz t i" for j
    proof -
      have "4096 * j \<noteq> isz t i" using m mod_mult_self1_is_0 [of 4096 j] by metis
      then have "4096 * j < isz t i" using that by simp
      then show ?thesis using f by (simp add: ifile_ok_def)
    qed
    moreover have "isz t i \<le> 4243456" using f by (simp add: ifile_ok_def)
    ultimately show ?thesis unfolding full_def z ib by simp
  qed
qed

section \<open>The root directory of the image\<close>

definition root_entries :: "byte list \<Rightarrow> (byte list \<times> byte list \<times> byte list) list \<Rightarrow> byte list list" where
  "root_entries d fs = [entry 1 (bytes_of ''.'') d, entry 1 (bytes_of ''..'') (entry 1 (bytes_of ''.'') d)] @
     map (\<lambda>k. entry (k + 2) (fst (fs ! k)) (fst (snd (fs ! k)))) [0 ..< length fs]"

lemma entries_concat: "entries i fs = concat (map (\<lambda>k. entry (k + i) (fst (fs ! k)) (fst (snd (fs ! k)))) [0 ..< length fs])"
proof (induction i fs rule: entries.induct)
  case (2 i name dirent data fs)
  have "[0 ..< Suc (length fs)] = 0 # map Suc [0 ..< length fs]" by (simp only: upt_conv_Cons map_Suc_upt zero_less_Suc)
  then show ?case using 2 by (simp add: comp_def del: upt_Suc)
qed simp

lemma root_bytes: "dots d @ entries 2 fs = concat (root_entries d fs)"
  by (simp add: root_entries_def dots_def entries_concat)

lemma entry_view:
  assumes "0 \<notin> set name" "length name \<le> 27" "length d = 32"
  shows "length (entry i name d) = 32" "dirent_inode (entry i name d) = of_nat i" "cname (entry i name d) = name" "0 \<in> set (dirent_name (entry i name d))"
proof -
  show "length (entry i name d) = 32" using assms by simp
  show "dirent_inode (entry i name d) = of_nat i" by (simp add: dirent_inode_def entry_def)
  have "dirent_name (entry i name d) = name @ 0 # drop (Suc (length name)) (dirent_name d)" by (simp add: entry_def dirent_name_def)
  moreover have "\<And>c. c \<in> set name \<Longrightarrow> c \<noteq> 0" using assms(1) by auto
  ultimately show "cname (entry i name d) = name" "0 \<in> set (dirent_name (entry i name d))" by (simp_all add: cname_def takeWhile_append2)
qed

lemma root_entry:
  assumes "\<forall>f \<in> set fs. good_file f" "length d = 32" "m < length fs + 2"
  defines "e \<equiv> root_entries d fs ! m"
  shows "length e = 32" "dirent_inode e = (if m < 2 then 1 else of_nat m)" "cname e = (if m = 0 then bytes_of ''.'' else if m = 1 then bytes_of ''..'' else fst (fs ! (m - 2)))"
    "0 \<in> set (dirent_name e)"
proof -
  have "length e = 32 \<and> dirent_inode e = (if m < 2 then 1 else of_nat m) \<and> cname e = (if m = 0 then bytes_of ''.'' else if m = 1 then bytes_of ''..'' else fst (fs ! (m - 2))) \<and>
    0 \<in> set (dirent_name e)"
  proof (cases "m < 2")
    case True
    have "length (entry 1 (bytes_of ''.'') d) = 32" using assms(2) by (simp add: bytes_of_def)
    then show ?thesis
      using entry_view [of "bytes_of ''.''" d 1] entry_view [of "bytes_of ''..''" "entry 1 (bytes_of ''.'') d" 1] assms(2) True
      by (auto simp: e_def root_entries_def bytes_of_def less_2_cases_iff)
  next
    case False
    then obtain k where k: "m = k + 2" "k < length fs" using assms(3) by (metis add.commute le_Suc_ex linorder_not_less nat_add_left_cancel_less)
    then have "good_file (fs ! k)" using assms(1) by simp
    then have "0 \<notin> set (fst (fs ! k))" "length (fst (fs ! k)) \<le> 27" "length (fst (snd (fs ! k))) = 32" by (auto simp: good_file_def split: prod.splits)
    from entry_view [OF this, of m] show ?thesis using k by (simp add: e_def root_entries_def)
  qed
  then show "length e = 32" "dirent_inode e = (if m < 2 then 1 else of_nat m)" "cname e = (if m = 0 then bytes_of ''.'' else if m = 1 then bytes_of ''..'' else fst (fs ! (m - 2)))"
    "0 \<in> set (dirent_name e)" by auto
qed

lemma root_find:
  assumes "\<forall>f \<in> set fs. good_file f" "length d = 32" "length fs \<le> 1918" "distinct (map fst fs)" "k < length fs"
    "fst (fs ! k) \<noteq> bytes_of ''.''" "fst (fs ! k) \<noteq> bytes_of ''..''"
  shows "find_slot (entry_for (fst (fs ! k))) (root_entries d fs) = Some (k + 2)"
    "dirent_inode (root_entries d fs ! (k + 2)) = of_nat (k + 2)"
proof -
  have len: "length (root_entries d fs) = length fs + 2" by (simp add: root_entries_def)
  note E = root_entry [OF assms(1,2)]
  show n: "dirent_inode (root_entries d fs ! (k + 2)) = of_nat (k + 2)" using E(2) [of "k + 2"] assms(5) by simp
  have u: "unat (of_nat (k + 2) :: u32) = k + 2" using assms(3,5) by (intro unat_of_nat_u32) simp
  have "(of_nat (k + 2) :: u32) \<noteq> 0"
  proof
    assume "(of_nat (k + 2) :: u32) = 0"
    then show False using u by (simp only: unat_0)
  qed
  then have "entry_for (fst (fs ! k)) (root_entries d fs ! (k + 2))" using n E(3) [of "k + 2"] assms(5) by (simp add: entry_for_def)
  moreover have "\<not> entry_for (fst (fs ! k)) (root_entries d fs ! j)" if "j < k + 2" for j
  proof -
    have "fst (fs ! (j - 2)) \<noteq> fst (fs ! k)" if "\<not> j < 2"
      using nth_eq_iff_index_eq [OF assms(4), of "j - 2" k] that \<open>j < k + 2\<close> assms(5) by simp
    then show ?thesis using E(3) [of j] that assms(5-7) by (auto simp: entry_for_def)
  qed
  ultimately show "find_slot (entry_for (fst (fs ! k))) (root_entries d fs) = Some (k + 2)"
    using len assms(5) by (simp add: find_slot_Some)
qed

section \<open>Opening a file of the image\<close>

lemma on_img_same: "on_img t s \<Longrightarrow> fs_ok u \<Longrightarrow> sb u = sb s \<Longrightarrow> blocks u = blocks s \<Longrightarrow> on_img t u"
  by (simp add: on_img_def)

lemma dino_same: "sb u = sb s \<Longrightarrow> blocks u = blocks s \<Longrightarrow> dino u no = dino s no"
  by (simp add: dino_def)

text \<open>The root directory is opened into an entry \<open>p\<close> of the table.\<close>

lemma root_opens:
  assumes "on_img t s" "\<forall>j < 128. i_ref (inodes s ! j) = 0"
  shows "\<exists>p u. iget 1 s = Inr (p, u) \<and> p < 128 \<and> on_img t u \<and> inodes u = (inodes s)[p := \<lparr>i_no = of_nat 1, i_ref = 1, i_del = 0, dinode = dino u (of_nat 1)\<rparr>]"
proof -
  have s: "fs_ok s" "inum (sb s) = 1920" using assms(1) by (simp_all add: on_img_def)
  have c: "unat (1 :: u32) < unat (inum (sb s))" "\<forall>j < 128. \<not> (live (inodes s ! j) \<and> i_no (inodes s ! j) = 1)" "i_ref (inodes s ! 0) = 0"
    using s(2) assms(2) by (simp_all add: live_def)
  obtain p u where u: "iget 1 s = Inr (p, u)" "p < 128" "fs_ok u" "sb u = sb s" "blocks u = blocks s"
      "inodes u = (inodes s)[p := \<lparr>i_no = 1, i_ref = 1, i_del = 0, dinode = dino s 1\<rparr>]"
    using iget_opens [OF s(1) c(1,2) _ c(3)] by auto
  then show ?thesis using on_img_same [OF assms(1) u(3-5)] dino_same [OF u(4,5)] by auto
qed

text \<open>The directory that \<open>mkfs\<close> made is the file of the entry \<open>p\<close>.\<close>

lemma root_file:
  assumes "holds_files (dots d) fs t" "\<forall>f \<in> set fs. good_file f" "length d = 32" "(length fs + 2) mod 128 \<noteq> 0" "on_img t s" "p < 128"
    "inodes s ! p = \<lparr>i_no = of_nat 1, i_ref = 1, i_del = 0, dinode = dino s (of_nat 1)\<rparr>"
  shows "dir_ok (root_entries d fs)" "fs_ok s" "good_inode s p" "covered s p" "full s p" "itype p s = 2" "file_bytes s p = concat (root_entries d fs)"
proof -
  note P = image_file [OF assms(5) _ assms(6,7)]
  have h: "iw t 1 0 = 2" "icont t 1 = concat (root_entries d fs)" using assms(1) by (simp_all add: holds_files_def root_bytes)
  have len: "length (root_entries d fs) = length fs + 2" by (simp add: root_entries_def)
  then show dir: "dir_ok (root_entries d fs)" using root_entry(1,4) [OF assms(2,3)] by (auto simp: dir_ok_def in_set_conv_nth)
  have z: "isz t 1 = 32 * (length fs + 2)"
    using isz_icont [of t 1] length_concat_const [of "root_entries d fs" 32] dir h(2) len by (simp add: dir_ok_def)
  have "32 * (length fs + 2) mod (32 * 128) = 32 * ((length fs + 2) mod 128)" by (rule mult_mod_right [symmetric])
  then have "isz t 1 mod 4096 \<noteq> 0" using z assms(4) by simp
  then show "fs_ok s" "good_inode s p" "covered s p" "full s p" "itype p s = 2" "file_bytes s p = concat (root_entries d fs)"
    using P h assms(5) by (simp_all add: on_img_def)
qed

lemma image_opens:
  assumes "holds_files (dots d) fs t" "\<forall>f \<in> set fs. good_file f" "length d = 32" "length fs \<le> 1918" "booted t s" "(length fs + 2) mod 128 \<noteq> 0"
    "distinct (map fst fs)" "k < length fs" "fs ! k = (name, de, data)" "file_name name" "name \<noteq> bytes_of ''.''" "name \<noteq> bytes_of ''..''"
  shows "\<exists>s' q u. init_fs s = Inr ((), s') \<and> iopen wd (47 # name @ [0]) 0 s' = Inr (Some q, u) \<and> on_img t u \<and> q < 128 \<and>
    inodes u ! q = \<lparr>i_no = of_nat (k + 2), i_ref = 1, i_del = 0, dinode = dino u (of_nat (k + 2))\<rparr>"
proof -
  have h: "img_ok t" "sb_of (iblk t 32) = \<lparr>bitmap = 33, istart = 34, inum = 1920, root = 1\<rparr>"
    using assms(1) by (simp_all add: holds_files_def)
  obtain s1 where s1: "init_fs s = Inr ((), s1)" "on_img t s1" "inodes s1 = inodes s" using init_fs_runs [OF assms(5) h(1,2)] by blast
  have len: "length (inodes s) = 128" "\<forall>j < 128. i_ref (inodes s1 ! j) = 0" using assms(5) s1(3) by (simp_all add: booted_def)
  obtain p s2 where s2: "iget 1 s1 = Inr (p, s2)" "p < 128" "on_img t s2"
      "inodes s2 = (inodes s1)[p := \<lparr>i_no = of_nat 1, i_ref = 1, i_del = 0, dinode = dino s2 (of_nat 1)\<rparr>]"
    using root_opens [OF s1(2) len(2)] by blast
  have p: "inodes s2 ! p = \<lparr>i_no = of_nat 1, i_ref = 1, i_del = 0, dinode = dino s2 (of_nat 1)\<rparr>" using s2(2,4) s1(3) len(1) by simp
  note R = root_file [OF assms(1-3,6) s2(3,2) p]
  have dir: "find_slot (entry_for name) (root_entries d fs) = Some (k + 2)" "dirent_inode (root_entries d fs ! (k + 2)) = of_nat (k + 2)"
    using root_find [OF assms(2-4,7,8)] assms(9,11,12) by simp_all
  have nm: "0 \<notin> set name" using assms(10) by (simp add: file_name_def)
  obtain s3 where s3: "dev_step s2 (blocks s2) s3" "ilookup p name 0 s2 = bindS (iget (of_nat (k + 2))) (\<lambda>k'. retS (Some (k', of_nat (32 * (k + 2))))) s3"
    using ilookup_runs [OF R(2-7,1) nm] dir by auto
  note F = dev_step_frame [OF s3(1)]
  have ok3: "fs_ok s3" using dev_step_view(1) [OF R(2,3) s3(1)] .
  have on3: "on_img t s3" using on_img_same [OF s2(3) ok3] F by simp
  have u: "unat (of_nat (k + 2) :: u32) = k + 2" using assms(4,8) by (intro unat_of_nat_u32) simp
  then have lt: "unat (of_nat (k + 2) :: u32) < unat (inum (sb s3))" using on3 assms(4,8) by (simp add: on_img_def)
  have ne: "(of_nat (k + 2) :: u32) \<noteq> of_nat 1"
  proof
    assume "(of_nat (k + 2) :: u32) = of_nat 1"
    then show False using u by simp
  qed
  have i3: "inodes s3 ! j = (if j = p then inodes s2 ! p else inodes s1 ! j)" if "j < 128" for j using F s2(4) p that len(1) s1(3) by simp
  have free: "\<forall>j < 128. \<not> (live (inodes s3 ! j) \<and> i_no (inodes s3 ! j) = of_nat (k + 2))"
    using i3 len(2) p ne by (auto simp: live_def)
  define j where "j = (if p = 0 then 1 else 0 :: nat)"
  have j: "j < 128" "i_ref (inodes s3 ! j) = 0" using i3 [of j] len(2) by (auto simp: j_def)
  obtain q s4 where s4: "iget (of_nat (k + 2)) s3 = Inr (q, s4)" "q < 128" "i_ref (inodes s3 ! q) = 0" "fs_ok s4" "sb s4 = sb s3" "blocks s4 = blocks s3"
      "inodes s4 = (inodes s3)[q := \<lparr>i_no = of_nat (k + 2), i_ref = 1, i_del = 0, dinode = dino s3 (of_nat (k + 2))\<rparr>]"
    using iget_opens [OF ok3 lt free j] by auto
  have qp: "q \<noteq> p" using s4(3) i3 [OF s2(2)] p by auto
  let ?u = "s4\<lparr>inodes := (inodes s4)[p := (inodes s4 ! p)\<lparr>i_ref := 0\<rparr>]\<rparr>"
  have l3: "length (inodes s3) = 128" using ok3 by (simp add: fs_ok_def)
  have p4: "inodes s4 ! p = inodes s2 ! p" using s4(7) qp i3 [OF s2(2)] by simp
  have "ilookup p name 0 s2 = Inr (Some (q, of_nat (32 * (k + 2))), s4)" using s3(2) s4(1) by simp
  moreover have "root (sb s1) = 1" using s1(2) by (simp add: on_img_def)
  ultimately have op: "iopen wd (47 # name @ [0]) 0 s1 = Inr (Some q, ?u)"
    using s2(1,2) R(6) p4 p l3 s4(7) by (intro iopen_name [OF assms(10)]) auto
  have bu: "sb ?u = sb s3" "blocks ?u = blocks s3" using s4(5,6) by (simp_all add: blocks_def)
  have "fs_ok ?u" using s4(4) by (simp add: fs_ok_def used_def meta_def blocks_def)
  then have "on_img t ?u" using bu by (intro on_img_same [OF on3])
  moreover have "inodes ?u ! q = \<lparr>i_no = of_nat (k + 2), i_ref = 1, i_del = 0, dinode = dino ?u (of_nat (k + 2))\<rparr>"
    using s4(2,7) qp l3 dino_same [OF bu] by simp
  ultimately show ?thesis using s1(1) op s4(2) by blast
qed

lemma image_reads:
  assumes "on_img t u" "q < 128" "inodes u ! q = \<lparr>i_no = of_nat i, i_ref = 1, i_del = 0, dinode = dino u (of_nat i)\<rparr>" "i < 1920"
  shows "runs (if isz t i mod 4096 \<noteq> 0 \<and> unat off \<le> isz t i then {} else {Abort}) (iread q off len)
    (\<lambda>xs _. xs = take (unat len) (drop (unat off) (icont t i))) u"
proof -
  note I = image_file [OF assms(1,4,2,3)]
  have ok: "fs_ok u" using assms(1) by (simp add: on_img_def)
  show ?thesis
    by (rule runs_mono [OF iread_in [OF ok I(1,2), where A = "if isz t i mod 4096 \<noteq> 0 \<and> unat off \<le> isz t i then {} else {Abort}"]])
      (use I(3,4,6) full_room in auto)
qed

section \<open>A machine with a small image\<close>

text \<open>The sectors of an image as the disk has them, and the kernel's memory before \<open>init_fs\<close>.\<close>

fun img_sects :: "img \<Rightarrow> regs \<Rightarrow> u32 list" where
  "img_sects t (a, b, c, e) = (let n = unat a + 256 * unat b + 65536 * unat c in
     words 128 (span_at (512 * (n mod 8)) 512 (iblk t (of_nat (n div 8)))))"

definition boot_fs :: "img \<Rightarrow> fs" where
  "boot_fs t = \<lparr>dev = boot_disk (img_sects t), sb = \<lparr>bitmap = 0, istart = 0, inum = 0, root = 0\<rparr>,
     inodes = replicate 128 \<lparr>i_no = 0, i_ref = 0, i_del = 0, dinode = \<lparr>di_type = 0, di_device = 0, di_size = 0, di_addrs = replicate 13 0\<rparr>\<rparr>,
     garbage = replicate 32 5\<rparr>"

lemma lba_number:
  assumes "unat s < 16777216" "lba_regs s = (a, b, c, e)"
  shows "unat a + 256 * unat b + 65536 * unat c = unat s"
proof -
  have r: "a = ucast s" "b = ucast (drop_bit 8 s)" "c = ucast (drop_bit 16 s)" using assms(2) by (simp_all add: lba_regs_def)
  have d: "unat (drop_bit 8 s) = unat s div 256" "unat (drop_bit 16 s) = unat s div 256 div 256"
    by (simp_all add: unat_drop_bit_eq drop_bit_eq_div unat_div div_mult2_eq [symmetric])
  have u: "unat a = unat s mod 256" "unat b = unat s div 256 mod 256" "unat c = unat s div 256 div 256 mod 256"
    unfolding r using d by (simp_all add: unsigned_ucast_eq take_bit_eq_mod)
  have "unat s div 256 div 256 < 256" using assms(1) by (simp add: div_mult2_eq [symmetric] less_mult_imp_div_less)
  then have "unat c = unat s div 256 div 256" using u(3) by simp
  then show ?thesis
    using u(1,2) mult_div_mod_eq [of 256 "unat s"] mult_div_mod_eq [of 256 "unat s div 256"] by linarith
qed

lemma img_sects_length: "length (img_sects t r) = 128"
  by (cases r) (simp add: Let_def)

lemma boot_blocks:
  assumes "img_ok t" "unat b < 32768"
  shows "blocks (boot_fs t) b = iblk t b"
proof -
  have len: "length (iblk t b) = 4096" using assms(1) by (simp add: img_ok_def)
  have "sect_bytes (img_sects t) (8 * b + of_nat k) = span_at (512 * k) 512 (iblk t b)" if k: "k < 8" for k
  proof -
    obtain x y z e where r: "lba_regs (8 * b + of_nat k) = (x, y, z, e)" by (metis prod.exhaust)
    have u: "unat (8 * b + of_nat k) = 8 * unat b + k" using unat_sect [of b k] k assms(2) by simp
    then have n: "unat x + 256 * unat y + 65536 * unat z = 8 * unat b + k" using lba_number [OF _ r] assms(2) k by simp
    have "(8 * unat b + k) mod 8 = k" "(8 * unat b + k) div 8 = unat b" using k by simp_all
    then have "img_sects t (lba_regs (8 * b + of_nat k)) = words 128 (span_at (512 * k) 512 (iblk t b))" unfolding r by (simp add: n)
    moreover have "length (span_at (512 * k) 512 (iblk t b)) = 4 * 128" using len k by simp
    ultimately show ?thesis by (simp add: sect_bytes_def concat_words)
  qed
  then have m: "map (\<lambda>k. sect_bytes (img_sects t) (8 * b + of_nat k)) [0 ..< 8] = map (\<lambda>k. span_at (512 * k) 512 (iblk t b)) [0 ..< 8]" by simp
  have "blocks (boot_fs t) b = concat (map (\<lambda>k. sect_bytes (img_sects t) (8 * b + of_nat k)) [0 ..< 8])"
    using assms(2) by (simp add: blocks_def boot_fs_def boot_disk_def blk_def del: upt_Suc)
  also have "\<dots> = iblk t b" unfolding m using len by (intro chunks_concat) simp
  finally show ?thesis .
qed

lemma boot_booted: "img_ok t \<Longrightarrow> booted t (boot_fs t)"
proof -
  assume t: "img_ok t"
  have "disk_ok (dev (boot_fs t))" by (simp add: boot_fs_def boot_disk_ok img_sects_length)
  moreover have "blocks (boot_fs t) b = iblk t b" if "b < 32768" for b using that by (intro boot_blocks [OF t]) (simp add: word_less_nat_alt)
  ultimately show ?thesis by (simp add: booted_def) (simp add: boot_fs_def)
qed

text \<open>One file, and the root directory that the kernel has opened.\<close>

definition sh_files :: "(byte list \<times> byte list \<times> byte list) list" where
  "sh_files = [(bytes_of ''sh'', replicate 32 9, [1, 2, 3])]"

definition sh_img :: img where
  "sh_img = (case mkfs (replicate 32 7) (map file_arg sh_files) blank_img of Inr (_, t) \<Rightarrow> t | Inl _ \<Rightarrow> blank_img)"

definition sh_root :: "nat \<times> fs" where
  "sh_root = (case thenS init_fs (iget 1) (boot_fs sh_img) of Inr r \<Rightarrow> r | Inl _ \<Rightarrow> (0, boot_fs sh_img))"

lemma sh_holds: "mkfs (replicate 32 7) (map file_arg sh_files) blank_img = Inr ((), sh_img)" "holds_files (dots (replicate 32 7)) sh_files sh_img"
proof -
  have "runs {} (mkfs (replicate 32 7) (map file_arg sh_files)) (\<lambda>_ t. holds_files (dots (replicate 32 7)) sh_files t) blank_img"
    by (rule mkfs_holds) (simp_all add: sh_files_def good_file_def file_blocks_def chunks_def bytes_of_def)
  then show "mkfs (replicate 32 7) (map file_arg sh_files) blank_img = Inr ((), sh_img)" "holds_files (dots (replicate 32 7)) sh_files sh_img"
    by (auto simp: runs_total sh_img_def)
qed

lemma sh_root_ok:
  "\<exists>p s. sh_root = (p, s) \<and> p < 128 \<and> on_img sh_img s \<and> inodes s ! p = \<lparr>i_no = of_nat 1, i_ref = 1, i_del = 0, dinode = dino s (of_nat 1)\<rparr>"
proof -
  have t: "img_ok sh_img" "sb_of (iblk sh_img 32) = \<lparr>bitmap = 33, istart = 34, inum = 1920, root = 1\<rparr>"
    using sh_holds(2) by (simp_all add: holds_files_def)
  note b = boot_booted [OF t(1)]
  obtain u where u: "init_fs (boot_fs sh_img) = Inr ((), u)" "on_img sh_img u" "inodes u = inodes (boot_fs sh_img)"
    using init_fs_runs [OF b t] by blast
  then have z: "\<forall>j < 128. i_ref (inodes u ! j) = 0" "length (inodes u) = 128" using b by (simp_all add: booted_def)
  obtain p s where "iget 1 u = Inr (p, s)" "p < 128" "on_img sh_img s"
      "inodes s = (inodes u)[p := \<lparr>i_no = of_nat 1, i_ref = 1, i_del = 0, dinode = dino s (of_nat 1)\<rparr>]"
    using root_opens [OF u(2) z(1)] by blast
  then show ?thesis using u(1) z(2) by (auto simp: sh_root_def thenS_def)
qed

section \<open>The properties\<close>

text \<open>
  C15. Looking up a name: in a directory whose bytes are the entries \<open>es\<close>, \<open>ilookup\<close> without creation opens the inode of
  the first entry that is in use and has the name, and returns with it the offset of the entry; when there is none it returns \<open>NULL\<close>. On
  the way there it changes nothing but the block cache.
\<close>
theorem ilookup_finds:
  assumes "fs_ok s" "good_inode s p" "covered s p" "full s p" "itype p s = 2" "file_bytes s p = concat es" "dir_ok es" "0 \<notin> set name"
  shows "\<exists>t. dev_step s (blocks s) t \<and> ilookup p name 0 s = (case find_slot (entry_for name) es of
      None \<Rightarrow> Inr (None, t) | Some m \<Rightarrow> bindS (iget (dirent_inode (es ! m))) (\<lambda>k. retS (Some (k, of_nat (32 * m)))) t)"
  by (rule ilookup_runs [OF assms])

theorem ilookup_finds_witness:
  "\<exists>t. dev_step (snd sh_root) (blocks (snd sh_root)) t \<and> ilookup (fst sh_root) (bytes_of ''sh'') 0 (snd sh_root) =
    bindS (iget 2) (\<lambda>k. retS (Some (k, 64))) t"
proof -
  let ?d = "replicate 32 (7 :: byte)"
  obtain p s where s: "sh_root = (p, s)" "p < 128" "on_img sh_img s"
    "inodes s ! p = \<lparr>i_no = of_nat 1, i_ref = 1, i_del = 0, dinode = dino s (of_nat 1)\<rparr>" using sh_root_ok by blast
  have g: "\<forall>f \<in> set sh_files. good_file f" "length ?d = 32" "length sh_files \<le> 1918" "(length sh_files + 2) mod 128 \<noteq> 0" "distinct (map fst sh_files)"
    "0 < length sh_files" "fst (sh_files ! 0) \<noteq> bytes_of ''.''" "fst (sh_files ! 0) \<noteq> bytes_of ''..''" "fst (sh_files ! 0) = bytes_of ''sh''" "0 \<notin> set (bytes_of ''sh'')"
    by (simp_all add: sh_files_def good_file_def bytes_of_def)
  note R = root_file [OF sh_holds(2) g(1,2,4) s(3,2,4)] and F = root_find [OF g(1-3,5-8), unfolded g(9)]
  have F': "find_slot (entry_for (bytes_of ''sh'')) (root_entries ?d sh_files) = Some 2" "dirent_inode (root_entries ?d sh_files ! 2) = 2"
    using F by (simp_all add: numeral_2_eq_2)
  show ?thesis using ilookup_finds [OF R(2-7,1) g(10)] F' by (simp add: s(1))
qed

text \<open>
  C13. From \<open>mkfs\<close> to the running system: when \<open>mkfs\<close> has made the image \<open>t\<close> from some files, a kernel that starts on a disk with this image opens
  every one of them by its path, from any working directory, and what it reads there is the bytes the file was made from. It does not stop, except
  that it may be out of blocks when the size of the file is a multiple of the block size, because it then allocates the block after the last, or when
  the offset is past the end. The directory must not end at a block boundary for the same reason.
\<close>
theorem image_file_opens:
  assumes "mkfs d (map file_arg fs) blank_img = Inr ((), t)" "length fs \<le> 1918" "\<forall>f \<in> set fs. good_file f" "length d = 32"
    "72 + sum_list (map file_blocks fs) \<le> 32768" "booted t s" "(length fs + 2) mod 128 \<noteq> 0" "distinct (map fst fs)" "(name, de, data) \<in> set fs"
    "file_name name" "name \<noteq> bytes_of ''.''" "name \<noteq> bytes_of ''..''"
  shows "runs (if length data mod 4096 \<noteq> 0 \<and> unat off \<le> length data then {} else {Abort})
    (thenS init_fs (bindS (iopen wd (47 # name @ [0]) 0) (\<lambda>p. case p of None \<Rightarrow> stopS Undef | Some q \<Rightarrow> iread q off len)))
    (\<lambda>xs _. xs = take (unat len) (drop (unat off) data)) s"
proof -
  obtain k where k: "k < length fs" "fs ! k = (name, de, data)" using assms(9) by (auto simp: in_set_conv_nth)
  then have "fs \<noteq> []" by auto
  then have h: "holds_files (dots d) fs t" using mkfs_holds [of fs d] assms(1-5) by (simp add: runs_total)
  obtain s' q u where u: "init_fs s = Inr ((), s')" "iopen wd (47 # name @ [0]) 0 s' = Inr (Some q, u)" "on_img t u" "q < 128"
      "inodes u ! q = \<lparr>i_no = of_nat (k + 2), i_ref = 1, i_del = 0, dinode = dino u (of_nat (k + 2))\<rparr>"
    using image_opens [OF h assms(3,4,2,6-8) k assms(10-12)] by blast
  have c: "icont t (k + 2) = data" using h k by (simp add: holds_files_def)
  then have z: "isz t (k + 2) = length data" using isz_icont [of t "k + 2"] by simp
  have lt: "k + 2 < 1920" using k(1) assms(2) by simp
  have e: "runs A init_fs Q s = Q () s'" "runs A (iopen wd (47 # name @ [0]) 0) P s' = P (Some q) u" for A Q P
    using u(1,2) by (simp_all add: runs_def)
  show ?thesis unfolding runs_simps runs_bind e option.case
    using image_reads [OF u(3-5) lt, of off len] unfolding z c .
qed

theorem image_file_opens_witness:
  "runs {} (thenS init_fs (bindS (iopen None (47 # bytes_of ''sh'' @ [0]) 0) (\<lambda>p. case p of None \<Rightarrow> stopS Undef | Some q \<Rightarrow> iread q 0 512)))
    (\<lambda>xs _. xs = [1, 2, 3]) (boot_fs sh_img)"
proof -
  have b: "booted sh_img (boot_fs sh_img)" using sh_holds(2) by (intro boot_booted) (simp add: holds_files_def)
  show ?thesis
    using image_file_opens [OF sh_holds(1) _ _ _ _ b, of "bytes_of ''sh''" "replicate 32 9" "[1, 2, 3]" 0 None 512]
    by (simp add: sh_files_def good_file_def file_blocks_def chunks_def file_name_def bytes_of_def)
qed

end
