(* ===== verification/Spec2Isabelle.thy ===== *)
theory Spec2Isabelle
  imports LibStdio FsFile Segments VmeSpace SchedRun SemPrograms UserCalls Grep ShellGrammar UserFiles FsBoot
begin

text \<open>
  The teaching operating system in \<open>oslab2024spring\<close>: a kernel for 32-bit x86 with paging, processes, semaphores, a
  file system and system calls, the C library that kernel and programs share, and the user programs.

  \<^bold>\<open>The parts and how they meet.\<close> A user program calls a stub of \<open>user/ulib/syscall.c\<close>, which loads registers and
  traps. \<open>irq_handle\<close> (\<open>kernel/src/cte.c\<close>) stores the trap frame of the current process, dispatches on the
  interrupt number, and for a system call runs the handler of \<open>syscall.c\<close>. Handlers use the process table
  (\<open>proc.c\<close>), semaphores (\<open>sem.c\<close>, over the lists of \<open>klib/list.c\<close>), open files (\<open>file.c\<close>) over devices
  (\<open>dev.c\<close>, \<open>serial.c\<close>) and inodes (\<open>fs.c\<close>, over the block cache of \<open>disk.c\<close>), and address spaces (\<open>vme.c\<close>).
  A handler returns to the interrupted process or gives the processor away, and then \<open>schedule\<close> picks the next one.

  \<^bold>\<open>Theories and sources.\<close>
  \<^item> \<open>Prelude\<close>: the machine types, the result type \<open>error + 'a\<close> of code that may stop (\<open>Abort\<close> for a failed
    assertion, \<open>Undef\<close> for what C leaves undefined), state passing (\<open>bindS\<close>, and \<open>runs\<close>, its total
    correctness: a run ends, with a result that satisfies a predicate or with one of the errors listed).
  \<^item> \<open>LibString\<close>, \<open>LibStdlib\<close>, \<open>LibStdio\<close>: \<open>lib/src\<close>.
  \<^item> \<open>Disk\<close>, \<open>Fs\<close>: \<open>kernel/src/disk.c\<close> and \<open>fs.c\<close>. \<open>FsDisk\<close> has the invariant \<open>fs_ok\<close> of the layout and the
    allocators, \<open>FsFile\<close> a file as an array of bytes and \<open>iread\<close> and \<open>iwrite\<close> against it, \<open>FsDir\<close> a directory
    as a list of entries and lookup and paths against it.
  \<^item> \<open>MkFs\<close>: \<open>utils/mkfs.c\<close>, which makes the disk image; \<open>FsBoot\<close>: the kernel's file system on such an image.
  \<^item> \<open>Segments\<close>: \<open>init_gdt\<close> of \<open>vme.c\<close> and the descriptors of \<open>x86/memory.h\<close>; \<open>Vme\<close>: the rest of \<open>kernel/src/vme.c\<close>
    with \<open>x86/memory.h\<close>; \<open>VmeSpace\<close> has the heap of pages and address spaces as the
    processor sees them.
  \<^item> \<open>KList\<close>: \<open>kernel/klib/list.c\<close>; \<open>Kern\<close>: the state of the kernel; \<open>Sem\<close>, \<open>File\<close>, \<open>Proc\<close>, \<open>Loader\<close>,
    \<open>Syscall\<close>: the sources of these names, \<open>File\<close> with \<open>serial.c\<close> and \<open>dev.c\<close>, \<open>Syscall\<close> with \<open>cte.c\<close>,
    \<open>timer.c\<close> and \<open>main.c\<close>.
  \<^item> \<open>Sched\<close>: the invariant \<open>sinv\<close> of the scheduling state; \<open>Quiet\<close>, \<open>Handlers\<close>: every handler keeps it;
    \<open>SchedRun\<close>: the kernel as a step relation, the reachable states, the scheduler.
  \<^item> \<open>UserCalls\<close>: \<open>user/ulib/syscall.c\<close>; \<open>UserIO\<close>: \<open>printf.c\<close> and \<open>start.c\<close> with the interface \<open>streams\<close>;
    \<open>Scanf\<close>: \<open>scanf.c\<close>; \<open>Coreutils\<close>, \<open>Grep\<close>: the small programs of \<open>user/src/phase6\<close>; \<open>UserFiles\<close>: the
    programs on the system calls of the kernel, with their buffers in the memory of the process; \<open>SemPrograms\<close>: the producers and consumers and the philosophers of
    \<open>user/src/phase4\<close>, over an abstract semaphore that \<open>sem.c\<close> is shown to implement.
  \<^item> \<open>Shell\<close>: \<open>user/src/phase6/sh.c\<close>; \<open>ShellParse\<close>: its parser returns and stays inside the line;
    \<open>ShellGrammar\<close>: its parser inverts the text of a command.

  \<^bold>\<open>How state and operations correspond.\<close> The static variables of a source file are the fields of one record
  (\<open>fs\<close>, \<open>vm\<close>, \<open>kern\<close>, \<open>stdin\<close>), a C structure is a record, a table is a list indexed as in C and a pointer into
  a table is an index. A C function has the name of its definition; a loop is a recursive definition named after
  the function it is in; a function that gives up the processor and goes on later has a second definition for
  the rest (\<open>sleep_rest\<close>, \<open>wait_rest\<close>). Integers are 32-bit words wherever their overflow can be observed:
  unsigned arithmetic wraps; where an \<open>int\<close> can really overflow, which C leaves undefined, the value is \<open>Undef\<close> (\<open>itoa\<close>, \<open>number\<close>,
  the widths of a format, the values of semaphores, the next process id, the end of the serial buffer).

  \<^bold>\<open>What the lemmas show.\<close> Of the library: functional behaviour on C strings and round trips of printing and
  parsing. Of the disk and the file system: the cache is invisible and
  written through, for any sequence of operations, allocation keeps the layout, files behave as
  arrays and do not disturb each other, and the calls return when enough blocks are free, a lookup finds the first entry with a name, and the image that \<open>mkfs\<close> makes holds
  its files, which the kernel opens by path and reads. Of memory: \<open>vm_map\<close> and \<open>vm_copycurr\<close> do what \<open>brk\<close> and \<open>fork\<close> need, and return when
  the heap has two pages for each page they map. Of
  the scheduler: invariants in all reachable states, and fairness. Of the system calls: a stub arrives at its handler,
  and what fails changes nothing. Of the programs: their output as a function of their input, for every way
  in which \<open>read\<close> may cut the input, and that they end; of the programs with semaphores: exclusion, bounds, progress and
  a deadlock of the philosophers; of the shell: its parser is total and correct.

  \<^bold>\<open>Interfaces.\<close> \<open>block_store\<close> (what \<open>fs.c\<close> needs of the cache), \<open>fifo\<close> (what semaphores need of lists),
  \<open>untouched\<close> (what leaves the scheduler alone) and \<open>streams\<close> (what programs need of the system) are locales,
  interpreted on the definitions of the code that provides them.

  \<^bold>\<open>Bounds and fuel.\<close> The loops of \<open>cat\<close>, \<open>wc\<close>, \<open>head\<close> and \<open>grep\<close> have fuel; the theorems show that more fuel than
  bytes in the stream is enough. The inner loop of \<open>grep\<close> has the length of its buffer, and each round consumes a
  byte. The shell's parser has fuel \<open>4 * length + 4\<close>, enough by \<open>parsecmd_returns\<close>. \<open>schedule\<close> goes around
  the 64 entries of the process table once, and finds the idle process if no other. All other recursions are shown
  to end by their definitions.

  \<^bold>\<open>What is not modelled.\<close> \<open>boot/start.S\<close>, \<open>kernel/src/trap.S\<close> and the in-line assembly of \<open>x86/cpu.h\<close> apart from
  what the state records of it (the registers in a trap frame, \<open>cr3\<close>, \<open>tss\<close>): assembly. The
  programming of the serial port, the interrupt controller and the timer: hardware. \<open>kfault.c\<close>: its body is
  not compiled (\<open>EXCEPTION_DEBUG\<close> is not defined). The \<open>EASY_FS\<close> branch of \<open>fs.c\<close> and \<open>utils/genuser.c\<close>, which
  makes its image: not compiled. \<open>boot/boot.c\<close>: it copies the kernel into memory by port input and jumps to it. The allocator of
  \<open>user/ulib/stdlib.c\<close>, \<open>ls\<close>, \<open>pwd\<close>, \<open>xargs\<close>, \<open>rmtest\<close> and the tests and older copies in phases 1 to 5: they exercise
  calls that are modelled.
\<close>

end
